(* ===== verification/Prelude.thy ===== *)
theory Prelude
  imports Main "HOL-Library.Word" "HOL-Library.List_Lexorder" "HOL-Library.Char_ord"
    "HOL-Library.Sublist"
begin

text \<open>
  Shared vocabulary of the development: Go errors and the ways a Go function can end,
  sequencing of fallible steps over an explicit state, Go slices with their backing array
  (the source deletes from a slice while it ranges over it), ASCII strings and byte strings.
\<close>

named_theorems step_simps \<open>unfolding one step of a fallible, stateful computation\<close>
named_theorems frame_simps \<open>what an operation leaves untouched\<close>

section \<open>Errors and outcomes\<close>

text \<open>
  An \<open>error\<close> value. \<open>EErrno\<close> is a \<open>syscall.Errno\<close>, \<open>EPath\<close> and \<open>ESyscall\<close> the wrappers of
  package \<open>os\<close>, \<open>EWrap\<close> the result of \<open>errors.Wrap\<close>/\<open>Wrapf\<close> of \<open>github.com/pkg/errors\<close>,
  \<open>ESentinel\<close> a package-level error variable, \<open>EText\<close> an error made on the spot by
  \<open>errors.Errorf\<close> or \<open>fmt.Errorf\<close>, \<open>ELib\<close> an error value of a library.
\<close>

datatype go_error =
    EErrno nat
  | EPath string go_error
  | ESyscall string go_error
  | EWrap string go_error
  | ESentinel string
  | EText string
  | ELib string

definition ENOENT :: nat where "ENOENT = 2"

text \<open>
  \<open>os.IsNotExist\<close> looks through the wrappers of package \<open>os\<close> only; it does not use
  \<open>errors.Is\<close> and does not unwrap anything else.
\<close>

fun os_underlying :: "go_error \<Rightarrow> go_error" where
  "os_underlying (EPath _ e) = e"
| "os_underlying (ESyscall _ e) = e"
| "os_underlying e = e"

definition os_IsNotExist :: "go_error \<Rightarrow> bool" where
  "os_IsNotExist e = (case os_underlying e of EErrno n \<Rightarrow> n = ENOENT
      | ESentinel s \<Rightarrow> s = ''file does not exist'' | _ \<Rightarrow> False)"

text \<open>\<open>errors.Is\<close>: the target is somewhere on the chain of wrapped errors.\<close>

fun errors_Is :: "go_error \<Rightarrow> go_error \<Rightarrow> bool" where
  "errors_Is (EWrap m e) t = (EWrap m e = t \<or> errors_Is e t)"
| "errors_Is (EPath m e) t = (EPath m e = t \<or> errors_Is e t)"
| "errors_Is (ESyscall m e) t = (ESyscall m e = t \<or> errors_Is e t)"
| "errors_Is e t = (e = t)"

lemma errors_Is_refl [simp]: "errors_Is e e"
  by (cases e) simp_all

datatype panic = IndexOutOfRange | NilDereference | NilMapWrite | ExplicitPanic string

text \<open>How a call ends: with a value, with a non-nil error, or by panicking.\<close>

datatype 'a result = Ok 'a | Err go_error | Panic panic

type_synonym ('s, 'a) step = "'s \<Rightarrow> 'a result \<times> 's"

fun is_Ok :: "'a result \<Rightarrow> bool" where
  "is_Ok (Ok _) = True"
| "is_Ok _ = False"

fun wrap_err :: "string \<Rightarrow> 'a result \<Rightarrow> 'a result" where
  "wrap_err m (Err e) = Err (EWrap m e)"
| "wrap_err m r = r"

lemma is_Ok_iff: "is_Ok r \<longleftrightarrow> (\<exists>a. r = Ok a)"
  by (cases r) simp_all

lemma wrap_err_Ok [simp]: "wrap_err m r = Ok a \<longleftrightarrow> r = Ok a"
  by (cases r) simp_all

lemma wrap_err_Panic [simp]: "wrap_err m r = Panic p \<longleftrightarrow> r = Panic p"
  by (cases r) simp_all

lemma is_Ok_wrap_err [simp]: "is_Ok (wrap_err m r) = is_Ok r"
  by (cases r) simp_all

text \<open>Sequencing results that have no state.\<close>

definition andRes :: "'a result \<Rightarrow> ('a \<Rightarrow> 'b result) \<Rightarrow> 'b result" where
  "andRes r f = (case r of Ok a \<Rightarrow> f a | Err e \<Rightarrow> Err e | Panic p \<Rightarrow> Panic p)"

lemma andRes_simps [simp]:
  "andRes (Ok a) f = f a" "andRes (Err e) f = Err e" "andRes (Panic p) f = Panic p"
  by (simp_all add: andRes_def)

section \<open>Sequencing steps\<close>

text \<open>
  \<open>andThen m f\<close> is \<open>if err := m(); err != nil { return err }; f()\<close>; a panic propagates too.
  \<open>run_all\<close> is the loop that runs a list of steps and stops at the first that fails.
\<close>

definition andThen :: "('s, 'a) step \<Rightarrow> ('a \<Rightarrow> ('s, 'b) step) \<Rightarrow> ('s, 'b) step" where
  "andThen m f s = (case m s of
      (Ok a, s') \<Rightarrow> f a s'
    | (Err e, s') \<Rightarrow> (Err e, s')
    | (Panic p, s') \<Rightarrow> (Panic p, s'))"

fun run_all :: "('s, unit) step list \<Rightarrow> ('s, unit) step" where
  "run_all [] s = (Ok (), s)"
| "run_all (m # ms) s = andThen m (\<lambda>_. run_all ms) s"

lemma andThen_Ok: "m s = (Ok a, s') \<Longrightarrow> andThen m f s = f a s'"
  by (simp add: andThen_def)

lemma andThen_Err: "m s = (Err e, s') \<Longrightarrow> andThen m f s = (Err e, s')"
  by (simp add: andThen_def)

lemma andThen_Panic: "m s = (Panic p, s') \<Longrightarrow> andThen m f s = (Panic p, s')"
  by (simp add: andThen_def)

lemmas andThen_simps [step_simps] = andThen_Ok andThen_Err andThen_Panic

lemma andThen_is_Ok:
  "is_Ok (fst (andThen m f s)) \<longleftrightarrow>
     (\<exists>a s'. m s = (Ok a, s') \<and> is_Ok (fst (f a s')))"
  by (cases "m s"; cases "fst (m s)") (auto simp: andThen_def)

lemma andThen_OkE:
  assumes "andThen m f s = (Ok b, s'')"
  obtains a s' where "m s = (Ok a, s')" "f a s' = (Ok b, s'')"
  using assms by (cases "m s"; cases "fst (m s)") (auto simp: andThen_def)

lemma andThen_inv:
  assumes "\<And>s. I s \<Longrightarrow> I (snd (m s))" and "\<And>a s. I s \<Longrightarrow> I (snd (f a s))" and "I s"
  shows "I (snd (andThen m f s))"
proof (cases "m s")
  case (Pair r s')
  with assms(1) [OF assms(3)] have "I s'" by simp
  with Pair show ?thesis
    by (cases r) (auto simp: andThen_def intro: assms(2))
qed

lemma run_all_inv:
  assumes "\<And>m s. m \<in> set ms \<Longrightarrow> I s \<Longrightarrow> I (snd (m s))" and "I s"
  shows "I (snd (run_all ms s))"
  using assms
proof (induction ms arbitrary: s)
  case Nil
  then show ?case by simp
next
  case (Cons m ms)
  have "I (snd (andThen m (\<lambda>_. run_all ms) s))"
    by (rule andThen_inv) (use Cons in auto)
  then show ?case by simp
qed

lemma run_all_append:
  "run_all (ms @ ns) s = andThen (run_all ms) (\<lambda>_. run_all ns) s"
proof (induction ms arbitrary: s)
  case Nil
  then show ?case by (simp add: andThen_def)
next
  case (Cons m ms)
  then show ?case
    by (cases "m s"; cases "fst (m s)") (auto simp: andThen_def)
qed

text \<open>\<open>errors.Wrap\<close> of what a step returns.\<close>

definition wrapped :: "string \<Rightarrow> ('s, 'a) step \<Rightarrow> ('s, 'a) step" where
  "wrapped m f s = (case f s of (r, s') \<Rightarrow> (wrap_err m r, s'))"

lemma wrapped_Ok [simp]: "f s = (Ok a, s') \<Longrightarrow> wrapped m f s = (Ok a, s')"
  by (simp add: wrapped_def)

lemma snd_wrapped [simp]: "snd (wrapped m f s) = snd (f s)"
  by (simp add: wrapped_def split: prod.split)

lemma fst_wrapped: "fst (wrapped m f s) = wrap_err m (fst (f s))"
  by (simp add: wrapped_def split: prod.split)

lemma wrapped_OkD: "wrapped m f s = (Ok a, s') \<Longrightarrow> f s = (Ok a, s')"
  by (auto simp: wrapped_def split: prod.splits)

lemma andRes_OkE: "andRes r f = Ok b \<Longrightarrow> (\<And>a. r = Ok a \<Longrightarrow> f a = Ok b \<Longrightarrow> P) \<Longrightarrow> P"
  by (cases r) simp_all

text \<open>Short lists of steps, lists with steps that do nothing, and lists with one element.\<close>

lemma run_all_single: "run_all [m] s = m s"
  by (cases "m s"; cases "fst (m s)") (simp_all add: andThen_def)

lemma run_all_two: "run_all [m, m'] s = andThen m (\<lambda>_. m') s"
  unfolding run_all.simps(2) [of m "[m']"] run_all_single [THEN ext] ..

lemma andThen_done: "andThen m (\<lambda>_ s. (Ok (), s)) s = m s"
  by (cases "m s"; cases "fst (m s)") (simp_all add: andThen_def)

lemma run_all_filter:
  assumes "\<And>x s. I s \<Longrightarrow> f x s = (if P x then g x s else (Ok (), s))" and "\<And>x s. I s \<Longrightarrow> I (snd (g x s))" and "I s"
  shows "run_all (map f xs) s = run_all (map g (filter P xs)) s"
  using assms(3)
proof (induction xs arbitrary: s)
  case (Cons x xs)
  show ?case
  proof (cases "P x")
    case True
    then show ?thesis using assms(1) [OF Cons.prems, of x] assms(2) [OF Cons.prems, of x] Cons.IH
      by (cases "g x s"; cases "fst (g x s)") (auto simp: andThen_def)
  next
    case False
    then show ?thesis using assms(1) [OF Cons.prems, of x] Cons.IH [OF Cons.prems] by (simp add: andThen_def)
  qed
qed simp

lemma remdups_single: "set xs = {x} \<Longrightarrow> remdups xs = [x]"
  using length_remdups_card_conv [of xs] set_remdups [of xs] by (cases "remdups xs") auto

lemma filter_one: "distinct xs \<Longrightarrow> {x \<in> set xs. P x} = {c} \<Longrightarrow> filter P xs = [c]"
proof -
  assume "distinct xs" and "{x \<in> set xs. P x} = {c}"
  then have "distinct (filter P xs)" "set (filter P xs) = {c}" by auto
  then show ?thesis using remdups_single [of "filter P xs" c] by (simp add: distinct_remdups_id)
qed

text \<open>A list of steps that each succeed under an invariant succeeds and keeps it.\<close>

lemma run_all_Ok:
  assumes "\<And>m s. m \<in> set ms \<Longrightarrow> I s \<Longrightarrow> fst (m s) = Ok () \<and> I (snd (m s))" and "I s"
  shows "fst (run_all ms s) = Ok () \<and> I (snd (run_all ms s))"
  using assms
proof (induction ms arbitrary: s)
  case Nil
  then show ?case by simp
next
  case (Cons m ms)
  obtain s' where s': "m s = (Ok (), s')" "I s'"
    using Cons.prems(1) [of m s] Cons.prems(2) by (cases "m s") auto
  with Cons.IH [of s'] Cons.prems(1) show ?case
    by (simp add: andThen_def)
qed

section \<open>Go slices\<close>

text \<open>
  A slice variable is a length and a pointer to a backing array. \<open>append(s[:i], s[i+1:]...)\<close>
  shifts the tail down inside the same array: the array keeps its length and its old last cell,
  and every other slice header that still points to it sees the shifted cells. A \<open>range\<close> loop
  reads the header once, at its start, and the cells as it goes.
\<close>

record 'a gslice =
  backing :: "'a list"
  glen :: nat

definition slice_of :: "'a list \<Rightarrow> 'a gslice" where
  "slice_of xs = \<lparr>backing = xs, glen = length xs\<rparr>"

definition elems :: "'a gslice \<Rightarrow> 'a list" where
  "elems s = take (glen s) (backing s)"

definition wf_slice :: "'a gslice \<Rightarrow> bool" where
  "wf_slice s \<longleftrightarrow> glen s \<le> length (backing s)"

definition slice_delete :: "nat \<Rightarrow> 'a gslice \<Rightarrow> 'a gslice" where
  "slice_delete i s = \<lparr>backing = take i (backing s) @ drop (Suc i) (take (glen s) (backing s))
       @ drop (glen s - 1) (backing s), glen = glen s - 1\<rparr>"

fun find_index :: "('a \<Rightarrow> bool) \<Rightarrow> 'a list \<Rightarrow> nat option" where
  "find_index p [] = None"
| "find_index p (x # xs) = (if p x then Some 0 else map_option Suc (find_index p xs))"

lemma elems_slice_of [simp]: "elems (slice_of xs) = xs"
  by (simp add: elems_def slice_of_def)

lemma wf_slice_of [simp]: "wf_slice (slice_of xs)"
  by (simp add: wf_slice_def slice_of_def)

lemma length_elems: "wf_slice s \<Longrightarrow> length (elems s) = glen s"
  by (simp add: elems_def wf_slice_def)

lemma slice_delete_backing_length:
  "wf_slice s \<Longrightarrow> i < glen s \<Longrightarrow> length (backing (slice_delete i s)) = length (backing s)"
  by (simp add: slice_delete_def wf_slice_def)

lemma wf_slice_delete: "wf_slice s \<Longrightarrow> i < glen s \<Longrightarrow> wf_slice (slice_delete i s)"
  by (simp add: slice_delete_def wf_slice_def)

lemma glen_slice_delete [simp]: "glen (slice_delete i s) = glen s - 1"
  by (simp add: slice_delete_def)

lemma elems_slice_delete:
  assumes "wf_slice s" and "i < glen s"
  shows "elems (slice_delete i s) = take i (elems s) @ drop (Suc i) (elems s)"
proof -
  have "i = glen s - 1" if "glen s - Suc 0 \<le> i"
    using that assms(2) by simp
  then show ?thesis
    using assms by (auto simp: slice_delete_def elems_def wf_slice_def min_def)
qed

lemma nth_slice_delete:
  assumes "wf_slice s" and "i < glen s" and "j < length (backing s)"
  shows "backing (slice_delete i s) ! j =
    (if j < i then backing s ! j
     else if j < glen s - 1 then backing s ! Suc j else backing s ! j)"
  using assms by (auto simp: slice_delete_def wf_slice_def nth_append min_def)

lemma find_index_Some:
  "find_index p xs = Some i \<Longrightarrow> i < length xs \<and> p (xs ! i) \<and> (\<forall>j<i. \<not> p (xs ! j))"
proof (induction xs arbitrary: i)
  case Nil
  then show ?case by simp
next
  case (Cons x xs)
  then show ?case
    by (auto split: if_splits simp: less_Suc_eq_0_disj nth_Cons')
qed

lemma find_index_None: "find_index p xs = None \<longleftrightarrow> (\<forall>x\<in>set xs. \<not> p x)"
  by (induction xs) auto

lemma find_index_eqI:
  assumes "i < length xs" and "p (xs ! i)" and "\<And>j. j < i \<Longrightarrow> \<not> p (xs ! j)"
  shows "find_index p xs = Some i"
proof (cases "find_index p xs")
  case None
  with assms show ?thesis by (auto simp: find_index_None)
next
  case (Some k)
  with find_index_Some [OF Some] assms show ?thesis
    by (metis linorder_neqE_nat)
qed

section \<open>Strings\<close>

text \<open>The transport protocols of \<open>k8s.io/utils/net\<close> are strings.\<close>

type_synonym protocol = string

abbreviation TCP :: protocol where "TCP \<equiv> ''TCP''"
abbreviation UDP :: protocol where "UDP \<equiv> ''UDP''"

text \<open>
  Strings are byte strings; \<open>strings.ToUpper\<close> and \<open>strings.ToLower\<close> are modelled for ASCII
  letters, the other bytes are kept (Go maps non-ASCII letters too: names with such letters
  are outside the model).
\<close>

type_synonym bytes = "8 word list"

definition str_bytes :: "string \<Rightarrow> bytes" where
  "str_bytes s = map (\<lambda>c. word_of_nat (of_char c)) s"

definition bytes_str :: "bytes \<Rightarrow> string" where
  "bytes_str bs = map (\<lambda>b. char_of (unat b)) bs"

definition upper_char :: "char \<Rightarrow> char" where
  "upper_char c = (if CHR ''a'' \<le> c \<and> c \<le> CHR ''z'' then char_of (of_char c - 32 :: nat) else c)"

definition lower_char :: "char \<Rightarrow> char" where
  "lower_char c = (if CHR ''A'' \<le> c \<and> c \<le> CHR ''Z'' then char_of (of_char c + 32 :: nat) else c)"

definition ToUpper :: "string \<Rightarrow> string" where
  "ToUpper s = map upper_char s"

definition ToLower :: "string \<Rightarrow> string" where
  "ToLower s = map lower_char s"

fun join_strings :: "string list \<Rightarrow> string \<Rightarrow> string" where
  "join_strings [] sep = []"
| "join_strings [s] sep = s"
| "join_strings (s # t # ss) sep = s @ sep @ join_strings (t # ss) sep"

definition HasPrefix :: "string \<Rightarrow> string \<Rightarrow> bool" where
  "HasPrefix s p \<longleftrightarrow> prefix p s"

definition HasSuffix :: "string \<Rightarrow> string \<Rightarrow> bool" where
  "HasSuffix s p \<longleftrightarrow> suffix p s"

text \<open>Decimal digits of a non-negative number (\<open>strconv.Itoa\<close>).\<close>

definition digit_char :: "nat \<Rightarrow> char" where
  "digit_char d = char_of (48 + d)"

fun Itoa :: "nat \<Rightarrow> string" where
  "Itoa n = (if n < 10 then [digit_char n] else Itoa (n div 10) @ [digit_char (n mod 10)])"

declare Itoa.simps [simp del]

definition digits_value :: "string \<Rightarrow> nat" where
  "digits_value s = foldl (\<lambda>a c. 10 * a + (of_char c - 48)) 0 s"

lemma of_char_digit: "d < 10 \<Longrightarrow> of_char (digit_char d) = 48 + d"
  by (simp add: digit_char_def)

lemma digits_value_snoc: "digits_value (s @ [c]) = 10 * digits_value s + (of_char c - 48)"
  by (simp add: digits_value_def)

lemma digits_value_Itoa [simp]: "digits_value (Itoa n) = n"
proof (induction n rule: Itoa.induct)
  case (1 n)
  show ?case
  proof (cases "n < 10")
    case True
    then show ?thesis
      by (simp add: Itoa.simps [of n] digits_value_def of_char_digit)
  next
    case False
    with 1 have "digits_value (Itoa (n div 10)) = n div 10" by simp
    with False show ?thesis
      by (simp add: Itoa.simps [of n] digits_value_snoc of_char_digit)
  qed
qed

lemma Itoa_inj: "Itoa m = Itoa n \<Longrightarrow> m = n"
  by (metis digits_value_Itoa)

lemma Itoa_digits: "c \<in> set (Itoa n) \<Longrightarrow> CHR ''0'' \<le> c \<and> c \<le> CHR ''9''"
proof (induction n rule: Itoa.induct)
  case (1 n)
  have d: "CHR ''0'' \<le> digit_char k \<and> digit_char k \<le> CHR ''9''" if "k < 10" for k
    using that by (simp add: less_eq_char_def of_char_digit)
  show ?case
    using "1.IH" "1.prems" d by (auto simp: Itoa.simps [of n] split: if_splits)
qed

lemma bytes_str_str_bytes [simp]: "bytes_str (str_bytes s) = s"
proof -
  have "char_of (unat (word_of_nat (of_char c) :: 8 word)) = c" for c
  proof -
    have "(of_char c :: nat) < 256" by simp
    then have "unat (word_of_nat (of_char c) :: 8 word) = of_char c"
      by (simp add: unat_of_nat)
    then show ?thesis by simp
  qed
  then show ?thesis by (simp add: bytes_str_def str_bytes_def comp_def)
qed

lemma length_str_bytes [simp]: "length (str_bytes s) = length s"
  by (simp add: str_bytes_def)

end
