(* ===== verification/NetIP.thy ===== *)
theory NetIP
  imports Prelude
begin

text \<open>
  The parts of Go's package \<open>net\<close> that the program uses: \<open>net.IP\<close> values, \<open>IP.To4\<close>,
  \<open>net.ParseIP\<close> (dotted IPv4, and IPv6 with ellipsis and embedded IPv4; a zone makes it fail)
  and \<open>bytes.Compare\<close>. A Go byte slice is \<open>None\<close> when nil, so that nil and empty stay apart.
\<close>

type_synonym gobytes = "bytes option"
type_synonym ip = gobytes

definition v4InV6Prefix :: bytes where
  "v4InV6Prefix = replicate 10 0 @ [255, 255]"

definition To4 :: "ip \<Rightarrow> ip" where
  "To4 a = (case a of
      None \<Rightarrow> None
    | Some bs \<Rightarrow>
        if length bs = 4 then Some bs
        else if length bs = 16 \<and> take 12 bs = v4InV6Prefix then Some (drop 12 bs)
        else None)"

text \<open>\<open>bytes.Compare\<close> orders lexicographically and does not tell nil from empty.\<close>

definition bytes_key :: "gobytes \<Rightarrow> bytes" where
  "bytes_key a = (case a of None \<Rightarrow> [] | Some bs \<Rightarrow> bs)"

section \<open>Parsing\<close>

definition digit_val :: "char \<Rightarrow> nat" where
  "digit_val c = of_char c - 48"

definition is_digit :: "char \<Rightarrow> bool" where
  "is_digit c \<longleftrightarrow> CHR ''0'' \<le> c \<and> c \<le> CHR ''9''"

text \<open>
  The field loop of \<open>netip.parseIPv4Fields\<close>: value of the current field, digits seen in it, the
  fields so far. A leading zero, a field above 255, an empty field and a wrong number of fields
  are errors.
\<close>

fun v4_fields :: "string \<Rightarrow> nat \<Rightarrow> nat \<Rightarrow> bytes \<Rightarrow> bytes option" where
  "v4_fields [] val dlen fs =
     (if dlen = 0 \<or> length fs < 3 then None else Some (fs @ [word_of_nat val]))"
| "v4_fields (c # cs) val dlen fs =
     (if is_digit c then
        (if dlen = 1 \<and> val = 0 then None
         else let v = val * 10 + digit_val c in
           if v > 255 then None else v4_fields cs v (Suc dlen) fs)
      else if c = CHR ''.'' then
        (if dlen = 0 \<or> cs = [] \<or> length fs = 3 then None
         else v4_fields cs 0 0 (fs @ [word_of_nat val]))
      else None)"

definition parseIPv4 :: "string \<Rightarrow> bytes option" where
  "parseIPv4 s = v4_fields s 0 0 []"

definition hex_val :: "char \<Rightarrow> nat option" where
  "hex_val c =
     (if is_digit c then Some (digit_val c)
      else if CHR ''a'' \<le> c \<and> c \<le> CHR ''f'' then Some (of_char c - 97 + 10)
      else if CHR ''A'' \<le> c \<and> c \<le> CHR ''F'' then Some (of_char c - 65 + 10)
      else None)"

text \<open>The hexadecimal digits of one group: the value, how many were read, what is left.\<close>

fun hex_group :: "string \<Rightarrow> nat \<Rightarrow> nat \<Rightarrow> (nat \<times> nat \<times> string) option" where
  "hex_group [] acc off = Some (acc, off, [])"
| "hex_group (c # cs) acc off =
     (case hex_val c of
        None \<Rightarrow> Some (acc, off, c # cs)
      | Some d \<Rightarrow> if off > 3 then None else hex_group cs (acc * 16 + d) (Suc off))"

lemma hex_group_length:
  "hex_group s acc off = Some (v, n, rest) \<Longrightarrow> length rest + n = length s + off"
  by (induction s acc off rule: hex_group.induct) (auto split: option.splits if_splits)

text \<open>
  The group loop of \<open>netip.parseIPv6\<close>: the bytes so far and the position of the ellipsis, if
  one was seen. The result is the bytes, the ellipsis and what is left of the string.
\<close>

function v6_groups :: "string \<Rightarrow> bytes \<Rightarrow> nat option \<Rightarrow> (bytes \<times> nat option \<times> string) option" where
  "v6_groups s ip ell =
     (if length ip \<ge> 16 then Some (ip, ell, s)
      else case hex_group s 0 0 of
        None \<Rightarrow> None
      | Some (acc, off, rest) \<Rightarrow>
          if off = 0 then None
          else if rest \<noteq> [] \<and> hd rest = CHR ''.'' then
            (if (ell = None \<and> length ip \<noteq> 12) \<or> length ip + 4 > 16 then None
             else case parseIPv4 s of None \<Rightarrow> None | Some v4 \<Rightarrow> Some (ip @ v4, ell, []))
          else
            let ip' = ip @ [word_of_nat (acc div 256), word_of_nat (acc mod 256)] in
            case rest of
              [] \<Rightarrow> Some (ip', ell, [])
            | c # r1 \<Rightarrow>
                if c \<noteq> CHR '':'' \<or> r1 = [] then None
                else if hd r1 = CHR '':'' then
                  (if ell \<noteq> None then None
                   else if tl r1 = [] then Some (ip', Some (length ip'), [])
                   else v6_groups (tl r1) ip' (Some (length ip')))
                else v6_groups r1 ip' ell)"
  by pat_completeness auto
termination
  by (relation "measure (\<lambda>(s, ip, ell). 16 - length ip)") auto

declare v6_groups.simps [simp del]

definition v6_expand :: "bytes \<times> nat option \<times> string \<Rightarrow> bytes option" where
  "v6_expand r = (case r of (ip, ell, rest) \<Rightarrow>
     if rest \<noteq> [] then None
     else if length ip < 16 then
       (case ell of None \<Rightarrow> None
        | Some e \<Rightarrow> Some (take e ip @ replicate (16 - length ip) 0 @ drop e ip))
     else if ell \<noteq> None then None else Some ip)"

definition parseIPv6 :: "string \<Rightarrow> bytes option" where
  "parseIPv6 s =
     (if CHR ''%'' \<in> set s then None
      else if take 2 s = ''::'' then
        (if length s = 2 then Some (replicate 16 0)
         else Option.bind (v6_groups (drop 2 s) [] (Some 0)) v6_expand)
      else Option.bind (v6_groups s [] None) v6_expand)"

text \<open>
  \<open>net.ParseIP\<close>: the first of the characters dot, colon and percent decides. An IPv4 result is returned
  in its 16-byte form.
\<close>

fun first_sep :: "string \<Rightarrow> char option" where
  "first_sep [] = None"
| "first_sep (c # cs) =
     (if c = CHR ''.'' \<or> c = CHR '':'' \<or> c = CHR ''%'' then Some c else first_sep cs)"

definition ParseIP :: "string \<Rightarrow> ip" where
  "ParseIP s =
     (if first_sep s = Some (CHR ''.'') then map_option (\<lambda>b. v4InV6Prefix @ b) (parseIPv4 s)
      else if first_sep s = Some (CHR '':'') then parseIPv6 s
      else None)"

section \<open>Facts\<close>

lemma To4_None [simp]: "To4 None = None"
  by (simp add: To4_def)

lemma To4_length: "To4 a = Some b \<Longrightarrow> length b = 4"
  by (auto simp: To4_def split: option.splits if_splits)

lemma To4_idem [simp]: "To4 (To4 a) = To4 a"
proof (cases "To4 a")
  case None
  then show ?thesis by simp
next
  case (Some b)
  with To4_length [OF this] show ?thesis by (simp add: To4_def)
qed

lemma v4_fields_length: "v4_fields s v d fs = Some bs \<Longrightarrow> length fs \<le> 3 \<Longrightarrow> length bs = 4"
  by (induction s v d fs rule: v4_fields.induct) (auto simp: Let_def split: if_splits)

lemma parseIPv4_length: "parseIPv4 s = Some bs \<Longrightarrow> length bs = 4"
  by (auto simp: parseIPv4_def dest: v4_fields_length)

text \<open>The sort key of a \<open>To4\<close> result determines it: equal keys are equal addresses.\<close>

lemma bytes_key_To4_inj: "bytes_key (To4 a) = bytes_key (To4 b) \<Longrightarrow> To4 a = To4 b"
  using To4_length [of a] To4_length [of b]
  by (auto simp: bytes_key_def split: option.splits)

lemma To4_ParseIP_v4:
  assumes "first_sep s = Some (CHR ''.'')"
  shows "To4 (ParseIP s) = parseIPv4 s"
proof (cases "parseIPv4 s")
  case None
  with assms show ?thesis by (simp add: ParseIP_def)
next
  case (Some b)
  with parseIPv4_length [OF this] assms show ?thesis
    by (simp add: ParseIP_def To4_def v4InV6Prefix_def)
qed

end
