(* ===== verification/Strings.thy ===== *)
theory Strings
  imports NetIP
begin

text \<open>
  The functions of Go's \<open>strconv\<close>, \<open>strings\<close> and \<open>bufio\<close> the program reads text with, on ASCII
  strings.
\<close>

section \<open>Numbers\<close>

text \<open>\<open>strconv.Atoi\<close> of a string, with an optional sign, no underscores and no overflow (64 bits).\<close>

definition Atoi :: "string \<Rightarrow> int result" where
  "Atoi s =
     (let (neg, ds) = (case s of
          CHR ''-'' # r \<Rightarrow> (True, r) | CHR ''+'' # r \<Rightarrow> (False, r) | _ \<Rightarrow> (False, s));
        v = int (digits_value ds) in
      if ds = [] \<or> \<not> list_all is_digit ds then Err (ELib ''invalid syntax'')
      else if neg \<and> v > 2 ^ 63 \<or> \<not> neg \<and> v \<ge> 2 ^ 63 then Err (ELib ''value out of range'')
      else Ok (if neg then - v else v))"

text \<open>\<open>strings.TrimSpace\<close> for ASCII.\<close>

definition is_space :: "char \<Rightarrow> bool" where
  "is_space c \<longleftrightarrow> of_char c \<in> {9, 10, 11, 12, 13, 32 :: nat}"

definition TrimSpace :: "string \<Rightarrow> string" where
  "TrimSpace s = rev (dropWhile is_space (rev (dropWhile is_space s)))"

text \<open>\<open>strings.Fields\<close> and \<open>strings.Split\<close> by one character.\<close>

fun fields_from :: "string \<Rightarrow> string \<Rightarrow> string list" where
  "fields_from [] cur = (if cur = [] then [] else [cur])"
| "fields_from (c # cs) cur =
     (if is_space c then (if cur = [] then fields_from cs [] else cur # fields_from cs [])
      else fields_from cs (cur @ [c]))"

definition Fields :: "string \<Rightarrow> string list" where
  "Fields s = fields_from s []"

fun split_from :: "char \<Rightarrow> string \<Rightarrow> string \<Rightarrow> string list" where
  "split_from sep [] cur = [cur]"
| "split_from sep (c # cs) cur =
     (if c = sep then cur # split_from sep cs [] else split_from sep cs (cur @ [c]))"

definition Split :: "string \<Rightarrow> char \<Rightarrow> string list" where
  "Split s sep = split_from sep s []"

text \<open>\<open>strconv.ParseUint(s, 16, 64)\<close>: no prefix, no sign, no underscores.\<close>

fun hex_digits :: "string \<Rightarrow> nat \<Rightarrow> nat option" where
  "hex_digits [] acc = Some acc"
| "hex_digits (c # cs) acc = (case hex_val c of None \<Rightarrow> None | Some d \<Rightarrow> hex_digits cs (16 * acc + d))"

definition ParseUint16_64 :: "string \<Rightarrow> nat result" where
  "ParseUint16_64 s =
     (if s = [] then Err (ELib ''invalid syntax'')
      else case hex_digits s 0 of
        None \<Rightarrow> Err (ELib ''invalid syntax'')
      | Some n \<Rightarrow> if n < 2 ^ 64 then Ok n else Err (ELib ''value out of range''))"

text \<open>
  The lines of a \<open>bufio.Scanner\<close>: without the newline and a carriage return before it; a line that
  does not fit the 64 KiB buffer ends the scan.
\<close>

definition newline :: char where "newline = char_of (10::nat)"

definition drop_cr :: "string \<Rightarrow> string" where
  "drop_cr l = (if l \<noteq> [] \<and> last l = char_of (13::nat) then butlast l else l)"

function scan_lines :: "string \<Rightarrow> string list" where
  "scan_lines s =
     (if s = [] then []
      else let l = takeWhile (\<lambda>c. c \<noteq> newline) s in
        if 65536 \<le> length l then [] else drop_cr l # scan_lines (drop (Suc (length l)) s))"
  by auto
termination by (relation "measure length") auto

declare scan_lines.simps [simp del]

end
