(* ===== verification/Exprs.thy ===== *)
theory Exprs
  imports NetIP
begin

text \<open>
  The nftables expressions the program builds and compares (\<open>expr.Any\<close> of
  \<open>github.com/google/nftables/expr\<close>): one constructor per struct the source mentions, with the
  fields the source sets or compares. A value of one of these structs with any further field set,
  and any other kind of expression, is an \<open>OtherExpr\<close> (its Go type name and an opaque content),
  except \<open>Counter\<close> and \<open>Lookup\<close>, whose fields are all here.
\<close>

type_synonym reg = "32 word"

datatype meta_key = MetaKeyL4PROTO | OtherMetaKey "32 word"
datatype cmp_op = CmpOpEq | CmpOpNeq | OtherCmpOp "32 word"
datatype payload_base = PayloadBaseTransportHeader | PayloadBaseNetworkHeader | OtherPayloadBase "32 word"
datatype ct_key = CtKeySTATE | CtKeyMARK | OtherCtKey "32 word"
datatype verdict_kind = VerdictAccept | VerdictJump | OtherVerdict int
datatype nat_type = NATTypeDestNAT | OtherNATType "32 word"
datatype numgen_type = NFT_NG_INCREMENTAL | OtherNumgen "32 word"
datatype nfproto = NFPROTO_IPV4 | OtherNfproto "32 word"

datatype expr =
    Counter "64 word" "64 word"                  \<comment> \<open>Bytes, Packets\<close>
  | Meta meta_key reg                            \<comment> \<open>Key, Register\<close>
  | Cmp reg cmp_op gobytes                       \<comment> \<open>Register, Op, Data\<close>
  | Payload payload_base "32 word" "32 word" reg \<comment> \<open>Base, Offset, Len, DestRegister\<close>
  | Immediate reg gobytes                        \<comment> \<open>Register, Data\<close>
  | NAT nat_type nfproto reg reg reg reg bool    \<comment> \<open>Type, Family, RegAddrMin, RegAddrMax, RegProtoMin, RegProtoMax, Specified\<close>
  | Masq
  | Fib reg bool bool                            \<comment> \<open>Register, ResultADDRTYPE, FlagSADDR\<close>
  | Ct ct_key reg bool                           \<comment> \<open>Key, Register, SourceRegister\<close>
  | Bitwise reg reg "32 word" gobytes gobytes    \<comment> \<open>SourceRegister, DestRegister, Len, Mask, Xor\<close>
  | Verdict verdict_kind string                  \<comment> \<open>Kind, Chain\<close>
  | Numgen reg "32 word" numgen_type             \<comment> \<open>Register, Modulus, Type\<close>
  | Lookup reg reg bool "32 word" string bool    \<comment> \<open>SourceRegister, DestRegister, IsDestRegSet, SetID, SetName, Invert\<close>
  | OtherExpr string nat

datatype expr_type =
    TCounter | TMeta | TCmp | TPayload | TImmediate | TNAT | TMasq | TFib | TCt | TBitwise
  | TVerdict | TNumgen | TLookup | TOther string

text \<open>\<open>reflect.TypeOf\<close>.\<close>

fun TypeOf :: "expr \<Rightarrow> expr_type" where
  "TypeOf (Counter _ _) = TCounter"
| "TypeOf (Meta _ _) = TMeta"
| "TypeOf (Cmp _ _ _) = TCmp"
| "TypeOf (Payload _ _ _ _) = TPayload"
| "TypeOf (Immediate _ _) = TImmediate"
| "TypeOf (NAT _ _ _ _ _ _ _) = TNAT"
| "TypeOf Masq = TMasq"
| "TypeOf (Fib _ _ _) = TFib"
| "TypeOf (Ct _ _ _) = TCt"
| "TypeOf (Bitwise _ _ _ _ _) = TBitwise"
| "TypeOf (Verdict _ _) = TVerdict"
| "TypeOf (Numgen _ _ _) = TNumgen"
| "TypeOf (Lookup _ _ _ _ _ _) = TLookup"
| "TypeOf (OtherExpr t _) = TOther t"

definition is_counter :: "expr \<Rightarrow> bool" where
  "is_counter e \<longleftrightarrow> TypeOf e = TCounter"

text \<open>
  The byte encoders of \<open>github.com/google/nftables/binaryutil\<close>: what the program relies on is
  that different numbers have different encodings (big endian, and the endianness of the host).
\<close>

record codec =
  BE_PutUint16 :: "16 word \<Rightarrow> bytes"
  NE_PutUint32 :: "32 word \<Rightarrow> bytes"

text \<open>The documented encodings on a little-endian host.\<close>

definition be16 :: "16 word \<Rightarrow> bytes" where
  "be16 w = [ucast (drop_bit 8 w), ucast w]"

definition le32 :: "32 word \<Rightarrow> bytes" where
  "le32 w = [ucast w, ucast (drop_bit 8 w), ucast (drop_bit 16 w), ucast (drop_bit 24 w)]"

definition be32 :: "32 word \<Rightarrow> bytes" where
  "be32 w = rev (le32 w)"

definition le_codec :: codec where
  "le_codec = \<lparr>BE_PutUint16 = be16, NE_PutUint32 = le32\<rparr>"

definition be_codec :: codec where
  "be_codec = \<lparr>BE_PutUint16 = be16, NE_PutUint32 = be32\<rparr>"

locale byte_codec =
  fixes put16 :: "16 word \<Rightarrow> bytes" and put32 :: "32 word \<Rightarrow> bytes"
  assumes put16_inj: "put16 a = put16 b \<Longrightarrow> a = b"
    and put32_inj: "put32 c = put32 d \<Longrightarrow> c = d"
begin

lemma put16_eq: "put16 a = put16 b \<longleftrightarrow> a = b"
  by (auto dest: put16_inj)

lemma put32_eq: "put32 a = put32 b \<longleftrightarrow> a = b"
  by (auto dest: put32_inj)

end

text \<open>The codecs of the program: the requirement as a predicate on the record.\<close>

definition codec_ok :: "codec \<Rightarrow> bool" where
  "codec_ok E \<longleftrightarrow> byte_codec (BE_PutUint16 E) (NE_PutUint32 E)"

lemma codec_ok_iff:
  "codec_ok E \<longleftrightarrow> inj (BE_PutUint16 E) \<and> inj (NE_PutUint32 E)"
  by (auto simp: codec_ok_def byte_codec_def inj_def)

lemma bit_byte_eq:
  fixes x y :: "'a::len word"
  assumes "ucast (drop_bit k x) = (ucast (drop_bit k y) :: 8 word)" and "k \<le> n" and "n < k + 8"
  shows "bit x n = bit y n"
proof -
  have "bit (ucast (drop_bit k x) :: 8 word) (n - k) = bit (ucast (drop_bit k y) :: 8 word) (n - k)"
    using assms(1) by simp
  moreover have "n - k < 8" "k + (n - k) = n" using assms(2,3) by simp_all
  ultimately show ?thesis by (simp add: bit_ucast_iff bit_drop_bit_eq)
qed

lemma be16_inj: "be16 x = be16 y \<Longrightarrow> x = y"
proof (rule bit_word_eqI)
  fix n
  assume h: "be16 x = be16 y" and n: "n < LENGTH(16)"
  show "bit x n = bit y n"
  proof (cases "n < 8")
    case True
    then show ?thesis using h bit_byte_eq [of 0 x y n] by (simp add: be16_def)
  next
    case False
    then show ?thesis using h n bit_byte_eq [of 8 x y n] by (simp add: be16_def)
  qed
qed

lemma le32_inj: "le32 x = le32 y \<Longrightarrow> x = y"
proof (rule bit_word_eqI)
  fix n
  assume h: "le32 x = le32 y" and n: "n < LENGTH(32)"
  consider "n < 8" | "8 \<le> n" "n < 16" | "16 \<le> n" "n < 24" | "24 \<le> n" by linarith
  then show "bit x n = bit y n"
  proof cases
    case 1
    then show ?thesis using h bit_byte_eq [of 0 x y n] by (simp add: le32_def)
  next
    case 2
    then show ?thesis using h bit_byte_eq [of 8 x y n] by (simp add: le32_def)
  next
    case 3
    then show ?thesis using h bit_byte_eq [of 16 x y n] by (simp add: le32_def)
  next
    case 4
    then show ?thesis using h n bit_byte_eq [of 24 x y n] by (simp add: le32_def)
  qed
qed

interpretation le: byte_codec be16 le32
  by unfold_locales (auto dest: be16_inj le32_inj)

interpretation be: byte_codec be16 be32
  by unfold_locales (auto simp: be32_def dest: be16_inj le32_inj)

lemma codec_ok_le [simp]: "codec_ok le_codec"
  by (simp add: codec_ok_def le_codec_def le.byte_codec_axioms)

lemma codec_ok_be [simp]: "codec_ok be_codec"
  by (simp add: codec_ok_def be_codec_def be.byte_codec_axioms)

lemma codec_put16_eq [simp]:
  "codec_ok E \<Longrightarrow> BE_PutUint16 E a = BE_PutUint16 E b \<longleftrightarrow> a = b"
  by (simp add: codec_ok_def byte_codec.put16_eq)

lemma codec_put32_eq [simp]:
  "codec_ok E \<Longrightarrow> NE_PutUint32 E a = NE_PutUint32 E b \<longleftrightarrow> a = b"
  by (simp add: codec_ok_def byte_codec.put32_eq)

end
