(* ===== verification/Condition.thy ===== *)
theory Condition
  imports Exprs
begin

text \<open>
  Package \<open>internal/portforwarding/nftables/condition\<close>: a condition builds nftables expressions
  and matches the expressions of an existing rule. \<open>Match\<close> returns the number of expressions it
  consumed, 0 for no match; \<open>None\<close> is a run-time panic (index out of range).
\<close>

section \<open>Comparing expressions\<close>

definition lookupEquals :: "expr \<Rightarrow> expr \<Rightarrow> bool" where
  "lookupEquals a b = (case a of
      Lookup src1 dst1 isDst1 id1 name1 inv1 \<Rightarrow> (case b of
          Lookup src2 dst2 isDst2 id2 name2 inv2 \<Rightarrow>
            src1 = src2 \<and> dst1 = dst2 \<and> isDst1 = isDst2 \<and> (id1 = id2 \<or> name1 = name2) \<and> inv1 = inv2
        | _ \<Rightarrow> False)
    | _ \<Rightarrow> False)"

definition comparators :: "expr_type \<rightharpoonup> (expr \<Rightarrow> expr \<Rightarrow> bool)" where
  "comparators = [TLookup \<mapsto> lookupEquals]"

definition compareExprEquals :: "expr \<Rightarrow> expr \<Rightarrow> bool" where
  "compareExprEquals a b =
     (if TypeOf a \<noteq> TypeOf b then False
      else case comparators (TypeOf a) of
        Some cmp \<Rightarrow> cmp a b
      | None \<Rightarrow> a = b)"

fun all_equal_upto :: "nat \<Rightarrow> nat \<Rightarrow> expr list \<Rightarrow> expr list \<Rightarrow> bool" where
  "all_equal_upto i 0 expected actual = True"
| "all_equal_upto i (Suc n) expected actual =
     (compareExprEquals (expected ! i) (actual ! i) \<and> all_equal_upto (Suc i) n expected actual)"

definition prefixMatch :: "expr list \<Rightarrow> expr list \<Rightarrow> nat" where
  "prefixMatch expected actual =
     (let el = length expected; al = length actual in
      if al \<ge> el then (if all_equal_upto 0 el expected actual then el else 0) else 0)"

section \<open>Conditions on a register\<close>

datatype dyncond =
    ImmediateIp ip
  | LoadBalancing "32 word" string int
  | CompareEqualsIp ip
  | LookupIp "32 word" string

fun dyn_Build :: "dyncond \<Rightarrow> reg \<Rightarrow> expr list" where
  "dyn_Build (ImmediateIp target) reg = [Immediate reg (To4 target)]"
| "dyn_Build (LoadBalancing setId setName elemSize) reg =
     [Numgen reg (word_of_int elemSize) NFT_NG_INCREMENTAL,
      Lookup reg reg True setId setName False]"
| "dyn_Build (CompareEqualsIp target) reg = [Cmp reg CmpOpEq (To4 target)]"
| "dyn_Build (LookupIp setId setName) reg = [Lookup reg 0 False setId setName False]"

definition dyn_Match :: "dyncond \<Rightarrow> reg \<Rightarrow> expr list \<Rightarrow> nat" where
  "dyn_Match d reg inp = prefixMatch (dyn_Build d reg) inp"

section \<open>Conditions\<close>

text \<open>\<open>unix.IPPROTO_TCP\<close>, \<open>unix.IPPROTO_UDP\<close>, \<open>unix.RTN_LOCAL\<close> and the conntrack state bits.\<close>

definition IPPROTO_TCP :: "8 word" where "IPPROTO_TCP = 6"
definition IPPROTO_UDP :: "8 word" where "IPPROTO_UDP = 17"
definition RTN_LOCAL :: "32 word" where "RTN_LOCAL = 2"
definition CtStateBitESTABLISHED_RELATED :: "32 word" where "CtStateBitESTABLISHED_RELATED = 6"

datatype condition =
    Combine "condition list"
  | Counting
  | TransportProto "8 word"
  | DestinationPort "16 word"
  | SourcePort "16 word"
  | DestinationIp dyncond reg
  | DestinationNAT dyncond "16 word" reg
  | Masquerade
  | SourceLocalAddr
  | TrackingEstablishedRelated
  | SetTrackingMark "32 word"
  | TrackingMark "32 word"
  | Accept
  | Jump string

text \<open>One builder per kind of condition; \<open>Build\<close> is the method call on the interface.\<close>

definition Build_counter :: "expr list" where [simp]:
  "Build_counter = [Counter 0 0]"

definition Build_transportProtocol :: "8 word \<Rightarrow> expr list" where [simp]:
  "Build_transportProtocol proto = [Meta MetaKeyL4PROTO 1, Cmp 1 CmpOpEq (Some [proto])]"

definition Build_destinationPort :: "codec \<Rightarrow> 16 word \<Rightarrow> expr list" where [simp]:
  "Build_destinationPort E port =
     [Payload PayloadBaseTransportHeader 2 2 1, Cmp 1 CmpOpEq (Some (BE_PutUint16 E port))]"

definition Build_sourcePort :: "codec \<Rightarrow> 16 word \<Rightarrow> expr list" where [simp]:
  "Build_sourcePort E port =
     [Payload PayloadBaseTransportHeader 0 2 1, Cmp 1 CmpOpEq (Some (BE_PutUint16 E port))]"

definition Build_destinationIp :: "dyncond \<Rightarrow> reg \<Rightarrow> expr list" where [simp]:
  "Build_destinationIp target reg = [Payload PayloadBaseNetworkHeader 0x10 4 reg] @ dyn_Build target reg"

definition Build_destinationNAT :: "codec \<Rightarrow> dyncond \<Rightarrow> 16 word \<Rightarrow> reg \<Rightarrow> expr list" where [simp]:
  "Build_destinationNAT E target port reg =
     dyn_Build target reg @
     [Immediate 2 (Some (BE_PutUint16 E port)), NAT NATTypeDestNAT NFPROTO_IPV4 1 1 2 2 True]"

definition Build_masquerade :: "expr list" where [simp]:
  "Build_masquerade = [Masq]"

definition Build_sourceLocalAddr :: "codec \<Rightarrow> expr list" where [simp]:
  "Build_sourceLocalAddr E = [Fib 1 True True, Cmp 1 CmpOpEq (Some (NE_PutUint32 E RTN_LOCAL))]"

definition Build_trackingEstablishedRelated :: "codec \<Rightarrow> expr list" where [simp]:
  "Build_trackingEstablishedRelated E =
     [Ct CtKeySTATE 1 False,
      Bitwise 1 1 4 (Some (NE_PutUint32 E CtStateBitESTABLISHED_RELATED)) (Some (NE_PutUint32 E 0)),
      Cmp 1 CmpOpNeq (Some (NE_PutUint32 E 0))]"

definition Build_setTrackingMark :: "codec \<Rightarrow> 32 word \<Rightarrow> expr list" where [simp]:
  "Build_setTrackingMark E mark = [Immediate 1 (Some (NE_PutUint32 E mark)), Ct CtKeyMARK 1 True]"

definition Build_trackingMark :: "codec \<Rightarrow> 32 word \<Rightarrow> expr list" where [simp]:
  "Build_trackingMark E mark = [Ct CtKeyMARK 1 False, Cmp 1 CmpOpEq (Some (NE_PutUint32 E mark))]"

definition Build_accept :: "expr list" where [simp]:
  "Build_accept = [Verdict VerdictAccept []]"

definition Build_jump :: "string \<Rightarrow> expr list" where [simp]:
  "Build_jump chain = [Verdict VerdictJump chain]"

fun Build :: "codec \<Rightarrow> condition \<Rightarrow> expr list" where
  "Build E (Combine cs) = concat (map (Build E) cs)"
| "Build E Counting = Build_counter"
| "Build E (TransportProto proto) = Build_transportProtocol proto"
| "Build E (DestinationPort port) = Build_destinationPort E port"
| "Build E (SourcePort port) = Build_sourcePort E port"
| "Build E (DestinationIp target reg) = Build_destinationIp target reg"
| "Build E (DestinationNAT target port reg) = Build_destinationNAT E target port reg"
| "Build E Masquerade = Build_masquerade"
| "Build E SourceLocalAddr = Build_sourceLocalAddr E"
| "Build E TrackingEstablishedRelated = Build_trackingEstablishedRelated E"
| "Build E (SetTrackingMark mark) = Build_setTrackingMark E mark"
| "Build E (TrackingMark mark) = Build_trackingMark E mark"
| "Build E Accept = Build_accept"
| "Build E (Jump chain) = Build_jump chain"

text \<open>Reading \<open>in[0]\<close> and slicing \<open>in[n:]\<close> panic out of range.\<close>

definition read_first :: "expr list \<Rightarrow> expr option" where
  "read_first inp = (case inp of [] \<Rightarrow> None | e # _ \<Rightarrow> Some e)"

definition slice_from :: "expr list \<Rightarrow> nat \<Rightarrow> expr list option" where
  "slice_from inp n = (if n \<le> length inp then Some (drop n inp) else None)"

definition match_destinationIp :: "codec \<Rightarrow> dyncond \<Rightarrow> reg \<Rightarrow> expr list \<Rightarrow> nat option" where
  "match_destinationIp E target reg inp =
     (let allBuilt = Build E (DestinationIp target reg); targetBuilt = dyn_Build target reg;
          matched = prefixMatch (take (length allBuilt - length targetBuilt) allBuilt) inp in
      if matched \<noteq> 0 then
        (case slice_from inp matched of
           None \<Rightarrow> None
         | Some rest \<Rightarrow>
             let targetMatched = dyn_Match target reg rest in
             if targetMatched \<noteq> 0 then Some (matched + targetMatched) else Some 0)
      else Some 0)"

definition match_destinationNAT :: "codec \<Rightarrow> dyncond \<Rightarrow> 16 word \<Rightarrow> reg \<Rightarrow> expr list \<Rightarrow> nat option" where
  "match_destinationNAT E target port reg inp =
     (let allBuilt = Build E (DestinationNAT target port reg); targetBuilt = dyn_Build target reg;
          targetMatched = dyn_Match target reg inp in
      if targetMatched = length targetBuilt then
        (case slice_from inp targetMatched of
           None \<Rightarrow> None
         | Some rest \<Rightarrow>
             let fixedMatched = prefixMatch (drop targetMatched allBuilt) rest in
             if fixedMatched \<noteq> 0 then Some (targetMatched + fixedMatched) else Some 0)
      else Some 0)"

fun Match :: "codec \<Rightarrow> condition \<Rightarrow> expr list \<Rightarrow> nat option"
  and match_combine :: "codec \<Rightarrow> condition list \<Rightarrow> expr list \<Rightarrow> nat \<Rightarrow> nat option" where
  "Match E (Combine cs) inp = match_combine E cs inp 0"
| "Match E Counting inp =
     (case read_first inp of
        None \<Rightarrow> None
      | Some e \<Rightarrow> Some (if is_counter e then length (Build E Counting) else 0))"
| "Match E (DestinationIp target reg) inp = match_destinationIp E target reg inp"
| "Match E (DestinationNAT target port reg) inp = match_destinationNAT E target port reg inp"
| "Match E c inp = Some (prefixMatch (Build E c) inp)"
| "match_combine E [] inp matched = Some matched"
| "match_combine E (c # cs) inp matched =
     (case slice_from inp matched of
        None \<Rightarrow> None
      | Some rest \<Rightarrow>
          (case Match E c rest of
             None \<Rightarrow> None
           | Some matches \<Rightarrow>
               if matches = 0 then Some 0 else match_combine E cs inp (matched + matches)))"

text \<open>The constructors that choose a condition by protocol.\<close>

definition Tcp :: condition where "Tcp = TransportProto IPPROTO_TCP"
definition Udp :: condition where "Udp = TransportProto IPPROTO_UDP"

definition TransportProtocol :: "protocol \<Rightarrow> condition result" where
  "TransportProtocol proto =
     (if proto = TCP then Ok Tcp
      else if proto = UDP then Ok Udp
      else Panic (ExplicitPanic ''unknown transport protocol''))"

definition NewDestinationIp :: "dyncond \<Rightarrow> condition" where
  "NewDestinationIp target = DestinationIp target 1"

definition NewDestinationNAT :: "dyncond \<Rightarrow> 16 word \<Rightarrow> condition" where
  "NewDestinationNAT target port = DestinationNAT target port 1"

section \<open>The reference matcher\<close>

text \<open>
  What matching is meant to compute, on the built expressions alone: walk the two lists in
  parallel. \<open>PastEnd\<close> is the outcome of a counter that would be read behind the end of the
  input, where the code indexes \<open>in[0]\<close> of an empty slice.
\<close>

datatype walk_outcome = Matched | Mismatch | PastEnd

definition expr_sim :: "expr \<Rightarrow> expr \<Rightarrow> bool" where
  "expr_sim a b \<longleftrightarrow> compareExprEquals a b \<or> (is_counter a \<and> is_counter b)"

fun walk :: "expr list \<Rightarrow> expr list \<Rightarrow> walk_outcome" where
  "walk [] inp = Matched"
| "walk (b # bs) [] = (if is_counter b then PastEnd else Mismatch)"
| "walk (b # bs) (e # es) = (if expr_sim b e then walk bs es else Mismatch)"

text \<open>Conditions that build at least one expression at every level.\<close>

fun proper :: "condition \<Rightarrow> bool" where
  "proper (Combine cs) = (cs \<noteq> [] \<and> (\<forall>c \<in> set cs. proper c))"
| "proper _ = True"

lemma walk_append:
  "walk (b1 @ b2) inp =
     (case walk b1 inp of Matched \<Rightarrow> walk b2 (drop (length b1) inp) | r \<Rightarrow> r)"
  by (induction b1 inp rule: walk.induct) (auto split: walk_outcome.splits)

lemma walk_Matched_iff:
  "walk bs inp = Matched \<longleftrightarrow> length bs \<le> length inp \<and> list_all2 expr_sim bs (take (length bs) inp)"
  by (induction bs inp rule: walk.induct) auto

lemma walk_PastEnd_iff:
  "walk bs inp = PastEnd \<longleftrightarrow>
     length inp < length bs \<and> is_counter (bs ! length inp) \<and>
     list_all2 expr_sim (take (length inp) bs) inp"
  by (induction bs inp rule: walk.induct) auto

lemma all_equal_upto_iff:
  "all_equal_upto i n xs ys \<longleftrightarrow> (\<forall>k < n. compareExprEquals (xs ! (i + k)) (ys ! (i + k)))"
proof (induction n arbitrary: i)
  case 0
  then show ?case by simp
next
  case (Suc n)
  show ?case by (simp add: Suc.IH All_less_Suc2)
qed

lemma prefixMatch_eq:
  assumes "\<forall>b \<in> set bs. \<not> is_counter b"
  shows "prefixMatch bs inp = (if walk bs inp = Matched then length bs else 0)"
proof -
  have sim: "expr_sim (bs ! k) e = compareExprEquals (bs ! k) e" if "k < length bs" for k e
    using assms that nth_mem [OF that] by (auto simp: expr_sim_def)
  have "list_all2 expr_sim bs (take (length bs) inp) \<longleftrightarrow> all_equal_upto 0 (length bs) bs inp"
    if "length bs \<le> length inp"
    using that sim by (auto simp: list_all2_conv_all_nth all_equal_upto_iff)
  then show ?thesis
    by (auto simp: prefixMatch_def Let_def walk_Matched_iff)
qed

lemma walk_no_counter:
  "\<forall>b \<in> set bs. \<not> is_counter b \<Longrightarrow> walk bs inp \<noteq> PastEnd"
  by (auto simp: walk_PastEnd_iff)

lemma dyn_Build_no_counter: "b \<in> set (dyn_Build d reg) \<Longrightarrow> \<not> is_counter b"
  by (cases d) (auto simp: is_counter_def)

lemma dyn_Build_nonempty [simp]: "dyn_Build d reg \<noteq> []"
  by (cases d) auto

lemma dyn_Build_length_pos [simp]: "0 < length (dyn_Build d reg)"
  by simp

lemma dyn_Match_eq:
  "dyn_Match d reg inp = (if walk (dyn_Build d reg) inp = Matched then length (dyn_Build d reg) else 0)"
  using prefixMatch_eq [of "dyn_Build d reg" inp] dyn_Build_no_counter [of _ d reg]
  by (simp add: dyn_Match_def)

definition match_of_walk :: "expr list \<Rightarrow> walk_outcome \<Rightarrow> nat option" where
  "match_of_walk bs r = (case r of Matched \<Rightarrow> Some (length bs) | Mismatch \<Rightarrow> Some 0 | PastEnd \<Rightarrow> None)"

lemma match_destinationIp_eq:
  "match_destinationIp E target reg inp =
     match_of_walk (Build E (DestinationIp target reg)) (walk (Build E (DestinationIp target reg)) inp)"
proof -
  let ?hd = "Payload PayloadBaseNetworkHeader 0x10 4 reg" and ?t = "dyn_Build target reg"
  have pm: "prefixMatch [?hd] inp = (if walk [?hd] inp = Matched then 1 else 0)"
    by (subst prefixMatch_eq) (auto simp: is_counter_def)
  have cnt: "\<not> is_counter ?hd" by (simp add: is_counter_def)
  have tl: "walk ?t es \<noteq> PastEnd" for es
    using walk_no_counter dyn_Build_no_counter by blast
  show ?thesis
  proof (cases inp)
    case Nil
    with pm cnt show ?thesis
      by (simp add: match_destinationIp_def Let_def match_of_walk_def)
  next
    case (Cons e es)
    with pm tl [of es] show ?thesis
      by (cases "walk ?t es")
        (auto simp: match_destinationIp_def Let_def match_of_walk_def slice_from_def dyn_Match_eq)
  qed
qed

lemma match_destinationNAT_eq:
  "match_destinationNAT E target port reg inp =
     match_of_walk (Build E (DestinationNAT target port reg))
       (walk (Build E (DestinationNAT target port reg)) inp)"
proof -
  let ?t = "dyn_Build target reg"
  let ?fx = "[Immediate 2 (Some (BE_PutUint16 E port)), NAT NATTypeDestNAT NFPROTO_IPV4 1 1 2 2 True]"
  have fx: "\<forall>b \<in> set ?fx. \<not> is_counter b" by (simp add: is_counter_def)
  have pm: "prefixMatch ?fx es = (if walk ?fx es = Matched then length ?fx else 0)" for es
    by (rule prefixMatch_eq [OF fx])
  have w1: "walk ?t inp \<noteq> PastEnd"
    using walk_no_counter dyn_Build_no_counter by blast
  have w2: "walk ?fx es \<noteq> PastEnd" for es
    by (rule walk_no_counter [OF fx])
  have t0: "length ?t \<noteq> 0" by simp
  show ?thesis
  proof (cases "walk ?t inp = Matched")
    case True
    then have "length ?t \<le> length inp" by (simp add: walk_Matched_iff)
    with True pm w2 [of "drop (length ?t) inp"] show ?thesis
      by (cases "walk ?fx (drop (length ?t) inp)")
        (auto simp: match_destinationNAT_def Let_def match_of_walk_def slice_from_def dyn_Match_eq
          walk_append)
  next
    case False
    with w1 have "walk ?t inp = Mismatch" by (cases "walk ?t inp") auto
    with t0 show ?thesis
      by (simp add: match_destinationNAT_def Let_def match_of_walk_def dyn_Match_eq walk_append)
  qed
qed

lemma prefixMatch_walk:
  "\<forall>b \<in> set bs. \<not> is_counter b \<Longrightarrow> Some (prefixMatch bs inp) = match_of_walk bs (walk bs inp)"
  using walk_no_counter [of bs inp]
  by (cases "walk bs inp") (auto simp: match_of_walk_def prefixMatch_eq)

lemma proper_Build_nonempty: "proper c \<Longrightarrow> Build E c \<noteq> []"
proof (induction c)
  case (Combine cs)
  then show ?case by (cases cs) auto
qed auto

lemma Match_match_combine_walk:
  "proper c \<Longrightarrow> Match E c inp = match_of_walk (Build E c) (walk (Build E c) inp)"
  "(\<forall>c \<in> set cs. proper c) \<Longrightarrow> m \<le> length inp \<Longrightarrow>
     match_combine E cs inp m =
       (case walk (concat (map (Build E) cs)) (drop m inp) of
          Matched \<Rightarrow> Some (m + length (concat (map (Build E) cs)))
        | Mismatch \<Rightarrow> Some 0
        | PastEnd \<Rightarrow> None)"
proof (induction E c inp and E cs inp m rule: Match_match_combine.induct)
  case (1 E cs inp)
  then show ?case by (simp add: match_of_walk_def split: walk_outcome.split)
next
  case (2 E inp)
  then show ?case
    by (cases inp) (auto simp: read_first_def match_of_walk_def expr_sim_def is_counter_def
        compareExprEquals_def comparators_def)
next
  case (7 E c cs inp m)
  let ?rest = "drop m inp"
  from "7.prems" have c: "proper c" and cs: "\<forall>c \<in> set cs. proper c" by auto
  have rest: "slice_from inp m = Some ?rest"
    using "7.prems" by (simp add: slice_from_def)
  have hd: "Match E c ?rest = match_of_walk (Build E c) (walk (Build E c) ?rest)"
    by (rule "7.IH"(1) [OF rest c])
  show ?case
  proof (cases "walk (Build E c) ?rest")
    case Matched
    let ?n = "length (Build E c)"
    have n: "Match E c ?rest = Some ?n" "?n \<noteq> 0"
      using Matched hd proper_Build_nonempty [OF c] by (simp_all add: match_of_walk_def)
    have n3: "m + ?n \<le> length inp"
      using Matched "7.prems"(2) by (auto simp: walk_Matched_iff)
    have "match_combine E cs inp (m + ?n) =
        (case walk (concat (map (Build E) cs)) (drop (m + ?n) inp) of
          Matched \<Rightarrow> Some (m + ?n + length (concat (map (Build E) cs)))
        | Mismatch \<Rightarrow> Some 0 | PastEnd \<Rightarrow> None)"
      by (rule "7.IH"(2) [OF rest n(1) n(2) cs n3])
    with Matched n rest show ?thesis
      by (simp add: walk_append add.assoc add.commute [of ?n] split: walk_outcome.split)
  next
    case Mismatch
    with hd rest show ?thesis by (simp add: match_of_walk_def walk_append)
  next
    case PastEnd
    with hd rest show ?thesis by (simp add: match_of_walk_def walk_append)
  qed
qed (simp_all add: match_destinationIp_eq match_destinationNAT_eq prefixMatch_walk is_counter_def
      match_of_walk_def)

lemmas Match_walk = Match_match_combine_walk(1)

lemma compareExprEquals_refl [simp]: "compareExprEquals e e"
  by (cases e) (auto simp: compareExprEquals_def comparators_def lookupEquals_def)

lemma expr_sim_refl [simp]: "expr_sim e e"
  by (simp add: expr_sim_def)

lemma list_all2_expr_sim_refl [simp]: "list_all2 expr_sim es es"
  by (simp add: list_all2_conv_all_nth)

lemma walk_self [simp]: "walk es es = Matched"
  by (simp add: walk_Matched_iff)

lemma walk_sim: "list_all2 expr_sim bs es \<Longrightarrow> walk bs es = Matched"
  by (simp add: walk_Matched_iff list_all2_lengthD)

text \<open>What similarity of two expressions means, by the kind of the first.\<close>

lemma expr_sim_simps [simp]:
  "expr_sim (Counter x y) e \<longleftrightarrow> is_counter e"
  "expr_sim (Meta k r) e \<longleftrightarrow> e = Meta k r"
  "expr_sim (Cmp r op d) e \<longleftrightarrow> e = Cmp r op d"
  "expr_sim (Payload b off len r) e \<longleftrightarrow> e = Payload b off len r"
  "expr_sim (Immediate r d) e \<longleftrightarrow> e = Immediate r d"
  "expr_sim (NAT t f r1 r2 r3 r4 sp) e \<longleftrightarrow> e = NAT t f r1 r2 r3 r4 sp"
  "expr_sim Masq e \<longleftrightarrow> e = Masq"
  "expr_sim (Fib r tt ff) e \<longleftrightarrow> e = Fib r tt ff"
  "expr_sim (Ct ck r src) e \<longleftrightarrow> e = Ct ck r src"
  "expr_sim (Bitwise r1 r2 len m x') e \<longleftrightarrow> e = Bitwise r1 r2 len m x'"
  "expr_sim (Verdict vk ch) e \<longleftrightarrow> e = Verdict vk ch"
  "expr_sim (Numgen r md nt) e \<longleftrightarrow> e = Numgen r md nt"
  by (cases e; auto simp: expr_sim_def compareExprEquals_def comparators_def is_counter_def)+

lemma expr_sim_Lookup:
  "expr_sim (Lookup src dst isDst sid nm neg) e \<longleftrightarrow>
     (\<exists>sid' nm'. e = Lookup src dst isDst sid' nm' neg \<and> (sid = sid' \<or> nm = nm'))"
  by (cases e) (auto simp: expr_sim_def compareExprEquals_def comparators_def lookupEquals_def
      is_counter_def)

lemma is_counter_simps [simp]:
  "is_counter (Counter x y)"
  "\<not> is_counter (Meta k r)" "\<not> is_counter (Cmp r op d)" "\<not> is_counter (Payload b off len r)"
  "\<not> is_counter (Immediate r d)" "\<not> is_counter (NAT t f r1 r2 r3 r4 sp)" "\<not> is_counter Masq"
  "\<not> is_counter (Fib r tt f')" "\<not> is_counter (Ct ck r src)" "\<not> is_counter (Bitwise r1 r2 len m x')"
  "\<not> is_counter (Verdict vk ch)" "\<not> is_counter (Numgen r md nt)"
  "\<not> is_counter (Lookup r1 r2 isd sid nm neg)"
  by (simp_all add: is_counter_def)

text \<open>
  C16: the conditions' nested matchers compute the parallel walk over the built expressions: they
  consume exactly what \<open>Build\<close> produced, or report no match, or panic at a counter behind the end.
\<close>

theorem Match_refines_walk:
  "proper c \<Longrightarrow> Match E c inp =
     (case walk (Build E c) inp of
        Matched \<Rightarrow> Some (length (Build E c)) | Mismatch \<Rightarrow> Some 0 | PastEnd \<Rightarrow> None)"
  by (simp add: Match_walk match_of_walk_def)

lemma Match_refines_walk_witness:
  "Match le_codec (Combine [Counting, Accept]) [Counter 7 9, Verdict VerdictAccept []] = Some 2"
  by (subst Match_refines_walk) (simp_all add: is_counter_def expr_sim_def)

end
