(* ===== verification/Filters.thy ===== *)
theory Filters
  imports Condition
begin

text \<open>
  The nftables objects as the program reads them (\<open>nftables.Chain\<close>, \<open>Rule\<close>, \<open>Set\<close> with the
  fields the source uses), package \<open>mutation/predicate\<close> (on finite sequences) and package
  \<open>mutation/filter\<close> (the predicates on chains, rules and sets).
\<close>

section \<open>Objects\<close>

datatype family = TableFamilyIPv4 | OtherFamily "8 word"
datatype chain_type = ChainTypeNAT | ChainTypeFilter | OtherChainType string
datatype chain_policy = ChainPolicyDrop | ChainPolicyAccept

record nchain =
  ch_table :: string
  ch_family :: family
  ch_name :: string
  ch_hooknum :: "32 word option"
  ch_priority :: "int option"
  ch_type :: chain_type

record nrule =
  rl_table :: string
  rl_family :: family
  rl_chain :: string
  rl_handle :: "64 word"
  rl_exprs :: "expr list"
  rl_userdata :: gobytes

datatype set_datatype = NoDatatype | TypeIPAddr | TypeInteger | OtherDatatype string

record nset =
  st_table :: string
  st_id :: "32 word"
  st_name :: string

section \<open>Package predicate\<close>

definition PtrEquals :: "'a option \<Rightarrow> 'a option \<Rightarrow> bool" where
  "PtrEquals lhs rhs = (case (lhs, rhs) of
      (Some a, Some b) \<Rightarrow> a = b
    | (None, None) \<Rightarrow> True
    | _ \<Rightarrow> False)"

definition seq_Any :: "'a list \<Rightarrow> bool" where
  "seq_Any seq = (case seq of [] \<Rightarrow> False | _ # _ \<Rightarrow> True)"

fun seq_Filter :: "'a list \<Rightarrow> ('a \<Rightarrow> bool) \<Rightarrow> 'a list" where
  "seq_Filter [] p = []"
| "seq_Filter (x # xs) p = (if p x then x # seq_Filter xs p else seq_Filter xs p)"

fun seq_First :: "'a list \<Rightarrow> ('a \<Rightarrow> bool) \<Rightarrow> 'a option \<times> 'a list" where
  "seq_First [] p = (None, [])"
| "seq_First (x # xs) p = (if p x then (Some x, seq_Filter xs p) else seq_First xs p)"

fun pred_And :: "('a \<Rightarrow> bool) list \<Rightarrow> 'a \<Rightarrow> bool" where
  "pred_And [] t = True"
| "pred_And (p # ps) t = (if \<not> p t then False else pred_And ps t)"

lemma PtrEquals_eq [simp]: "PtrEquals a b \<longleftrightarrow> a = b"
  by (cases a; cases b) (auto simp: PtrEquals_def)

lemma seq_Any_iff [simp]: "seq_Any xs \<longleftrightarrow> xs \<noteq> []"
  by (cases xs) (auto simp: seq_Any_def)

lemma seq_Filter_filter [simp]: "seq_Filter xs p = filter p xs"
  by (induction xs) auto

lemma seq_First_split:
  "filter p xs = (case seq_First xs p of (None, rest) \<Rightarrow> rest | (Some x, rest) \<Rightarrow> x # rest)"
  by (induction xs) auto

lemma seq_First_None: "fst (seq_First xs p) = None \<longleftrightarrow> (\<forall>x \<in> set xs. \<not> p x)"
  by (induction xs) auto

lemma seq_First_Some: "fst (seq_First xs p) = Some x \<Longrightarrow> x \<in> set xs \<and> p x"
  by (induction xs) (auto split: if_splits)

lemma pred_And_iff [simp]: "pred_And ps t \<longleftrightarrow> (\<forall>p \<in> set ps. p t)"
  by (induction ps) auto

section \<open>Package filter\<close>

definition ChainName :: "string \<Rightarrow> nchain \<Rightarrow> bool" where
  "ChainName name chain \<longleftrightarrow> ch_name chain = name"

definition ChainHook :: "32 word option \<Rightarrow> nchain \<Rightarrow> bool" where
  "ChainHook hook chain \<longleftrightarrow> PtrEquals (ch_hooknum chain) hook"

definition ChainPriorityIs :: "int option \<Rightarrow> nchain \<Rightarrow> bool" where
  "ChainPriorityIs priority chain \<longleftrightarrow> PtrEquals (ch_priority chain) priority"

text \<open>\<open>None\<close>: the condition's matcher panics.\<close>

definition RuleExpr :: "codec \<Rightarrow> condition \<Rightarrow> nrule \<Rightarrow> bool option" where
  "RuleExpr E cond rule = (case Match E cond (rl_exprs rule) of
      None \<Rightarrow> None
    | Some n \<Rightarrow> Some (n = length (rl_exprs rule)))"

definition RuleComment :: "gobytes \<Rightarrow> nrule \<Rightarrow> bool" where
  "RuleComment comment rule \<longleftrightarrow> bytes_key (rl_userdata rule) = bytes_key comment"

definition RuleChainName :: "string \<Rightarrow> nrule \<Rightarrow> bool" where
  "RuleChainName name rule \<longleftrightarrow> rl_chain rule = name"

definition SetName :: "string \<Rightarrow> nset \<Rightarrow> bool" where
  "SetName name s \<longleftrightarrow> st_name s = name"

text \<open>
  When a rule counts as present: its expressions are those the condition builds, up to counter
  values and the way a set is named, or it has no expressions at all.
\<close>

definition same_exprs :: "codec \<Rightarrow> condition \<Rightarrow> expr list \<Rightarrow> bool" where
  "same_exprs E c es \<longleftrightarrow> list_all2 expr_sim (Build E c) es"

definition counter_first :: "codec \<Rightarrow> condition \<Rightarrow> bool" where
  "counter_first E c \<longleftrightarrow> (case Build E c of [] \<Rightarrow> False | e # _ \<Rightarrow> is_counter e)"

lemma RuleExpr_walk:
  assumes "proper c"
  shows "RuleExpr E c r = (case walk (Build E c) (rl_exprs r) of
      Matched \<Rightarrow> Some (length (Build E c) = length (rl_exprs r))
    | Mismatch \<Rightarrow> Some (rl_exprs r = [])
    | PastEnd \<Rightarrow> None)"
  by (simp add: RuleExpr_def Match_walk [OF assms] match_of_walk_def split: walk_outcome.split)

lemma Build_ne_counter_first: "proper c \<Longrightarrow> walk (Build E c) [] = PastEnd \<longleftrightarrow> counter_first E c"
  using proper_Build_nonempty [of c E] by (cases "Build E c") (auto simp: counter_first_def)

lemma RuleExpr_same:
  assumes "proper c" and "same_exprs E c (rl_exprs r)"
  shows "RuleExpr E c r = Some True"
  using assms walk_sim [of "Build E c" "rl_exprs r"]
  by (simp add: RuleExpr_walk same_exprs_def list_all2_lengthD)

text \<open>
  When the program takes an existing rule for its own.
\<close>

theorem RuleExpr_Some_True_iff:
  assumes "proper c"
  shows "RuleExpr E c r = Some True \<longleftrightarrow>
    same_exprs E c (rl_exprs r) \<or> (rl_exprs r = [] \<and> \<not> counter_first E c)"
proof (cases "rl_exprs r = []")
  case True
  then show ?thesis
    using proper_Build_nonempty [OF assms, of E] Build_ne_counter_first [OF assms, of E]
    by (cases "walk (Build E c) []")
      (auto simp: RuleExpr_walk [OF assms] same_exprs_def walk_Matched_iff)
next
  case False
  have "walk (Build E c) (rl_exprs r) = Matched \<and> length (Build E c) = length (rl_exprs r)
      \<longleftrightarrow> same_exprs E c (rl_exprs r)"
    using list_all2_lengthD [of expr_sim "Build E c" "rl_exprs r"]
    by (auto simp: walk_Matched_iff same_exprs_def)
  then show ?thesis
    using False by (auto simp: RuleExpr_walk [OF assms] split: walk_outcome.splits)
qed

lemma RuleExpr_Some_True_iff_witness:
  "RuleExpr le_codec Accept \<lparr>rl_table = ''nat'', rl_family = TableFamilyIPv4, rl_chain = ''c'',
     rl_handle = 1, rl_exprs = [], rl_userdata = None\<rparr> = Some True"
  by (subst RuleExpr_Some_True_iff) (simp_all add: counter_first_def is_counter_def)

text \<open>
  The matcher's panic, exactly: the rule's expressions are a proper prefix of what the
  condition builds and the next expression built is the counter.
\<close>

theorem RuleExpr_panics_iff:
  assumes "proper c"
  shows "RuleExpr E c r = None \<longleftrightarrow>
    length (rl_exprs r) < length (Build E c) \<and>
    is_counter (Build E c ! length (rl_exprs r)) \<and>
    list_all2 expr_sim (take (length (rl_exprs r)) (Build E c)) (rl_exprs r)"
  by (simp add: RuleExpr_walk [OF assms] walk_PastEnd_iff [symmetric] split: walk_outcome.split)

lemma RuleExpr_panics_iff_witness:
  "RuleExpr le_codec (Combine [Accept, Counting]) \<lparr>rl_table = ''nat'', rl_family = TableFamilyIPv4,
     rl_chain = ''c'', rl_handle = 1, rl_exprs = [Verdict VerdictAccept []], rl_userdata = None\<rparr> = None"
  by (subst RuleExpr_panics_iff) (simp_all add: is_counter_def expr_sim_def)

end
