(* ===== verification/Userdata.thy ===== *)
theory Userdata
  imports NetIP Exprs
begin

text \<open>
  Package \<open>internal/portforwarding/nftables/userdata\<close>: the comment attached to a rule, as a
  16-bit big-endian length (comment and terminator), the bytes and a zero byte. The length and
  the end of the slice are computed in 16 bits and wrap around.
\<close>

definition Uint16 :: "8 word \<Rightarrow> 8 word \<Rightarrow> 16 word" where
  "Uint16 hi lo = word_of_nat (256 * unat hi + unat lo)"

definition Marshal :: "string \<Rightarrow> gobytes" where
  "Marshal comment =
     (if length comment = 0 then None
      else Some (be16 (word_of_nat (length comment + 1)) @ str_bytes comment @ [0]))"

text \<open>\<open>data[lo:hi]\<close> panics when \<open>lo > hi\<close> or \<open>hi\<close> is past the end.\<close>

definition go_slice :: "bytes \<Rightarrow> nat \<Rightarrow> nat \<Rightarrow> bytes result" where
  "go_slice data lo hi =
     (if lo \<le> hi \<and> hi \<le> length data then Ok (take (hi - lo) (drop lo data)) else Panic IndexOutOfRange)"

definition Unmarshal :: "gobytes \<Rightarrow> string result" where
  "Unmarshal d =
     (let data = bytes_key d in
      if length data < 2 then Ok []
      else let sz = Uint16 (data ! 0) (data ! 1) in
        if length data < unat sz + 2 then Ok []
        else case go_slice data 2 (unat (1 + sz)) of
            Ok bs \<Rightarrow> Ok (bytes_str bs)
          | Err e \<Rightarrow> Err e
          | Panic p \<Rightarrow> Panic p)"

lemma unat_lt_16: "unat w < 65536" for w :: "16 word"
  using unsigned_less [of w, where ?'a = nat] by simp

lemma unat_hi_byte: "unat (ucast (drop_bit 8 w) :: 8 word) = unat w div 256" for w :: "16 word"
proof -
  have "unat w < 65536" by (rule unat_lt_16)
  then have "unat w div 256 mod 256 = unat w div 256" by simp
  then show ?thesis
    by (simp add: unsigned_ucast_eq take_bit_eq_mod drop_bit_eq_div unat_div_distrib)
qed

lemma unat_lo_byte: "unat (ucast w :: 8 word) = unat w mod 256" for w :: "16 word"
  by (simp add: unsigned_ucast_eq take_bit_eq_mod)

lemma Uint16_be16 [simp]: "Uint16 (be16 w ! 0) (be16 w ! 1) = w"
proof -
  have e: "be16 w ! 0 = ucast (drop_bit 8 w)" "be16 w ! 1 = ucast w"
    by (simp_all add: be16_def)
  show ?thesis
    unfolding Uint16_def unfolding e
    by (subst unat_hi_byte, subst unat_lo_byte, subst mult_div_mod_eq, simp)
qed

lemma length_be16 [simp]: "length (be16 w) = 2"
  by (simp add: be16_def)

lemma unat_succ_16: "unat (1 + w) = (if unat w = 65535 then 0 else Suc (unat w))" for w :: "16 word"
  using unat_lt_16 [of w] by (auto simp: unat_word_ariths)

text \<open>
  C28: the comment read back from a rule is the comment written, up to the 65533 bytes the 16-bit
  arithmetic carries.
\<close>

theorem Unmarshal_Marshal:
  assumes "length s \<le> 65533"
  shows "Unmarshal (Marshal s) = Ok s"
proof (cases "s = []")
  case True
  then show ?thesis by (simp add: Marshal_def Unmarshal_def bytes_key_def)
next
  case False
  let ?sz = "word_of_nat (length s + 1) :: 16 word"
  let ?data = "be16 ?sz @ str_bytes s @ [0]"
  have len: "length ?data = length s + 3" by simp
  have sz: "unat ?sz = length s + 1" using assms by (simp only: unat_of_nat) simp
  have hd: "Uint16 (?data ! 0) (?data ! 1) = ?sz"
    by (simp add: nth_append del: One_nat_def)
  have "unat (1 + ?sz) = length s + 2"
    using assms unfolding unat_succ_16 sz by simp
  then have "go_slice ?data 2 (unat (1 + ?sz)) = Ok (str_bytes s)"
    using len by (simp add: go_slice_def)
  with False len sz hd show ?thesis
    by (simp add: Marshal_def Unmarshal_def bytes_key_def Let_def)
qed

lemma Unmarshal_Marshal_witness: "Unmarshal (Marshal ''default/web'') = Ok ''default/web''"
  by (rule Unmarshal_Marshal) simp

text \<open>
  Reading panics exactly on the two lengths whose successor the 16-bit end index cannot hold
  above the header: 0, and 65535 with enough data behind it.
\<close>

theorem Unmarshal_panics_iff:
  "(\<exists>p. Unmarshal (Some data) = Panic p) \<longleftrightarrow>
     2 \<le> length data \<and>
     (Uint16 (data ! 0) (data ! 1) = 0 \<or>
      (unat (Uint16 (data ! 0) (data ! 1)) = 65535 \<and> 65537 \<le> length data))"
proof -
  let ?sz = "Uint16 (data ! 0) (data ! 1)"
  have zero: "?sz = 0 \<longleftrightarrow> unat ?sz = 0" by (simp add: unat_eq_0)
  show ?thesis
    unfolding zero
    by (auto simp: Unmarshal_def bytes_key_def Let_def go_slice_def unat_succ_16)
qed

end
