(* ===== verification/Derive.thy ===== *)
theory Derive
  imports Filters
begin

text \<open>
  Package \<open>internal/portforwarding/nftables/derive\<close>. A hook is a pointer; the switches compare it
  with the package variables of the nftables library by identity, so any other pointer, even to
  the same number, takes the default branch.
\<close>

datatype hook =
    ChainHookPrerouting | ChainHookForward | ChainHookOutput | ChainHookPostrouting
  | HookPointer "32 word"

text \<open>The number a hook points to (the \<open>NF_INET_*\<close> values of the netfilter headers).\<close>

fun hook_value :: "hook \<Rightarrow> 32 word" where
  "hook_value ChainHookPrerouting = 0"
| "hook_value ChainHookForward = 2"
| "hook_value ChainHookOutput = 3"
| "hook_value ChainHookPostrouting = 4"
| "hook_value (HookPointer v) = v"

text \<open>The library's priorities (\<open>NF_IP_PRI_NAT_DST\<close>, \<open>NF_IP_PRI_NAT_SRC\<close>, \<open>NF_IP_PRI_FILTER\<close>).\<close>

definition ChainPriorityNATDest :: int where "ChainPriorityNATDest = -100"
definition ChainPriorityNATSource :: int where "ChainPriorityNATSource = 100"
definition ChainPriorityFilter :: int where "ChainPriorityFilter = 0"

definition ChainType :: "hook \<Rightarrow> chain_type" where
  "ChainType h = (case h of
      ChainHookPrerouting \<Rightarrow> ChainTypeNAT
    | ChainHookPostrouting \<Rightarrow> ChainTypeNAT
    | ChainHookOutput \<Rightarrow> ChainTypeNAT
    | _ \<Rightarrow> ChainTypeFilter)"

definition ChainPriority :: "hook \<Rightarrow> int" where
  "ChainPriority h = (case h of
      ChainHookPrerouting \<Rightarrow> ChainPriorityNATDest
    | ChainHookPostrouting \<Rightarrow> ChainPriorityNATSource
    | ChainHookOutput \<Rightarrow> -100
    | _ \<Rightarrow> ChainPriorityFilter)"

definition ChainPolicy :: "hook \<Rightarrow> chain_policy" where
  "ChainPolicy h = (case h of
      ChainHookForward \<Rightarrow> ChainPolicyDrop
    | _ \<Rightarrow> ChainPolicyAccept)"

end
