(* ===== verification/Ranging.thy ===== *)
theory Ranging
  imports Prelude
begin

text \<open>
  Go's \<open>range\<close> over a slice whose cells the loop body shifts. The loop fixes the number of cells
  at its start and reads each cell when it gets there, from the array as it then is. The locale
  \<open>keyed_deleter\<close> is the interface between such a loop and an operation that deletes from the
  slice by key; its main lemma says which elements a deleting loop gets to see.
\<close>

fun range_slice :: "('s \<Rightarrow> 'a gslice) \<Rightarrow> nat \<Rightarrow> nat \<Rightarrow> ('a \<Rightarrow> ('s, unit) step) \<Rightarrow> ('s, unit) step" where
  "range_slice view k 0 body s = (Ok (), s)"
| "range_slice view k (Suc n) body s =
     andThen (body (backing (view s) ! k)) (\<lambda>_. range_slice view (Suc k) n body) s"

lemma range_slice_inv:
  assumes "\<And>x s. I s \<Longrightarrow> I (snd (body x s))" and "I s"
  shows "I (snd (range_slice view k n body s))"
  using assms(2)
proof (induction n arbitrary: k s)
  case 0
  then show ?case by simp
next
  case (Suc n)
  have "I (snd (andThen (body (backing (view s) ! k)) (\<lambda>_. range_slice view (Suc k) n body) s))"
    by (rule andThen_inv [where I = I]) (use assms(1) Suc in auto)
  then show ?case by simp
qed

text \<open>A body that leaves the slice alone is run on the elements in order.\<close>

lemma range_slice_stable:
  assumes "\<And>x s. view (snd (body x s)) = view s" and "k + n \<le> length (backing (view s))"
  shows "range_slice view k n body s = run_all (map body (take n (drop k (backing (view s))))) s"
  using assms(2)
proof (induction n arbitrary: k s)
  case 0
  then show ?case by simp
next
  case (Suc n)
  let ?x = "backing (view s) ! k"
  have split: "take (Suc n) (drop k (backing (view s))) = ?x # take n (drop (Suc k) (backing (view s)))"
    using Suc.prems by (metis Cons_nth_drop_Suc add_Suc_right not_less_eq_eq le_add1 not_le order.trans take_Suc_Cons)
  have IH: "range_slice view (Suc k) n body s' =
      run_all (map body (take n (drop (Suc k) (backing (view s))))) s'"
    if "view s' = view s" for s'
    using Suc.IH [of "Suc k" s'] Suc.prems that by simp
  show ?case
    using assms(1) [of ?x s] IH [of "snd (body ?x s)"]
    by (cases "body ?x s"; cases "fst (body ?x s)") (auto simp: split andThen_def)
qed

section \<open>Which elements a deleting loop sees\<close>

text \<open>
  After a deletion the next element moves into the cell just read and is skipped; only the last
  element, whose old cell keeps its value behind the end, is still read.
\<close>

fun sweep :: "('a \<Rightarrow> bool) \<Rightarrow> 'a list \<Rightarrow> 'a list" where
  "sweep p [] = []"
| "sweep p [x] = filter p [x]"
| "sweep p [x, y] = filter p [x, y]"
| "sweep p (x # y # z # zs) = (if p x then x # sweep p (z # zs) else sweep p (y # z # zs))"

lemma sweep_Cons_not: "\<not> p x \<Longrightarrow> sweep p (x # xs) = sweep p xs"
  by (cases xs; cases "tl xs") auto

lemma sweep_Cons_Cons:
  "p x \<Longrightarrow> sweep p (x # y # ys) = x # (if ys = [] then filter p [y] else sweep p ys)"
  by (cases ys) auto

lemma sweep_subset: "set (sweep p xs) \<subseteq> {x \<in> set xs. p x}"
  by (induction p xs rule: sweep.induct) auto

lemma distinct_sweep: "distinct xs \<Longrightarrow> distinct (sweep p xs)"
proof (induction p xs rule: sweep.induct)
  case (4 p x y z zs)
  then show ?case using sweep_subset [of p "z # zs"] by auto
qed auto

lemma sweep_nonempty: "sweep p xs = [] \<longleftrightarrow> (\<forall>x \<in> set xs. \<not> p x)"
  by (induction p xs rule: sweep.induct) auto

text \<open>Every other match at least is deleted.\<close>

lemma sweep_half: "length (filter p xs) \<le> 2 * length (sweep p xs)"
proof (induction p xs rule: sweep.induct)
  case (4 p x y z zs)
  then show ?case by (cases "p x"; cases "p y") auto
qed auto

fun no_adjacent :: "('a \<Rightarrow> bool) \<Rightarrow> 'a list \<Rightarrow> bool" where
  "no_adjacent p (x # y # ys) \<longleftrightarrow> \<not> (p x \<and> p y) \<and> no_adjacent p (y # ys)"
| "no_adjacent p _ \<longleftrightarrow> True"

lemma sweep_no_adjacent: "no_adjacent p xs \<Longrightarrow> sweep p xs = filter p xs"
proof (induction p xs rule: sweep.induct)
  case (4 p x y z zs)
  then show ?case by (cases "p x") auto
qed auto

lemma at_most_one_no_adjacent: "length (filter p xs) \<le> 1 \<Longrightarrow> no_adjacent p xs"
  by (induction p xs rule: no_adjacent.induct) (auto split: if_splits)

section \<open>The interface of the deletion\<close>

text \<open>
  \<open>view\<close> is the slice, \<open>key\<close> what the deletion searches for, \<open>log\<close> the commands issued (\<open>cmd\<close> of
  each deleted element), \<open>frame\<close> the rest of the state and \<open>ready\<close> when the deletion cannot fail.
\<close>

locale keyed_deleter =
  fixes view :: "'s \<Rightarrow> 'a gslice"
    and key :: "'a \<Rightarrow> 'h"
    and log :: "'s \<Rightarrow> 'c list"
    and cmd :: "'a \<Rightarrow> 'c"
    and frame :: "'s \<Rightarrow> 'f"
    and ready :: "'s \<Rightarrow> bool"
    and del :: "'a \<Rightarrow> ('s, unit) step"
  assumes del_hit: "ready s \<Longrightarrow> find_index (\<lambda>y. key y = key x) (elems (view s)) = Some i \<Longrightarrow>
      \<exists>s'. del x s = (Ok (), s') \<and> ready s' \<and> frame s' = frame s \<and>
        view s' = slice_delete i (view s) \<and> log s' = log s @ [cmd x]"
    and del_miss: "ready s \<Longrightarrow> find_index (\<lambda>y. key y = key x) (elems (view s)) = None \<Longrightarrow>
      del x s = (Ok (), s)"
begin

text \<open>The outcome of a loop that starts in \<open>s\<close> and deletes \<open>ds\<close>.\<close>

definition deletes :: "'a list \<Rightarrow> 's \<Rightarrow> 's \<Rightarrow> bool" where
  "deletes ds s s' \<longleftrightarrow> ready s' \<and> frame s' = frame s \<and> wf_slice (view s') \<and>
     log s' = log s @ map cmd ds \<and>
     elems (view s') = filter (\<lambda>y. key y \<notin> key ` set ds) (elems (view s))"

lemma deletes_Nil: "ready s \<Longrightarrow> wf_slice (view s) \<Longrightarrow> deletes [] s s"
  by (simp add: deletes_def)

lemma deletes_Cons:
  assumes "deletes [x] s s'" and "deletes ds s' s''"
  shows "deletes (x # ds) s s''"
  using assms by (auto simp: deletes_def intro: filter_cong)

lemma del_live:
  assumes "ready s" and "wf_slice (view s)" and "distinct (map key (elems (view s)))"
    and "i < glen (view s)" and "backing (view s) ! i = x"
  shows "\<exists>s'. del x s = (Ok (), s') \<and> deletes [x] s s' \<and> view s' = slice_delete i (view s)"
proof -
  let ?es = "elems (view s)"
  have len: "i < length ?es" using assms(2,4) by (simp add: length_elems)
  have nth: "?es ! i = x" using assms(4,5) by (simp add: elems_def)
  have uniq: "key (?es ! j) = key x \<longleftrightarrow> j = i" if "j < length ?es" for j
    using nth_eq_iff_index_eq [OF assms(3), of j i] that len nth by simp
  have fi: "find_index (\<lambda>y. key y = key x) ?es = Some i"
    by (rule find_index_eqI) (use len nth uniq in auto)
  obtain s' where s': "del x s = (Ok (), s')" "ready s'" "frame s' = frame s"
      "view s' = slice_delete i (view s)" "log s' = log s @ [cmd x]"
    using del_hit [OF assms(1) fi] by blast
  have split: "?es = take i ?es @ x # drop (Suc i) ?es"
    using len nth by (metis id_take_nth_drop)
  have "distinct (map key (take i ?es @ x # drop (Suc i) ?es))"
    using assms(3) split by simp
  then have "key y \<noteq> key x" if "y \<in> set (take i ?es @ drop (Suc i) ?es)" for y
    using that by (force simp: image_iff)
  then have "filter (\<lambda>y. key y \<noteq> key x) ?es = take i ?es @ drop (Suc i) ?es"
    by (subst split) (simp del: append_take_drop_id)
  then have "deletes [x] s s'"
    using s' assms(2,4) by (simp add: deletes_def elems_slice_delete wf_slice_delete)
  with s' show ?thesis by blast
qed

lemma del_gone:
  assumes "ready s" and "key x \<notin> key ` set (elems (view s))"
  shows "del x s = (Ok (), s)"
proof (rule del_miss [OF assms(1)])
  show "find_index (\<lambda>y. key y = key x) (elems (view s)) = None"
    unfolding find_index_None using assms(2) by (metis imageI)
qed

text \<open>The cells behind the end repeat the last live element.\<close>

definition tail_ok :: "nat \<Rightarrow> 'a \<Rightarrow> 's \<Rightarrow> bool" where
  "tail_ok N c s \<longleftrightarrow> glen (view s) \<le> N \<and> N \<le> length (backing (view s)) \<and>
     (glen (view s) < N \<longrightarrow> 0 < glen (view s) \<and> backing (view s) ! (glen (view s) - 1) = c \<and>
        (\<forall>j. glen (view s) \<le> j \<and> j < N \<longrightarrow> backing (view s) ! j = c))"

lemma tail_ok_delete:
  assumes "wf_slice (view s)" and "tail_ok N c s" and "Suc k < glen (view s)"
    and "view s' = slice_delete k (view s)"
  shows "tail_ok N (backing (view s) ! (glen (view s) - 1)) s'"
proof -
  let ?A = "backing (view s)" and ?B = "backing (view s')" and ?g = "glen (view s)"
  have g: "?g \<le> N" "N \<le> length ?A" using assms(2) by (auto simp: tail_ok_def)
  have len: "length ?B = length ?A" using assms by (simp add: slice_delete_backing_length)
  have B: "?B ! j = (if j < k then ?A ! j else if j < ?g - 1 then ?A ! Suc j else ?A ! j)"
    if "j < N" for j
    using nth_slice_delete [OF assms(1), of k j] assms(3,4) that g by simp
  have "?B ! (?g - 1 - 1) = ?A ! (?g - 1)"
  proof -
    obtain m where "?g = Suc (Suc m)" "k \<le> m"
      using assms(3) by (cases ?g; cases "?g - 1") auto
    then show ?thesis using B [of m] g by simp
  qed
  moreover have "?B ! j = ?A ! (?g - 1)" if "?g - 1 \<le> j" "j < N" for j
  proof (cases "j = ?g - 1")
    case True
    then show ?thesis using B [of j] that assms(3) by simp
  next
    case False
    then have "?A ! j = ?A ! (?g - 1)" using assms(2) that by (auto simp: tail_ok_def)
    then show ?thesis using B [of j] that assms(3) by simp
  qed
  ultimately show ?thesis
    using assms(3,4) g len by (auto simp: tail_ok_def)
qed

text \<open>Once the last element is gone, the cells still to be read delete nothing.\<close>

lemma range_gone:
  assumes "ready s" and "wf_slice (view s)"
    and "\<And>j. k \<le> j \<Longrightarrow> j < k + n \<Longrightarrow> backing (view s) ! j = c"
    and "key c \<notin> key ` set (elems (view s))"
    and body: "\<And>s. ready s \<Longrightarrow> body c s = (if P c then del c s else (Ok (), s))"
  shows "range_slice view k n body s = (Ok (), s)"
  using assms(3)
proof (induction n arbitrary: k)
  case 0
  then show ?case by simp
next
  case (Suc n)
  have "range_slice view (Suc k) n body s = (Ok (), s)"
    by (rule Suc.IH) (use Suc.prems in auto)
  moreover have "backing (view s) ! k = c" using Suc.prems by simp
  ultimately show ?case
    using body [OF assms(1)] del_gone [OF assms(1,4)] by (simp add: andThen_def)
qed

definition upcoming :: "('a \<Rightarrow> bool) \<Rightarrow> nat \<Rightarrow> nat \<Rightarrow> 'a \<Rightarrow> 's \<Rightarrow> 'a list" where
  "upcoming P k N c s =
     (if k < glen (view s) then sweep P (drop k (elems (view s)))
      else if k < N then filter P [c] else [])"

lemma upcoming_skip:
  assumes "tail_ok N c s" and "k < N" and "\<not> P (backing (view s) ! k)"
  shows "upcoming P (Suc k) N c s = upcoming P k N c s"
proof (cases "k < glen (view s)")
  case True
  let ?x = "backing (view s) ! k"
  have "k < length (elems (view s))" "elems (view s) ! k = ?x"
    using True assms(1) by (auto simp: elems_def tail_ok_def)
  then have "drop k (elems (view s)) = ?x # drop (Suc k) (elems (view s))"
    by (metis Cons_nth_drop_Suc)
  moreover have "c = ?x" if "glen (view s) = Suc k" "Suc k < N"
    using assms(1) that by (auto simp: tail_ok_def)
  ultimately show ?thesis
    using True assms(3) by (auto simp: upcoming_def sweep_Cons_not elems_def)
next
  case False
  then have "backing (view s) ! k = c" using assms(1,2) by (auto simp: tail_ok_def)
  with False assms(2,3) show ?thesis by (simp add: upcoming_def)
qed

lemma upcoming_delete:
  assumes "wf_slice (view s)" and "tail_ok N c s" and "Suc k < glen (view s)"
    and "P (backing (view s) ! k)" and "view s' = slice_delete k (view s)"
  shows "upcoming P k N c s =
    backing (view s) ! k # upcoming P (Suc k) N (backing (view s) ! (glen (view s) - 1)) s'"
proof -
  let ?A = "backing (view s)" and ?g = "glen (view s)" and ?es = "elems (view s)"
  have len: "length ?es = ?g" using assms(1) by (simp add: length_elems)
  have nth: "?es ! j = ?A ! j" if "j < ?g" for j using that by (simp add: elems_def)
  have U: "drop k ?es = ?A ! k # ?A ! Suc k # drop (Suc (Suc k)) ?es"
    using assms(3) len nth by (metis Cons_nth_drop_Suc Suc_lessD)
  have V: "drop (Suc k) (elems (view s')) = drop (Suc (Suc k)) ?es"
    using assms(1,3,5) len by (simp add: elems_slice_delete)
  have N: "Suc k < N" using assms(2,3) by (simp add: tail_ok_def)
  have g': "glen (view s') = ?g - 1" using assms(5) by simp
  show ?thesis
  proof (cases "Suc (Suc k) = ?g")
    case True
    then show ?thesis
      using assms(3,4) N g' len by (auto simp: upcoming_def U sweep_Cons_Cons simp flip: True)
  next
    case False
    then have "drop (Suc (Suc k)) ?es \<noteq> []" and "Suc k < ?g - 1" using assms(3) len by simp_all
    then show ?thesis
      using assms(3,4) g' V by (simp add: upcoming_def U sweep_Cons_Cons)
  qed
qed

lemma read_live:
  assumes "wf_slice (view s)" and "tail_ok N c s" and "j < N"
  shows "backing (view s) ! j \<in> set (elems (view s))"
proof -
  let ?j = "if j < glen (view s) then j else glen (view s) - 1"
  have "elems (view s) ! ?j = backing (view s) ! j" "?j < length (elems (view s))"
    using assms by (auto simp: tail_ok_def elems_def wf_slice_def)
  then show ?thesis by (metis nth_mem)
qed

lemma range_upcoming:
  assumes "ready s" and "wf_slice (view s)" and "distinct (map key (elems (view s)))"
    and "tail_ok (k + n) c s" and "set (elems (view s)) \<subseteq> S"
    and body: "\<And>x s. x \<in> S \<Longrightarrow> ready s \<Longrightarrow> body x s = (if P x then del x s else (Ok (), s))"
  shows "\<exists>s'. range_slice view k n body s = (Ok (), s') \<and> deletes (upcoming P k (k + n) c s) s s'"
  using assms(1-5)
proof (induction n arbitrary: k s c)
  case 0
  then show ?case by (auto simp: upcoming_def tail_ok_def length_elems deletes_Nil)
next
  case (Suc n)
  let ?A = "backing (view s)" and ?g = "glen (view s)" and ?N = "k + Suc n"
  let ?x = "?A ! k"
  note ready = Suc.prems(1) and wf = Suc.prems(2) and dist = Suc.prems(3) and tail = Suc.prems(4)
  have x: "?x \<in> S"
    using read_live [OF wf tail, of k] Suc.prems(5) by auto
  show ?case
  proof (cases "P ?x")
    case False
    then have step: "body ?x s = (Ok (), s)" using body [OF x ready] by simp
    obtain s' where "range_slice view (Suc k) n body s = (Ok (), s')"
        "deletes (upcoming P (Suc k) ?N c s) s s'"
      using Suc.IH [of s "Suc k" c] Suc.prems by auto
    moreover have "upcoming P (Suc k) ?N c s = upcoming P k ?N c s"
      by (rule upcoming_skip [OF tail]) (use False in auto)
    ultimately show ?thesis using step by (simp add: andThen_def)
  next
    case True
    have dist': "distinct (map key (elems (view s1)))" if "deletes [x] s s1" for x s1
      using that dist by (simp add: deletes_def distinct_map_filter)
    have gone: "\<exists>s'. range_slice view k (Suc n) body s = (Ok (), s') \<and> deletes [?x] s s'"
      if last: "?x = ?A ! (?g - 1)" "0 < ?g" "?g \<le> Suc k"
    proof -
      obtain s1 where s1: "del ?x s = (Ok (), s1)" "deletes [?x] s s1" "view s1 = slice_delete (?g - 1) (view s)"
        using del_live [OF ready wf dist, of "?g - 1" ?x] last by auto
      have cells: "backing (view s1) ! j = ?x" if "Suc k \<le> j" "j < Suc k + n" for j
        using that last tail nth_slice_delete [OF wf, of "?g - 1" j] s1(3) by (auto simp: tail_ok_def)
      have "range_slice view (Suc k) n body s1 = (Ok (), s1)"
        by (rule range_gone [where c = "?x" and P = P])
          (use s1(2) cells body [OF x] in \<open>auto simp: deletes_def\<close>)
      with True s1 body [OF x ready] show ?thesis by (simp add: andThen_def)
    qed
    show ?thesis
    proof (cases "Suc k < ?g")
      case True
      let ?c = "?A ! (?g - 1)"
      obtain s1 where s1: "del ?x s = (Ok (), s1)" "deletes [?x] s s1" "view s1 = slice_delete k (view s)"
        using del_live [OF ready wf dist, of k ?x] True by auto
      have t1: "tail_ok (Suc k + n) ?c s1"
        using tail_ok_delete [OF wf tail True s1(3)] by simp
      obtain s' where s': "range_slice view (Suc k) n body s1 = (Ok (), s')"
          "deletes (upcoming P (Suc k) (Suc k + n) ?c s1) s1 s'"
        using Suc.IH [OF _ _ dist' [OF s1(2)] t1] s1(2) Suc.prems(5) by (auto simp: deletes_def)
      have "upcoming P k ?N c s = ?x # upcoming P (Suc k) (Suc k + n) ?c s1"
        using upcoming_delete [where P = P, OF wf tail True \<open>P ?x\<close> s1(3)] by simp
      with \<open>P ?x\<close> s1 s' body [OF x ready] deletes_Cons [OF s1(2) s'(2)] show ?thesis
        by (simp add: andThen_def)
    next
      case False
      have "?x = ?A ! (?g - 1) \<and> 0 < ?g \<and> ?g \<le> Suc k \<and> upcoming P k ?N c s = [?x]"
      proof (cases "k < ?g")
        case True
        with False have g: "?g = Suc k" by simp
        then have "drop k (elems (view s)) = [?x]"
          using wf by (simp add: elems_def wf_slice_def drop_take take_Suc_conv_app_nth
              flip: Cons_nth_drop_Suc)
        with True g \<open>P ?x\<close> show ?thesis by (simp add: upcoming_def)
      next
        case False
        with tail \<open>P ?x\<close> show ?thesis by (auto simp: tail_ok_def upcoming_def)
      qed
      with gone show ?thesis by auto
    qed
  qed
qed

text \<open>A loop over the cells from \<open>k\<close> on deletes the elements \<open>sweep\<close> names.\<close>

lemma range_sweeps:
  assumes "ready s" and "wf_slice (view s)" and "distinct (map key (elems (view s)))"
    and "k \<le> glen (view s)"
    and "\<And>x s'. x \<in> set (elems (view s)) \<Longrightarrow> ready s' \<Longrightarrow>
      body x s' = (if P x then del x s' else (Ok (), s'))"
  shows "\<exists>s'. range_slice view k (glen (view s) - k) body s = (Ok (), s') \<and>
    deletes (sweep P (drop k (elems (view s)))) s s'"
proof -
  have "tail_ok (k + (glen (view s) - k)) c s" for c
    using assms(2,4) by (simp add: tail_ok_def wf_slice_def)
  from range_upcoming [where P = P, OF assms(1-3) this [of undefined] order.refl assms(5)]
  obtain s' where s': "range_slice view k (glen (view s) - k) body s = (Ok (), s')"
      "deletes (upcoming P k (k + (glen (view s) - k)) undefined s) s s'"
    by blast
  have "upcoming P k (k + (glen (view s) - k)) undefined s = sweep P (drop k (elems (view s)))"
    using assms(2,4) by (auto simp: upcoming_def length_elems)
  with s' show ?thesis by metis
qed

end

end
