(* ===== verification/ReadWriter.thy ===== *)
theory ReadWriter
  imports Derive Ranging
begin

text \<open>
  \<open>internal/portforwarding/nftables/readwrite.go\<close>: the snapshot of chains, rules and sets that a
  mutation reads, and the commands it queues on the netlink connection.

  The nftables library and the kernel behind it are the parameter \<open>nflib\<close>: every call is a step
  on an abstract kernel state \<open>'k\<close>, which may change between two calls. Queued commands are data.
\<close>

section \<open>The library\<close>

record ntable =
  tb_name :: string
  tb_family :: family

record nset_elem =
  se_key :: gobytes
  se_val :: gobytes

text \<open>The commands of \<open>nftables.Conn\<close>; the sets added are all anonymous and constant.\<close>

datatype nft_cmd =
    CAddTable string family
  | CDelTable string family
  | CAddChain nchain "chain_policy option"
  | CDelChain string family string
  | CAddRule string family string "expr list" gobytes
  | CInsertRule string family string "expr list" gobytes
  | CDelRule string family string "64 word"
  | CAddSet string family "32 word" string bool set_datatype set_datatype "nset_elem list" string

text \<open>
  \<open>lib_DelRule\<close> and \<open>lib_AddSet\<close> are the checks the library makes before it queues the command.
  \<open>go_map_order\<close> is the order in which Go's runtime ranges over a map with the given keys.
\<close>

record 'k nflib =
  lib_New :: "('k, unit) step"
  lib_ListTablesOfFamily :: "family \<Rightarrow> ('k, ntable list) step"
  lib_ListChains :: "('k, nchain list) step"
  lib_GetRules :: "nchain \<Rightarrow> ('k, nrule list) step"
  lib_GetSets :: "ntable \<Rightarrow> ('k, nset list) step"
  lib_GetSetElements :: "nset \<Rightarrow> ('k, nset_elem list) step"
  lib_DelRule :: "nft_cmd \<Rightarrow> go_error option"
  lib_AddSet :: "nft_cmd \<Rightarrow> go_error option"
  lib_Flush :: "nft_cmd list \<Rightarrow> ('k, unit) step"
  go_map_order :: "'k \<Rightarrow> string list \<Rightarrow> string list"

section \<open>The state\<close>

record setWithElement =
  swe_set :: nset
  swe_elements :: "nset_elem list"

record 'k readWriter =
  rw_name :: string
  rw_family :: family
  rw_tables :: "ntable gslice"
  rw_chains :: "nchain gslice"
  rw_rules :: "nrule gslice"
  rw_sets :: "setWithElement list"
  rw_conn :: "nft_cmd list option"
  rw_kernel :: 'k

definition liftk :: "('k, 'a) step \<Rightarrow> ('k readWriter, 'a) step" where
  "liftk f rw = (case f (rw_kernel rw) of (r, k') \<Rightarrow> (r, rw\<lparr>rw_kernel := k'\<rparr>))"

definition upd :: "('k readWriter \<Rightarrow> 'k readWriter) \<Rightarrow> ('k readWriter, unit) step" where
  "upd f rw = (Ok (), f rw)"

text \<open>\<open>strconv.Quote\<close> (the verb \<open>%q\<close>) of a name with nothing to escape.\<close>

definition quote :: "string \<Rightarrow> string" where
  "quote s = [char_of (34::nat)] @ s @ [char_of (34::nat)]"

definition withOpenConn :: "'k nflib \<Rightarrow> ('k readWriter, unit) step \<Rightarrow> ('k readWriter, unit) step" where
  "withOpenConn L action rw =
     (if rw_conn rw = None then
        (case liftk (lib_New L) rw of
           (Ok _, rw') \<Rightarrow> action (rw'\<lparr>rw_conn := Some []\<rparr>)
         | (Err e, rw') \<Rightarrow> (Err (EWrap ''failed to open netlink connection for nftables'' e), rw')
         | (Panic p, rw') \<Rightarrow> (Panic p, rw'))
      else action rw)"

definition queue_cmd :: "nft_cmd \<Rightarrow> 'k readWriter \<Rightarrow> 'k readWriter" where
  "queue_cmd c rw = rw\<lparr>rw_conn := map_option (\<lambda>cs. cs @ [c]) (rw_conn rw)\<rparr>"

section \<open>Reading\<close>

definition Chains :: "'k readWriter \<Rightarrow> nchain list" where
  "Chains rw = filter (\<lambda>chain. ch_family chain = rw_family rw) (elems (rw_chains rw))"

definition Rules :: "'k readWriter \<Rightarrow> string \<Rightarrow> nrule list" where
  "Rules rw table =
     filter (\<lambda>rule. rl_table rule = table \<and> rl_family rule = rw_family rw) (elems (rw_rules rw))"

definition Sets :: "'k readWriter \<Rightarrow> string \<Rightarrow> nset list" where
  "Sets rw table = filter (\<lambda>s. st_table s = table) (map swe_set (rw_sets rw))"

definition Elements :: "'k readWriter \<Rightarrow> string \<Rightarrow> string \<Rightarrow> nset_elem list" where
  "Elements rw table s = concat (map swe_elements
     (filter (\<lambda>e. st_table (swe_set e) = table \<and> st_name (swe_set e) = s) (rw_sets rw)))"

section \<open>Writing\<close>

definition AddTable :: "'k nflib \<Rightarrow> string \<Rightarrow> ('k readWriter, unit) step" where
  "AddTable L name = wrapped (''failed to add table: '' @ quote name)
     (withOpenConn L (\<lambda>rw. (Ok (), queue_cmd (CAddTable name (rw_family rw)) rw)))"

definition DeleteTable :: "'k nflib \<Rightarrow> string \<Rightarrow> ('k readWriter, unit) step" where
  "DeleteTable L name = wrapped (''failed to delete table: '' @ quote name)
     (withOpenConn L (\<lambda>rw. (Ok (),
        case find_index (\<lambda>t. tb_name t = name) (elems (rw_tables rw)) of
          Some i \<Rightarrow> queue_cmd (CDelTable name (rw_family rw))
                     (rw\<lparr>rw_tables := slice_delete i (rw_tables rw)\<rparr>)
        | None \<Rightarrow> rw)))"

definition new_chain :: "family \<Rightarrow> string \<Rightarrow> string \<Rightarrow> hook option \<Rightarrow> nchain \<times> chain_policy option" where
  "new_chain fam table name h =
     (\<lparr>ch_table = table, ch_family = fam, ch_name = name, ch_hooknum = map_option hook_value h,
       ch_priority = map_option ChainPriority h,
       ch_type = (case h of None \<Rightarrow> OtherChainType [] | Some h \<Rightarrow> ChainType h)\<rparr>,
      map_option ChainPolicy h)"

definition AddChain :: "'k nflib \<Rightarrow> string \<Rightarrow> string \<Rightarrow> hook option \<Rightarrow> ('k readWriter, unit) step" where
  "AddChain L table name h = wrapped (''failed to add chain: '' @ quote name)
     (withOpenConn L (\<lambda>rw. (Ok (),
        queue_cmd (case new_chain (rw_family rw) table name h of (c, p) \<Rightarrow> CAddChain c p) rw)))"

definition DeleteChain :: "'k nflib \<Rightarrow> string \<Rightarrow> string \<Rightarrow> ('k readWriter, unit) step" where
  "DeleteChain L table chain = wrapped (''failed to delete chain: '' @ quote chain)
     (withOpenConn L (\<lambda>rw. (Ok (),
        case find_index (\<lambda>c. ch_table c = table \<and> ch_name c = chain) (elems (rw_chains rw)) of
          Some i \<Rightarrow> queue_cmd (CDelChain table (rw_family rw) chain)
                     (rw\<lparr>rw_chains := slice_delete i (rw_chains rw)\<rparr>)
        | None \<Rightarrow> rw)))"

definition AddRule :: "'k nflib \<Rightarrow> string \<Rightarrow> string \<Rightarrow> expr list \<Rightarrow> bool \<Rightarrow> gobytes \<Rightarrow> ('k readWriter, unit) step" where
  "AddRule L table chain es first comment =
     wrapped (''failed to add rule in table '' @ quote table @ '' chain '' @ quote chain)
       (withOpenConn L (\<lambda>rw. (Ok (),
          queue_cmd ((if first then CInsertRule else CAddRule) table (rw_family rw) chain es comment) rw)))"

definition DeleteRule :: "'k nflib \<Rightarrow> string \<Rightarrow> string \<Rightarrow> 64 word \<Rightarrow> ('k readWriter, unit) step" where
  "DeleteRule L table chain handle =
     wrapped (''failed to delete rule in table '' @ quote table @ '' chain '' @ quote chain)
       (withOpenConn L (\<lambda>rw.
          case find_index (\<lambda>r. rl_handle r = handle) (elems (rw_rules rw)) of
            Some i \<Rightarrow>
              (let rw' = rw\<lparr>rw_rules := slice_delete i (rw_rules rw)\<rparr>;
                   c = CDelRule table (rw_family rw) chain handle in
               case lib_DelRule L c of
                 Some e \<Rightarrow> (Err e, rw')
               | None \<Rightarrow> (Ok (), queue_cmd c rw'))
          | None \<Rightarrow> (Ok (), rw)))"

fun datatype_name :: "set_datatype \<Rightarrow> string" where
  "datatype_name NoDatatype = []"
| "datatype_name TypeIPAddr = ''ipv4_addr''"
| "datatype_name TypeInteger = ''integer''"
| "datatype_name (OtherDatatype n) = n"

definition AddSet :: "'k nflib \<Rightarrow> string \<Rightarrow> 32 word \<Rightarrow> string \<Rightarrow> set_datatype \<Rightarrow> set_datatype \<Rightarrow>
    nset_elem list \<Rightarrow> string \<Rightarrow> ('k readWriter, unit) step" where
  "AddSet L table setId setName key val kvPairs comment =
     wrapped (''failed to add anonymous set in table '' @ quote table)
       (withOpenConn L (\<lambda>rw.
          let c = CAddSet table (rw_family rw) setId setName (length (datatype_name val) \<noteq> 0)
                    key val kvPairs comment in
          case lib_AddSet L c of
            Some e \<Rightarrow> (Err e, rw)
          | None \<Rightarrow> (Ok (), queue_cmd c rw)))"

section \<open>Refreshing and flushing\<close>

fun refresh_rules :: "'k nflib \<Rightarrow> nchain list \<Rightarrow> ('k readWriter, unit) step" where
  "refresh_rules L [] rw = (Ok (), rw)"
| "refresh_rules L (chain # cs) rw =
     (if ch_hooknum chain \<noteq> None \<or> HasPrefix (ch_name chain) (rw_name rw) then
        andThen (liftk (lib_GetRules L chain)) (\<lambda>rules.
          andThen (upd (\<lambda>rw. rw\<lparr>rw_rules := slice_of (elems (rw_rules rw) @ rules)\<rparr>)) (\<lambda>_.
            refresh_rules L cs)) rw
      else refresh_rules L cs rw)"

fun refresh_set_elements :: "'k nflib \<Rightarrow> nset list \<Rightarrow> ('k readWriter, unit) step" where
  "refresh_set_elements L [] rw = (Ok (), rw)"
| "refresh_set_elements L (s # sets) rw =
     andThen (liftk (lib_GetSetElements L s)) (\<lambda>elements.
       andThen (upd (\<lambda>rw. rw\<lparr>rw_sets := rw_sets rw @ [\<lparr>swe_set = s, swe_elements = elements\<rparr>]\<rparr>)) (\<lambda>_.
         refresh_set_elements L sets)) rw"

fun refresh_sets :: "'k nflib \<Rightarrow> ntable list \<Rightarrow> ('k readWriter, unit) step" where
  "refresh_sets L [] rw = (Ok (), rw)"
| "refresh_sets L (table # tables) rw =
     andThen (liftk (lib_GetSets L table)) (\<lambda>sets.
       andThen (refresh_set_elements L sets) (\<lambda>_. refresh_sets L tables)) rw"

definition refresh_snapshot :: "'k nflib \<Rightarrow> ('k readWriter, unit) step" where
  "refresh_snapshot L rw =
     andThen (liftk (lib_ListTablesOfFamily L (rw_family rw))) (\<lambda>tables.
       andThen (upd (\<lambda>rw. rw\<lparr>rw_tables := slice_of tables\<rparr>)) (\<lambda>_.
         andThen (liftk (lib_ListChains L)) (\<lambda>chains.
           andThen (upd (\<lambda>rw. rw\<lparr>rw_chains := slice_of chains, rw_rules := slice_of []\<rparr>)) (\<lambda>_.
             andThen (refresh_rules L chains) (\<lambda>_.
               andThen (upd (\<lambda>rw. rw\<lparr>rw_sets := []\<rparr>)) (\<lambda>_.
                 refresh_sets L tables)))))) rw"

definition refresh :: "'k nflib \<Rightarrow> ('k readWriter, unit) step" where
  "refresh L = withOpenConn L (refresh_snapshot L)"

definition newReadWriter :: "'k nflib \<Rightarrow> string \<Rightarrow> family \<Rightarrow> 'k \<Rightarrow> 'k readWriter result \<times> 'k" where
  "newReadWriter L name fam k =
     (let rw = \<lparr>rw_name = name, rw_family = fam, rw_tables = slice_of [], rw_chains = slice_of [],
          rw_rules = slice_of [], rw_sets = [], rw_conn = None, rw_kernel = k\<rparr> in
      case refresh L rw of
        (Ok _, rw') \<Rightarrow> (Ok rw', rw_kernel rw')
      | (Err e, rw') \<Rightarrow>
          (Err (EWrap ''failed to refresh chains and rules from nftables'' e), rw_kernel rw')
      | (Panic p, rw') \<Rightarrow> (Panic p, rw_kernel rw'))"

text \<open>The deferred reset runs however the flush ends; a nil connection is dereferenced.\<close>

definition Flush :: "'k nflib \<Rightarrow> ('k readWriter, unit) step" where
  "Flush L rw = (case rw_conn rw of
      None \<Rightarrow> (Panic NilDereference, rw)
    | Some cmds \<Rightarrow> (case wrapped ''failed to flush commands to nftables'' (liftk (lib_Flush L cmds)) rw of
        (r, rw') \<Rightarrow> (r, rw'\<lparr>rw_conn := None\<rparr>)))"


section \<open>What the writers do on an open connection\<close>

definition conn_log :: "'k readWriter \<Rightarrow> nft_cmd list" where
  "conn_log rw = (case rw_conn rw of None \<Rightarrow> [] | Some cs \<Rightarrow> cs)"

definition is_open :: "'k readWriter \<Rightarrow> bool" where
  "is_open rw \<longleftrightarrow> rw_conn rw \<noteq> None"

lemma withOpenConn_open [step_simps]: "is_open rw \<Longrightarrow> withOpenConn L f rw = f rw"
  by (auto simp: withOpenConn_def is_open_def)

lemma queue_cmd_simps [simp]:
  "rw_name (queue_cmd c rw) = rw_name rw" "rw_family (queue_cmd c rw) = rw_family rw"
  "rw_tables (queue_cmd c rw) = rw_tables rw" "rw_chains (queue_cmd c rw) = rw_chains rw"
  "rw_rules (queue_cmd c rw) = rw_rules rw" "rw_sets (queue_cmd c rw) = rw_sets rw"
  "rw_kernel (queue_cmd c rw) = rw_kernel rw" "is_open (queue_cmd c rw) = is_open rw"
  by (simp_all add: queue_cmd_def is_open_def)

lemma conn_log_queue_cmd [simp]: "is_open rw \<Longrightarrow> conn_log (queue_cmd c rw) = conn_log rw @ [c]"
  by (auto simp: queue_cmd_def is_open_def conn_log_def)

lemma is_open_updates [simp]:
  "is_open (rw\<lparr>rw_rules := r\<rparr>) = is_open rw" "is_open (rw\<lparr>rw_chains := c\<rparr>) = is_open rw"
  "conn_log (rw\<lparr>rw_rules := r\<rparr>) = conn_log rw" "conn_log (rw\<lparr>rw_chains := c\<rparr>) = conn_log rw"
  by (simp_all add: is_open_def conn_log_def)

lemma AddTable_open [step_simps]:
  "is_open rw \<Longrightarrow> AddTable L name rw = (Ok (), queue_cmd (CAddTable name (rw_family rw)) rw)"
  by (simp add: AddTable_def withOpenConn_open)

lemma AddChain_open [step_simps]:
  "is_open rw \<Longrightarrow> AddChain L table name h rw =
     (Ok (), queue_cmd (case new_chain (rw_family rw) table name h of (c, p) \<Rightarrow> CAddChain c p) rw)"
  by (simp add: AddChain_def withOpenConn_open)

lemma AddRule_open [step_simps]:
  "is_open rw \<Longrightarrow> AddRule L table chain es first comment rw = (Ok (),
     queue_cmd ((if first then CInsertRule else CAddRule) table (rw_family rw) chain es comment) rw)"
  by (simp add: AddRule_def withOpenConn_open)

section \<open>Deleting rules in a loop\<close>

text \<open>
  \<open>DeleteRule\<close> provides the interface of the deleting loop: the handle is the key, the queued
  deletions are the log.
\<close>

definition del_cmd :: "string \<Rightarrow> string \<Rightarrow> family \<Rightarrow> nrule \<Rightarrow> nft_cmd" where
  "del_cmd table chain fam r = CDelRule table fam chain (rl_handle r)"

definition rules_frame :: "'k readWriter \<Rightarrow> 'k readWriter" where
  "rules_frame rw = rw\<lparr>rw_rules := slice_of [], rw_conn := None\<rparr>"

definition del_ready :: "'k nflib \<Rightarrow> string \<Rightarrow> string \<Rightarrow> family \<Rightarrow> 'k readWriter \<Rightarrow> bool" where
  "del_ready L table chain fam rw \<longleftrightarrow> is_open rw \<and> rw_family rw = fam \<and> wf_slice (rw_rules rw) \<and>
     (\<forall>r \<in> set (elems (rw_rules rw)). lib_DelRule L (del_cmd table chain fam r) = None)"

lemma DeleteRule_open:
  assumes "is_open rw"
  shows "DeleteRule L table chain h rw =
    (case find_index (\<lambda>r. rl_handle r = h) (elems (rw_rules rw)) of
       None \<Rightarrow> (Ok (), rw)
     | Some i \<Rightarrow>
        (let rw' = rw\<lparr>rw_rules := slice_delete i (rw_rules rw)\<rparr>; c = CDelRule table (rw_family rw) chain h in
         case lib_DelRule L c of
           Some e \<Rightarrow> (Err (EWrap (''failed to delete rule in table '' @ quote table @ '' chain '' @ quote chain) e), rw')
         | None \<Rightarrow> (Ok (), queue_cmd c rw')))"
  using assms
  by (auto simp: DeleteRule_def wrapped_def withOpenConn_open Let_def split: option.split)

lemma rules_frame_queue [simp]: "rules_frame (queue_cmd c rw) = rules_frame rw"
  by (simp add: rules_frame_def queue_cmd_def)

lemma rules_frame_update [simp]: "rules_frame (rw\<lparr>rw_rules := r\<rparr>) = rules_frame rw"
  by (simp add: rules_frame_def)

lemma rules_frame_eqD:
  assumes "rules_frame rw = rules_frame rw'"
  shows "rw_name rw = rw_name rw'" "rw_family rw = rw_family rw'" "rw_tables rw = rw_tables rw'"
    "rw_chains rw = rw_chains rw'" "rw_sets rw = rw_sets rw'" "rw_kernel rw = rw_kernel rw'"
  using assms by (cases rw; cases rw'; simp add: rules_frame_def)+

interpretation rules: keyed_deleter "rw_rules :: 'k readWriter \<Rightarrow> nrule gslice" rl_handle conn_log "del_cmd table chain fam" rules_frame
    "del_ready L table chain fam" "\<lambda>r. DeleteRule L table chain (rl_handle r)"
  for L :: "'k nflib" and table chain fam
proof
  fix s :: "'k readWriter" and x :: nrule and i
  assume ready: "del_ready L table chain fam s"
    and hit: "find_index (\<lambda>y. rl_handle y = rl_handle x) (elems (rw_rules s)) = Some i"
  let ?s' = "queue_cmd (del_cmd table chain fam x) (s\<lparr>rw_rules := slice_delete i (rw_rules s)\<rparr>)"
  from ready have op: "is_open s" "rw_family s = fam" "wf_slice (rw_rules s)"
    by (auto simp: del_ready_def)
  let ?y = "elems (rw_rules s) ! i"
  from find_index_Some [OF hit] have i: "i < length (elems (rw_rules s))" and h: "rl_handle ?y = rl_handle x"
    by auto
  have ig: "i < glen (rw_rules s)" using i op by (simp add: length_elems)
  have "lib_DelRule L (del_cmd table chain fam ?y) = None"
    using ready i by (simp add: del_ready_def)
  then have "lib_DelRule L (CDelRule table fam chain (rl_handle x)) = None"
    using h by (simp add: del_cmd_def)
  then have "DeleteRule L table chain (rl_handle x) s = (Ok (), ?s')"
    using op hit by (simp add: DeleteRule_open Let_def del_cmd_def)
  moreover have "del_ready L table chain fam ?s'"
    using ready op ig by (auto simp: del_ready_def elems_slice_delete wf_slice_delete
        dest: in_set_takeD in_set_dropD)
  ultimately show "\<exists>s'. DeleteRule L table chain (rl_handle x) s = (Ok (), s') \<and>
      del_ready L table chain fam s' \<and> rules_frame s' = rules_frame s \<and>
      rw_rules s' = slice_delete i (rw_rules s) \<and> conn_log s' = conn_log s @ [del_cmd table chain fam x]"
    using op by auto
next
  fix s :: "'k readWriter" and x :: nrule
  assume "del_ready L table chain fam s"
    and "find_index (\<lambda>y. rl_handle y = rl_handle x) (elems (rw_rules s)) = None"
  then show "DeleteRule L table chain (rl_handle x) s = (Ok (), s)"
    by (simp add: del_ready_def DeleteRule_open)
qed

section \<open>What a fresh reader holds\<close>

definition reader_wf :: "'k readWriter \<Rightarrow> bool" where
  "reader_wf rw \<longleftrightarrow> wf_slice (rw_tables rw) \<and> wf_slice (rw_chains rw) \<and> wf_slice (rw_rules rw)"

definition snapshot_of :: "string \<Rightarrow> family \<Rightarrow> 'k readWriter \<Rightarrow> bool" where
  "snapshot_of name fam rw \<longleftrightarrow> is_open rw \<and> conn_log rw = [] \<and> rw_name rw = name \<and>
     rw_family rw = fam \<and> reader_wf rw"

lemma snapshot_liftk: "snapshot_of n f rw \<Longrightarrow> snapshot_of n f (snd (liftk g rw))"
  by (simp add: liftk_def snapshot_of_def is_open_def conn_log_def reader_wf_def split: prod.split)

lemma snapshot_upd:
  assumes "snapshot_of n f rw"
  shows "snapshot_of n f (snd (upd (\<lambda>rw. rw\<lparr>rw_rules := slice_of (r rw)\<rparr>) rw))"
    "snapshot_of n f (snd (upd (\<lambda>rw. rw\<lparr>rw_tables := slice_of ts\<rparr>) rw))"
    "snapshot_of n f (snd (upd (\<lambda>rw. rw\<lparr>rw_chains := slice_of cs, rw_rules := slice_of rs\<rparr>) rw))"
    "snapshot_of n f (snd (upd (\<lambda>rw. rw\<lparr>rw_sets := ss rw\<rparr>) rw))"
  using assms by (simp_all add: upd_def snapshot_of_def is_open_def conn_log_def reader_wf_def)

lemmas snapshot_steps = snapshot_liftk snapshot_upd

lemma snapshot_refresh_rules: "snapshot_of n f rw \<Longrightarrow> snapshot_of n f (snd (refresh_rules L cs rw))"
proof (induction cs arbitrary: rw)
  case Nil
  then show ?case by simp
next
  case (Cons c cs)
  show ?case
    by (simp del: not_None_eq, intro conjI impI andThen_inv [where I = "snapshot_of n f"] snapshot_steps)
      (use Cons in auto)
qed

lemma snapshot_refresh_set_elements:
  "snapshot_of n f rw \<Longrightarrow> snapshot_of n f (snd (refresh_set_elements L ss rw))"
proof (induction ss arbitrary: rw)
  case Nil
  then show ?case by simp
next
  case (Cons c cs)
  show ?case
    by (simp, intro andThen_inv [where I = "snapshot_of n f"] snapshot_steps) (use Cons in auto)
qed

lemma snapshot_refresh_sets: "snapshot_of n f rw \<Longrightarrow> snapshot_of n f (snd (refresh_sets L ts rw))"
proof (induction ts arbitrary: rw)
  case Nil
  then show ?case by simp
next
  case (Cons c cs)
  show ?case
    by (simp, intro andThen_inv [where I = "snapshot_of n f"] snapshot_steps
        snapshot_refresh_set_elements) (use Cons in auto)
qed

lemma newReadWriter_snapshot:
  assumes "newReadWriter L name fam k = (Ok rw, k')"
  shows "snapshot_of name fam rw" and "rw_kernel rw = k'"
proof -
  show "rw_kernel rw = k'"
    using assms by (auto simp: newReadWriter_def Let_def split: prod.splits result.splits)
  let ?rw0 = "\<lparr>rw_name = name, rw_family = fam, rw_tables = slice_of [], rw_chains = slice_of [],
          rw_rules = slice_of [], rw_sets = [], rw_conn = None, rw_kernel = k\<rparr> :: 'a readWriter"
  have body: "snapshot_of name fam (snd (refresh_snapshot L rw))" if "snapshot_of name fam rw" for rw :: "'a readWriter"
    unfolding refresh_snapshot_def
    by (intro andThen_inv [where I = "snapshot_of name fam"] snapshot_steps snapshot_refresh_rules
        snapshot_refresh_sets that)
  obtain r where r: "refresh L ?rw0 = (Ok r, rw)"
    using assms by (auto simp: newReadWriter_def Let_def split: prod.splits result.splits)
  obtain k1 where "lib_New L k = (Ok (), k1)" and "refresh_snapshot L (?rw0\<lparr>rw_kernel := k1, rw_conn := Some []\<rparr>) = (Ok r, rw)"
    using r by (auto simp: refresh_def withOpenConn_def liftk_def split: prod.splits result.splits)
  moreover have "snapshot_of name fam (?rw0\<lparr>rw_kernel := k1, rw_conn := Some []\<rparr>)"
    by (simp add: snapshot_of_def is_open_def conn_log_def reader_wf_def)
  ultimately show "snapshot_of name fam rw" using body by (metis snd_conv)
qed

end
