(* ===== verification/Mutation.thy ===== *)
theory Mutation
  imports ReadWriter Userdata
begin

text \<open>
  Package \<open>internal/portforwarding/nftables/mutation\<close>: rules, sets, chains and tables that can be
  made present and cleaned up. A Go mutation returns a closure that its caller runs at once; a
  mutation here is the step that does both. The reader and writer interfaces of the package
  are the read-writer itself, restricted by a table, a hook and a chain name.
\<close>

section \<open>The restricted readers and writers\<close>

record chainReadWriter =
  crw_table :: string
  crw_hook :: hook

record ruleReadWriter =
  rrw_crw :: chainReadWriter
  rrw_chain :: string

definition chainMatchPredicate :: "hook \<Rightarrow> nchain \<Rightarrow> bool" where
  "chainMatchPredicate h = pred_And [ChainHook (Some (hook_value h)), ChainPriorityIs (Some (ChainPriority h))]"

definition HookedChains :: "chainReadWriter \<Rightarrow> 'k readWriter \<Rightarrow> nchain list" where
  "HookedChains crw rw = seq_Filter (Chains rw) (ChainHook (Some (hook_value (crw_hook crw))))"

definition crw_Rules :: "chainReadWriter \<Rightarrow> 'k readWriter \<Rightarrow> nrule list" where
  "crw_Rules crw rw = Rules rw (crw_table crw)"

definition AddBaseChain :: "'k nflib \<Rightarrow> chainReadWriter \<Rightarrow> string \<Rightarrow> ('k readWriter, unit) step" where
  "AddBaseChain L crw name = AddChain L (crw_table crw) name (Some (crw_hook crw))"

definition AddRegularChain :: "'k nflib \<Rightarrow> chainReadWriter \<Rightarrow> string \<Rightarrow> ('k readWriter, unit) step" where
  "AddRegularChain L crw name = AddChain L (crw_table crw) name None"

definition crw_DeleteChain :: "'k nflib \<Rightarrow> chainReadWriter \<Rightarrow> string \<Rightarrow> ('k readWriter, unit) step" where
  "crw_DeleteChain L crw name = DeleteChain L (crw_table crw) name"

definition crw_AddRule :: "'k nflib \<Rightarrow> chainReadWriter \<Rightarrow> string \<Rightarrow> expr list \<Rightarrow> bool \<Rightarrow> gobytes \<Rightarrow> ('k readWriter, unit) step" where
  "crw_AddRule L crw chain es first comment = AddRule L (crw_table crw) chain es first comment"

definition crw_DeleteRule :: "'k nflib \<Rightarrow> chainReadWriter \<Rightarrow> string \<Rightarrow> 64 word \<Rightarrow> ('k readWriter, unit) step" where
  "crw_DeleteRule L crw chain handle = DeleteRule L (crw_table crw) chain handle"

definition crw_AddSet :: "'k nflib \<Rightarrow> chainReadWriter \<Rightarrow> 32 word \<Rightarrow> string \<Rightarrow> set_datatype \<Rightarrow> set_datatype \<Rightarrow>
    nset_elem list \<Rightarrow> string \<Rightarrow> ('k readWriter, unit) step" where
  "crw_AddSet L crw setId name key val kvPairs comment =
     AddSet L (crw_table crw) setId name key val kvPairs comment"

definition rrw_AddRule :: "'k nflib \<Rightarrow> ruleReadWriter \<Rightarrow> expr list \<Rightarrow> bool \<Rightarrow> gobytes \<Rightarrow> ('k readWriter, unit) step" where
  "rrw_AddRule L rrw es first comment = crw_AddRule L (rrw_crw rrw) (rrw_chain rrw) es first comment"

definition rrw_DeleteRule :: "'k nflib \<Rightarrow> ruleReadWriter \<Rightarrow> 64 word \<Rightarrow> ('k readWriter, unit) step" where
  "rrw_DeleteRule L rrw handle = crw_DeleteRule L (rrw_crw rrw) (rrw_chain rrw) handle"

section \<open>Rules\<close>

record rule_mut =
  rm_expr :: condition
  rm_first :: bool
  rm_comment :: string

definition Rule :: "condition list \<Rightarrow> rule_mut" where
  "Rule conditions = \<lparr>rm_expr = Combine conditions, rm_first = False, rm_comment = []\<rparr>"

text \<open>
  The test a rule goes through on its way out of \<open>Rules\<close>: table and family, chain, expressions.
  \<open>None\<close> is the matcher's panic.
\<close>

definition rule_test :: "codec \<Rightarrow> ruleReadWriter \<Rightarrow> family \<Rightarrow> condition \<Rightarrow> nrule \<Rightarrow> bool option" where
  "rule_test E rrw fam cond r =
     (if rl_table r = crw_table (rrw_crw rrw) \<and> rl_family r = fam \<and> RuleChainName (rrw_chain rrw) r
      then RuleExpr E cond r else Some False)"

definition delete_if :: "'k nflib \<Rightarrow> codec \<Rightarrow> ruleReadWriter \<Rightarrow> condition \<Rightarrow> nrule \<Rightarrow> ('k readWriter, unit) step" where
  "delete_if L E rrw cond r rw = (case rule_test E rrw (rw_family rw) cond r of
      None \<Rightarrow> (Panic IndexOutOfRange, rw)
    | Some True \<Rightarrow> rrw_DeleteRule L rrw (rl_handle r) rw
    | Some False \<Rightarrow> (Ok (), rw))"

text \<open>\<open>predicate.First\<close>: the position of the first match; the rest of the sequence follows it.\<close>

fun first_match :: "('a \<Rightarrow> bool option) \<Rightarrow> 'a list \<Rightarrow> nat option option" where
  "first_match p [] = Some None"
| "first_match p (x # xs) = (case p x of
      None \<Rightarrow> None
    | Some True \<Rightarrow> Some (Some 0)
    | Some False \<Rightarrow> map_option (map_option Suc) (first_match p xs))"

definition rule_Present :: "'k nflib \<Rightarrow> codec \<Rightarrow> ruleReadWriter \<Rightarrow> rule_mut \<Rightarrow> ('k readWriter, unit) step" where
  "rule_Present L E rrw r rw =
     (case first_match (rule_test E rrw (rw_family rw) (rm_expr r)) (elems (rw_rules rw)) of
        None \<Rightarrow> (Panic IndexOutOfRange, rw)
      | Some (Some k) \<Rightarrow> range_slice rw_rules (Suc k) (glen (rw_rules rw) - Suc k)
                           (delete_if L E rrw (rm_expr r)) rw
      | Some None \<Rightarrow> rrw_AddRule L rrw (Build E (rm_expr r)) (rm_first r) (Marshal (rm_comment r)) rw)"

definition rule_CleanUp :: "'k nflib \<Rightarrow> codec \<Rightarrow> ruleReadWriter \<Rightarrow> rule_mut \<Rightarrow> ('k readWriter, unit) step" where
  "rule_CleanUp L E rrw r rw =
     range_slice rw_rules 0 (glen (rw_rules rw)) (delete_if L E rrw (rm_expr r)) rw"

text \<open>\<open>runPresent\<close> and \<open>runCleanUp\<close>, for any kind of mutation.\<close>

definition runPresent :: "('m \<Rightarrow> ('s, unit) step) \<Rightarrow> 'm list \<Rightarrow> ('s, unit) step" where
  "runPresent present ms = run_all (map present ms)"

definition runCleanUp :: "('m \<Rightarrow> ('s, unit) step) \<Rightarrow> 'm list \<Rightarrow> ('s, unit) step" where
  "runCleanUp cleanUp ms = run_all (map cleanUp (rev ms))"

section \<open>Sets\<close>

record element =
  el_key :: gobytes
  el_value :: gobytes

definition IPv4Addr :: "ip \<Rightarrow> element" where
  "IPv4Addr addr = \<lparr>el_key = To4 addr, el_value = None\<rparr>"

definition IndexedIPv4Addr :: "codec \<Rightarrow> ip \<Rightarrow> 32 word \<Rightarrow> element" where
  "IndexedIPv4Addr E addr index = \<lparr>el_key = Some (NE_PutUint32 E index), el_value = To4 addr\<rparr>"

record set_mut =
  sm_id :: "32 word"
  sm_name :: string
  sm_key :: set_datatype
  sm_value :: set_datatype
  sm_comment :: string
  sm_elements :: "element list"
  sm_kvPairs :: "nset_elem list"

definition IPv4AddrSet :: "32 word \<Rightarrow> string \<Rightarrow> set_mut" where
  "IPv4AddrSet setId name = \<lparr>sm_id = setId, sm_name = name, sm_key = TypeIPAddr, sm_value = NoDatatype,
     sm_comment = [], sm_elements = [], sm_kvPairs = []\<rparr>"

definition IndexedIPv4AddrMap :: "32 word \<Rightarrow> string \<Rightarrow> set_mut" where
  "IndexedIPv4AddrMap setId name = \<lparr>sm_id = setId, sm_name = name, sm_key = TypeInteger, sm_value = TypeIPAddr,
     sm_comment = [], sm_elements = [], sm_kvPairs = []\<rparr>"

definition element_Present :: "element \<Rightarrow> set_mut \<Rightarrow> set_mut" where
  "element_Present e s = s\<lparr>sm_kvPairs := sm_kvPairs s @ [\<lparr>se_key = el_key e, se_val = el_value e\<rparr>]\<rparr>"

text \<open>\<open>set.Present\<close> collects the pairs in the mutation itself, which lives on: it is returned.\<close>

definition set_Present :: "'k nflib \<Rightarrow> chainReadWriter \<Rightarrow> set_mut \<Rightarrow> ('k readWriter, set_mut) step" where
  "set_Present L crw s rw =
     (let s' = fold element_Present (sm_elements s) s in
      andThen (crw_AddSet L crw (sm_id s') (sm_name s') (sm_key s') (sm_value s') (sm_kvPairs s') (sm_comment s'))
        (\<lambda>_ rw. (Ok s', rw)) rw)"

definition set_CleanUp :: "set_mut \<Rightarrow> ('k readWriter, unit) step" where
  "set_CleanUp s rw = (Ok (), rw)"

fun sets_Present :: "'k nflib \<Rightarrow> chainReadWriter \<Rightarrow> set_mut list \<Rightarrow> ('k readWriter, set_mut list) step" where
  "sets_Present L crw [] rw = (Ok [], rw)"
| "sets_Present L crw (s # ss) rw =
     andThen (set_Present L crw s) (\<lambda>s'.
       andThen (sets_Present L crw ss) (\<lambda>ss' rw. (Ok (s' # ss'), rw))) rw"

section \<open>Chains\<close>

datatype chain_mut =
    Chain string "rule_mut list"
  | BaseChain string "rule_mut list"
  | RegularChain string "rule_mut list" bool  \<comment> \<open>name, rules, forceClean\<close>

fun chain_AddRule :: "rule_mut list \<Rightarrow> chain_mut \<Rightarrow> chain_mut" where
  "chain_AddRule rs (Chain n rules) = Chain n (rules @ rs)"
| "chain_AddRule rs (BaseChain n rules) = BaseChain n (rules @ rs)"
| "chain_AddRule rs (RegularChain n rules force) = RegularChain n (rules @ rs) force"

definition rules_present :: "'k nflib \<Rightarrow> codec \<Rightarrow> chainReadWriter \<Rightarrow> string \<Rightarrow> rule_mut list \<Rightarrow> ('k readWriter, unit) step" where
  "rules_present L E crw chain rules =
     runPresent (rule_Present L E \<lparr>rrw_crw = crw, rrw_chain = chain\<rparr>) rules"

definition rules_cleanUp :: "'k nflib \<Rightarrow> codec \<Rightarrow> chainReadWriter \<Rightarrow> string \<Rightarrow> rule_mut list \<Rightarrow> ('k readWriter, unit) step" where
  "rules_cleanUp L E crw chain rules =
     runCleanUp (rule_CleanUp L E \<lparr>rrw_crw = crw, rrw_chain = chain\<rparr>) rules"

text \<open>\<open>for elem := range cr.HookedChains()\<close>.\<close>

definition for_hooked :: "chainReadWriter \<Rightarrow> (nchain \<Rightarrow> ('k readWriter, unit) step) \<Rightarrow> ('k readWriter, unit) step" where
  "for_hooked crw body rw =
     range_slice rw_chains 0 (glen (rw_chains rw))
       (\<lambda>c rw. if ch_family c = rw_family rw \<and> ChainHook (Some (hook_value (crw_hook crw))) c
               then body c rw else (Ok (), rw)) rw"

text \<open>\<open>Present\<close> and \<open>CleanUp\<close> of the three implementations of \<open>ChainMutation\<close>.\<close>

definition plainChain_Present :: "'k nflib \<Rightarrow> codec \<Rightarrow> chainReadWriter \<Rightarrow> string \<Rightarrow> rule_mut list \<Rightarrow> ('k readWriter, unit) step" where [simp]:
  "plainChain_Present L E crw name rules rw = rules_present L E crw name rules rw"

definition baseChain_Present :: "'k nflib \<Rightarrow> codec \<Rightarrow> chainReadWriter \<Rightarrow> string \<Rightarrow> rule_mut list \<Rightarrow> ('k readWriter, unit) step" where [simp]:
  "baseChain_Present L E crw name rules rw =
     (if \<not> seq_Any (HookedChains crw rw) then
        andThen (AddBaseChain L crw name) (\<lambda>_. rules_present L E crw name rules) rw
      else for_hooked crw (\<lambda>c. rules_present L E crw (ch_name c) rules) rw)"

definition regularChain_Present :: "'k nflib \<Rightarrow> codec \<Rightarrow> chainReadWriter \<Rightarrow> string \<Rightarrow> rule_mut list \<Rightarrow> ('k readWriter, unit) step" where [simp]:
  "regularChain_Present L E crw name rules rw =
     (let found = fst (seq_First (Chains rw) (ChainName name)) in
      andThen
        (\<lambda>rw. case found of
            Some c \<Rightarrow> if ch_hooknum c \<noteq> None then crw_DeleteChain L crw (ch_name c) rw else (Ok (), rw)
          | None \<Rightarrow> (Ok (), rw))
        (\<lambda>_. andThen (AddRegularChain L crw name) (\<lambda>_. rules_present L E crw name rules)) rw)"

definition plainChain_CleanUp :: "'k nflib \<Rightarrow> codec \<Rightarrow> chainReadWriter \<Rightarrow> string \<Rightarrow> rule_mut list \<Rightarrow> ('k readWriter, unit) step" where [simp]:
  "plainChain_CleanUp L E crw name rules rw = rules_cleanUp L E crw name rules rw"

definition baseChain_CleanUp :: "'k nflib \<Rightarrow> codec \<Rightarrow> chainReadWriter \<Rightarrow> string \<Rightarrow> rule_mut list \<Rightarrow> ('k readWriter, unit) step" where [simp]:
  "baseChain_CleanUp L E crw name rules rw =
     for_hooked crw (\<lambda>c. rules_cleanUp L E crw (ch_name c) rules) rw"

definition regularChain_CleanUp :: "'k nflib \<Rightarrow> codec \<Rightarrow> chainReadWriter \<Rightarrow> string \<Rightarrow> rule_mut list \<Rightarrow> bool \<Rightarrow> ('k readWriter, unit) step" where [simp]:
  "regularChain_CleanUp L E crw name rules force rw =
     andThen (rules_cleanUp L E crw name rules) (\<lambda>_ rw.
       if \<not> force \<and> list_ex (\<lambda>r. rl_chain r = name) (crw_Rules crw rw) then (Ok (), rw)
       else crw_DeleteChain L crw name rw) rw"

fun chain_Present :: "'k nflib \<Rightarrow> codec \<Rightarrow> chainReadWriter \<Rightarrow> chain_mut \<Rightarrow> ('k readWriter, unit) step" where
  "chain_Present L E crw (Chain name rules) rw = plainChain_Present L E crw name rules rw"
| "chain_Present L E crw (BaseChain name rules) rw = baseChain_Present L E crw name rules rw"
| "chain_Present L E crw (RegularChain name rules force) rw = regularChain_Present L E crw name rules rw"

fun chain_CleanUp :: "'k nflib \<Rightarrow> codec \<Rightarrow> chainReadWriter \<Rightarrow> chain_mut \<Rightarrow> ('k readWriter, unit) step" where
  "chain_CleanUp L E crw (Chain name rules) rw = plainChain_CleanUp L E crw name rules rw"
| "chain_CleanUp L E crw (BaseChain name rules) rw = baseChain_CleanUp L E crw name rules rw"
| "chain_CleanUp L E crw (RegularChain name rules force) rw = regularChain_CleanUp L E crw name rules force rw"

section \<open>Tables\<close>

record table_mut =
  tm_name :: string
  tm_hook :: hook
  tm_chains :: "chain_mut list"
  tm_sets :: "set_mut list"

definition Table :: "string \<Rightarrow> hook \<Rightarrow> table_mut" where
  "Table name h = \<lparr>tm_name = name, tm_hook = h, tm_chains = [], tm_sets = []\<rparr>"

definition table_AddChain :: "chain_mut list \<Rightarrow> table_mut \<Rightarrow> table_mut" where
  "table_AddChain cs t = t\<lparr>tm_chains := tm_chains t @ cs\<rparr>"

definition table_AddSet :: "set_mut list \<Rightarrow> table_mut \<Rightarrow> table_mut" where
  "table_AddSet ss t = t\<lparr>tm_sets := tm_sets t @ ss\<rparr>"

text \<open>The loop of \<open>mostFrequencyTable\<close> over the chains, with its candidate and its counter.\<close>

fun most_frequency :: "chain_type \<Rightarrow> nchain list \<Rightarrow> string \<Rightarrow> int \<Rightarrow> string" where
  "most_frequency ct [] name count = name"
| "most_frequency ct (c # cs) name count =
     (if ch_type c = ct then
        if ch_table c = name then most_frequency ct cs name (count + 1)
        else if count - 1 < 0 then most_frequency ct cs (ch_table c) 1
        else most_frequency ct cs name (count - 1)
      else most_frequency ct cs name count)"

definition mostFrequencyTable :: "'k readWriter \<Rightarrow> chain_type \<Rightarrow> string \<Rightarrow> string" where
  "mostFrequencyTable rw ct fallback = most_frequency ct (Chains rw) fallback 1"

text \<open>The keys of the map \<open>groups\<close>.\<close>

definition group_keys :: "hook \<Rightarrow> 'k readWriter \<Rightarrow> string list" where
  "group_keys h rw = remdups (map ch_table (seq_Filter (Chains rw) (chainMatchPredicate h)))"

fun groups_present :: "'k nflib \<Rightarrow> codec \<Rightarrow> hook \<Rightarrow> chain_mut list \<Rightarrow> set_mut list \<Rightarrow> string list \<Rightarrow>
    ('k readWriter, unit) step" where
  "groups_present L E h chs sets [] rw = (Ok (), rw)"
| "groups_present L E h chs sets (name # names) rw =
     (let crw = \<lparr>crw_table = name, crw_hook = h\<rparr> in
      andThen (sets_Present L crw sets) (\<lambda>sets'.
        andThen (runPresent (chain_Present L E crw) chs) (\<lambda>_.
          groups_present L E h chs sets' names)) rw)"

definition table_Present :: "'k nflib \<Rightarrow> codec \<Rightarrow> table_mut \<Rightarrow> ('k readWriter, unit) step" where
  "table_Present L E t rw =
     (let groups = group_keys (tm_hook t) rw in
      if groups = [] then
        (let name = mostFrequencyTable rw (ChainType (tm_hook t)) (tm_name t) in
         andThen (wrapped ''failed to add table to nftables'' (AddTable L name)) (\<lambda>_.
           groups_present L E (tm_hook t) (tm_chains t) (tm_sets t) [name]) rw)
      else groups_present L E (tm_hook t) (tm_chains t) (tm_sets t) (go_map_order L (rw_kernel rw) groups) rw)"

definition table_CleanUp :: "'k nflib \<Rightarrow> codec \<Rightarrow> table_mut \<Rightarrow> ('k readWriter, unit) step" where
  "table_CleanUp L E t rw =
     run_all (map (\<lambda>name.
         let crw = \<lparr>crw_table = name, crw_hook = tm_hook t\<rparr> in
         andThen (runCleanUp (chain_CleanUp L E crw) (tm_chains t)) (\<lambda>_.
           runCleanUp set_CleanUp (tm_sets t)))
       (go_map_order L (rw_kernel rw) (group_keys (tm_hook t) rw))) rw"

end
