(* ===== verification/RuleFacts.thy ===== *)
theory RuleFacts
  imports Mutation
begin

text \<open>
  Correctness of rule mutations: which rules a cleanup deletes (the deleting loop of \<open>Ranging\<close> on
  the rules of the read-writer), when that is all of them, and what presenting a rule does on each
  branch.
\<close>

definition owned :: "codec \<Rightarrow> ruleReadWriter \<Rightarrow> family \<Rightarrow> condition \<Rightarrow> nrule \<Rightarrow> bool" where
  "owned E rrw fam c r \<longleftrightarrow> rule_test E rrw fam c r = Some True"

text \<open>The rules a condition can be compared with without the matcher reading behind their end.\<close>

definition readable :: "codec \<Rightarrow> ruleReadWriter \<Rightarrow> condition \<Rightarrow> 'k readWriter \<Rightarrow> bool" where
  "readable E rrw c rw \<longleftrightarrow> (\<forall>r \<in> set (elems (rw_rules rw)). rule_test E rrw (rw_family rw) c r \<noteq> None)"

definition rrw_cmd :: "ruleReadWriter \<Rightarrow> family \<Rightarrow> nrule \<Rightarrow> nft_cmd" where
  "rrw_cmd rrw fam r = del_cmd (crw_table (rrw_crw rrw)) (rrw_chain rrw) fam r"

definition rrw_ready :: "'k nflib \<Rightarrow> ruleReadWriter \<Rightarrow> 'k readWriter \<Rightarrow> bool" where
  "rrw_ready L rrw rw \<longleftrightarrow> del_ready L (crw_table (rrw_crw rrw)) (rrw_chain rrw) (rw_family rw) rw \<and>
     distinct (map rl_handle (elems (rw_rules rw)))"

text \<open>The outcome of deleting \<open>ds\<close>.\<close>

definition deleted :: "ruleReadWriter \<Rightarrow> nrule list \<Rightarrow> 'k readWriter \<Rightarrow> 'k readWriter \<Rightarrow> bool" where
  "deleted rrw ds rw rw' \<longleftrightarrow>
     conn_log rw' = conn_log rw @ map (rrw_cmd rrw (rw_family rw)) ds \<and>
     elems (rw_rules rw') = filter (\<lambda>r. rl_handle r \<notin> rl_handle ` set ds) (elems (rw_rules rw)) \<and>
     rules_frame rw' = rules_frame rw"

lemma owned_iff:
  "owned E rrw fam c r \<longleftrightarrow> rl_table r = crw_table (rrw_crw rrw) \<and> rl_family r = fam \<and>
     rl_chain r = rrw_chain rrw \<and> RuleExpr E c r = Some True"
  by (auto simp: owned_def rule_test_def RuleChainName_def)

lemma rrw_DeleteRule_eq:
  "rrw_DeleteRule L rrw h = DeleteRule L (crw_table (rrw_crw rrw)) (rrw_chain rrw) h"
  by (simp add: rrw_DeleteRule_def crw_DeleteRule_def)

lemma delete_if_eq:
  assumes "rule_test E rrw (rw_family rw) c r \<noteq> None"
  shows "delete_if L E rrw c r rw =
    (if owned E rrw (rw_family rw) c r
     then DeleteRule L (crw_table (rrw_crw rrw)) (rrw_chain rrw) (rl_handle r) rw else (Ok (), rw))"
  using assms by (auto simp: delete_if_def owned_def rrw_DeleteRule_eq split: option.splits)

lemma delete_loop:
  assumes "rrw_ready L rrw rw" and "readable E rrw c rw" and "k \<le> glen (rw_rules rw)"
  shows "\<exists>rw'. range_slice rw_rules k (glen (rw_rules rw) - k) (delete_if L E rrw c) rw = (Ok (), rw') \<and>
    deleted rrw (sweep (owned E rrw (rw_family rw) c) (drop k (elems (rw_rules rw)))) rw rw'"
proof -
  let ?t = "crw_table (rrw_crw rrw)" and ?f = "rw_family rw"
  have ready: "del_ready L ?t (rrw_chain rrw) ?f rw"
    and wf: "wf_slice (rw_rules rw)" and dist: "distinct (map rl_handle (elems (rw_rules rw)))"
    using assms(1) by (auto simp: rrw_ready_def del_ready_def)
  have body: "delete_if L E rrw c r rw1 =
      (if owned E rrw ?f c r then DeleteRule L ?t (rrw_chain rrw) (rl_handle r) rw1 else (Ok (), rw1))"
    if "r \<in> set (elems (rw_rules rw))" "del_ready L ?t (rrw_chain rrw) ?f rw1" for r and rw1 :: "'a readWriter"
  proof -
    have "rw_family rw1 = ?f" using that by (simp add: del_ready_def)
    with that(1) assms(2) delete_if_eq [of E rrw rw1 c r L] show ?thesis
      by (simp add: readable_def)
  qed
  from rules.range_sweeps [OF ready wf dist assms(3) body]
  show ?thesis by (auto simp: rules.deletes_def deleted_def rrw_cmd_def)
qed

lemma cleanUp_sweeps:
  assumes "rrw_ready L rrw rw" and "readable E rrw (rm_expr r) rw"
  shows "\<exists>rw'. rule_CleanUp L E rrw r rw = (Ok (), rw') \<and>
    deleted rrw (sweep (owned E rrw (rw_family rw) (rm_expr r)) (elems (rw_rules rw))) rw rw'"
  using delete_loop [OF assms, of 0] by (simp add: rule_CleanUp_def)

lemma distinct_handles_filter:
  assumes "distinct (map key xs)" and "set ds \<subseteq> set xs"
  shows "filter (\<lambda>x. key x \<notin> key ` set ds) xs = filter (\<lambda>x. x \<notin> set ds) xs"
proof (rule filter_cong [OF refl])
  fix x assume "x \<in> set xs"
  then show "(key x \<notin> key ` set ds) = (x \<notin> set ds)"
    using assms by (auto simp: distinct_map inj_on_def)
qed

section \<open>Finding the first match\<close>

lemma first_match_Some:
  assumes "\<forall>x \<in> set xs. p x \<noteq> None"
  shows "first_match p xs = Some (find_index (\<lambda>x. p x = Some True) xs)"
  using assms by (induction xs) (auto split: option.splits)

lemma rule_Present_readable:
  assumes "readable E rrw (rm_expr r) rw"
  shows "rule_Present L E rrw r rw =
    (case find_index (owned E rrw (rw_family rw) (rm_expr r)) (elems (rw_rules rw)) of
       Some k \<Rightarrow> range_slice rw_rules (Suc k) (glen (rw_rules rw) - Suc k) (delete_if L E rrw (rm_expr r)) rw
     | None \<Rightarrow> rrw_AddRule L rrw (Build E (rm_expr r)) (rm_first r) (Marshal (rm_comment r)) rw)"
proof -
  have "(\<lambda>x. rule_test E rrw (rw_family rw) (rm_expr r) x = Some True) = owned E rrw (rw_family rw) (rm_expr r)"
    by (simp add: owned_def fun_eq_iff)
  then show ?thesis
    using assms by (simp add: rule_Present_def first_match_Some readable_def split: option.split)
qed

text \<open>No rule of ours yet: exactly one is added.\<close>

lemma rule_Present_adds:
  assumes "readable E rrw (rm_expr r) rw" and "is_open rw"
    and "\<forall>x \<in> set (elems (rw_rules rw)). \<not> owned E rrw (rw_family rw) (rm_expr r) x"
  shows "rule_Present L E rrw r rw = (Ok (), queue_cmd
    ((if rm_first r then CInsertRule else CAddRule) (crw_table (rrw_crw rrw)) (rw_family rw)
       (rrw_chain rrw) (Build E (rm_expr r)) (Marshal (rm_comment r))) rw)"
  using assms
  by (simp add: rule_Present_readable find_index_None [THEN iffD2] rrw_AddRule_def crw_AddRule_def AddRule_open)

text \<open>A rule of ours is there: the first is kept, nothing is added, duplicates behind it go.\<close>

lemma rule_Present_keeps:
  assumes "readable E rrw (rm_expr r) rw" and "rrw_ready L rrw rw"
    and "find_index (owned E rrw (rw_family rw) (rm_expr r)) (elems (rw_rules rw)) = Some k"
  shows "\<exists>rw'. rule_Present L E rrw r rw = (Ok (), rw') \<and>
    deleted rrw (sweep (owned E rrw (rw_family rw) (rm_expr r)) (drop (Suc k) (elems (rw_rules rw)))) rw rw'"
proof -
  have "wf_slice (rw_rules rw)" using assms(2) by (simp add: rrw_ready_def del_ready_def)
  then have "Suc k \<le> glen (rw_rules rw)"
    using find_index_Some [OF assms(3)] by (simp add: length_elems)
  then show ?thesis
    using delete_loop [OF assms(2,1), of "Suc k"] by (simp add: rule_Present_readable assms)
qed

lemma deleted_Nil: "deleted rrw [] rw rw' \<Longrightarrow> conn_log rw' = conn_log rw \<and> elems (rw_rules rw') = elems (rw_rules rw)"
  by (simp add: deleted_def)

section \<open>The theorems\<close>


text \<open>
  One cleanup removes every rule of the mutation when no two of them are neighbours in the
  snapshot.
\<close>

theorem rule_CleanUp_complete:
  assumes "rrw_ready L rrw rw" and "readable E rrw (rm_expr r) rw"
    and "no_adjacent (owned E rrw (rw_family rw) (rm_expr r)) (elems (rw_rules rw))"
  shows "\<exists>rw'. rule_CleanUp L E rrw r rw = (Ok (), rw') \<and>
    elems (rw_rules rw') = filter (\<lambda>x. \<not> owned E rrw (rw_family rw) (rm_expr r) x) (elems (rw_rules rw)) \<and>
    conn_log rw' = conn_log rw @
      map (rrw_cmd rrw (rw_family rw)) (filter (owned E rrw (rw_family rw) (rm_expr r)) (elems (rw_rules rw)))"
proof -
  let ?P = "owned E rrw (rw_family rw) (rm_expr r)" and ?es = "elems (rw_rules rw)"
  have "distinct (map rl_handle ?es)" using assms(1) by (simp add: rrw_ready_def)
  then have "filter (\<lambda>x. rl_handle x \<notin> rl_handle ` set (filter ?P ?es)) ?es = filter (\<lambda>x. \<not> ?P x) ?es"
    by (subst distinct_handles_filter) (auto intro: filter_cong)
  with cleanUp_sweeps [OF assms(1,2)] sweep_no_adjacent [OF assms(3)] show ?thesis
    by (auto simp: deleted_def)
qed

text \<open>
  One cleanup removes at least half of the mutation's rules, and none but those.
\<close>

theorem rule_CleanUp_progress:
  assumes "rrw_ready L rrw rw" and "readable E rrw (rm_expr r) rw"
  shows "\<exists>rw' ds. rule_CleanUp L E rrw r rw = (Ok (), rw') \<and> deleted rrw ds rw rw' \<and>
    (\<forall>x \<in> set ds. x \<in> set (elems (rw_rules rw)) \<and> owned E rrw (rw_family rw) (rm_expr r) x) \<and>
    length (filter (owned E rrw (rw_family rw) (rm_expr r)) (elems (rw_rules rw))) \<le> 2 * length ds"
proof -
  let ?P = "owned E rrw (rw_family rw) (rm_expr r)" and ?es = "elems (rw_rules rw)"
  obtain rw' where "rule_CleanUp L E rrw r rw = (Ok (), rw')" "deleted rrw (sweep ?P ?es) rw rw'"
    using cleanUp_sweeps [OF assms] by blast
  with sweep_subset [of ?P ?es] sweep_half [of ?P ?es] show ?thesis by blast
qed

text \<open>
  Presenting a rule keeps exactly one: none there, one is added with the expressions the
  condition builds and the comment; one there, no command is queued.
\<close>

theorem rule_Present_single:
  assumes "rrw_ready L rrw rw" and "readable E rrw (rm_expr r) rw"
    and "length (filter (owned E rrw (rw_family rw) (rm_expr r)) (elems (rw_rules rw))) \<le> 1"
  shows "\<exists>rw'. rule_Present L E rrw r rw = (Ok (), rw') \<and>
    elems (rw_rules rw') = elems (rw_rules rw) \<and>
    conn_log rw' = conn_log rw @
      (if \<exists>x \<in> set (elems (rw_rules rw)). owned E rrw (rw_family rw) (rm_expr r) x then []
       else [(if rm_first r then CInsertRule else CAddRule) (crw_table (rrw_crw rrw)) (rw_family rw)
               (rrw_chain rrw) (Build E (rm_expr r)) (Marshal (rm_comment r))])"
proof (cases "find_index (owned E rrw (rw_family rw) (rm_expr r)) (elems (rw_rules rw))")
  case None
  then have none: "\<forall>x \<in> set (elems (rw_rules rw)). \<not> owned E rrw (rw_family rw) (rm_expr r) x"
    by (simp add: find_index_None)
  moreover have "is_open rw" using assms(1) by (simp add: rrw_ready_def del_ready_def)
  ultimately show ?thesis
    using rule_Present_adds [OF assms(2)] by simp
next
  case (Some k)
  let ?P = "owned E rrw (rw_family rw) (rm_expr r)" and ?es = "elems (rw_rules rw)"
  have k: "k < length ?es" "?P (?es ! k)" using find_index_Some [OF Some] by auto
  have "length (filter ?P (take k ?es @ ?es ! k # drop (Suc k) ?es)) \<le> 1"
    using assms(3) k(1) by (simp add: id_take_nth_drop [symmetric])
  then have "\<forall>x \<in> set (drop (Suc k) ?es). \<not> ?P x"
    using k(2) by (simp add: filter_empty_conv)
  then have "sweep ?P (drop (Suc k) ?es) = []" by (simp add: sweep_nonempty)
  with rule_Present_keeps [OF assms(2,1) Some] k show ?thesis
    by (auto simp: deleted_def dest: nth_mem)
qed

section \<open>A reader with neighbouring rules of one mutation\<close>

definition demo_lib :: "nchain list \<Rightarrow> nrule list \<Rightarrow> unit result \<Rightarrow> unit nflib" where
  "demo_lib chs rules flush = \<lparr>
     lib_New = (\<lambda>k. (Ok (), k)), lib_ListTablesOfFamily = (\<lambda>f k. (Ok [], k)),
     lib_ListChains = (\<lambda>k. (Ok chs, k)),
     lib_GetRules = (\<lambda>c k. (Ok (filter (\<lambda>r. rl_table r = ch_table c \<and> rl_chain r = ch_name c) rules), k)),
     lib_GetSets = (\<lambda>t k. (Ok [], k)), lib_GetSetElements = (\<lambda>s k. (Ok [], k)),
     lib_DelRule = (\<lambda>c. None), lib_AddSet = (\<lambda>c. None), lib_Flush = (\<lambda>cs k. (flush, k)),
     go_map_order = (\<lambda>k ks. ks)\<rparr>"

definition demo_reader :: "nchain list \<Rightarrow> nrule list \<Rightarrow> unit readWriter" where
  "demo_reader chs rules = \<lparr>rw_name = ''KERTICAL'', rw_family = TableFamilyIPv4, rw_tables = slice_of [],
     rw_chains = slice_of chs, rw_rules = slice_of rules, rw_sets = [], rw_conn = Some [], rw_kernel = ()\<rparr>"

definition demo_rule :: "64 word \<Rightarrow> nrule" where
  "demo_rule h = \<lparr>rl_table = ''nat'', rl_family = TableFamilyIPv4, rl_chain = ''KERTICAL-OUTPUT'',
     rl_handle = h, rl_exprs = [Counter 0 0, Verdict VerdictAccept []], rl_userdata = None\<rparr>"

definition demo_rrw :: ruleReadWriter where
  "demo_rrw = \<lparr>rrw_crw = \<lparr>crw_table = ''nat'', crw_hook = ChainHookOutput\<rparr>, rrw_chain = ''KERTICAL-OUTPUT''\<rparr>"

lemma demo_rrw_simps [simp]: "crw_table (rrw_crw demo_rrw) = ''nat''" "rrw_chain demo_rrw = ''KERTICAL-OUTPUT''"
  by (simp_all add: demo_rrw_def)

lemma demo_lib_simps [simp]:
  "lib_DelRule (demo_lib chs rules fl) c = None" "lib_AddSet (demo_lib chs rules fl) c = None"
  "go_map_order (demo_lib chs rules fl) k ks = ks"
  by (simp_all add: demo_lib_def)

lemma demo_reader_simps [simp]:
  "rw_rules (demo_reader chs rules) = slice_of rules" "rw_chains (demo_reader chs rules) = slice_of chs"
  "rw_family (demo_reader chs rules) = TableFamilyIPv4" "is_open (demo_reader chs rules)"
  "conn_log (demo_reader chs rules) = []"
  by (simp_all add: demo_reader_def is_open_def conn_log_def)

lemma demo_rule_test [simp]:
  "rule_test E demo_rrw TableFamilyIPv4 (Combine [Counting, Accept]) (demo_rule h) = Some True"
  by (simp add: rule_test_def demo_rrw_def demo_rule_def RuleChainName_def RuleExpr_walk is_counter_def expr_sim_def)

definition foreign_rule :: "64 word \<Rightarrow> nrule" where
  "foreign_rule h = (demo_rule h)\<lparr>rl_chain := ''OUTPUT''\<rparr>"

lemma foreign_rule_test [simp]: "rule_test E demo_rrw TableFamilyIPv4 c (foreign_rule h) = Some False"
  by (simp add: rule_test_def demo_rrw_def demo_rule_def foreign_rule_def RuleChainName_def)

lemma demo_owned [simp]:
  "owned E demo_rrw TableFamilyIPv4 (Combine [Counting, Accept]) (demo_rule h)"
  "\<not> owned E demo_rrw TableFamilyIPv4 c (foreign_rule h)"
  by (simp_all add: owned_def)

lemma demo_handle [simp]: "rl_handle (demo_rule h) = h" "rl_handle (foreign_rule h) = h"
  by (simp_all add: demo_rule_def foreign_rule_def)

lemma demo_ready [simp]:
  "rrw_ready (demo_lib chs rules fl) demo_rrw (demo_reader chs' rs) \<longleftrightarrow> distinct (map rl_handle rs)"
  by (simp add: rrw_ready_def del_ready_def)

definition demo_mut :: rule_mut where
  "demo_mut = Rule [Counting, Accept]"

lemma demo_mut_simps [simp]: "rm_expr demo_mut = Combine [Counting, Accept]" "rm_first demo_mut = False" "rm_comment demo_mut = []"
  by (simp_all add: demo_mut_def Rule_def)


lemma rule_CleanUp_complete_witness:
  "\<exists>rw'. rule_CleanUp (demo_lib [] [] (Ok ())) le_codec demo_rrw demo_mut
       (demo_reader [] [demo_rule 1, foreign_rule 2, demo_rule 3]) = (Ok (), rw') \<and>
     elems (rw_rules rw') = [foreign_rule 2]"
proof -
  let ?rw = "demo_reader [] [demo_rule 1, foreign_rule 2, demo_rule 3]"
  have "rrw_ready (demo_lib [] [] (Ok ())) demo_rrw ?rw" "readable le_codec demo_rrw (rm_expr demo_mut) ?rw"
    "no_adjacent (owned le_codec demo_rrw (rw_family ?rw) (rm_expr demo_mut)) (elems (rw_rules ?rw))"
    by (simp_all add: readable_def del: not_None_eq)
  from rule_CleanUp_complete [OF this] show ?thesis by auto
qed

lemma rule_CleanUp_progress_witness:
  "\<exists>rw' ds. rule_CleanUp (demo_lib [] [] (Ok ())) le_codec demo_rrw demo_mut
       (demo_reader [] [demo_rule 1, demo_rule 2, demo_rule 3]) = (Ok (), rw') \<and>
     set ds \<subseteq> {demo_rule 1, demo_rule 2, demo_rule 3} \<and> 2 \<le> length ds"
proof -
  let ?rw = "demo_reader [] [demo_rule 1, demo_rule 2, demo_rule 3]"
  have "rrw_ready (demo_lib [] [] (Ok ())) demo_rrw ?rw" "readable le_codec demo_rrw (rm_expr demo_mut) ?rw"
    by (simp_all add: readable_def del: not_None_eq)
  from rule_CleanUp_progress [OF this] obtain rw' ds where
    "rule_CleanUp (demo_lib [] [] (Ok ())) le_codec demo_rrw demo_mut ?rw = (Ok (), rw')"
    "\<forall>x \<in> set ds. x \<in> set (elems (rw_rules ?rw))"
    "length (filter (owned le_codec demo_rrw (rw_family ?rw) (rm_expr demo_mut)) (elems (rw_rules ?rw))) \<le> 2 * length ds"
    by blast
  then show ?thesis by (intro exI [of _ rw'] exI [of _ ds]) auto
qed

lemma rule_Present_single_witness:
  "\<exists>rw'. rule_Present (demo_lib [] [] (Ok ())) le_codec demo_rrw demo_mut
       (demo_reader [] [foreign_rule 2]) = (Ok (), rw') \<and>
     conn_log rw' = [CAddRule ''nat'' TableFamilyIPv4 ''KERTICAL-OUTPUT'' [Counter 0 0, Verdict VerdictAccept []] None]"
proof -
  let ?rw = "demo_reader [] [foreign_rule 2]"
  have "rrw_ready (demo_lib [] [] (Ok ())) demo_rrw ?rw" "readable le_codec demo_rrw (rm_expr demo_mut) ?rw"
    "length (filter (owned le_codec demo_rrw (rw_family ?rw) (rm_expr demo_mut)) (elems (rw_rules ?rw))) \<le> 1"
    by (simp_all add: readable_def del: not_None_eq)
  from rule_Present_single [OF this] show ?thesis by (auto simp: Marshal_def)
qed

end
