(* ===== verification/TableFacts.thy ===== *)
theory TableFacts
  imports RuleFacts "HOL-Library.Multiset"
begin

text \<open>
  Tables: the table elected when no table has the hook, what the mutations of chains and tables may
  queue (on every path, failing ones included), which tables they reach, and the anonymous sets.
\<close>

section \<open>Electing a table\<close>

definition votes :: "chain_type \<Rightarrow> nchain list \<Rightarrow> string list" where
  "votes ct cs = map ch_table (filter (\<lambda>c. ch_type c = ct) cs)"

definition lead :: "string \<Rightarrow> string list \<Rightarrow> int" where
  "lead m vs = int (count_list vs m) - int (length (filter (\<lambda>v. v \<noteq> m) vs))"

lemma votes_simps [simp]:
  "votes ct [] = []"
  "votes ct (c # cs) = (if ch_type c = ct then ch_table c # votes ct cs else votes ct cs)"
  by (simp_all add: votes_def)

lemma lead_simps [simp]:
  "lead m [] = 0" "lead m (v # vs) = (if v = m then lead m vs + 1 else lead m vs - 1)"
  by (simp_all add: lead_def)

lemma most_frequency_lead:
  assumes "0 \<le> n" and "0 < (if name = m then n else - n) + lead m (votes ct cs)"
  shows "most_frequency ct cs name n = m"
  using assms by (induction cs arbitrary: name n) (auto split: if_splits)

lemma most_frequency_candidates:
  "most_frequency ct cs name n \<in> insert name (set (votes ct cs))"
  by (induction ct cs name n rule: most_frequency.induct) auto

text \<open>
  The elected table. A table whose chains of the type outnumber all the others' by two wins; the
  fallback needs no more than a tie; and whatever wins is the fallback or the table of such a chain.
\<close>

theorem mostFrequencyTable_elects:
  "(2 \<le> lead m (votes ct (Chains rw)) \<longrightarrow> mostFrequencyTable rw ct fallback = m) \<and>
   (0 \<le> lead fallback (votes ct (Chains rw)) \<longrightarrow> mostFrequencyTable rw ct fallback = fallback) \<and>
   mostFrequencyTable rw ct fallback \<in> insert fallback (set (votes ct (Chains rw)))"
  using most_frequency_lead [of 1 fallback m ct "Chains rw"]
    most_frequency_lead [of 1 fallback fallback ct "Chains rw"]
    most_frequency_candidates [of ct "Chains rw" fallback 1]
  by (auto simp: mostFrequencyTable_def)

text \<open>Four NAT chains, two of them in the same table: the one with a single chain is elected.\<close>

definition nat_chain :: "string \<Rightarrow> string \<Rightarrow> nchain" where
  "nat_chain table name = \<lparr>ch_table = table, ch_family = TableFamilyIPv4, ch_name = name,
     ch_hooknum = None, ch_priority = None, ch_type = ChainTypeNAT\<rparr>"

text \<open>
  The table with the most chains of the type need not be the one elected.
\<close>

theorem mostFrequencyTable_not_most_frequent:
  "\<exists>cs :: nchain list. count_list (votes ChainTypeNAT cs) ''a'' = 2 \<and>
     count_list (votes ChainTypeNAT cs) ''c'' = 1 \<and>
     most_frequency ChainTypeNAT cs ''nat'' 1 = ''c''"
  by (rule exI [of _ "[nat_chain ''a'' ''x'', nat_chain ''a'' ''y'', nat_chain ''b'' ''x'', nat_chain ''c'' ''x'']"])
    (simp add: nat_chain_def)

section \<open>What a step may queue\<close>

text \<open>
  \<open>emits fam Q m\<close>: on an open connection of the family, the step \<open>m\<close> only appends commands that
  satisfy \<open>Q\<close>, whether it succeeds, fails or panics, and keeps the connection open.
\<close>

definition grows :: "(nft_cmd \<Rightarrow> bool) \<Rightarrow> 'k readWriter \<Rightarrow> 'k readWriter \<Rightarrow> bool" where
  "grows Q rw rw' \<longleftrightarrow> is_open rw' \<and> rw_family rw' = rw_family rw \<and> rw_kernel rw' = rw_kernel rw \<and>
     (\<exists>new. conn_log rw' = conn_log rw @ new \<and> (\<forall>c \<in> set new. Q c))"

definition emits :: "family \<Rightarrow> (nft_cmd \<Rightarrow> bool) \<Rightarrow> ('k readWriter, 'a) step \<Rightarrow> bool" where
  "emits fam Q m \<longleftrightarrow> (\<forall>rw. is_open rw \<and> rw_family rw = fam \<longrightarrow> grows Q rw (snd (m rw)))"

named_theorems emits_intros \<open>what steps may queue\<close>

lemma grows_refl [simp]: "is_open rw \<Longrightarrow> grows Q rw rw"
  by (simp add: grows_def)

lemma grows_trans: "grows Q rw rw' \<Longrightarrow> grows Q rw' rw'' \<Longrightarrow> grows Q rw rw''"
  by (auto simp: grows_def)

lemma grows_weaken: "grows Q rw rw' \<Longrightarrow> (\<And>c. Q c \<Longrightarrow> R c) \<Longrightarrow> grows R rw rw'"
  by (auto simp: grows_def)

lemma grows_queue: "is_open rw \<Longrightarrow> Q c \<Longrightarrow> grows Q rw (queue_cmd c rw)"
  by (simp add: grows_def)

lemma emits_pure [emits_intros]: "emits fam Q (\<lambda>rw. (r rw, rw))"
  by (simp add: emits_def)

lemma emits_andThen [emits_intros]:
  assumes "emits fam Q m" and "\<And>a. emits fam Q (f a)"
  shows "emits fam Q (andThen m f)"
  unfolding emits_def
proof (intro allI impI)
  fix rw :: "'a readWriter" assume rw: "is_open rw \<and> rw_family rw = fam"
  then have 1: "grows Q rw (snd (m rw))" using assms(1) by (simp add: emits_def)
  then have "is_open (snd (m rw)) \<and> rw_family (snd (m rw)) = fam" using rw by (simp add: grows_def)
  then have 2: "grows Q (snd (m rw)) (snd (f a (snd (m rw))))" for a
    using assms(2) by (simp add: emits_def)
  show "grows Q rw (snd (andThen m f rw))"
    using 1 2 by (cases "m rw"; cases "fst (m rw)") (auto simp: andThen_def intro: grows_trans)
qed

lemma emits_run_all [emits_intros]:
  "(\<And>m. m \<in> set ms \<Longrightarrow> emits fam Q m) \<Longrightarrow> emits fam Q (run_all ms)"
proof (induction ms)
  case Nil
  then show ?case by (simp add: emits_def)
next
  case (Cons m ms)
  have "emits fam Q (andThen m (\<lambda>_. run_all ms))"
    by (intro emits_andThen) (use Cons in auto)
  then show ?case by (simp add: emits_def)
qed

lemma emits_runPresent [emits_intros]:
  "(\<And>m. m \<in> set ms \<Longrightarrow> emits fam Q (pr m)) \<Longrightarrow> emits fam Q (runPresent pr ms)"
  unfolding runPresent_def by (rule emits_run_all) auto

lemma emits_runCleanUp [emits_intros]:
  "(\<And>m. m \<in> set ms \<Longrightarrow> emits fam Q (cl m)) \<Longrightarrow> emits fam Q (runCleanUp cl ms)"
  unfolding runCleanUp_def by (rule emits_run_all) auto

lemma emits_range_slice [emits_intros]:
  "(\<And>x. emits fam Q (body x)) \<Longrightarrow> emits fam Q (range_slice view k n body)"
proof (induction n arbitrary: k)
  case 0
  then show ?case by (simp add: emits_def)
next
  case (Suc n)
  have "emits fam Q (\<lambda>rw. andThen (body (backing (view rw) ! k)) (\<lambda>_. range_slice view (Suc k) n body) rw)"
    using emits_andThen [OF Suc.prems, of "\<lambda>_. range_slice view (Suc k) n body"] Suc
    by (simp add: emits_def)
  then show ?case by (simp add: emits_def)
qed

lemma emits_weaken: "emits fam Q m \<Longrightarrow> (\<And>c. Q c \<Longrightarrow> R c) \<Longrightarrow> emits fam R m"
  by (fastforce simp: emits_def grows_def)

lemma emitsI: "(\<And>rw. is_open rw \<Longrightarrow> rw_family rw = fam \<Longrightarrow> grows Q rw (snd (m rw))) \<Longrightarrow> emits fam Q m"
  by (simp add: emits_def)

lemma emitsD: "emits fam Q m \<Longrightarrow> is_open rw \<Longrightarrow> rw_family rw = fam \<Longrightarrow> grows Q rw (snd (m rw))"
  by (simp add: emits_def)

lemma emits_wrapped [emits_intros]: "emits fam Q m \<Longrightarrow> emits fam Q (wrapped s m)"
  by (simp add: emits_def)

section \<open>The writers\<close>

lemma emits_AddTable [emits_intros]: "Q (CAddTable name fam) \<Longrightarrow> emits fam Q (AddTable L name)"
  by (auto simp: emits_def AddTable_open intro: grows_queue)

lemma emits_AddChain [emits_intros]:
  "(\<And>c p. new_chain fam table name h = (c, p) \<Longrightarrow> Q (CAddChain c p)) \<Longrightarrow> emits fam Q (AddChain L table name h)"
  by (auto simp: emits_def AddChain_open intro!: grows_queue split: prod.split)

lemma emits_AddRule [emits_intros]:
  "Q ((if first then CInsertRule else CAddRule) table fam chain es comment) \<Longrightarrow>
   emits fam Q (AddRule L table chain es first comment)"
  by (auto simp: emits_def AddRule_open intro: grows_queue)

lemma emits_DeleteChain [emits_intros]:
  "Q (CDelChain table fam name) \<Longrightarrow> emits fam Q (DeleteChain L table name)"
  by (auto simp: emits_def grows_def DeleteChain_def withOpenConn_open split: option.split)

lemma emits_DeleteRule [emits_intros]:
  "Q (CDelRule table fam chain h) \<Longrightarrow> emits fam Q (DeleteRule L table chain h)"
  by (auto simp: emits_def grows_def DeleteRule_open Let_def split: option.split)

lemma emits_AddSet [emits_intros]:
  "(\<And>b. Q (CAddSet table fam sid name b key val kvs comment)) \<Longrightarrow>
   emits fam Q (AddSet L table sid name key val kvs comment)"
  by (auto simp: emits_def AddSet_def withOpenConn_open Let_def intro: grows_queue split: option.split)


section \<open>The mutations\<close>

text \<open>The commands a list of rules may queue in a chain.\<close>

fun rule_cmd_in :: "string \<Rightarrow> family \<Rightarrow> (string \<Rightarrow> bool) \<Rightarrow> nft_cmd \<Rightarrow> bool" where
  "rule_cmd_in table fam ok (CAddRule t f c es u) \<longleftrightarrow> t = table \<and> f = fam \<and> ok c"
| "rule_cmd_in table fam ok (CInsertRule t f c es u) \<longleftrightarrow> t = table \<and> f = fam \<and> ok c"
| "rule_cmd_in table fam ok (CDelRule t f c h) \<longleftrightarrow> t = table \<and> f = fam \<and> ok c"
| "rule_cmd_in table fam ok _ \<longleftrightarrow> False"

fun is_deletion :: "nft_cmd \<Rightarrow> bool" where
  "is_deletion (CDelRule _ _ _ _) \<longleftrightarrow> True"
| "is_deletion (CDelChain _ _ _) \<longleftrightarrow> True"
| "is_deletion (CDelTable _ _) \<longleftrightarrow> True"
| "is_deletion _ \<longleftrightarrow> False"

fun cmd_table :: "nft_cmd \<Rightarrow> string" where
  "cmd_table (CAddTable t _) = t"
| "cmd_table (CDelTable t _) = t"
| "cmd_table (CAddChain c _) = ch_table c"
| "cmd_table (CDelChain t _ _) = t"
| "cmd_table (CAddRule t _ _ _ _) = t"
| "cmd_table (CInsertRule t _ _ _ _) = t"
| "cmd_table (CDelRule t _ _ _) = t"
| "cmd_table (CAddSet t _ _ _ _ _ _ _ _) = t"

fun cmd_family :: "nft_cmd \<Rightarrow> family" where
  "cmd_family (CAddTable _ f) = f"
| "cmd_family (CDelTable _ f) = f"
| "cmd_family (CAddChain c _) = ch_family c"
| "cmd_family (CDelChain _ f _) = f"
| "cmd_family (CAddRule _ f _ _ _) = f"
| "cmd_family (CInsertRule _ f _ _ _) = f"
| "cmd_family (CDelRule _ f _ _) = f"
| "cmd_family (CAddSet _ f _ _ _ _ _ _ _) = f"

lemma emits_delete_if [emits_intros]:
  "(\<And>h. Q (CDelRule (crw_table (rrw_crw rrw)) fam (rrw_chain rrw) h)) \<Longrightarrow>
   emits fam Q (delete_if L E rrw c r)"
  by (rule emitsI) (auto simp: delete_if_def rrw_DeleteRule_eq intro: emitsD [OF emits_DeleteRule]
      split: option.split bool.split)

lemma emits_rule_Present [emits_intros]:
  assumes "\<And>h. Q (CDelRule (crw_table (rrw_crw rrw)) fam (rrw_chain rrw) h)"
    and "\<And>es u. Q (CAddRule (crw_table (rrw_crw rrw)) fam (rrw_chain rrw) es u)"
    and "\<And>es u. Q (CInsertRule (crw_table (rrw_crw rrw)) fam (rrw_chain rrw) es u)"
  shows "emits fam Q (rule_Present L E rrw r)"
  using assms
  by (intro emitsI) (auto simp: rule_Present_def rrw_AddRule_def crw_AddRule_def
      intro!: emitsD [OF emits_range_slice] emitsD [OF emits_AddRule] emits_delete_if split: option.split)

lemma emits_rule_CleanUp [emits_intros]:
  assumes "\<And>h. Q (CDelRule (crw_table (rrw_crw rrw)) fam (rrw_chain rrw) h)"
  shows "emits fam Q (rule_CleanUp L E rrw r)"
  using assms
  by (intro emitsI) (auto simp: rule_CleanUp_def intro!: emitsD [OF emits_range_slice] emits_delete_if)

lemma emits_rules_present [emits_intros]:
  assumes "\<And>h. Q (CDelRule (crw_table crw) fam chain h)"
    and "\<And>es u. Q (CAddRule (crw_table crw) fam chain es u)"
    and "\<And>es u. Q (CInsertRule (crw_table crw) fam chain es u)"
  shows "emits fam Q (rules_present L E crw chain rules)"
  unfolding rules_present_def runPresent_def
  by (auto intro!: emits_run_all emits_rule_Present assms)

lemma emits_rules_cleanUp [emits_intros]:
  assumes "\<And>h. Q (CDelRule (crw_table crw) fam chain h)"
  shows "emits fam Q (rules_cleanUp L E crw chain rules)"
  unfolding rules_cleanUp_def runCleanUp_def
  by (auto intro!: emits_run_all emits_rule_CleanUp assms)

lemma emits_for_hooked [emits_intros]:
  "(\<And>c. emits fam Q (body c)) \<Longrightarrow> emits fam Q (for_hooked crw body)"
  by (rule emitsI) (auto simp: for_hooked_def emits_def [of _ _ "body _"]
      intro!: emitsD [OF emits_range_slice] emitsI)

lemma emits_set_Present [emits_intros]:
  "(\<And>sid name b key val kvs comment. Q (CAddSet (crw_table crw) fam sid name b key val kvs comment)) \<Longrightarrow>
   emits fam Q (set_Present L crw s)"
  unfolding set_Present_def crw_AddSet_def Let_def by (intro emits_intros)

lemma emits_sets_Present [emits_intros]:
  "(\<And>sid name b key val kvs comment. Q (CAddSet (crw_table crw) fam sid name b key val kvs comment)) \<Longrightarrow>
   emits fam Q (sets_Present L crw ss)"
proof (induction ss)
  case Nil
  then show ?case by (simp add: emits_def)
next
  case (Cons s ss)
  have "emits fam Q (andThen (set_Present L crw s) (\<lambda>s'.
       andThen (sets_Present L crw ss) (\<lambda>ss' rw. (Ok (s' # ss'), rw))))"
    by (intro emits_andThen emits_pure Cons.IH emits_set_Present Cons.prems)
  then show ?case by (simp add: emits_def)
qed

text \<open>
  What a chain mutation may queue: rules anywhere in its table, its own regular chain, the base
  chain, and for a regular chain the deletion of the chain of its name.
\<close>

fun chain_cmd_ok :: "string \<Rightarrow> family \<Rightarrow> chain_mut \<Rightarrow> nft_cmd \<Rightarrow> bool" where
  "chain_cmd_ok table fam m (CAddChain c p) \<longleftrightarrow> ch_table c = table \<and> ch_family c = fam \<and>
     (case m of Chain _ _ \<Rightarrow> False
      | BaseChain n _ \<Rightarrow> ch_name c = n \<and> ch_hooknum c \<noteq> None
      | RegularChain n _ _ \<Rightarrow> ch_name c = n \<and> ch_hooknum c = None)"
| "chain_cmd_ok table fam m (CDelChain t f n) \<longleftrightarrow> t = table \<and> f = fam \<and>
     (case m of RegularChain n' _ _ \<Rightarrow> n = n' | _ \<Rightarrow> False)"
| "chain_cmd_ok table fam m c \<longleftrightarrow> rule_cmd_in table fam (\<lambda>n. case m of
      Chain n' _ \<Rightarrow> n = n' | RegularChain n' _ _ \<Rightarrow> n = n' | BaseChain _ _ \<Rightarrow> True) c"

lemma emits_chain_Present:
  "emits fam (chain_cmd_ok (crw_table crw) fam m) (chain_Present L E crw m)"
proof (cases m)
  case (Chain n rules)
  then show ?thesis
    by (intro emitsI) (auto intro!: emitsD [OF emits_rules_present])
next
  case (BaseChain n rules)
  then show ?thesis
    by (intro emitsI) (auto simp: AddBaseChain_def new_chain_def
        intro!: emitsD [OF emits_andThen] emits_AddChain emits_rules_present emitsD [OF emits_for_hooked])
next
  case (RegularChain n rules force)
  let ?Q = "chain_cmd_ok (crw_table crw) fam m"
  have repl: "emits fam ?Q (\<lambda>rw'. case fst (seq_First (Chains rw) (ChainName n)) of
            Some c \<Rightarrow> if ch_hooknum c \<noteq> None then crw_DeleteChain L crw (ch_name c) rw' else (Ok (), rw')
          | None \<Rightarrow> (Ok (), rw'))" for rw :: "'a readWriter"
  proof (rule emitsI)
    fix rw' :: "'a readWriter"
    assume rw': "is_open rw'" "rw_family rw' = fam"
    have "ch_name c = n" if "fst (seq_First (Chains rw) (ChainName n)) = Some c" for c
      using seq_First_Some [OF that] by (simp add: ChainName_def)
    with rw' show "grows ?Q rw' (snd (case fst (seq_First (Chains rw) (ChainName n)) of
            Some c \<Rightarrow> if ch_hooknum c \<noteq> None then crw_DeleteChain L crw (ch_name c) rw' else (Ok (), rw')
          | None \<Rightarrow> (Ok (), rw')))"
      by (auto simp: crw_DeleteChain_def RegularChain intro!: emitsD [OF emits_DeleteChain] split: option.split)
  qed
  have "emits fam ?Q (andThen (AddRegularChain L crw n) (\<lambda>_. rules_present L E crw n rules))"
    by (auto simp: AddRegularChain_def new_chain_def RegularChain
        intro!: emits_andThen emits_AddChain emits_rules_present)
  note step = emits_andThen [OF repl this]
  show ?thesis
    by (rule emitsI) (use emitsD [OF step] in \<open>simp add: RegularChain Let_def\<close>)
qed

text \<open>A cleanup queues deletions only.\<close>

fun chain_del_ok :: "string \<Rightarrow> family \<Rightarrow> chain_mut \<Rightarrow> nft_cmd \<Rightarrow> bool" where
  "chain_del_ok table fam m c \<longleftrightarrow> is_deletion c \<and> chain_cmd_ok table fam m c"

lemma emits_chain_CleanUp:
  "emits fam (chain_del_ok (crw_table crw) fam m) (chain_CleanUp L E crw m)"
proof (cases m)
  case (Chain n rules)
  then show ?thesis
    by (intro emitsI) (auto intro!: emitsD [OF emits_rules_cleanUp])
next
  case (BaseChain n rules)
  then show ?thesis
    by (intro emitsI) (auto intro!: emitsD [OF emits_for_hooked] emits_rules_cleanUp)
next
  case (RegularChain n rules force)
  have "emits fam (chain_del_ok (crw_table crw) fam m) (\<lambda>rw.
       if \<not> force \<and> list_ex (\<lambda>r. rl_chain r = n) (crw_Rules crw rw) then (Ok (), rw)
       else crw_DeleteChain L crw n rw)"
    by (rule emitsI) (auto simp: crw_DeleteChain_def RegularChain intro!: emitsD [OF emits_DeleteChain])
  then have "emits fam (chain_del_ok (crw_table crw) fam m)
      (andThen (rules_cleanUp L E crw n rules) (\<lambda>_ rw.
         if \<not> force \<and> list_ex (\<lambda>r. rl_chain r = n) (crw_Rules crw rw) then (Ok (), rw)
         else crw_DeleteChain L crw n rw))"
    by (intro emits_andThen emits_rules_cleanUp) (simp_all add: RegularChain)
  then show ?thesis
    by (intro emitsI) (use emitsD in \<open>fastforce simp: RegularChain\<close>)
qed


section \<open>Tables: what they may queue\<close>

definition map_order_ok :: "'k nflib \<Rightarrow> bool" where
  "map_order_ok L \<longleftrightarrow> (\<forall>k ks. mset (go_map_order L k ks) = mset ks)"

lemma map_order_set: "map_order_ok L \<Longrightarrow> set (go_map_order L k ks) = set ks"
  by (metis map_order_ok_def mset_eq_setD)

fun table_cmd_ok :: "string \<Rightarrow> family \<Rightarrow> chain_mut list \<Rightarrow> nft_cmd \<Rightarrow> bool" where
  "table_cmd_ok table fam ms (CAddSet t f sid n b k v kvs u) \<longleftrightarrow> t = table \<and> f = fam"
| "table_cmd_ok table fam ms c \<longleftrightarrow> (\<exists>m \<in> set ms. chain_cmd_ok table fam m c)"

lemma chain_table_cmd_ok: "m \<in> set ms \<Longrightarrow> chain_cmd_ok table fam m c \<Longrightarrow> table_cmd_ok table fam ms c"
  by (cases c) auto

lemma emits_groups_present:
  "emits fam (\<lambda>c. \<exists>name \<in> set names. table_cmd_ok name fam ms c) (groups_present L E h ms ss names)"
proof (induction names arbitrary: ss)
  case Nil
  then show ?case by (simp add: emits_def)
next
  case (Cons name names)
  let ?crw = "\<lparr>crw_table = name, crw_hook = h\<rparr>"
  let ?Q = "\<lambda>c. \<exists>n \<in> set (name # names). table_cmd_ok n fam ms c"
  have "emits fam ?Q (chain_Present L E ?crw m)" if "m \<in> set ms" for m
    by (rule emits_weaken [OF emits_chain_Present]) (use chain_table_cmd_ok [OF that] in auto)
  then have chs: "emits fam ?Q (runPresent (chain_Present L E ?crw) ms)"
    by (rule emits_runPresent)
  have sets: "emits fam ?Q (sets_Present L ?crw ss)"
    by (rule emits_sets_Present) simp
  have rest: "emits fam ?Q (groups_present L E h ms ss' names)" for ss'
    by (rule emits_weaken [OF Cons.IH]) auto
  have "emits fam ?Q (andThen (sets_Present L ?crw ss) (\<lambda>ss'.
        andThen (runPresent (chain_Present L E ?crw) ms) (\<lambda>_. groups_present L E h ms ss' names)))"
    by (intro emits_andThen sets chs rest)
  then show ?case by (simp add: emits_def Let_def)
qed

text \<open>The tables a mutation reaches: those with a chain of its hook and priority, or the elected one.\<close>

definition target_tables :: "table_mut \<Rightarrow> 'k readWriter \<Rightarrow> string set" where
  "target_tables t rw = (if group_keys (tm_hook t) rw = []
     then {mostFrequencyTable rw (ChainType (tm_hook t)) (tm_name t)}
     else set (group_keys (tm_hook t) rw))"

lemma group_keys_iff:
  "name \<in> set (group_keys h rw) \<longleftrightarrow>
     (\<exists>c \<in> set (Chains rw). ch_table c = name \<and> ch_hooknum c = Some (hook_value h) \<and>
        ch_priority c = Some (ChainPriority h))"
  by (auto simp: group_keys_def chainMatchPredicate_def ChainHook_def ChainPriorityIs_def)


lemma table_CleanUp_grows:
  assumes "is_open rw" and "map_order_ok L"
  shows "grows (\<lambda>c. \<exists>name \<in> set (group_keys (tm_hook t) rw). \<exists>m \<in> set (tm_chains t).
      is_deletion c \<and> chain_cmd_ok name (rw_family rw) m c) rw (snd (table_CleanUp L E t rw))"
proof -
  let ?Q = "\<lambda>c. \<exists>name \<in> set (group_keys (tm_hook t) rw). \<exists>m \<in> set (tm_chains t).
      is_deletion c \<and> chain_cmd_ok name (rw_family rw) m c"
  have chain: "emits (rw_family rw) ?Q (chain_CleanUp L E \<lparr>crw_table = name, crw_hook = tm_hook t\<rparr> m)"
    if "name \<in> set (group_keys (tm_hook t) rw)" "m \<in> set (tm_chains t)" for name m
    by (rule emits_weaken [OF emits_chain_CleanUp]) (use that in auto)
  let ?names = "go_map_order L (rw_kernel rw) (group_keys (tm_hook t) rw)"
  let ?clean = "\<lambda>name. let crw = \<lparr>crw_table = name, crw_hook = tm_hook t\<rparr> in
         andThen (runCleanUp (chain_CleanUp L E crw) (tm_chains t)) (\<lambda>_. runCleanUp set_CleanUp (tm_sets t))"
  have sets: "emits (rw_family rw) ?Q (runCleanUp set_CleanUp (tm_sets t))"
    by (rule emits_runCleanUp) (simp add: emits_def set_CleanUp_def)
  have clean: "emits (rw_family rw) ?Q (?clean name)" if "name \<in> set ?names" for name
    unfolding Let_def
    by (intro emits_andThen emits_runCleanUp chain sets)
      (use that in \<open>simp_all add: map_order_set [OF assms(2)]\<close>)
  have "emits (rw_family rw) ?Q (run_all (map ?clean ?names))"
  proof (rule emits_run_all)
    fix m assume "m \<in> set (map ?clean ?names)"
    then obtain name where "name \<in> set ?names" "m = ?clean name"
      unfolding set_map by (rule imageE)
    with clean show "emits (rw_family rw) ?Q m" by (simp only:)
  qed
  from emitsD [OF this assms(1) refl] show ?thesis by (simp add: table_CleanUp_def)
qed

text \<open>
  A cleanup queues, on every path, nothing but deletions: of rules in the tables that have the
  hook, and of the mutation's own regular chains there. Tables, base chains and other chains stay.
\<close>

theorem table_CleanUp_only_deletes:
  assumes "is_open rw" and "map_order_ok L"
  shows "grows (\<lambda>c. \<exists>name \<in> set (group_keys (tm_hook t) rw). \<exists>m \<in> set (tm_chains t).
      is_deletion c \<and> chain_cmd_ok name (rw_family rw) m c) rw (snd (table_CleanUp L E t rw))"
  by (rule table_CleanUp_grows [OF assms])

section \<open>Tables: what they do queue\<close>

definition queues :: "family \<Rightarrow> nft_cmd \<Rightarrow> ('k readWriter, 'a) step \<Rightarrow> bool" where
  "queues fam c m \<longleftrightarrow> (\<forall>rw rw' a. is_open rw \<longrightarrow> rw_family rw = fam \<longrightarrow> m rw = (Ok a, rw') \<longrightarrow>
     c \<in> set (conn_log rw'))"

lemma emits_any_log:
  assumes "emits fam (\<lambda>_. True) m" and "is_open rw" and "rw_family rw = fam" and "m rw = (r, rw')"
  shows "is_open rw' \<and> rw_family rw' = fam \<and> set (conn_log rw) \<subseteq> set (conn_log rw')"
  using emitsD [OF assms(1-3)] assms(3,4) by (auto simp: grows_def)

lemma queues_first:
  assumes "queues fam c m" and "emits fam (\<lambda>_. True) m" and "\<And>a. emits fam (\<lambda>_. True) (f a)"
  shows "queues fam c (andThen m f)"
  unfolding queues_def
proof (intro allI impI)
  fix rw rw' b
  assume rw: "is_open rw" "rw_family rw = fam" and "andThen m f rw = (Ok b, rw')"
  then obtain a rw1 where 1: "m rw = (Ok a, rw1)" "f a rw1 = (Ok b, rw')" by (elim andThen_OkE)
  then have "c \<in> set (conn_log rw1)" using assms(1) rw by (auto simp: queues_def)
  moreover have "is_open rw1 \<and> rw_family rw1 = fam" using emits_any_log [OF assms(2) rw 1(1)] by simp
  ultimately show "c \<in> set (conn_log rw')" using emits_any_log [OF assms(3) _ _ 1(2)] by blast
qed

lemma queues_second:
  assumes "emits fam (\<lambda>_. True) m" and "\<And>a. queues fam c (f a)"
  shows "queues fam c (andThen m f)"
  unfolding queues_def
proof (intro allI impI)
  fix rw rw' b
  assume rw: "is_open rw" "rw_family rw = fam" and "andThen m f rw = (Ok b, rw')"
  then obtain a rw1 where 1: "m rw = (Ok a, rw1)" "f a rw1 = (Ok b, rw')" by (elim andThen_OkE)
  have "is_open rw1 \<and> rw_family rw1 = fam" using emits_any_log [OF assms(1) rw 1(1)] by simp
  then show "c \<in> set (conn_log rw')" using assms(2) 1(2) by (auto simp: queues_def)
qed

lemma queues_run_all:
  assumes "\<And>m. m \<in> set ms \<Longrightarrow> emits fam (\<lambda>_. True) m" and "m \<in> set ms" and "queues fam c m"
  shows "queues fam c (run_all ms)"
  using assms(1,2)
proof (induction ms)
  case Nil
  then show ?case by simp
next
  case (Cons n ms)
  have "queues fam c (andThen n (\<lambda>_. run_all ms))"
  proof (cases "n = m")
    case True
    then show ?thesis using assms(3) Cons.prems by (intro queues_first emits_run_all) auto
  next
    case False
    then show ?thesis using Cons by (intro queues_second) auto
  qed
  then show ?case by (simp add: queues_def)
qed

lemma emits_any [emits_intros]:
  "emits fam (\<lambda>_. True) (chain_Present L E crw m)" "emits fam (\<lambda>_. True) (sets_Present L crw ss)"
  "emits fam (\<lambda>_. True) (groups_present L E h ms ss names)"
  "emits fam (\<lambda>_. True) (runPresent (chain_Present L E crw) ms)"
  by (rule emits_weaken [OF emits_chain_Present], simp)
    (rule emits_sets_Present emits_weaken [OF emits_groups_present], simp,
     rule emits_weaken [OF emits_groups_present], simp,
     rule emits_runPresent, rule emits_weaken [OF emits_chain_Present], simp)

lemma queues_AddChain: "new_chain fam table n h = (c, p) \<Longrightarrow> queues fam (CAddChain c p) (AddChain L table n h)"
  by (auto simp: queues_def AddChain_open)

lemma queues_RegularChain:
  "queues fam (CAddChain (fst (new_chain fam (crw_table crw) n None)) None)
     (chain_Present L E crw (RegularChain n rules force))"
proof -
  let ?c = "CAddChain (fst (new_chain fam (crw_table crw) n None)) None"
  have del: "emits fam (\<lambda>_. True) (\<lambda>rw'. case found of
            Some c \<Rightarrow> if ch_hooknum c \<noteq> None then crw_DeleteChain L crw (ch_name c) rw' else (Ok (), rw')
          | None \<Rightarrow> (Ok (), rw'))" for found
    by (rule emitsI) (auto simp: crw_DeleteChain_def intro!: emitsD [OF emits_DeleteChain] split: option.split)
  have add: "emits fam (\<lambda>_. True) (AddRegularChain L crw n)" "queues fam ?c (AddRegularChain L crw n)"
    by (auto simp: AddRegularChain_def new_chain_def intro: emits_AddChain queues_AddChain)
  have rules: "emits fam (\<lambda>_. True) (rules_present L E crw n rules)"
    by (rule emits_rules_present) auto
  note step = queues_second [OF del queues_first [OF add(2,1) rules]]
  show ?thesis
    unfolding queues_def by (auto simp: Let_def) (use step in \<open>auto simp: queues_def\<close>)
qed

lemma queues_groups_present:
  assumes "name \<in> set names" and "RegularChain n rules force \<in> set ms"
  shows "queues fam (CAddChain (fst (new_chain fam name n None)) None) (groups_present L E h ms ss names)"
  using assms(1)
proof (induction names arbitrary: ss)
  case Nil
  then show ?case by simp
next
  case (Cons nm names)
  let ?c = "CAddChain (fst (new_chain fam name n None)) None" and ?crw = "\<lparr>crw_table = nm, crw_hook = h\<rparr>"
  have "queues fam ?c (andThen (runPresent (chain_Present L E ?crw) ms) (\<lambda>_. groups_present L E h ms ss' names))"
    for ss'
  proof (cases "nm = name")
    case True
    then have "queues fam ?c (runPresent (chain_Present L E ?crw) ms)"
      using assms(2) queues_RegularChain [of fam ?crw n L E rules force] unfolding runPresent_def
      by (intro queues_run_all [where m = "chain_Present L E ?crw (RegularChain n rules force)"])
        (auto intro: emits_any)
    then show ?thesis by (intro queues_first emits_any)
  next
    case False
    with Cons show ?thesis by (intro queues_second emits_any) auto
  qed
  then have "queues fam ?c (andThen (sets_Present L ?crw ss) (\<lambda>ss'.
        andThen (runPresent (chain_Present L E ?crw) ms) (\<lambda>_. groups_present L E h ms ss' names)))"
    by (rule queues_second [OF emits_any(2)])
  then show ?case by (simp add: queues_def Let_def)
qed

text \<open>
  A successful presentation has queued each of its regular chains in every target table, and
  the creation of the elected table when no table had the hook.
\<close>

theorem table_Present_covers:
  assumes "is_open rw" and "map_order_ok L" and "table_Present L E t rw = (Ok (), rw')"
    and "RegularChain n rules force \<in> set (tm_chains t)" and "name \<in> target_tables t rw"
  shows "CAddChain (fst (new_chain (rw_family rw) name n None)) None \<in> set (conn_log rw') \<and>
    (group_keys (tm_hook t) rw = [] \<longrightarrow> CAddTable name (rw_family rw) \<in> set (conn_log rw'))"
proof (cases "group_keys (tm_hook t) rw = []")
  case True
  let ?name = "mostFrequencyTable rw (ChainType (tm_hook t)) (tm_name t)" and ?fam = "rw_family rw"
  have name: "name = ?name" using True assms(5) by (simp add: target_tables_def)
  have run: "groups_present L E (tm_hook t) (tm_chains t) (tm_sets t) [name]
      (queue_cmd (CAddTable name ?fam) rw) = (Ok (), rw')"
    using assms(1,3) True name by (simp add: table_Present_def Let_def andThen_def AddTable_open)
  let ?rw = "queue_cmd (CAddTable name ?fam) rw"
  have "CAddTable name ?fam \<in> set (conn_log rw')"
    using emits_any_log [OF emits_any(3) _ refl run] assms(1) by auto
  moreover have "CAddChain (fst (new_chain ?fam name n None)) None \<in> set (conn_log rw')"
    using queues_groups_present [of name "[name]", OF _ assms(4)] run assms(1)
    unfolding queues_def by (metis list.set_intros(1) queue_cmd_simps(2,8))
  ultimately show ?thesis by simp
next
  case False
  let ?names = "go_map_order L (rw_kernel rw) (group_keys (tm_hook t) rw)"
  have "name \<in> set ?names" using False assms(5) by (simp add: target_tables_def map_order_set [OF assms(2)])
  note queued = queues_groups_present [OF this assms(4)]
  have "groups_present L E (tm_hook t) (tm_chains t) (tm_sets t) ?names rw = (Ok (), rw')"
    using assms(3) False by (simp add: table_Present_def Let_def)
  with queued assms(1) False show ?thesis unfolding queues_def by blast
qed

section \<open>Anonymous sets\<close>

definition pairs_of :: "set_mut \<Rightarrow> nset_elem list" where
  "pairs_of s = map (\<lambda>e. \<lparr>se_key = el_key e, se_val = el_value e\<rparr>) (sm_elements s)"

lemma fold_element_Present:
  "fold element_Present es s = s\<lparr>sm_kvPairs := sm_kvPairs s @ map (\<lambda>e. \<lparr>se_key = el_key e, se_val = el_value e\<rparr>) es\<rparr>"
  by (induction es arbitrary: s) (auto simp: element_Present_def)

definition set_cmd :: "family \<Rightarrow> set_mut \<Rightarrow> string \<Rightarrow> nset_elem list \<Rightarrow> nft_cmd" where
  "set_cmd fam s table kvs = CAddSet table fam (sm_id s) (sm_name s)
     (length (datatype_name (sm_value s)) \<noteq> 0) (sm_key s) (sm_value s) kvs (sm_comment s)"

lemma set_Present_open:
  assumes "is_open rw" and "lib_AddSet L (set_cmd (rw_family rw) s (crw_table crw) (sm_kvPairs s @ pairs_of s)) = None"
  shows "set_Present L crw s rw = (Ok (s\<lparr>sm_kvPairs := sm_kvPairs s @ pairs_of s\<rparr>),
    queue_cmd (set_cmd (rw_family rw) s (crw_table crw) (sm_kvPairs s @ pairs_of s)) rw)"
  using assms
  by (simp add: set_Present_def fold_element_Present pairs_of_def set_cmd_def crw_AddSet_def AddSet_def
      withOpenConn_open andThen_def Let_def)

text \<open>
  A set is queued once per target table, and its elements pile up in the mutation: the set
  of the n-th table carries n copies of them.
\<close>

theorem groups_present_sets_accumulate:
  assumes "is_open rw" and "\<And>c. lib_AddSet L c = None"
  shows "\<exists>rw'. groups_present L E h [] [s] names rw = (Ok (), rw') \<and>
    conn_log rw' = conn_log rw @ map (\<lambda>i. set_cmd (rw_family rw) s (names ! i)
      (sm_kvPairs s @ concat (replicate (Suc i) (pairs_of s)))) [0..<length names]"
  using assms(1)
proof (induction names arbitrary: s rw)
  case Nil
  then show ?case by simp
next
  case (Cons name names)
  let ?kv = "sm_kvPairs s @ pairs_of s"
  let ?s = "s\<lparr>sm_kvPairs := ?kv\<rparr>" and ?rw = "queue_cmd (set_cmd (rw_family rw) s name ?kv) rw"
  have step: "groups_present L E h [] [s] (name # names) rw = groups_present L E h [] [?s] names ?rw"
    using set_Present_open [OF Cons.prems assms(2), of "\<lparr>crw_table = name, crw_hook = h\<rparr>"]
    by (simp add: andThen_def runPresent_def)
  obtain rw' where run: "groups_present L E h [] [?s] names ?rw = (Ok (), rw')"
    and log: "conn_log rw' = conn_log ?rw @ map (\<lambda>i. set_cmd (rw_family ?rw) ?s (names ! i)
      (sm_kvPairs ?s @ concat (replicate (Suc i) (pairs_of ?s)))) [0..<length names]"
    using Cons.IH [of ?rw ?s] Cons.prems by auto
  have shift: "[0..<length (name # names)] = 0 # map Suc [0..<length names]"
    by (simp add: map_Suc_upt upt_conv_Cons del: upt_Suc)
  show ?case
    using run log Cons.prems unfolding step shift
    by (simp add: set_cmd_def pairs_of_def comp_def)
qed

section \<open>A reader with a chain on the output hook\<close>

definition demo_chain :: nchain where
  "demo_chain = \<lparr>ch_table = ''host-nat'', ch_family = TableFamilyIPv4, ch_name = ''OUT'',
     ch_hooknum = Some (hook_value ChainHookOutput), ch_priority = Some (ChainPriority ChainHookOutput),
     ch_type = ChainTypeNAT\<rparr>"

lemma demo_map_order [simp]: "map_order_ok (demo_lib chs rules fl)"
  by (simp add: map_order_ok_def)

lemma demo_group_keys [simp]:
  "group_keys ChainHookOutput (demo_reader [demo_chain] rules) = [''host-nat'']"
  "group_keys h (demo_reader [] rules) = []"
  by (simp_all add: group_keys_def Chains_def demo_chain_def chainMatchPredicate_def ChainHook_def ChainPriorityIs_def)

lemma mostFrequencyTable_elects_witness:
  "mostFrequencyTable (demo_reader [nat_chain ''a'' ''x'', nat_chain ''a'' ''y''] []) ChainTypeNAT ''nat'' = ''a''"
proof -
  have "2 \<le> lead ''a'' (votes ChainTypeNAT (Chains (demo_reader [nat_chain ''a'' ''x'', nat_chain ''a'' ''y''] [])))"
    by (simp add: Chains_def nat_chain_def)
  then show ?thesis
    by (rule mostFrequencyTable_elects [THEN conjunct1, THEN mp])
qed

lemma groups_present_sets_accumulate_witness:
  "\<exists>rw'. groups_present (demo_lib [] [] (Ok ())) le_codec ChainHookOutput []
      [(IPv4AddrSet 5 ''s'')\<lparr>sm_elements := [IPv4Addr (Some [10, 0, 0, 1])]\<rparr>] [''a'', ''b''] (demo_reader [] []) = (Ok (), rw') \<and>
    length (conn_log rw') = 2"
proof -
  have "is_open (demo_reader [] [])" "\<And>c. lib_AddSet (demo_lib [] [] (Ok ())) c = None" by simp_all
  from groups_present_sets_accumulate [OF this] show ?thesis by fastforce
qed

end
