(* ===== verification/NfTables.thy ===== *)
theory NfTables
  imports TableFacts Strings
begin

text \<open>
  \<open>internal/portforwarding/nftables/nftables.go\<close> (with packages \<open>netlink\<close> and \<open>sysctl\<close>): the
  nftables implementation of port forwarding as a list of table mutations, each run against a fresh
  reader and flushed on its own.
\<close>

section \<open>Availability\<close>

text \<open>The file's content, or the error of reading it, is the argument.\<close>

definition NetIPv4Forward :: "string result \<Rightarrow> int result" where
  "NetIPv4Forward file = (case file of
      Err e \<Rightarrow> Err (EWrap ''failed to read /proc/sys/net/ipv4/ip_forward'' e)
    | Panic p \<Rightarrow> Panic p
    | Ok content \<Rightarrow> wrap_err ''bad value from /proc/sys/net/ipv4/ip_forward'' (Atoi (TrimSpace content)))"

definition nft_Available :: "string result \<Rightarrow> bool result" where
  "nft_Available file = (case NetIPv4Forward file of
      Err e \<Rightarrow> Err e
    | Panic p \<Rightarrow> Panic p
    | Ok forwarding \<Rightarrow> Ok (forwarding = 1))"

definition IgnoreNotFound :: "go_error \<Rightarrow> unit result" where
  "IgnoreNotFound e = (if os_IsNotExist e then Ok () else Err e)"

section \<open>Names\<close>

record 'k nftables =
  nft_name :: string
  nft_family :: family
  nft_once :: bool
  nft_kernel :: 'k

definition NewNft :: "string \<Rightarrow> family \<Rightarrow> 'k \<Rightarrow> 'k nftables" where
  "NewNft name fam k = \<lparr>nft_name = ToUpper name, nft_family = fam, nft_once = False, nft_kernel = k\<rparr>"

definition NewIPv4 :: "string \<Rightarrow> 'k \<Rightarrow> 'k nftables" where
  "NewIPv4 name = NewNft name TableFamilyIPv4"

definition nameOf :: "string \<Rightarrow> string \<Rightarrow> string" where
  "nameOf name sfx = join_strings [name, ToUpper sfx] ''-''"

definition internalNameOf :: "string \<Rightarrow> string \<Rightarrow> string list \<Rightarrow> string" where
  "internalNameOf name kind sfxs =
     ToLower (''__'' @ kind @ ''_'' @ join_strings (name # sfxs) ''_'')"

section \<open>The mutations\<close>

definition first_rule :: "rule_mut \<Rightarrow> rule_mut" where
  "first_rule r = r\<lparr>rm_first := True\<rparr>"

definition commented :: "string \<Rightarrow> rule_mut \<Rightarrow> rule_mut" where
  "commented c r = r\<lparr>rm_comment := c\<rparr>"

definition foundation :: "string \<Rightarrow> string \<Rightarrow> string \<Rightarrow> hook \<Rightarrow> bool \<Rightarrow> rule_mut list \<Rightarrow> table_mut" where
  "foundation name table chain h forceClean rules =
     table_AddChain
       [chain_AddRule [commented name (Rule [Counting, Jump (nameOf name chain)])] (BaseChain chain [])]
       (table_AddChain [chain_AddRule rules (RegularChain (nameOf name chain) [] forceClean)]
         (Table table h))"

definition scaffold :: "string \<Rightarrow> string \<Rightarrow> string \<Rightarrow> hook \<Rightarrow> rule_mut list \<Rightarrow> table_mut" where
  "scaffold name table chain h rules =
     table_AddChain [chain_AddRule rules (Chain (nameOf name chain) [])] (Table table h)"

definition nft_structure :: "string \<Rightarrow> bool \<Rightarrow> table_mut list" where
  "nft_structure name forceClean =
    [foundation name ''nat'' ''PREROUTING'' ChainHookPrerouting forceClean [],
     foundation name ''nat'' ''POSTROUTING'' ChainHookPostrouting forceClean [],
     foundation name ''filter'' ''FORWARD'' ChainHookForward forceClean
       [commented name (first_rule (Rule [TrackingEstablishedRelated, Accept]))],
     foundation name ''nat'' ''OUTPUT'' ChainHookOutput forceClean []]"

text \<open>\<open>mapTo\<close>: the transformation sees each element's index.\<close>

fun mapTo_from :: "nat \<Rightarrow> 'a list \<Rightarrow> ('a \<Rightarrow> nat \<Rightarrow> 'b) \<Rightarrow> 'b list" where
  "mapTo_from i [] f = []"
| "mapTo_from i (x # xs) f = f x i # mapTo_from (Suc i) xs f"

definition mapTo :: "'a list \<Rightarrow> ('a \<Rightarrow> nat \<Rightarrow> 'b) \<Rightarrow> 'b list" where
  "mapTo s f = mapTo_from 0 s f"

text \<open>
  The targets as IPv4 addresses, sorted. The source's sort is not stable; equal keys here are equal
  addresses, since \<open>To4\<close> returns nil or four bytes.
\<close>

definition target_ips :: "string list \<Rightarrow> ip list" where
  "target_ips target = sort_key bytes_key (mapTo target (\<lambda>s _. To4 (ParseIP s)))"

text \<open>
  \<open>outgoing\<close> and \<open>incoming\<close>: the condition on the address, and the anonymous sets it needs. The
  set's identifier is the value of \<open>rand.Uint32\<close> the closure draws.
\<close>

definition outgoing :: "codec \<Rightarrow> string \<Rightarrow> 16 word \<Rightarrow> string list \<Rightarrow> string \<Rightarrow> 32 word \<Rightarrow> string \<Rightarrow>
    dyncond \<times> set_mut list" where
  "outgoing E name port target comment rnd sfx =
     (let targetIp = target_ips target in
      if length targetIp = 1 then (ImmediateIp (targetIp ! 0), [])
      else
        let mapName = internalNameOf name ''map'' [Itoa (unat port), sfx];
            elements = mapTo targetIp (\<lambda>a index. IndexedIPv4Addr E a (word_of_nat index)) in
        (LoadBalancing rnd mapName (int (length target)),
         [(IndexedIPv4AddrMap rnd mapName)\<lparr>sm_elements := elements, sm_comment := comment\<rparr>]))"

definition incoming :: "string \<Rightarrow> 16 word \<Rightarrow> string list \<Rightarrow> string \<Rightarrow> 32 word \<Rightarrow> string \<Rightarrow>
    dyncond \<times> set_mut list" where
  "incoming name port target comment rnd sfx =
     (let targetIp = target_ips target in
      if length targetIp = 1 then (CompareEqualsIp (targetIp ! 0), [])
      else
        let setName = internalNameOf name ''map'' [Itoa (unat port), sfx];
            elements = mapTo targetIp (\<lambda>a _. IPv4Addr a) in
        (LookupIp rnd setName, [(IPv4AddrSet rnd setName)\<lparr>sm_elements := elements, sm_comment := comment\<rparr>]))"

text \<open>
  \<open>buildForwarding\<close>: \<open>rnd i\<close> is the i-th value drawn, in the order the closures are called.
\<close>

definition buildForwarding :: "codec \<Rightarrow> string \<Rightarrow> (nat \<Rightarrow> 32 word) \<Rightarrow> protocol \<Rightarrow> 16 word \<Rightarrow> string list \<Rightarrow>
    16 word \<Rightarrow> string \<Rightarrow> table_mut list result" where
  "buildForwarding E name rnd proto port target to comment =
     (let (preC, preSets) = outgoing E name port target comment (rnd 0) ''pre'';
          (postC, postSets) = incoming name port target comment (rnd 1) ''post'';
          (fwdC, fwdSets) = incoming name port target comment (rnd 2) ''forward'';
          (outC, outSets) = outgoing E name port target comment (rnd 3) ''output'' in
      andRes (TransportProtocol proto) (\<lambda>transport. Ok
        [table_AddSet preSets (scaffold name ''nat'' ''PREROUTING'' ChainHookPrerouting
           [commented comment (Rule [transport, DestinationPort port, Counting, SetTrackingMark (ucast port),
              NewDestinationNAT preC to])]),
         table_AddSet postSets (scaffold name ''nat'' ''POSTROUTING'' ChainHookPostrouting
           [commented comment (Rule [NewDestinationIp postC, transport, DestinationPort to,
              TrackingMark (ucast port), Counting, Masquerade])]),
         table_AddSet fwdSets (scaffold name ''filter'' ''FORWARD'' ChainHookForward
           [commented comment (Rule [NewDestinationIp fwdC, transport, DestinationPort to,
              TrackingMark (ucast port), Counting, Accept])]),
         table_AddSet outSets (scaffold name ''nat'' ''OUTPUT'' ChainHookOutput
           [commented comment (Rule [SourceLocalAddr, transport, DestinationPort port, Counting,
              NewDestinationNAT outC to])])]))"

section \<open>Running mutations\<close>

text \<open>
  Each mutation gets a fresh reader and its own batch. A flush that fails ends the run, with
  whatever \<open>IgnoreNotFound\<close> makes of its error.
\<close>

fun runMutation :: "'k nflib \<Rightarrow> string \<Rightarrow> family \<Rightarrow> (table_mut \<Rightarrow> ('k readWriter, unit) step) \<Rightarrow> table_mut list \<Rightarrow>
    ('k, unit) step" where
  "runMutation L name fam action [] k = (Ok (), k)"
| "runMutation L name fam action (mut # muts) k =
     (case newReadWriter L name fam k of
        (Err e, k') \<Rightarrow> (Err e, k')
      | (Panic p, k') \<Rightarrow> (Panic p, k')
      | (Ok rw, _) \<Rightarrow> (case action mut rw of
          (Err e, rw') \<Rightarrow> (Err e, rw_kernel rw')
        | (Panic p, rw') \<Rightarrow> (Panic p, rw_kernel rw')
        | (Ok _, rw') \<Rightarrow> (case Flush L rw' of
            (Err e, rw'') \<Rightarrow> (IgnoreNotFound e, rw_kernel rw'')
          | (Panic p, rw'') \<Rightarrow> (Panic p, rw_kernel rw'')
          | (Ok _, rw'') \<Rightarrow> runMutation L name fam action muts (rw_kernel rw''))))"

definition on_kernel :: "('k, 'a) step \<Rightarrow> ('k nftables, 'a) step" where
  "on_kernel f nft = (case f (nft_kernel nft) of (r, k') \<Rightarrow> (r, nft\<lparr>nft_kernel := k'\<rparr>))"

definition present :: "'k nflib \<Rightarrow> codec \<Rightarrow> table_mut list \<Rightarrow> ('k nftables, unit) step" where
  "present L E muts nft =
     on_kernel (runMutation L (nft_name nft) (nft_family nft) (table_Present L E) muts) nft"

definition cleanUp :: "'k nflib \<Rightarrow> codec \<Rightarrow> table_mut list \<Rightarrow> ('k nftables, unit) step" where
  "cleanUp L E muts nft =
     on_kernel (runMutation L (nft_name nft) (nft_family nft) (table_CleanUp L E) muts) nft"

definition nft_Close :: "'k nflib \<Rightarrow> codec \<Rightarrow> ('k nftables, unit) step" where
  "nft_Close L E nft = cleanUp L E (nft_structure (nft_name nft) True) nft"

definition nft_start :: "'k nflib \<Rightarrow> codec \<Rightarrow> ('k nftables, unit) step" where
  "nft_start L E nft =
     andThen (wrapped ''failed to start port forwarding'' (nft_Close L E)) (\<lambda>_ nft.
       present L E (nft_structure (nft_name nft) False) nft) nft"

text \<open>
  \<open>sync.Once\<close> runs \<open>start\<close> on the first call only, whatever it returned; the error variable is
  the call's own.
\<close>

definition once_start :: "'k nflib \<Rightarrow> codec \<Rightarrow> ('k nftables, unit) step" where
  "once_start L E nft =
     (if nft_once nft then (Ok (), nft)
      else case nft_start L E nft of (r, nft') \<Rightarrow> (r, nft'\<lparr>nft_once := True\<rparr>))"

definition nft_AddForwarding :: "'k nflib \<Rightarrow> codec \<Rightarrow> (nat \<Rightarrow> 32 word) \<Rightarrow> protocol \<Rightarrow> 16 word \<Rightarrow> string list \<Rightarrow>
    16 word \<Rightarrow> string \<Rightarrow> ('k nftables, unit) step" where
  "nft_AddForwarding L E rnd proto port target to comment nft =
     andThen (wrapped ''failed to start port forwarding'' (once_start L E)) (\<lambda>_ nft.
       case buildForwarding E (nft_name nft) rnd proto port target to comment of
         Ok muts \<Rightarrow> present L E muts nft
       | Err e \<Rightarrow> (Err e, nft)
       | Panic p \<Rightarrow> (Panic p, nft)) nft"

definition nft_RemoveForwarding :: "'k nflib \<Rightarrow> codec \<Rightarrow> (nat \<Rightarrow> 32 word) \<Rightarrow> protocol \<Rightarrow> 16 word \<Rightarrow> string list \<Rightarrow>
    16 word \<Rightarrow> ('k nftables, unit) step" where
  "nft_RemoveForwarding L E rnd proto port target to nft =
     (case buildForwarding E (nft_name nft) rnd proto port target to [] of
         Ok muts \<Rightarrow> cleanUp L E muts nft
       | Err e \<Rightarrow> (Err e, nft)
       | Panic p \<Rightarrow> (Panic p, nft))"

end
