(* ===== verification/NfFacts.thy ===== *)
theory NfFacts
  imports NfTables
begin

text \<open>
  Correctness of the nftables implementation: what forwarding builds and how its rules are found
  again, what a cleanup may delete, how batches fail and what \<open>sync.Once\<close> makes of a failed start.
\<close>

section \<open>Sorted targets\<close>

lemma mapTo_map [simp]: "mapTo s (\<lambda>x _. f x) = map f s"
proof -
  have "mapTo_from i s (\<lambda>x _. f x) = map f s" for i
    by (induction s arbitrary: i) auto
  then show ?thesis by (simp add: mapTo_def)
qed

lemma mapTo_nth: "mapTo s f = map (\<lambda>i. f (s ! i) i) [0..<length s]"
proof -
  have "mapTo_from k s f = map (\<lambda>i. f (s ! i) (k + i)) [0..<length s]" for k
  proof (induction s arbitrary: k)
    case Nil
    then show ?case by simp
  next
    case (Cons x s)
    have "[0..<length (x # s)] = 0 # map Suc [0..<length s]"
      by (simp add: map_Suc_upt upt_conv_Cons del: upt_Suc)
    then show ?case by (simp add: Cons.IH comp_def del: upt_Suc)
  qed
  then show ?thesis by (simp add: mapTo_def)
qed

lemma target_ips_map: "target_ips target = sort_key bytes_key (map (\<lambda>s. To4 (ParseIP s)) target)"
  by (simp add: target_ips_def)

lemma length_target_ips [simp]: "length (target_ips target) = length target"
  by (simp add: target_ips_map)

lemma target_ips_perm:
  assumes "mset target = mset target'"
  shows "target_ips target = target_ips target'"
proof -
  let ?f = "\<lambda>s. To4 (ParseIP s)"
  have "inj_on bytes_key (set (map ?f target))"
    by (auto intro!: inj_onI dest: bytes_key_To4_inj)
  moreover have "mset (map ?f target) = mset (sort_key bytes_key (map ?f target'))"
    using assms by simp
  ultimately show ?thesis
    unfolding target_ips_map by (intro sort_key_inj_key_eq) simp_all
qed

section \<open>The rules of a forwarding\<close>

fun chain_rules :: "chain_mut \<Rightarrow> rule_mut list" where
  "chain_rules (Chain _ rs) = rs"
| "chain_rules (BaseChain _ rs) = rs"
| "chain_rules (RegularChain _ rs _) = rs"

fun chain_name :: "chain_mut \<Rightarrow> string" where
  "chain_name (Chain n _) = n"
| "chain_name (BaseChain n _) = n"
| "chain_name (RegularChain n _ _) = n"

definition table_rules :: "table_mut \<Rightarrow> rule_mut list" where
  "table_rules t = concat (map chain_rules (tm_chains t))"

lemmas build_defs = buildForwarding_def scaffold_def Table_def table_AddChain_def table_AddSet_def
  Rule_def commented_def NewDestinationNAT_def NewDestinationIp_def

text \<open>The four mutations, by table, hook and chain, with the condition of each one's rule.\<close>

definition forward_rule :: "string \<Rightarrow> string \<Rightarrow> string \<Rightarrow> hook \<Rightarrow> string \<Rightarrow> condition list \<Rightarrow> set_mut list \<Rightarrow> table_mut" where
  "forward_rule name table chain h comment cs sets =
     \<lparr>tm_name = table, tm_hook = h,
      tm_chains = [Chain (nameOf name chain) [\<lparr>rm_expr = Combine cs, rm_first = False, rm_comment = comment\<rparr>]],
      tm_sets = sets\<rparr>"

definition forwardings :: "string \<Rightarrow> string \<Rightarrow> 8 word \<Rightarrow> 16 word \<Rightarrow> 16 word \<Rightarrow> dyncond \<Rightarrow> set_mut list \<Rightarrow>
    dyncond \<Rightarrow> set_mut list \<Rightarrow> dyncond \<Rightarrow> set_mut list \<Rightarrow> dyncond \<Rightarrow> set_mut list \<Rightarrow> table_mut list" where
  "forwardings name comment tp port to preC preS postC postS fwdC fwdS outC outS =
     [forward_rule name ''nat'' ''PREROUTING'' ChainHookPrerouting comment
        [TransportProto tp, DestinationPort port, Counting, SetTrackingMark (ucast port), DestinationNAT preC to 1] preS,
      forward_rule name ''nat'' ''POSTROUTING'' ChainHookPostrouting comment
        [DestinationIp postC 1, TransportProto tp, DestinationPort to, TrackingMark (ucast port), Counting, Masquerade] postS,
      forward_rule name ''filter'' ''FORWARD'' ChainHookForward comment
        [DestinationIp fwdC 1, TransportProto tp, DestinationPort to, TrackingMark (ucast port), Counting, Accept] fwdS,
      forward_rule name ''nat'' ''OUTPUT'' ChainHookOutput comment
        [SourceLocalAddr, TransportProto tp, DestinationPort port, Counting, DestinationNAT outC to 1] outS]"

lemma buildForwarding_cases:
  assumes "buildForwarding E name rnd proto port target to comment = Ok muts"
  obtains tp preC preS postC postS fwdC fwdS outC outS where
    "TransportProtocol proto = Ok (TransportProto tp)"
    "outgoing E name port target comment (rnd 0) ''pre'' = (preC, preS)"
    "incoming name port target comment (rnd 1) ''post'' = (postC, postS)"
    "incoming name port target comment (rnd 2) ''forward'' = (fwdC, fwdS)"
    "outgoing E name port target comment (rnd 3) ''output'' = (outC, outS)"
    "muts = forwardings name comment tp port to preC preS postC postS fwdC fwdS outC outS"
proof -
  obtain tp where tp: "TransportProtocol proto = Ok (TransportProto tp)"
    using assms by (auto simp: buildForwarding_def TransportProtocol_def Tcp_def Udp_def Let_def
        split: prod.splits if_splits)
  show thesis
    by (rule that [OF tp prod.collapse [symmetric] prod.collapse [symmetric] prod.collapse [symmetric]
          prod.collapse [symmetric]])
      (use assms tp in \<open>simp add: build_defs forwardings_def forward_rule_def Let_def case_prod_beta\<close>)
qed

lemma outgoing_sim:
  assumes "outgoing E name port target c r sfx = (d, ss)" and "outgoing E name port target c' r' sfx = (d', ss')"
  shows "list_all2 expr_sim (dyn_Build d' reg @ es) (dyn_Build d reg @ es)"
  using assms by (auto simp: outgoing_def Let_def expr_sim_Lookup intro: list_all2_appendI split: if_splits)

lemma incoming_sim:
  assumes "incoming name port target c r sfx = (d, ss)" and "incoming name port target c' r' sfx = (d', ss')"
  shows "list_all2 expr_sim (dyn_Build d' reg @ es) (dyn_Build d reg @ es)"
  using assms by (auto simp: incoming_def Let_def expr_sim_Lookup intro: list_all2_appendI split: if_splits)

lemma incoming_singleton:
  "incoming name port target c r sfx = (d, ss) \<Longrightarrow> \<exists>e. dyn_Build d reg = [e] \<and> \<not> is_counter e"
  by (auto simp: incoming_def Let_def split: if_splits)

lemma TransportProtocol_inj:
  "TransportProtocol p = Ok (TransportProto t) \<Longrightarrow> TransportProtocol q = Ok (TransportProto t) \<Longrightarrow> p = q"
  by (auto simp: TransportProtocol_def Tcp_def Udp_def IPPROTO_TCP_def IPPROTO_UDP_def split: if_splits)

lemma ucast_port_eq [simp]: "(ucast p :: 32 word) = ucast q \<longleftrightarrow> p = q" for p q :: "16 word"
proof
  assume h: "(ucast p :: 32 word) = ucast q"
  have "unat (ucast w :: 32 word) = unat w" for w :: "16 word"
    using unat_lt_16 [of w] by (simp add: unsigned_ucast_eq take_bit_eq_mod)
  with h have "unat p = unat q" by metis
  then show "p = q" by (simp add: word_unat_eq_iff)
qed simp

definition removes :: "codec \<Rightarrow> rule_mut \<Rightarrow> rule_mut \<Rightarrow> bool" where
  "removes E added rem \<longleftrightarrow>
     (\<forall>r. rl_exprs r = Build E (rm_expr added) \<longrightarrow> RuleExpr E (rm_expr rem) r = Some True)"

definition ignores :: "codec \<Rightarrow> rule_mut \<Rightarrow> rule_mut \<Rightarrow> bool" where
  "ignores E added rem \<longleftrightarrow>
     (\<forall>r. rl_exprs r = Build E (rm_expr added) \<longrightarrow> RuleExpr E (rm_expr rem) r = Some False)"

lemma removesI:
  "proper (rm_expr b) \<Longrightarrow> list_all2 expr_sim (Build E (rm_expr b)) (Build E (rm_expr a)) \<Longrightarrow> removes E a b"
  by (simp add: removes_def RuleExpr_same same_exprs_def)

lemma ignoresI:
  "proper (rm_expr b) \<Longrightarrow> walk (Build E (rm_expr b)) (Build E (rm_expr a)) = Mismatch \<Longrightarrow>
   Build E (rm_expr a) \<noteq> [] \<Longrightarrow> ignores E a b"
  by (simp add: ignores_def RuleExpr_walk)

text \<open>Two table mutations on the same chain, the rules of the second related to the first's.\<close>

definition same_place :: "(rule_mut \<Rightarrow> rule_mut \<Rightarrow> bool) \<Rightarrow> table_mut \<Rightarrow> table_mut \<Rightarrow> bool" where
  "same_place R a b \<longleftrightarrow> tm_hook a = tm_hook b \<and> tm_name a = tm_name b \<and>
     map chain_name (tm_chains a) = map chain_name (tm_chains b) \<and>
     list_all2 R (table_rules a) (table_rules b)"

lemma removes_forward:
  assumes "list_all2 expr_sim (Build E (Combine cs')) (Build E (Combine cs))" and "proper (Combine cs')"
  shows "same_place (removes E) (forward_rule name t ch h c cs ss) (forward_rule name t ch h c' cs' ss')"
  using removesI [of "\<lparr>rm_expr = Combine cs', rm_first = False, rm_comment = c'\<rparr>" E
      "\<lparr>rm_expr = Combine cs, rm_first = False, rm_comment = c\<rparr>"] assms
  by (simp add: same_place_def forward_rule_def table_rules_def)

lemma ignores_forward:
  assumes "walk (Build E (Combine cs')) (Build E (Combine cs)) = Mismatch" and "proper (Combine cs')"
    and "Build E (Combine cs) \<noteq> []"
  shows "same_place (ignores E) (forward_rule name t ch h c cs ss) (forward_rule name t ch h c' cs' ss')"
  using ignoresI [of "\<lparr>rm_expr = Combine cs', rm_first = False, rm_comment = c'\<rparr>" E
      "\<lparr>rm_expr = Combine cs, rm_first = False, rm_comment = c\<rparr>"] assms
  by (simp add: same_place_def forward_rule_def table_rules_def)

text \<open>
  Removing a forwarding looks in the chains the forwarding was added to, and recognises each of
  its rules there, whatever set identifiers were drawn and whatever the comment.
\<close>

theorem RemoveForwarding_recognises:
  assumes "buildForwarding E name rnd proto port target to comment = Ok added"
    and "buildForwarding E name rnd' proto port target to [] = Ok removed"
  shows "length added = 4 \<and> list_all2 (same_place (removes E)) added removed"
proof -
  obtain tp preC preS postC postS fwdC fwdS outC outS where a:
    "TransportProtocol proto = Ok (TransportProto tp)"
    "outgoing E name port target comment (rnd 0) ''pre'' = (preC, preS)"
    "incoming name port target comment (rnd 1) ''post'' = (postC, postS)"
    "incoming name port target comment (rnd 2) ''forward'' = (fwdC, fwdS)"
    "outgoing E name port target comment (rnd 3) ''output'' = (outC, outS)"
    and added: "added = forwardings name comment tp port to preC preS postC postS fwdC fwdS outC outS"
    using assms(1) by (rule buildForwarding_cases)
  obtain tp' preC' preS' postC' postS' fwdC' fwdS' outC' outS' where b:
    "TransportProtocol proto = Ok (TransportProto tp')"
    "outgoing E name port target [] (rnd' 0) ''pre'' = (preC', preS')"
    "incoming name port target [] (rnd' 1) ''post'' = (postC', postS')"
    "incoming name port target [] (rnd' 2) ''forward'' = (fwdC', fwdS')"
    "outgoing E name port target [] (rnd' 3) ''output'' = (outC', outS')"
    and removed: "removed = forwardings name [] tp' port to preC' preS' postC' postS' fwdC' fwdS' outC' outS'"
    using assms(2) by (rule buildForwarding_cases)
  have "tp' = tp" using a(1) b(1) by simp
  with outgoing_sim [OF a(2) b(2)] incoming_sim [OF a(3) b(3)] incoming_sim [OF a(4) b(4)]
    outgoing_sim [OF a(5) b(5)] show ?thesis
    unfolding added removed forwardings_def by (simp add: removes_forward)
qed

text \<open>
  Forwardings of different protocol or port do not touch each other's rules: none of the rules
  one builds is taken for a rule of the other.
\<close>

theorem forwardings_do_not_interfere:
  assumes "codec_ok E" and "(proto, port) \<noteq> (proto', port')"
    and "buildForwarding E name rnd proto port target to comment = Ok added"
    and "buildForwarding E name rnd' proto' port' target' to' comment' = Ok other"
  shows "list_all2 (same_place (ignores E)) added other"
proof -
  obtain tp preC preS postC postS fwdC fwdS outC outS where a:
    "TransportProtocol proto = Ok (TransportProto tp)"
    "outgoing E name port target comment (rnd 0) ''pre'' = (preC, preS)"
    "incoming name port target comment (rnd 1) ''post'' = (postC, postS)"
    "incoming name port target comment (rnd 2) ''forward'' = (fwdC, fwdS)"
    "outgoing E name port target comment (rnd 3) ''output'' = (outC, outS)"
    and added: "added = forwardings name comment tp port to preC preS postC postS fwdC fwdS outC outS"
    using assms(3) by (rule buildForwarding_cases)
  obtain tp' preC' preS' postC' postS' fwdC' fwdS' outC' outS' where b:
    "TransportProtocol proto' = Ok (TransportProto tp')"
    "outgoing E name port' target' comment' (rnd' 0) ''pre'' = (preC', preS')"
    "incoming name port' target' comment' (rnd' 1) ''post'' = (postC', postS')"
    "incoming name port' target' comment' (rnd' 2) ''forward'' = (fwdC', fwdS')"
    "outgoing E name port' target' comment' (rnd' 3) ''output'' = (outC', outS')"
    and other: "other = forwardings name comment' tp' port' to' preC' preS' postC' postS' fwdC' fwdS' outC' outS'"
    using assms(4) by (rule buildForwarding_cases)
  have ne: "port \<noteq> port' \<or> tp' \<noteq> tp" using a(1) b(1) assms(2) TransportProtocol_inj by blast
  obtain e1 e2 e1' e2' where "dyn_Build postC 1 = [e1]" "dyn_Build fwdC 1 = [e2]"
      "dyn_Build postC' 1 = [e1']" "dyn_Build fwdC' 1 = [e2']"
    using incoming_singleton a(3,4) b(3,4) by metis
  with ne assms(1) show ?thesis
    unfolding added other forwardings_def by (auto intro!: ignores_forward)
qed


text \<open>
  What is built does not depend on the order in which the targets are listed.
\<close>

theorem buildForwarding_permutation:
  assumes "mset target = mset target'"
  shows "buildForwarding E name rnd proto port target to comment =
    buildForwarding E name rnd proto port target' to comment"
proof -
  have len: "length target = length target'" using assms by (rule mset_eq_length)
  have "outgoing E name port target comment r sfx = outgoing E name port target' comment r sfx"
    "incoming name port target comment r sfx = incoming name port target' comment r sfx" for r sfx
    unfolding outgoing_def incoming_def target_ips_perm [OF assms] len by (rule refl)+
  then show ?thesis by (simp add: buildForwarding_def)
qed

text \<open>
  With several targets (or none) the traffic is spread over a map with one entry per target:
  the generator counts modulo the number of entries and each number it can produce has exactly
  one entry, whose value is a target's address.
\<close>

theorem load_balancing_total:
  assumes "codec_ok E" and "length target \<noteq> 1" and "length target < 2 ^ 32"
    and "outgoing E name port target comment rnd sfx = (c, sets)"
  shows "\<exists>m s. c = LoadBalancing rnd m (int (length target)) \<and> sets = [s] \<and> sm_name s = m \<and> sm_id s = rnd \<and>
    length (sm_elements s) = length target \<and> distinct (map el_key (sm_elements s)) \<and>
    (\<forall>i < length target. el_key (sm_elements s ! i) = Some (NE_PutUint32 E (word_of_nat i)) \<and>
       el_value (sm_elements s ! i) \<in> (\<lambda>a. To4 (ParseIP a)) ` set target)"
proof -
  let ?ips = "target_ips target"
  let ?es = "mapTo ?ips (\<lambda>a index. IndexedIPv4Addr E a (word_of_nat index))"
  have es: "?es = map (\<lambda>i. IndexedIPv4Addr E (?ips ! i) (word_of_nat i)) [0..<length target]"
    by (simp add: mapTo_nth)
  have "inj_on (\<lambda>i. word_of_nat i :: 32 word) {0..<length target}"
  proof (rule inj_onI)
    fix i j assume "i \<in> {0..<length target}" "j \<in> {0..<length target}"
      and eq: "(word_of_nat i :: 32 word) = word_of_nat j"
    then have "i < 2 ^ 32" "j < 2 ^ 32" using assms(3) by auto
    then have "unat (word_of_nat i :: 32 word) = i" "unat (word_of_nat j :: 32 word) = j"
      by (simp_all add: unat_of_nat)
    with eq show "i = j" by metis
  qed
  moreover have "map el_key ?es = map (\<lambda>i. Some (NE_PutUint32 E (word_of_nat i))) [0..<length target]"
    unfolding es by (simp add: IndexedIPv4Addr_def)
  ultimately have dist: "distinct (map el_key ?es)"
    using assms(1) by (simp add: distinct_map inj_on_def)
  have val: "To4 (?ips ! i) \<in> (\<lambda>a. To4 (ParseIP a)) ` set target" if "i < length target" for i
  proof -
    have "?ips ! i \<in> set ?ips" using that by (intro nth_mem) simp
    then show ?thesis by (auto simp: target_ips_map)
  qed
  show ?thesis
    using assms(2,4) dist val
    unfolding outgoing_def Let_def es IndexedIPv4AddrMap_def
    by (auto simp: IndexedIPv4Addr_def comp_def)
qed

section \<open>What a cleanup may delete\<close>

definition own_chains :: "string \<Rightarrow> string set" where
  "own_chains name = nameOf name ` {''PREROUTING'', ''POSTROUTING'', ''FORWARD'', ''OUTPUT''}"

text \<open>
  Removing a forwarding deletes rules of the program's own four chains and nothing else, on
  every path.
\<close>

theorem RemoveForwarding_own_chains:
  assumes "buildForwarding E name rnd proto port target to comment = Ok muts" and "t \<in> set muts"
    and "is_open rw" and "map_order_ok L"
  shows "grows (\<lambda>c. \<exists>table chain h. c = CDelRule table (rw_family rw) chain h \<and> chain \<in> own_chains name)
    rw (snd (table_CleanUp L E t rw))"
proof -
  have own: "\<exists>n rs. m = Chain n rs \<and> n \<in> own_chains name" if "m \<in> set (tm_chains t)" for m
    using assms(1,2) that
    by (elim buildForwarding_cases) (auto simp: forwardings_def forward_rule_def own_chains_def)
  have "\<exists>table chain h. c = CDelRule table (rw_family rw) chain h \<and> chain \<in> own_chains name"
    if h: "\<exists>nm \<in> set (group_keys (tm_hook t) rw). \<exists>m \<in> set (tm_chains t).
      is_deletion c \<and> chain_cmd_ok nm (rw_family rw) m c" for c
  proof -
    obtain m nm where m: "m \<in> set (tm_chains t)" "is_deletion c" "chain_cmd_ok nm (rw_family rw) m c"
      using h by blast
    obtain n rs where "m = Chain n rs" "n \<in> own_chains name" using own [OF m(1)] by blast
    with m(2,3) show ?thesis by (cases c) auto
  qed
  with table_CleanUp_grows [OF assms(3,4)] show ?thesis by (rule grows_weaken)
qed

text \<open>
  The chains a forwarding puts its rules in are the regular chains \<open>start\<close> creates, in
  tables chosen by the same hook.
\<close>

theorem structure_provides_chains:
  assumes "buildForwarding E name rnd proto port target to comment = Ok muts"
  shows "list_all2 (\<lambda>t f. tm_hook t = tm_hook f \<and> tm_name t = tm_name f \<and>
      (\<forall>m \<in> set (tm_chains t). \<exists>rs. RegularChain (chain_name m) rs force \<in> set (tm_chains f)))
    muts (nft_structure name force)"
  using assms
  by (elim buildForwarding_cases)
    (simp add: forwardings_def forward_rule_def nft_structure_def foundation_def Table_def table_AddChain_def)

section \<open>Batches that fail\<close>

lemma Flush_error:
  assumes "is_open rw" and "lib_Flush L (conn_log rw) (rw_kernel rw) = (Err e, k)"
  shows "Flush L rw = (Err (EWrap ''failed to flush commands to nftables'' e), rw\<lparr>rw_conn := None, rw_kernel := k\<rparr>)"
  using assms by (auto simp: Flush_def is_open_def conn_log_def wrapped_def liftk_def)

text \<open>
  A batch the kernel rejects is always reported, \<open>ENOENT\<close> included: the test for a missing
  object looks at the error of package \<open>os\<close>, and what reaches it is wrapped by the flush.
\<close>

theorem runMutation_reports_flush_errors:
  assumes "newReadWriter L name fam k = (Ok rw, k1)" and "action mut rw = (Ok (), rw')" and "is_open rw'"
    and "lib_Flush L (conn_log rw') (rw_kernel rw') = (Err e, k2)"
  shows "runMutation L name fam action (mut # muts) k =
    (Err (EWrap ''failed to flush commands to nftables'' e), k2)"
  using assms by (simp add: Flush_error IgnoreNotFound_def os_IsNotExist_def)

section \<open>Starting once\<close>

lemma once_start_done: "nft_once (snd (once_start L E nft))"
  by (simp add: once_start_def split: prod.split)

lemma nft_once_present [simp]: "nft_once (snd (present L E muts nft)) = nft_once nft"
  by (simp add: present_def on_kernel_def split: prod.split)

text \<open>
  \<open>start\<close> runs at most once. After the first call, whatever became of it, every later call
  only presents the rules: an error of the start is reported by the first call and by no other.
\<close>

theorem AddForwarding_starts_once:
  "nft_once (snd (nft_AddForwarding L E rnd proto port target to comment nft)) \<and>
   (nft_once nft \<longrightarrow> nft_AddForwarding L E rnd proto port target to comment nft =
      (case buildForwarding E (nft_name nft) rnd proto port target to comment of
         Ok muts \<Rightarrow> present L E muts nft | Err e \<Rightarrow> (Err e, nft) | Panic p \<Rightarrow> (Panic p, nft)))"
proof -
  let ?rest = "\<lambda>_ nft. case buildForwarding E (nft_name nft) rnd proto port target to comment of
         Ok muts \<Rightarrow> present L E muts nft | Err e \<Rightarrow> (Err e, nft) | Panic p \<Rightarrow> (Panic p, nft)"
  have 1: "nft_once (snd (wrapped ''failed to start port forwarding'' (once_start L E) nft))"
    by (simp add: once_start_done)
  have 2: "nft_once (snd (?rest a nft'))" if "nft_once nft'" for a and nft' :: "'a nftables"
    using that by (simp split: result.split)
  have "nft_once (snd (andThen (wrapped ''failed to start port forwarding'' (once_start L E)) ?rest nft))"
    using 1 2 by (cases "wrapped ''failed to start port forwarding'' (once_start L E) nft";
        cases "fst (wrapped ''failed to start port forwarding'' (once_start L E) nft)") (auto simp: andThen_def)
  then show ?thesis
    by (auto simp: nft_AddForwarding_def andThen_def wrapped_def once_start_def split: result.split)
qed

section \<open>Examples\<close>

definition demo_table :: table_mut where
  "demo_table = foundation ''KERTICAL'' ''nat'' ''OUTPUT'' ChainHookOutput False []"

lemma demo_table_simps [simp]: "tm_hook demo_table = ChainHookOutput" "tm_name demo_table = ''nat''"
  by (simp_all add: demo_table_def foundation_def table_AddChain_def Table_def)


lemma table_CleanUp_only_deletes_witness:
  "list_all is_deletion (conn_log (snd (table_CleanUp (demo_lib [demo_chain] [] (Ok ())) le_codec demo_table
       (demo_reader [demo_chain] []))))"
  using table_CleanUp_only_deletes [of "demo_reader [demo_chain] []" "demo_lib [demo_chain] [] (Ok ())" demo_table le_codec]
  by (auto simp: grows_def list_all_iff)

lemma demo_table_Ok: "is_Ok (fst (table_Present (demo_lib [] [] (Ok ())) le_codec demo_table (demo_reader [] [])))"
  by code_simp

lemma table_Present_covers_witness:
  "\<exists>rw'. table_Present (demo_lib [] [] (Ok ())) le_codec demo_table (demo_reader [] []) = (Ok (), rw') \<and>
     CAddTable ''nat'' TableFamilyIPv4 \<in> set (conn_log rw')"
proof -
  obtain rw' where run: "table_Present (demo_lib [] [] (Ok ())) le_codec demo_table (demo_reader [] []) = (Ok (), rw')"
    using demo_table_Ok by (metis is_Ok_iff old.unit.exhaust prod.collapse)
  have chain: "RegularChain ''KERTICAL-OUTPUT'' [] False \<in> set (tm_chains demo_table)"
    by (simp add: demo_table_def foundation_def table_AddChain_def Table_def nameOf_def ToUpper_def upper_char_def)
  have "''nat'' \<in> target_tables demo_table (demo_reader [] [])"
    by (simp add: target_tables_def mostFrequencyTable_def Chains_def)
  from table_Present_covers [OF _ _ run chain this] run show ?thesis by auto
qed

lemma demo_build: "buildForwarding le_codec ''KERTICAL'' rnd TCP 8080 target 80 comment \<noteq> Err e"
  "\<exists>muts. buildForwarding le_codec ''KERTICAL'' rnd TCP p target to comment = Ok muts"
  "\<exists>muts. buildForwarding le_codec ''KERTICAL'' rnd UDP p target to comment = Ok muts"
  by (simp_all add: buildForwarding_def TransportProtocol_def Let_def split: prod.split)

lemma RemoveForwarding_recognises_witness:
  "\<exists>added removed. buildForwarding le_codec ''KERTICAL'' (\<lambda>i. word_of_nat i) TCP 8080 [''10.0.0.1'', ''10.0.0.2''] 80 ''web'' = Ok added \<and>
     buildForwarding le_codec ''KERTICAL'' (\<lambda>i. word_of_nat (i + 9)) TCP 8080 [''10.0.0.1'', ''10.0.0.2''] 80 [] = Ok removed \<and>
     list_all2 (same_place (removes le_codec)) added removed"
  using demo_build(2) RemoveForwarding_recognises by metis

lemma forwardings_do_not_interfere_witness:
  "\<exists>added other. buildForwarding le_codec ''KERTICAL'' (\<lambda>i. word_of_nat i) TCP 53 [''10.0.0.1''] 53 ''dns'' = Ok added \<and>
     buildForwarding le_codec ''KERTICAL'' (\<lambda>i. word_of_nat i) UDP 53 [''10.0.0.1''] 53 ''dns'' = Ok other \<and>
     list_all2 (same_place (ignores le_codec)) added other"
proof -
  obtain added other where b:
    "buildForwarding le_codec ''KERTICAL'' (\<lambda>i. word_of_nat i) TCP 53 [''10.0.0.1''] 53 ''dns'' = Ok added"
    "buildForwarding le_codec ''KERTICAL'' (\<lambda>i. word_of_nat i) UDP 53 [''10.0.0.1''] 53 ''dns'' = Ok other"
    using demo_build(2,3) by metis
  from forwardings_do_not_interfere [OF codec_ok_le _ b] b show ?thesis by auto
qed

lemma buildForwarding_permutation_witness:
  "buildForwarding le_codec ''KERTICAL'' rnd TCP 8080 [''10.0.0.1'', ''10.0.0.2''] 80 [] =
   buildForwarding le_codec ''KERTICAL'' rnd TCP 8080 [''10.0.0.2'', ''10.0.0.1''] 80 []"
  by (rule buildForwarding_permutation) simp

lemma load_balancing_total_witness:
  "\<exists>c s. outgoing le_codec ''KERTICAL'' 8080 [''10.0.0.2'', ''10.0.0.1''] [] 7 ''pre'' = (c, [s]) \<and>
     length (sm_elements s) = 2 \<and> distinct (map el_key (sm_elements s))"
proof -
  obtain c sets where o: "outgoing le_codec ''KERTICAL'' 8080 [''10.0.0.2'', ''10.0.0.1''] [] 7 ''pre'' = (c, sets)"
    by fastforce
  from load_balancing_total [OF codec_ok_le _ _ o] o show ?thesis by auto
qed

lemma RemoveForwarding_own_chains_witness:
  "\<exists>t muts. buildForwarding le_codec ''KERTICAL'' (\<lambda>i. word_of_nat i) TCP 53 [''10.0.0.1''] 53 [] = Ok muts \<and> t \<in> set muts \<and>
     list_all is_deletion (conn_log (snd (table_CleanUp (demo_lib [] [] (Ok ())) le_codec t (demo_reader [] []))))"
proof -
  obtain muts where b: "buildForwarding le_codec ''KERTICAL'' (\<lambda>i. word_of_nat i) TCP 53 [''10.0.0.1''] 53 [] = Ok muts"
    using demo_build(2) by metis
  obtain t ts where t: "muts = t # ts"
    using b by (auto simp: buildForwarding_def TransportProtocol_def Let_def split: prod.splits)
  then have "t \<in> set muts" by simp
  from RemoveForwarding_own_chains [OF b this, of "demo_reader [] []" "demo_lib [] [] (Ok ())"]
  have "list_all is_deletion (conn_log (snd (table_CleanUp (demo_lib [] [] (Ok ())) le_codec t (demo_reader [] []))))"
    by (auto simp: grows_def list_all_iff)
  with b t show ?thesis by auto
qed

lemma structure_provides_chains_witness:
  "\<exists>muts. buildForwarding le_codec ''KERTICAL'' (\<lambda>i. word_of_nat i) TCP 53 [''10.0.0.1''] 53 [] = Ok muts \<and>
     map tm_hook muts = map tm_hook (nft_structure ''KERTICAL'' False)"
proof -
  obtain muts where b: "buildForwarding le_codec ''KERTICAL'' (\<lambda>i. word_of_nat i) TCP 53 [''10.0.0.1''] 53 [] = Ok muts"
    using demo_build(2) by metis
  from structure_provides_chains [OF b, of False] have "map tm_hook muts = map tm_hook (nft_structure ''KERTICAL'' False)"
    by (induction rule: list_all2_induct) simp_all
  with b show ?thesis by blast
qed

lemma demo_newReadWriter:
  "newReadWriter (demo_lib [] [] fl) ''KERTICAL'' TableFamilyIPv4 () = (Ok (demo_reader [] []), ())"
  by (simp add: newReadWriter_def refresh_def withOpenConn_def refresh_snapshot_def liftk_def upd_def andThen_def
      demo_lib_def demo_reader_def)

lemma runMutation_reports_flush_errors_witness:
  "runMutation (demo_lib [] [] (Err (EErrno ENOENT))) ''KERTICAL'' TableFamilyIPv4 (\<lambda>t rw. (Ok (), rw)) [demo_table] () =
     (Err (EWrap ''failed to flush commands to nftables'' (EErrno ENOENT)), ())"
  by (rule runMutation_reports_flush_errors [OF demo_newReadWriter, of _ _ "demo_reader [] []"])
    (simp_all add: demo_lib_def)

lemma AddForwarding_starts_once_witness:
  "fst (nft_AddForwarding (demo_lib [] [] (Err (EErrno 1))) le_codec (\<lambda>i. 0) ''SCTP'' 53 [] 53 []
      ((NewIPv4 ''kertical'' ())\<lparr>nft_once := True\<rparr>)) = Panic (ExplicitPanic ''unknown transport protocol'')"
  by (subst AddForwarding_starts_once [THEN conjunct2, THEN mp])
    (simp_all add: NewIPv4_def NewNft_def buildForwarding_def TransportProtocol_def Let_def split: prod.split)

end
