(* ===== verification/Kernel.thy ===== *)
theory Kernel
  imports NfFacts
begin

text \<open>
  The nftables implementation against the kernel's ruleset. What the kernel does with the calls of
  the nftables library is the hypothesis \<open>kernel_ok\<close>: reading lists the ruleset and leaves it alone, a
  batch is applied as a whole or refused as a whole. The program's own chains then follow the
  forwardings: each holds one rule per forwarding, in the order in which they were added.
\<close>

section \<open>The ruleset\<close>

text \<open>A chain is identified by its table, family and name; the rules of a chain are in its order.\<close>

type_synonym chain_key = "string \<times> family \<times> string"

record ruleset =
  rs_chains :: "nchain list"
  rs_rules :: "chain_key \<Rightarrow> nrule list"

definition chain_key :: "nchain \<Rightarrow> chain_key" where
  "chain_key c = (ch_table c, ch_family c, ch_name c)"

definition rule_key :: "nrule \<Rightarrow> chain_key" where
  "rule_key r = (rl_table r, rl_family r, rl_chain r)"

definition table_of :: "chain_key \<Rightarrow> string \<times> family" where
  "table_of \<kappa> = (fst \<kappa>, fst (snd \<kappa>))"

text \<open>Handles are unique within a table, not beyond it.\<close>

definition ruleset_ok :: "ruleset \<Rightarrow> bool" where
  "ruleset_ok rs \<longleftrightarrow> distinct (map chain_key (rs_chains rs)) \<and>
     (\<forall>\<kappa>. \<kappa> \<notin> chain_key ` set (rs_chains rs) \<longrightarrow> rs_rules rs \<kappa> = []) \<and>
     (\<forall>\<kappa>. \<forall>r \<in> set (rs_rules rs \<kappa>). rule_key r = \<kappa>) \<and>
     (\<forall>\<kappa>. distinct (map rl_handle (rs_rules rs \<kappa>))) \<and>
     (\<forall>\<kappa> \<kappa>'. table_of \<kappa> = table_of \<kappa>' \<longrightarrow> \<kappa> \<noteq> \<kappa>' \<longrightarrow>
        (\<forall>r \<in> set (rs_rules rs \<kappa>). \<forall>r' \<in> set (rs_rules rs \<kappa>'). rl_handle r \<noteq> rl_handle r'))"

text \<open>
  What the kernel gives back of an expression: counters count, and a set that was sent with the
  identifier of its batch is listed by its name.
\<close>

fun kernel_form :: "expr \<Rightarrow> expr" where
  "kernel_form (Counter _ _) = Counter 0 0"
| "kernel_form (Lookup src dst isDst _ name neg) = Lookup src dst isDst 0 name neg"
| "kernel_form e = e"

definition rule_form :: "nrule \<Rightarrow> expr list" where
  "rule_form r = map kernel_form (rl_exprs r)"

section \<open>Commands\<close>

text \<open>The handles in use in a table.\<close>

definition handles :: "ruleset \<Rightarrow> string \<times> family \<Rightarrow> 64 word list" where
  "handles rs t = concat (map (\<lambda>c. if table_of (chain_key c) = t then map rl_handle (rs_rules rs (chain_key c)) else [])
     (rs_chains rs))"

definition new_rule :: "chain_key \<Rightarrow> expr list \<Rightarrow> gobytes \<Rightarrow> ruleset \<Rightarrow> nrule \<Rightarrow> bool" where
  "new_rule \<kappa> es ud rs r \<longleftrightarrow> \<kappa> \<in> chain_key ` set (rs_chains rs) \<and> rule_key r = \<kappa> \<and>
     rl_handle r \<notin> set (handles rs (table_of \<kappa>)) \<and> rule_form r = map kernel_form es \<and> rl_userdata r = ud"

definition set_rules :: "chain_key \<Rightarrow> nrule list \<Rightarrow> ruleset \<Rightarrow> ruleset" where
  "set_rules \<kappa> rules rs = rs\<lparr>rs_rules := (rs_rules rs)(\<kappa> := rules)\<rparr>"

definition drop_chains :: "(chain_key \<Rightarrow> bool) \<Rightarrow> ruleset \<Rightarrow> ruleset" where
  "drop_chains P rs = \<lparr>rs_chains = filter (\<lambda>c. \<not> P (chain_key c)) (rs_chains rs),
     rs_rules = (\<lambda>\<kappa>. if P \<kappa> then [] else rs_rules rs \<kappa>)\<rparr>"

fun commit :: "nft_cmd \<Rightarrow> ruleset \<Rightarrow> ruleset \<Rightarrow> bool" where
  "commit (CAddTable t f) rs rs' \<longleftrightarrow> rs' = rs"
| "commit (CDelTable t f) rs rs' \<longleftrightarrow> rs' = drop_chains (\<lambda>\<kappa>. table_of \<kappa> = (t, f)) rs"
| "commit (CAddChain c p) rs rs' \<longleftrightarrow>
     rs' = (if chain_key c \<in> chain_key ` set (rs_chains rs) then rs else rs\<lparr>rs_chains := rs_chains rs @ [c]\<rparr>)"
| "commit (CDelChain t f n) rs rs' \<longleftrightarrow> (t, f, n) \<in> chain_key ` set (rs_chains rs) \<and>
     rs' = drop_chains (\<lambda>\<kappa>. \<kappa> = (t, f, n)) rs"
| "commit (CAddRule t f n es ud) rs rs' \<longleftrightarrow>
     (\<exists>r. new_rule (t, f, n) es ud rs r \<and> rs' = set_rules (t, f, n) (rs_rules rs (t, f, n) @ [r]) rs)"
| "commit (CInsertRule t f n es ud) rs rs' \<longleftrightarrow>
     (\<exists>r. new_rule (t, f, n) es ud rs r \<and> rs' = set_rules (t, f, n) (r # rs_rules rs (t, f, n)) rs)"
| "commit (CDelRule t f n h) rs rs' \<longleftrightarrow> h \<in> rl_handle ` set (rs_rules rs (t, f, n)) \<and>
     rs' = set_rules (t, f, n) (filter (\<lambda>r. rl_handle r \<noteq> h) (rs_rules rs (t, f, n))) rs"
| "commit (CAddSet t f i n m k v es c) rs rs' \<longleftrightarrow> rs' = rs"

fun commits :: "nft_cmd list \<Rightarrow> ruleset \<Rightarrow> ruleset \<Rightarrow> bool" where
  "commits [] rs rs' \<longleftrightarrow> rs' = rs"
| "commits (c # cs) rs rs' \<longleftrightarrow> (\<exists>rs1. commit c rs rs1 \<and> commits cs rs1 rs')"

text \<open>A batch that can be applied, whatever handles the kernel gives out.\<close>

fun applies :: "nft_cmd list \<Rightarrow> ruleset \<Rightarrow> bool" where
  "applies [] rs \<longleftrightarrow> True"
| "applies (c # cs) rs \<longleftrightarrow> (\<exists>rs'. commit c rs rs') \<and> (\<forall>rs'. commit c rs rs' \<longrightarrow> applies cs rs')"

section \<open>The kernel behind the library\<close>

text \<open>
  Reading leaves the ruleset as it is. A willing kernel makes no errors of its own: it refuses a batch
  only when it cannot be applied.
\<close>

definition reads :: "bool \<Rightarrow> ('k \<Rightarrow> ruleset) \<Rightarrow> (ruleset \<Rightarrow> 'a \<Rightarrow> bool) \<Rightarrow> ('k, 'a) step \<Rightarrow> bool" where
  "reads willing view R f \<longleftrightarrow> (\<forall>k. view (snd (f k)) = view k \<and>
     (case fst (f k) of Ok a \<Rightarrow> R (view k) a | Err _ \<Rightarrow> \<not> willing | Panic _ \<Rightarrow> False))"

definition kernel_ok :: "bool \<Rightarrow> 'k nflib \<Rightarrow> ('k \<Rightarrow> ruleset) \<Rightarrow> bool" where
  "kernel_ok willing L view \<longleftrightarrow>
     reads willing view (\<lambda>_ _. True) (lib_New L) \<and>
     (\<forall>f. reads willing view (\<lambda>_ _. True) (lib_ListTablesOfFamily L f)) \<and>
     reads willing view (\<lambda>rs cs. cs = rs_chains rs) (lib_ListChains L) \<and>
     (\<forall>c. reads willing view (\<lambda>rs rules. rules = rs_rules rs (chain_key c)) (lib_GetRules L c)) \<and>
     (\<forall>t. reads willing view (\<lambda>_ _. True) (lib_GetSets L t)) \<and>
     (\<forall>s. reads willing view (\<lambda>_ _. True) (lib_GetSetElements L s)) \<and>
     (\<forall>cmds k. case lib_Flush L cmds k of
         (Ok _, k') \<Rightarrow> commits cmds (view k) (view k')
       | (Err _, k') \<Rightarrow> view k' = view k \<and> \<not> (willing \<and> applies cmds (view k))
       | (Panic _, _) \<Rightarrow> False) \<and>
     (willing \<longrightarrow> (\<forall>c. lib_AddSet L c = None) \<and> (\<forall>c. lib_DelRule L c = None))"

section \<open>Committing keeps the ruleset well formed\<close>

lemma ruleset_okD:
  assumes "ruleset_ok rs"
  shows "distinct (map chain_key (rs_chains rs))"
    and "\<kappa> \<notin> chain_key ` set (rs_chains rs) \<Longrightarrow> rs_rules rs \<kappa> = []"
    and "r \<in> set (rs_rules rs \<kappa>) \<Longrightarrow> rule_key r = \<kappa>"
    and "distinct (map rl_handle (rs_rules rs \<kappa>))"
    and "table_of \<kappa> = table_of \<kappa>' \<Longrightarrow> \<kappa> \<noteq> \<kappa>' \<Longrightarrow> r \<in> set (rs_rules rs \<kappa>) \<Longrightarrow>
      r' \<in> set (rs_rules rs \<kappa>') \<Longrightarrow> rl_handle r \<noteq> rl_handle r'"
  using assms unfolding ruleset_ok_def by blast+

lemma ruleset_okI:
  assumes "distinct (map chain_key (rs_chains rs))"
    and "\<And>\<kappa>. \<kappa> \<notin> chain_key ` set (rs_chains rs) \<Longrightarrow> rs_rules rs \<kappa> = []"
    and "\<And>\<kappa> r. r \<in> set (rs_rules rs \<kappa>) \<Longrightarrow> rule_key r = \<kappa>"
    and "\<And>\<kappa>. distinct (map rl_handle (rs_rules rs \<kappa>))"
    and "\<And>\<kappa> \<kappa>' r r'. table_of \<kappa> = table_of \<kappa>' \<Longrightarrow> \<kappa> \<noteq> \<kappa>' \<Longrightarrow> r \<in> set (rs_rules rs \<kappa>) \<Longrightarrow>
      r' \<in> set (rs_rules rs \<kappa>') \<Longrightarrow> rl_handle r \<noteq> rl_handle r'"
  shows "ruleset_ok rs"
  using assms unfolding ruleset_ok_def by blast

lemma set_handles:
  "h \<in> set (handles rs t) \<longleftrightarrow> (\<exists>\<kappa> \<in> chain_key ` set (rs_chains rs). table_of \<kappa> = t \<and> h \<in> rl_handle ` set (rs_rules rs \<kappa>))"
  by (auto simp: handles_def)

text \<open>Replacing the rules of one chain.\<close>

lemma set_rules_simps [simp]:
  "rs_chains (set_rules \<kappa> rules rs) = rs_chains rs"
  "rs_rules (set_rules \<kappa> rules rs) \<kappa>' = (if \<kappa>' = \<kappa> then rules else rs_rules rs \<kappa>')"
  by (simp_all add: set_rules_def)

lemma drop_chains_simps [simp]:
  "rs_chains (drop_chains P rs) = filter (\<lambda>c. \<not> P (chain_key c)) (rs_chains rs)"
  "rs_rules (drop_chains P rs) \<kappa> = (if P \<kappa> then [] else rs_rules rs \<kappa>)"
  by (simp_all add: drop_chains_def)

lemma ruleset_ok_set_rules:
  assumes ok: "ruleset_ok rs" and \<kappa>: "\<kappa> \<in> chain_key ` set (rs_chains rs)"
    and key: "\<forall>r \<in> set rules. rule_key r = \<kappa>" and dist: "distinct (map rl_handle rules)"
    and sub: "\<forall>r \<in> set rules. r \<in> set (rs_rules rs \<kappa>) \<or> rl_handle r \<notin> set (handles rs (table_of \<kappa>))"
  shows "ruleset_ok (set_rules \<kappa> rules rs)"
proof -
  have new: "rl_handle r \<noteq> rl_handle r'"
    if t: "table_of \<kappa> = table_of \<kappa>'" "\<kappa> \<noteq> \<kappa>'" and r: "r \<in> set rules" "r' \<in> set (rs_rules rs \<kappa>')" for \<kappa>' r r'
  proof -
    have "\<kappa>' \<in> chain_key ` set (rs_chains rs)" using ruleset_okD(2) [OF ok] r(2) by fastforce
    then have "rl_handle r' \<in> set (handles rs (table_of \<kappa>))"
      using r(2) t(1) by (auto simp: set_handles)
    moreover have "rl_handle r \<noteq> rl_handle r'" if "r \<in> set (rs_rules rs \<kappa>)"
      using ruleset_okD(5) [OF ok t that r(2)] .
    ultimately show ?thesis using sub r(1) by metis
  qed
  show ?thesis
  proof (rule ruleset_okI)
    fix \<kappa>1 \<kappa>2 r r'
    assume h: "table_of \<kappa>1 = table_of \<kappa>2" "\<kappa>1 \<noteq> \<kappa>2" "r \<in> set (rs_rules (set_rules \<kappa> rules rs) \<kappa>1)"
      "r' \<in> set (rs_rules (set_rules \<kappa> rules rs) \<kappa>2)"
    consider "\<kappa>1 = \<kappa>" | "\<kappa>2 = \<kappa>" | "\<kappa>1 \<noteq> \<kappa>" "\<kappa>2 \<noteq> \<kappa>" by blast
    then show "rl_handle r \<noteq> rl_handle r'"
    proof cases
      case 1
      with h new [of \<kappa>2 r r'] show ?thesis by simp
    next
      case 2
      with h new [of \<kappa>1 r' r] show ?thesis by simp
    next
      case 3
      with h ruleset_okD(5) [OF ok h(1,2)] show ?thesis by simp
    qed
  qed (use ruleset_okD(1-4) [OF ok] \<kappa> key dist in \<open>auto split: if_splits\<close>)
qed

lemma new_rule_ok:
  assumes "ruleset_ok rs" and "new_rule \<kappa> es ud rs r"
  shows "ruleset_ok (set_rules \<kappa> (rs_rules rs \<kappa> @ [r]) rs)" and "ruleset_ok (set_rules \<kappa> (r # rs_rules rs \<kappa>) rs)"
proof -
  have fresh: "rl_handle r \<notin> rl_handle ` set (rs_rules rs \<kappa>)"
    using assms(2) by (auto simp: new_rule_def set_handles)
  have both: "\<kappa> \<in> chain_key ` set (rs_chains rs)" "rule_key r = \<kappa>" "rl_handle r \<notin> set (handles rs (table_of \<kappa>))"
    using assms(2) by (simp_all add: new_rule_def)
  note old = ruleset_okD(3,4) [OF assms(1)]
  show "ruleset_ok (set_rules \<kappa> (rs_rules rs \<kappa> @ [r]) rs)"
    by (rule ruleset_ok_set_rules [OF assms(1) both(1)]) (use both fresh old in auto)
  show "ruleset_ok (set_rules \<kappa> (r # rs_rules rs \<kappa>) rs)"
    by (rule ruleset_ok_set_rules [OF assms(1) both(1)]) (use both fresh old in auto)
qed

lemma ruleset_ok_drop_chains:
  assumes "ruleset_ok rs"
  shows "ruleset_ok (drop_chains P rs)"
proof (rule ruleset_okI)
  show "rs_rules (drop_chains P rs) \<kappa> = []" if "\<kappa> \<notin> chain_key ` set (rs_chains (drop_chains P rs))" for \<kappa>
    using that ruleset_okD(2) [OF assms, of \<kappa>] by auto
qed (use ruleset_okD [OF assms] in \<open>auto simp: distinct_map inj_on_def split: if_splits\<close>)

lemma ruleset_ok_add_chain:
  assumes "ruleset_ok rs" and "chain_key c \<notin> chain_key ` set (rs_chains rs)"
  shows "ruleset_ok (rs\<lparr>rs_chains := rs_chains rs @ [c]\<rparr>)"
  by (rule ruleset_okI) (use ruleset_okD [OF assms(1)] assms(2) in auto)

lemma commit_ok: "ruleset_ok rs \<Longrightarrow> commit c rs rs' \<Longrightarrow> ruleset_ok rs'"
proof (induction c rs rs' rule: commit.induct)
  case (3 c p rs rs')
  then show ?case by (auto intro: ruleset_ok_add_chain)
next
  case (7 t f n h rs rs')
  let ?\<kappa> = "(t, f, n)"
  show ?case
  proof (cases "?\<kappa> \<in> chain_key ` set (rs_chains rs)")
    case True
    have "ruleset_ok (set_rules ?\<kappa> (filter (\<lambda>r. rl_handle r \<noteq> h) (rs_rules rs ?\<kappa>)) rs)"
      by (rule ruleset_ok_set_rules [OF 7(1) True])
        (use ruleset_okD(3,4) [OF 7(1)] in \<open>auto simp: distinct_map_filter\<close>)
    then show ?thesis using 7(2) by simp
  next
    case False
    then have "rs_rules rs ?\<kappa> = []" using ruleset_okD(2) [OF 7(1)] by blast
    then have "rs' = rs" using 7(2) by (cases rs) (auto simp: set_rules_def fun_upd_idem)
    then show ?thesis using 7(1) by simp
  qed
qed (auto intro: ruleset_ok_drop_chains new_rule_ok)

lemma commits_ok: "ruleset_ok rs \<Longrightarrow> commits cs rs rs' \<Longrightarrow> ruleset_ok rs'"
  by (induction cs arbitrary: rs) (auto dest: commit_ok)

lemma commits_append: "commits (cs @ ds) rs rs' \<longleftrightarrow> (\<exists>rs1. commits cs rs rs1 \<and> commits ds rs1 rs')"
  by (induction cs arbitrary: rs) auto

section \<open>What a fresh reader sees\<close>

lemma readsD:
  assumes "reads willing view R f" and "f k = (r, k')"
  shows "view k' = view k" and "r \<noteq> Panic p" and "r = Ok a \<Longrightarrow> R (view k) a" and "willing \<Longrightarrow> r \<noteq> Err e"
  using assms by (auto simp: reads_def dest: spec [of _ k])

lemma kernel_okD:
  assumes "kernel_ok willing L view"
  shows "reads willing view (\<lambda>_ _. True) (lib_New L)" "reads willing view (\<lambda>_ _. True) (lib_ListTablesOfFamily L f)"
    "reads willing view (\<lambda>rs cs. cs = rs_chains rs) (lib_ListChains L)"
    "reads willing view (\<lambda>rs rules. rules = rs_rules rs (chain_key c)) (lib_GetRules L c)"
    "reads willing view (\<lambda>_ _. True) (lib_GetSets L t)" "reads willing view (\<lambda>_ _. True) (lib_GetSetElements L s)"
  using assms by (simp_all add: kernel_ok_def)

text \<open>A step that leaves the ruleset alone and does not panic; with success its result satisfies \<open>R\<close>.\<close>

definition quiet :: "bool \<Rightarrow> ('k \<Rightarrow> ruleset) \<Rightarrow> ('a \<Rightarrow> 'k readWriter \<Rightarrow> 'k readWriter \<Rightarrow> bool) \<Rightarrow> ('k readWriter, 'a) step \<Rightarrow> bool" where
  "quiet willing view R m \<longleftrightarrow> (\<forall>rw. view (rw_kernel (snd (m rw))) = view (rw_kernel rw) \<and>
     (case fst (m rw) of Ok a \<Rightarrow> R a rw (snd (m rw)) | Err _ \<Rightarrow> \<not> willing | Panic _ \<Rightarrow> False))"

lemma quietD:
  assumes "quiet willing view R m" and "m rw = (r, rw')"
  shows "view (rw_kernel rw') = view (rw_kernel rw)" and "r \<noteq> Panic p" and "r = Ok a \<Longrightarrow> R a rw rw'" and "willing \<Longrightarrow> r \<noteq> Err e"
  using assms by (auto simp: quiet_def dest: spec [of _ rw])

lemma quiet_andThen:
  assumes "quiet willing view R1 m" and "\<And>a. quiet willing view (R2 a) (f a)"
  shows "quiet willing view (\<lambda>b rw rw2. \<exists>a rw1. R1 a rw rw1 \<and> R2 a b rw1 rw2 \<and> view (rw_kernel rw1) = view (rw_kernel rw))
    (andThen m f)"
  unfolding quiet_def
proof
  fix rw
  obtain r rw1 where m: "m rw = (r, rw1)" by fastforce
  note 1 = quietD [OF assms(1) m]
  show "view (rw_kernel (snd (andThen m f rw))) = view (rw_kernel rw) \<and>
    (case fst (andThen m f rw) of Ok b \<Rightarrow> \<exists>a rw1. R1 a rw rw1 \<and> R2 a b rw1 (snd (andThen m f rw)) \<and>
       view (rw_kernel rw1) = view (rw_kernel rw) | Err _ \<Rightarrow> \<not> willing | Panic _ \<Rightarrow> False)"
  proof (cases r)
    case (Ok a)
    obtain q rw2 where f: "f a rw1 = (q, rw2)" by fastforce
    note 2 = quietD [OF assms(2) f]
    have "andThen m f rw = (q, rw2)" using m Ok f by (simp add: andThen_def)
    then show ?thesis using 1 2 Ok by (cases q) auto
  qed (use m 1 in \<open>auto simp: andThen_def\<close>)
qed

lemma quiet_weaken: "quiet willing view R m \<Longrightarrow> (\<And>a rw rw'. R a rw rw' \<Longrightarrow> S a rw rw') \<Longrightarrow> quiet willing view S m"
  unfolding quiet_def by (fastforce split: result.splits)

lemma quiet_pointwise:
  assumes "\<And>rw. quiet willing view R (m' rw)" and "\<And>rw. m rw = m' rw rw"
  shows "quiet willing view R m"
  unfolding quiet_def assms(2) by (intro allI) (rule assms(1) [unfolded quiet_def, THEN spec])

lemma quiet_liftk:
  "reads willing view R f \<Longrightarrow> quiet willing view (\<lambda>a rw rw'. R (view (rw_kernel rw)) a \<and> (\<exists>k. rw' = rw\<lparr>rw_kernel := k\<rparr>)) (liftk f)"
  by (auto simp: quiet_def reads_def liftk_def split: prod.split result.split)
    (metis fst_conv snd_conv result.simps)+

lemma quiet_upd: "(\<And>rw. rw_kernel (g rw) = rw_kernel rw) \<Longrightarrow> quiet willing view (\<lambda>_ rw rw'. rw' = g rw) (upd g)"
  by (simp add: quiet_def upd_def)

definition listing :: "string \<Rightarrow> ruleset \<Rightarrow> nchain list \<Rightarrow> nrule list" where
  "listing name rs cs = concat (map (\<lambda>c. rs_rules rs (chain_key c))
     (filter (\<lambda>c. ch_hooknum c \<noteq> None \<or> HasPrefix (ch_name c) name) cs))"

definition same_rules :: "'k readWriter \<Rightarrow> 'k readWriter \<Rightarrow> bool" where
  "same_rules rw rw' \<longleftrightarrow> rw_name rw' = rw_name rw \<and> rw_chains rw' = rw_chains rw \<and> rw_rules rw' = rw_rules rw"

definition lists_rules :: "('k \<Rightarrow> ruleset) \<Rightarrow> nchain list \<Rightarrow> 'k readWriter \<Rightarrow> 'k readWriter \<Rightarrow> bool" where
  "lists_rules view cs rw rw' \<longleftrightarrow> rw_name rw' = rw_name rw \<and> rw_chains rw' = rw_chains rw \<and>
     elems (rw_rules rw') = elems (rw_rules rw) @ listing (rw_name rw) (view (rw_kernel rw)) cs"

lemma quiet_refresh_rules:
  assumes "kernel_ok willing L view"
  shows "quiet willing view (\<lambda>_. lists_rules view cs) (refresh_rules L cs)"
proof -
  have "view (rw_kernel rw') = view (rw_kernel rw) \<and> (\<forall>p. r \<noteq> Panic p) \<and> (is_Ok r \<longrightarrow> lists_rules view cs rw rw') \<and>
      (willing \<longrightarrow> (\<forall>e. r \<noteq> Err e))"
    if "refresh_rules L cs rw = (r, rw')" for r and rw rw' :: "'a readWriter"
    using that
  proof (induction cs arbitrary: rw)
    case Nil
    then show ?case by (auto simp: lists_rules_def listing_def)
  next
    case (Cons c cs)
    show ?case
    proof (cases "ch_hooknum c \<noteq> None \<or> HasPrefix (ch_name c) (rw_name rw)")
      case False
      with Cons.IH [of rw] Cons.prems show ?thesis by (simp add: lists_rules_def listing_def)
    next
      case True
      obtain a k where get: "lib_GetRules L c (rw_kernel rw) = (a, k)" by fastforce
      note read = readsD [OF kernel_okD(4) [OF assms] get]
      show ?thesis
      proof (cases a)
        case (Ok rules)
        let ?rw = "rw\<lparr>rw_kernel := k, rw_rules := slice_of (elems (rw_rules rw) @ rules)\<rparr>"
        have "refresh_rules L cs ?rw = (r, rw')"
          using Cons.prems True get Ok by (simp add: andThen_def liftk_def upd_def)
        from Cons.IH [OF this] True read(1) read(3) [OF Ok] show ?thesis
          by (simp add: lists_rules_def listing_def)
      next
        case (Err e)
        then show ?thesis using Cons.prems True get read(1,4) by (auto simp: andThen_def liftk_def)
      next
        case (Panic p)
        then show ?thesis using read(2) by blast
      qed
    qed
  qed
  then show ?thesis by (auto simp: quiet_def is_Ok_iff prod_eq_iff split: result.split)
qed

lemma quiet_refresh_set_elements:
  assumes "kernel_ok willing L view"
  shows "quiet willing view (\<lambda>_. same_rules) (refresh_set_elements L ss)"
proof (induction ss)
  case Nil
  show ?case by (simp add: quiet_def same_rules_def)
next
  case (Cons s ss)
  have "quiet willing view (\<lambda>_. same_rules) (andThen (liftk (lib_GetSetElements L s)) (\<lambda>elements.
       andThen (upd (\<lambda>rw. rw\<lparr>rw_sets := rw_sets rw @ [\<lparr>swe_set = s, swe_elements = elements\<rparr>]\<rparr>)) (\<lambda>_.
         refresh_set_elements L ss)))"
    by (rule quiet_weaken [OF quiet_andThen [OF quiet_liftk [OF kernel_okD(6) [OF assms]] quiet_andThen [OF quiet_upd Cons.IH]]])
      (auto simp: same_rules_def)
  then show ?case by (simp add: quiet_def)
qed

lemma quiet_refresh_sets:
  assumes "kernel_ok willing L view"
  shows "quiet willing view (\<lambda>_. same_rules) (refresh_sets L ts)"
proof (induction ts)
  case Nil
  show ?case by (simp add: quiet_def same_rules_def)
next
  case (Cons t ts)
  have "quiet willing view (\<lambda>_. same_rules) (andThen (liftk (lib_GetSets L t)) (\<lambda>sets.
       andThen (refresh_set_elements L sets) (\<lambda>_. refresh_sets L ts)))"
    by (rule quiet_weaken [OF quiet_andThen [OF quiet_liftk [OF kernel_okD(5) [OF assms]]
          quiet_andThen [OF quiet_refresh_set_elements [OF assms] Cons.IH]]])
      (auto simp: same_rules_def)
  then show ?case by (simp add: quiet_def)
qed

definition lists_all :: "('k \<Rightarrow> ruleset) \<Rightarrow> 'k readWriter \<Rightarrow> 'k readWriter \<Rightarrow> bool" where
  "lists_all view rw rw' \<longleftrightarrow> (let rs = view (rw_kernel rw) in
     elems (rw_chains rw') = rs_chains rs \<and> elems (rw_rules rw') = listing (rw_name rw) rs (rs_chains rs))"

lemma quiet_refresh_snapshot:
  assumes "kernel_ok willing L view"
  shows "quiet willing view (\<lambda>_. lists_all view) (refresh_snapshot L)"
proof -
  have rest: "quiet willing view (\<lambda>_. lists_rules view cs)
      (andThen (refresh_rules L cs) (\<lambda>_. andThen (upd (\<lambda>rw. rw\<lparr>rw_sets := []\<rparr>)) (\<lambda>_. refresh_sets L ts)))" for cs ts
    by (rule quiet_weaken [OF quiet_andThen [OF quiet_refresh_rules [OF assms] quiet_andThen [OF quiet_upd quiet_refresh_sets [OF assms]]]])
      (auto simp: same_rules_def lists_rules_def)
  have chains: "quiet willing view (\<lambda>_. lists_all view) (andThen (liftk (lib_ListChains L)) (\<lambda>cs.
      andThen (upd (\<lambda>rw. rw\<lparr>rw_chains := slice_of cs, rw_rules := slice_of []\<rparr>)) (\<lambda>_.
        andThen (refresh_rules L cs) (\<lambda>_. andThen (upd (\<lambda>rw. rw\<lparr>rw_sets := []\<rparr>)) (\<lambda>_. refresh_sets L ts)))))" for ts
    by (rule quiet_weaken [OF quiet_andThen [OF quiet_liftk [OF kernel_okD(3) [OF assms]] quiet_andThen [OF quiet_upd rest]]])
      (auto simp: lists_rules_def lists_all_def Let_def)
  have "quiet willing view (\<lambda>_. lists_all view) (andThen (liftk (lib_ListTablesOfFamily L fam)) (\<lambda>ts.
      andThen (upd (\<lambda>rw. rw\<lparr>rw_tables := slice_of ts\<rparr>)) (\<lambda>_.
        andThen (liftk (lib_ListChains L)) (\<lambda>cs.
          andThen (upd (\<lambda>rw. rw\<lparr>rw_chains := slice_of cs, rw_rules := slice_of []\<rparr>)) (\<lambda>_.
            andThen (refresh_rules L cs) (\<lambda>_. andThen (upd (\<lambda>rw. rw\<lparr>rw_sets := []\<rparr>)) (\<lambda>_. refresh_sets L ts)))))))" for fam
    by (rule quiet_weaken [OF quiet_andThen [OF quiet_liftk [OF kernel_okD(2) [OF assms]] quiet_andThen [OF quiet_upd chains]]])
      (auto simp: lists_all_def Let_def)
  then show ?thesis by (rule quiet_pointwise) (rule refresh_snapshot_def)
qed

lemma newReadWriter_view:
  assumes "kernel_ok willing L view" and "newReadWriter L name fam k = (r, k')"
  shows "view k' = view k" and "r \<noteq> Panic p" and "willing \<Longrightarrow> r \<noteq> Err e"
    and "r = Ok rw \<Longrightarrow> rw_kernel rw = k' \<and> snapshot_of name fam rw \<and> elems (rw_chains rw) = rs_chains (view k) \<and>
      elems (rw_rules rw) = listing name (view k) (rs_chains (view k))"
proof -
  let ?rw0 = "\<lparr>rw_name = name, rw_family = fam, rw_tables = slice_of [], rw_chains = slice_of [],
          rw_rules = slice_of [], rw_sets = [], rw_conn = None, rw_kernel = k\<rparr> :: 'a readWriter"
  obtain a k1 where new: "lib_New L k = (a, k1)" by fastforce
  obtain q rw1 where snap: "refresh_snapshot L (?rw0\<lparr>rw_kernel := k1, rw_conn := Some []\<rparr>) = (q, rw1)" by fastforce
  note a = readsD [OF kernel_okD(1) [OF assms(1)] new] and q = quietD [OF quiet_refresh_snapshot [OF assms(1)] snap]
  have all: "view k' = view k \<and> r \<noteq> Panic p \<and> (willing \<longrightarrow> r \<noteq> Err e) \<and> (r = Ok rw \<longrightarrow> rw_kernel rw = k' \<and> elems (rw_chains rw) = rs_chains (view k) \<and>
      elems (rw_rules rw) = listing name (view k) (rs_chains (view k)))"
    using assms(2) new snap a q
    by (cases a; cases q) (auto simp: newReadWriter_def refresh_def withOpenConn_def liftk_def lists_all_def Let_def)
  then show "view k' = view k" "r \<noteq> Panic p" "willing \<Longrightarrow> r \<noteq> Err e" by simp_all
  assume "r = Ok rw"
  with all newReadWriter_snapshot [of L name fam k rw k'] assms(2)
  show "rw_kernel rw = k' \<and> snapshot_of name fam rw \<and> elems (rw_chains rw) = rs_chains (view k) \<and>
      elems (rw_rules rw) = listing name (view k) (rs_chains (view k))"
    by simp
qed

end
