(* ===== verification/OwnChains.thy ===== *)
theory OwnChains
  imports Kernel
begin

text \<open>
  The program's own chains under the hypothesis \<open>kernel_ok\<close>: the rules of a forwarding as the kernel shows
  them, which rules the conditions recognise, and the chains with their contents.
\<close>

section \<open>Deleting a single rule\<close>

text \<open>
  Handles are unique within a table only, so that the deletion may hit another rule of the snapshot
  first. With at most one match in the snapshot the commands are right all the same.
\<close>

lemma range_slice_append:
  "range_slice view k (a + b) body s = andThen (range_slice view k a body) (\<lambda>_. range_slice view (k + a) b body) s"
proof (induction a arbitrary: k s)
  case 0
  then show ?case by (simp add: andThen_def)
next
  case (Suc a)
  then show ?case
    by (cases "body (backing (view s) ! k) s"; cases "fst (body (backing (view s) ! k) s)") (auto simp: andThen_def
        split: prod.split result.split)
qed

lemma range_slice_noop:
  "(\<And>m. k \<le> m \<Longrightarrow> m < k + n \<Longrightarrow> body (backing (view s) ! m) s = (Ok (), s)) \<Longrightarrow> range_slice view k n body s = (Ok (), s)"
proof (induction n arbitrary: k)
  case 0
  then show ?case by simp
next
  case (Suc n)
  have "range_slice view (Suc k) n body s = (Ok (), s)" by (rule Suc.IH) (use Suc.prems in auto)
  with Suc.prems [of k] show ?case by (simp add: andThen_def)
qed

lemma filter_at_most_one:
  assumes "length (filter P xs) \<le> 1" and "i < length xs" and "P (xs ! i)" and "j < length xs" and "P (xs ! j)"
  shows "i = j"
proof -
  have "card {k. k < length xs \<and> P (xs ! k)} \<le> Suc 0" using assms(1) by (simp add: length_filter_conv_card)
  then show ?thesis using assms(2-5) by (subst (asm) card_le_Suc0_iff_eq) auto
qed

lemma filter_single: 
  assumes "length (filter P xs) \<le> 1" and "i < length xs" and "P (xs ! i)"
  shows "filter P xs = [xs ! i]"
proof -
  have "xs ! i \<in> set (filter P xs)" using assms(2,3) by simp
  with assms(1) show ?thesis by (cases "filter P xs") auto
qed

lemma rule_CleanUp_run:
  assumes op: "is_open rw" and wf: "wf_slice (rw_rules rw)" and read: "readable E rrw (rm_expr r) rw"
    and one: "length (filter (owned E rrw (rw_family rw) (rm_expr r)) (elems (rw_rules rw))) \<le> 1"
  shows "filter (owned E rrw (rw_family rw) (rm_expr r)) (elems (rw_rules rw)) = [] \<and> rule_CleanUp L E rrw r rw = (Ok (), rw) \<or>
    (\<exists>x j. filter (owned E rrw (rw_family rw) (rm_expr r)) (elems (rw_rules rw)) = [x] \<and>
       find_index (\<lambda>y. rl_handle y = rl_handle x) (elems (rw_rules rw)) = Some j \<and>
       rule_CleanUp L E rrw r rw = (case lib_DelRule L (rrw_cmd rrw (rw_family rw) x) of
          Some e \<Rightarrow> (Err (EWrap (''failed to delete rule in table '' @ quote (crw_table (rrw_crw rrw)) @ '' chain '' @ quote (rrw_chain rrw)) e),
            rw\<lparr>rw_rules := slice_delete j (rw_rules rw)\<rparr>)
        | None \<Rightarrow> (Ok (), queue_cmd (rrw_cmd rrw (rw_family rw) x) (rw\<lparr>rw_rules := slice_delete j (rw_rules rw)\<rparr>))))"
proof -
  let ?P = "owned E rrw (rw_family rw) (rm_expr r)" and ?es = "elems (rw_rules rw)"
  let ?body = "delete_if L E rrw (rm_expr r)" and ?n = "glen (rw_rules rw)"
  have len: "length ?es = ?n" using wf by (simp add: length_elems)
  have cell: "backing (rw_rules rw) ! m = ?es ! m" if "m < ?n" for m using that by (simp add: elems_def)
  have skip: "?body (?es ! m) rw1 = (Ok (), rw1)"
    if "m < ?n" "\<not> ?P (?es ! m)" "rw_family rw1 = rw_family rw" for m and rw1 :: "'a readWriter"
  proof -
    have "?es ! m \<in> set ?es" using that(1) len by simp
    with read that show ?thesis by (simp add: readable_def delete_if_eq)
  qed
  show ?thesis
  proof (cases "find_index ?P ?es")
    case None
    then have none: "\<forall>x \<in> set ?es. \<not> ?P x" by (simp add: find_index_None)
    then have "range_slice rw_rules 0 ?n ?body rw = (Ok (), rw)"
      by (intro range_slice_noop) (simp add: cell skip len)
    with none show ?thesis by (simp add: rule_CleanUp_def filter_empty_conv)
  next
    case (Some i)
    from find_index_Some [OF this] len have i: "i < ?n" "?P (?es ! i)" by auto
    have others: "\<not> ?P (?es ! m)" if "m < ?n" "m \<noteq> i" for m
      using filter_at_most_one [OF one, of i m] i that len by auto
    let ?x = "?es ! i" and ?t = "crw_table (rrw_crw rrw)"
    have hit: "\<exists>j \<le> i. find_index (\<lambda>y. rl_handle y = rl_handle ?x) ?es = Some j"
    proof (cases "find_index (\<lambda>y. rl_handle y = rl_handle ?x) ?es")
      case None
      then show ?thesis using i(1) len by (auto simp: find_index_None)
    next
      case (Some j)
      with find_index_Some [OF Some] show ?thesis by (metis linorder_le_less_linear)
    qed
    then obtain j where j: "j \<le> i" "find_index (\<lambda>y. rl_handle y = rl_handle ?x) ?es = Some j" by blast
    let ?rw1 = "rw\<lparr>rw_rules := slice_delete j (rw_rules rw)\<rparr>" and ?c = "CDelRule ?t (rw_family rw) (rrw_chain rrw) (rl_handle ?x)"
    have "?x \<in> set ?es" using i(1) len by simp
    then have at: "?body ?x rw = (case lib_DelRule L ?c of
         Some e \<Rightarrow> (Err (EWrap (''failed to delete rule in table '' @ quote ?t @ '' chain '' @ quote (rrw_chain rrw)) e), ?rw1)
       | None \<Rightarrow> (Ok (), queue_cmd ?c ?rw1))"
      using i(2) read op j(2) by (simp add: readable_def delete_if_eq DeleteRule_open Let_def)
    have before: "range_slice rw_rules 0 i ?body rw = (Ok (), rw)"
      by (intro range_slice_noop) (use i(1) in \<open>simp add: cell skip others\<close>)
    have after: "range_slice rw_rules (Suc i) (?n - Suc i) ?body (queue_cmd ?c ?rw1) = (Ok (), queue_cmd ?c ?rw1)"
    proof (intro range_slice_noop)
      fix m assume m: "Suc i \<le> m" "m < Suc i + (?n - Suc i)"
      let ?m = "if m < ?n - 1 then Suc m else m"
      have "backing (slice_delete j (rw_rules rw)) ! m = ?es ! ?m"
        using m i j(1) wf nth_slice_delete [OF wf, of j m] cell [of ?m] by (auto simp: wf_slice_def)
      with m i skip [OF _ others, of ?m] show "?body (backing (rw_rules (queue_cmd ?c ?rw1)) ! m) (queue_cmd ?c ?rw1) =
          (Ok (), queue_cmd ?c ?rw1)"
        by auto
    qed
    obtain d where d: "?n - i = Suc d" using i(1) by (metis Suc_diff_Suc)
    then have d': "?n - Suc i = d" by simp
    have "range_slice rw_rules 0 (i + Suc d) ?body rw = range_slice rw_rules i (Suc d) ?body rw"
      unfolding range_slice_append by (simp only: andThen_def before prod.case result.case add_0)
    also have "i + Suc d = ?n" using d i(1) by simp
    finally have loop: "rule_CleanUp L E rrw r rw = andThen (?body ?x) (\<lambda>_. range_slice rw_rules (Suc i) d ?body) rw"
      by (simp add: rule_CleanUp_def cell [OF i(1)])
    have "filter ?P ?es = [?x]" using filter_single [OF one _ i(2)] i(1) len by simp
    moreover have "?c = rrw_cmd rrw (rw_family rw) ?x" by (simp add: rrw_cmd_def del_cmd_def)
    moreover have "rule_CleanUp L E rrw r rw = (case lib_DelRule L ?c of
          Some e \<Rightarrow> (Err (EWrap (''failed to delete rule in table '' @ quote ?t @ '' chain '' @ quote (rrw_chain rrw)) e), ?rw1)
        | None \<Rightarrow> (Ok (), queue_cmd ?c ?rw1))"
      using loop at after d' by (cases "lib_DelRule L ?c") (simp_all add: andThen_Ok andThen_Err)
    ultimately show ?thesis using j(2) by metis
  qed
qed

lemma rule_CleanUp_single:
  assumes op: "is_open rw" and wf: "wf_slice (rw_rules rw)" and read: "readable E rrw (rm_expr r) rw"
    and one: "length (filter (owned E rrw (rw_family rw) (rm_expr r)) (elems (rw_rules rw))) \<le> 1"
    and run: "rule_CleanUp L E rrw r rw = (q, rw')"
  shows "rw_kernel rw' = rw_kernel rw \<and> rw_family rw' = rw_family rw \<and> is_open rw' \<and> (\<forall>p. q \<noteq> Panic p) \<and>
    (q = Ok () \<longrightarrow> conn_log rw' = conn_log rw @
       map (rrw_cmd rrw (rw_family rw)) (filter (owned E rrw (rw_family rw) (rm_expr r)) (elems (rw_rules rw)))) \<and>
    ((\<forall>c. lib_DelRule L c = None) \<longrightarrow> q = Ok ())"
  using rule_CleanUp_run [OF assms(1-4), where L = L] run op
  by (elim disjE exE conjE) (auto split: option.splits)

text \<open>The snapshot afterwards: what can be told from the deleted rule by its handle is still there.\<close>

lemma elems_slice_delete_keeps:
  assumes "wf_slice s" and "find_index (\<lambda>y. h y = k) (elems s) = Some j"
  shows "wf_slice (slice_delete j s)" and "set (elems (slice_delete j s)) \<subseteq> set (elems s)"
    and "(\<And>x. x \<in> set (elems s) \<Longrightarrow> P x \<Longrightarrow> h x \<noteq> k) \<Longrightarrow> filter P (elems (slice_delete j s)) = filter P (elems s)"
proof -
  have j: "j < glen s" "h (elems s ! j) = k" "elems s ! j \<in> set (elems s)"
    using find_index_Some [OF assms(2)] by (simp_all add: length_elems [OF assms(1)])
  note del = elems_slice_delete [OF assms(1) j(1)]
  show "wf_slice (slice_delete j s)" by (rule wf_slice_delete [OF assms(1) j(1)])
  show "set (elems (slice_delete j s)) \<subseteq> set (elems s)" unfolding del by (auto dest: in_set_takeD in_set_dropD)
  assume "\<And>x. x \<in> set (elems s) \<Longrightarrow> P x \<Longrightarrow> h x \<noteq> k"
  then have "\<not> P (elems s ! j)" using j by blast
  moreover have "elems s = take j (elems s) @ [elems s ! j] @ drop (Suc j) (elems s)"
    using j(1) by (simp add: id_take_nth_drop length_elems [OF assms(1)])
  ultimately show "filter P (elems (slice_delete j s)) = filter P (elems s)"
    unfolding del by (metis append_Nil filter.simps filter_append)
qed

lemma rule_CleanUp_snapshot:
  assumes op: "is_open rw" and wf: "wf_slice (rw_rules rw)" and read: "readable E rrw (rm_expr r) rw"
    and one: "length (filter (owned E rrw (rw_family rw) (rm_expr r)) (elems (rw_rules rw))) \<le> 1"
    and run: "rule_CleanUp L E rrw r rw = (Ok (), rw')"
  shows "rw_chains rw' = rw_chains rw \<and> wf_slice (rw_rules rw') \<and> set (elems (rw_rules rw')) \<subseteq> set (elems (rw_rules rw))"
    and "(\<And>x y. x \<in> set (elems (rw_rules rw)) \<Longrightarrow> P x \<Longrightarrow> y \<in> set (filter (owned E rrw (rw_family rw) (rm_expr r)) (elems (rw_rules rw))) \<Longrightarrow>
      rl_handle x \<noteq> rl_handle y) \<Longrightarrow> filter P (elems (rw_rules rw')) = filter P (elems (rw_rules rw))"
proof -
  let ?own = "filter (owned E rrw (rw_family rw) (rm_expr r)) (elems (rw_rules rw))"
  consider "rw' = rw" | x j where "?own = [x]" "find_index (\<lambda>y. rl_handle y = rl_handle x) (elems (rw_rules rw)) = Some j"
      "rw_chains rw' = rw_chains rw" "rw_rules rw' = slice_delete j (rw_rules rw)"
    using rule_CleanUp_run [OF assms(1-4), where L = L] run by (elim disjE exE conjE) (auto split: option.splits)
  note cases = this
  show "rw_chains rw' = rw_chains rw \<and> wf_slice (rw_rules rw') \<and> set (elems (rw_rules rw')) \<subseteq> set (elems (rw_rules rw))"
  proof (cases rule: cases)
    case (2 x j)
    then show ?thesis using elems_slice_delete_keeps(1,2) [OF wf 2(2)] by simp
  qed (simp add: wf)
  assume keep: "\<And>x y. x \<in> set (elems (rw_rules rw)) \<Longrightarrow> P x \<Longrightarrow> y \<in> set ?own \<Longrightarrow> rl_handle x \<noteq> rl_handle y"
  show "filter P (elems (rw_rules rw')) = filter P (elems (rw_rules rw))"
  proof (cases rule: cases)
    case (2 x j)
    then show ?thesis using elems_slice_delete_keeps(3) [OF wf 2(2)] keep by simp
  qed simp
qed

section \<open>The snapshot of one chain\<close>

definition hooked :: "family \<Rightarrow> hook \<Rightarrow> ruleset \<Rightarrow> string list" where
  "hooked fam h rs = remdups (map ch_table (filter (\<lambda>c. ch_family c = fam \<and> chainMatchPredicate h c) (rs_chains rs)))"

lemma group_keys_hooked: "elems (rw_chains rw) = rs_chains rs \<Longrightarrow> group_keys h rw = hooked (rw_family rw) h rs"
  by (simp add: group_keys_def hooked_def Chains_def conj_commute)

definition place_of :: "string \<Rightarrow> hook \<Rightarrow> string \<Rightarrow> ruleReadWriter" where
  "place_of t h n = \<lparr>rrw_crw = \<lparr>crw_table = t, crw_hook = h\<rparr>, rrw_chain = n\<rparr>"

lemma owned_listing_any:
  assumes "ruleset_ok rs" and "\<And>c. c \<in> set (rs_chains rs) \<Longrightarrow> chain_key c = (t, fam, n) \<Longrightarrow> ch_hooknum c \<noteq> None \<or> HasPrefix n name"
  shows "filter (owned E (place_of t h n) fam c) (listing name rs (rs_chains rs)) =
    filter (\<lambda>r. RuleExpr E c r = Some True) (rs_rules rs (t, fam, n))"
proof -
  let ?\<kappa> = "(t, fam, n)" and ?P = "owned E (place_of t h n) fam c" and ?Q = "\<lambda>r. RuleExpr E c r = Some True"
  have P: "?P r \<longleftrightarrow> rule_key r = ?\<kappa> \<and> ?Q r" for r
    by (auto simp: owned_iff place_of_def rule_key_def)
  have seg: "filter ?P (rs_rules rs \<kappa>) = (if \<kappa> = ?\<kappa> then filter ?Q (rs_rules rs \<kappa>) else [])" for \<kappa>
    using ruleset_okD(3) [OF assms(1), of _ \<kappa>] by (auto simp: P filter_empty_conv intro: filter_cong)
  have "filter ?P (listing name rs cs) = (if ?\<kappa> \<in> chain_key ` set cs then filter ?Q (rs_rules rs ?\<kappa>) else [])"
    if "distinct (map chain_key cs)" "set cs \<subseteq> set (rs_chains rs)" for cs
    using that
  proof (induction cs)
    case Nil
    then show ?case by (simp add: listing_def)
  next
    case (Cons d cs)
    have "ch_hooknum d \<noteq> None \<or> HasPrefix (ch_name d) name" if "chain_key d = ?\<kappa>"
      using that assms(2) [of d] Cons.prems(2) by (simp add: chain_key_def)
    with Cons show ?case by (auto simp: listing_def seg)
  qed
  from this [OF ruleset_okD(1) [OF assms(1)]] show ?thesis using ruleset_okD(2) [OF assms(1), of ?\<kappa>] by simp
qed

lemma owned_listing:
  assumes "ruleset_ok rs" and "HasPrefix n name"
  shows "filter (owned E (place_of t h n) fam c) (listing name rs (rs_chains rs)) =
    filter (\<lambda>r. RuleExpr E c r = Some True) (rs_rules rs (t, fam, n))"
  by (rule owned_listing_any [OF assms(1)]) (simp add: assms(2))

lemma listing_rules:
  assumes "ruleset_ok rs" and "r \<in> set (listing name rs (rs_chains rs))"
  shows "r \<in> set (rs_rules rs (rule_key r))"
proof -
  obtain c where "r \<in> set (rs_rules rs (chain_key c))" using assms(2) by (auto simp: listing_def)
  with ruleset_okD(3) [OF assms(1) this] show ?thesis by simp
qed

lemma readable_listing:
  assumes "ruleset_ok rs" and "elems (rw_rules rw) = listing name rs (rs_chains rs)"
    and "\<forall>r \<in> set (rs_rules rs (t, rw_family rw, n)). RuleExpr E c r \<noteq> None"
  shows "readable E (place_of t h n) c rw"
  unfolding readable_def
proof
  fix r assume "r \<in> set (elems (rw_rules rw))"
  then have "r \<in> set (rs_rules rs (rule_key r))" using assms(1,2) listing_rules by metis
  with assms(3) show "rule_test E (place_of t h n) (rw_family rw) c r \<noteq> None"
    by (auto simp: rule_test_def place_of_def RuleChainName_def rule_key_def)
qed

section \<open>What a forwarding looks like in the kernel\<close>

lemma kernel_form_simps [simp]:
  "kernel_form e = Counter 0 0 \<longleftrightarrow> is_counter e"
  "kernel_form e = Meta k r \<longleftrightarrow> e = Meta k r"
  "kernel_form e = Cmp r op d \<longleftrightarrow> e = Cmp r op d"
  "kernel_form e = Payload b off len r \<longleftrightarrow> e = Payload b off len r"
  "kernel_form e = Immediate r d \<longleftrightarrow> e = Immediate r d"
  "kernel_form e = NAT t f r1 r2 r3 r4 sp \<longleftrightarrow> e = NAT t f r1 r2 r3 r4 sp"
  "kernel_form e = Masq \<longleftrightarrow> e = Masq"
  "kernel_form e = Fib r tt ff \<longleftrightarrow> e = Fib r tt ff"
  "kernel_form e = Ct ck r isSrc \<longleftrightarrow> e = Ct ck r isSrc"
  "kernel_form e = Bitwise r1 r2 len m x' \<longleftrightarrow> e = Bitwise r1 r2 len m x'"
  "kernel_form e = Verdict vk ch \<longleftrightarrow> e = Verdict vk ch"
  "kernel_form e = Numgen r md nt \<longleftrightarrow> e = Numgen r md nt"
  "kernel_form e = OtherExpr ty n \<longleftrightarrow> e = OtherExpr ty n"
  "kernel_form e = Lookup src dst isDst 0 nm neg \<longleftrightarrow> (\<exists>i. e = Lookup src dst isDst i nm neg)"
  by (cases e; auto simp: is_counter_def)+

lemma kernel_form_sim: "kernel_form b = kernel_form e \<Longrightarrow> expr_sim b e"
  by (cases b) (auto simp: expr_sim_Lookup eq_commute [of _ "kernel_form e"] expr_sim_def compareExprEquals_def
      comparators_def lookupEquals_def)

lemma kernel_form_sims: "map kernel_form es = map kernel_form bs \<Longrightarrow> list_all2 expr_sim bs es"
  by (induction bs arbitrary: es) (auto simp: map_eq_Cons_conv kernel_form_sim)

type_synonym forwarding = "(protocol \<times> 16 word) \<times> (string list \<times> 16 word)"

definition mut_expr :: "table_mut \<Rightarrow> condition" where
  "mut_expr m = rm_expr (hd (table_rules m))"

definition mut_form :: "codec \<Rightarrow> table_mut \<Rightarrow> expr list" where
  "mut_form E m = map kernel_form (Build E (mut_expr m))"

text \<open>
  What the four chains are meant to hold, as the kernel lists it: the rules of a forwarding, one for
  each chain, and those \<open>start\<close> puts there. Written out on the wire, independently of the builders.
\<close>

definition wire_transport :: "codec \<Rightarrow> protocol \<Rightarrow> 16 word \<Rightarrow> expr list" where
  "wire_transport E p port = [Meta MetaKeyL4PROTO 1, Cmp 1 CmpOpEq (Some [if p = TCP then 6 else 17]),
     Payload PayloadBaseTransportHeader 2 2 1, Cmp 1 CmpOpEq (Some (BE_PutUint16 E port))]"

definition wire_map :: "string \<Rightarrow> 16 word \<Rightarrow> string \<Rightarrow> string" where
  "wire_map name f sfx = internalNameOf name ''map'' [Itoa (unat f), sfx]"

text \<open>One target is written into the rule; several are chosen from a map in turn.\<close>

definition wire_redirect :: "codec \<Rightarrow> string \<Rightarrow> 16 word \<Rightarrow> string list \<Rightarrow> 16 word \<Rightarrow> string \<Rightarrow> expr list" where
  "wire_redirect E name f target to sfx =
     (if length target = 1 then [Immediate 1 (To4 (target_ips target ! 0))]
      else [Numgen 1 (word_of_nat (length target)) NFT_NG_INCREMENTAL, Lookup 1 1 True 0 (wire_map name f sfx) False]) @
     [Immediate 2 (Some (BE_PutUint16 E to)), NAT NATTypeDestNAT NFPROTO_IPV4 1 1 2 2 True]"

definition wire_redirected :: "codec \<Rightarrow> string \<Rightarrow> protocol \<Rightarrow> 16 word \<Rightarrow> string list \<Rightarrow> 16 word \<Rightarrow> string \<Rightarrow> expr list" where
  "wire_redirected E name p f target to sfx =
     [Payload PayloadBaseNetworkHeader 0x10 4 1,
      if length target = 1 then Cmp 1 CmpOpEq (To4 (target_ips target ! 0)) else Lookup 1 0 False 0 (wire_map name f sfx) False] @
     wire_transport E p to @
     [Ct CtKeyMARK 1 False, Cmp 1 CmpOpEq (Some (NE_PutUint32 E (ucast f))), Counter 0 0]"

fun fwd_forms :: "codec \<Rightarrow> string \<Rightarrow> forwarding \<Rightarrow> expr list list" where
  "fwd_forms E name ((p, f), (target, to)) =
     [wire_transport E p f @ [Counter 0 0, Immediate 1 (Some (NE_PutUint32 E (ucast f))), Ct CtKeyMARK 1 True] @
        wire_redirect E name f target to ''pre'',
      wire_redirected E name p f target to ''post'' @ [Masq],
      wire_redirected E name p f target to ''forward'' @ [Verdict VerdictAccept []],
      [Fib 1 True True, Cmp 1 CmpOpEq (Some (NE_PutUint32 E 2))] @ wire_transport E p f @ [Counter 0 0] @
        wire_redirect E name f target to ''output'']"

definition base_forms :: "codec \<Rightarrow> expr list list list" where
  "base_forms E = [[], [],
     [[Ct CtKeySTATE 1 False, Bitwise 1 1 4 (Some (NE_PutUint32 E 6)) (Some (NE_PutUint32 E 0)),
       Cmp 1 CmpOpNeq (Some (NE_PutUint32 E 0)), Verdict VerdictAccept []]], []]"

definition content :: "codec \<Rightarrow> string \<Rightarrow> forwarding list \<Rightarrow> nat \<Rightarrow> expr list list" where
  "content E name As i = base_forms E ! i @ map (\<lambda>a. fwd_forms E name a ! i) As"

lemma mut_expr_forward [simp]: "mut_expr (forward_rule name t ch h c cs ss) = Combine cs"
  by (simp add: mut_expr_def forward_rule_def table_rules_def)

lemma outgoing_form:
  "outgoing E name port target c r sfx = (d, ss) \<Longrightarrow>
   map kernel_form (dyn_Build d 1) @ [Immediate 2 (Some (BE_PutUint16 E to)), NAT NATTypeDestNAT NFPROTO_IPV4 1 1 2 2 True] =
     wire_redirect E name port target to sfx"
  by (auto simp: length_target_ips outgoing_def wire_redirect_def wire_map_def Let_def split: if_splits)

lemma incoming_form:
  "incoming name port target c r sfx = (d, ss) \<Longrightarrow> [Payload PayloadBaseNetworkHeader 0x10 4 1] @ map kernel_form (dyn_Build d 1) @
     wire_transport E p to @ [Ct CtKeyMARK 1 False, Cmp 1 CmpOpEq (Some (NE_PutUint32 E (ucast port))), Counter 0 0] =
   wire_redirected E name p port target to sfx"
  by (auto simp: length_target_ips incoming_def wire_redirected_def wire_map_def Let_def split: if_splits)

lemma buildForwarding_protocol:
  "buildForwarding E name rnd p f target to c = Ok muts \<Longrightarrow> p = TCP \<or> p = UDP"
  by (auto simp: buildForwarding_def TransportProtocol_def Let_def split: prod.splits if_splits)

lemma buildForwarding_total:
  "p = TCP \<or> p = UDP \<Longrightarrow> \<exists>muts. buildForwarding E name rnd p f target to c = Ok muts"
  by (auto simp: buildForwarding_def TransportProtocol_def Let_def split: prod.split)

lemma fwd_forms_eq:
  assumes "buildForwarding E name rnd p f target to c = Ok muts"
  shows "fwd_forms E name ((p, f), (target, to)) = map (mut_form E) muts"
proof -
  obtain tp preC preS postC postS fwdC fwdS outC outS where a:
    "TransportProtocol p = Ok (TransportProto tp)"
    "outgoing E name f target c (rnd 0) ''pre'' = (preC, preS)"
    "incoming name f target c (rnd 1) ''post'' = (postC, postS)"
    "incoming name f target c (rnd 2) ''forward'' = (fwdC, fwdS)"
    "outgoing E name f target c (rnd 3) ''output'' = (outC, outS)"
    and muts: "muts = forwardings name c tp f to preC preS postC postS fwdC fwdS outC outS"
    using assms by (rule buildForwarding_cases)
  have tp: "wire_transport E p q = map kernel_form (Build_transportProtocol tp @ Build_destinationPort E q)" for q
    using a(1) by (auto simp: wire_transport_def TransportProtocol_def Tcp_def Udp_def IPPROTO_TCP_def IPPROTO_UDP_def
        split: if_splits)
  show ?thesis
    unfolding fwd_forms.simps outgoing_form [OF a(2), symmetric] outgoing_form [OF a(5), symmetric]
      incoming_form [OF a(3), symmetric] incoming_form [OF a(4), symmetric] tp muts
    by (simp add: forwardings_def mut_form_def RTN_LOCAL_def)
qed

text \<open>A rule of the forwarding itself is recognised; any other in the chain is not.\<close>

lemma buildForwarding_nth:
  assumes "buildForwarding E name rnd p f target to c = Ok muts"
  shows "length muts = 4" and "i < 4 \<Longrightarrow> proper (mut_expr (muts ! i)) \<and> Build E (mut_expr (muts ! i)) \<noteq> []"
  using assms by (elim buildForwarding_cases; auto simp: forwardings_def less_Suc_eq numeral_eq_Suc)+

lemma recognised:
  assumes "buildForwarding E name rnd p f target to c = Ok muts" and "i < 4"
    and "rule_form x = fwd_forms E name ((p, f), (target, to)) ! i"
  shows "RuleExpr E (mut_expr (muts ! i)) x = Some True"
proof -
  have "map kernel_form (rl_exprs x) = map kernel_form (Build E (mut_expr (muts ! i)))"
    using assms(2,3) fwd_forms_eq [OF assms(1)] buildForwarding_nth(1) [OF assms(1)]
    by (simp add: rule_form_def mut_form_def)
  from kernel_form_sims [OF this] show ?thesis
    using buildForwarding_nth(2) [OF assms(1,2)] by (simp add: RuleExpr_same same_exprs_def)
qed

lemma ignored:
  assumes "codec_ok E" and "(p, f) \<noteq> (p', f')" and "i < 4"
    and "buildForwarding E name rnd p f target to c = Ok muts"
    and "buildForwarding E name rnd' p' f' target' to' c' = Ok muts'"
    and "rule_form x = mut_form E (muts' ! i)"
  shows "RuleExpr E (mut_expr (muts ! i)) x = Some False"
proof -
  obtain tp preC preS postC postS fwdC fwdS outC outS where a:
    "TransportProtocol p = Ok (TransportProto tp)"
    "outgoing E name f target c (rnd 0) ''pre'' = (preC, preS)"
    "incoming name f target c (rnd 1) ''post'' = (postC, postS)"
    "incoming name f target c (rnd 2) ''forward'' = (fwdC, fwdS)"
    "outgoing E name f target c (rnd 3) ''output'' = (outC, outS)"
    and muts: "muts = forwardings name c tp f to preC preS postC postS fwdC fwdS outC outS"
    using assms(4) by (rule buildForwarding_cases)
  obtain tp' preC' preS' postC' postS' fwdC' fwdS' outC' outS' where b:
    "TransportProtocol p' = Ok (TransportProto tp')"
    "outgoing E name f' target' c' (rnd' 0) ''pre'' = (preC', preS')"
    "incoming name f' target' c' (rnd' 1) ''post'' = (postC', postS')"
    "incoming name f' target' c' (rnd' 2) ''forward'' = (fwdC', fwdS')"
    "outgoing E name f' target' c' (rnd' 3) ''output'' = (outC', outS')"
    and muts': "muts' = forwardings name c' tp' f' to' preC' preS' postC' postS' fwdC' fwdS' outC' outS'"
    using assms(5) by (rule buildForwarding_cases)
  have ne: "f \<noteq> f' \<or> tp \<noteq> tp'" using a(1) b(1) assms(2) TransportProtocol_inj by blast
  obtain e1 e2 e1' e2' where inc: "dyn_Build postC 1 = [e1]" "dyn_Build fwdC 1 = [e2]"
      "dyn_Build postC' 1 = [e1']" "dyn_Build fwdC' 1 = [e2']"
    using incoming_singleton a(3,4) b(3,4) by metis
  have "walk (Build E (mut_expr (muts ! i))) (rl_exprs x) = Mismatch \<and> rl_exprs x \<noteq> []"
    using assms(1,3,6) ne inc unfolding muts muts'
    by (auto simp: forwardings_def mut_form_def rule_form_def less_Suc_eq numeral_eq_Suc map_eq_Cons_conv)
  then show ?thesis
    using buildForwarding_nth(2) [OF assms(4,3)] by (simp add: RuleExpr_walk)
qed

text \<open>Of two rules for the same port the conditions tell those apart that differ in the kernel.\<close>

lemma expr_sim_Lookup_Cmp [simp]: "\<not> expr_sim (Lookup src dst isDst setId nm neg) (Cmp r op d)"
  by (auto simp: expr_sim_def compareExprEquals_def comparators_def lookupEquals_def is_counter_def split: if_splits)

lemma tells_same_key:
  assumes "i < 4" and "buildForwarding E name rnd p f target to c = Ok muts"
    and "buildForwarding E name rnd' p f target' to' c' = Ok muts'"
    and "rule_form x = mut_form E (muts' ! i)" and "mut_form E (muts' ! i) \<noteq> mut_form E (muts ! i)"
  shows "RuleExpr E (mut_expr (muts ! i)) x = Some False"
proof -
  obtain tp preC preS postC postS fwdC fwdS outC outS where a:
    "TransportProtocol p = Ok (TransportProto tp)"
    "outgoing E name f target c (rnd 0) ''pre'' = (preC, preS)"
    "incoming name f target c (rnd 1) ''post'' = (postC, postS)"
    "incoming name f target c (rnd 2) ''forward'' = (fwdC, fwdS)"
    "outgoing E name f target c (rnd 3) ''output'' = (outC, outS)"
    and muts: "muts = forwardings name c tp f to preC preS postC postS fwdC fwdS outC outS"
    using assms(2) by (rule buildForwarding_cases)
  obtain tp' preC' preS' postC' postS' fwdC' fwdS' outC' outS' where b:
    "TransportProtocol p = Ok (TransportProto tp')"
    "outgoing E name f target' c' (rnd' 0) ''pre'' = (preC', preS')"
    "incoming name f target' c' (rnd' 1) ''post'' = (postC', postS')"
    "incoming name f target' c' (rnd' 2) ''forward'' = (fwdC', fwdS')"
    "outgoing E name f target' c' (rnd' 3) ''output'' = (outC', outS')"
    and muts': "muts' = forwardings name c' tp' f to' preC' preS' postC' postS' fwdC' fwdS' outC' outS'"
    using assms(3) by (rule buildForwarding_cases)
  have tp: "tp' = tp" using a(1) b(1) by simp
  have "walk (Build E (mut_expr (muts ! i))) (rl_exprs x) = Mismatch \<and> rl_exprs x \<noteq> []"
    using assms(1,4,5) a(2-5) b(2-5) unfolding muts muts' tp
    by (auto simp: forwardings_def mut_form_def rule_form_def less_Suc_eq numeral_eq_Suc map_eq_Cons_conv
       outgoing_def incoming_def Let_def split: if_splits)
  then show ?thesis
    using buildForwarding_nth(2) [OF assms(2,1)] by (simp add: RuleExpr_walk)
qed

lemma base_ignored:
  assumes "buildForwarding E name rnd p f target to c = Ok muts" and "i < 4"
    and "rule_form x \<in> set (base_forms E ! i)"
  shows "RuleExpr E (mut_expr (muts ! i)) x = Some False"
proof -
  have "i = 2" "rule_form x = map kernel_form (Build E (Combine [TrackingEstablishedRelated, Accept]))"
    using assms(2,3)
    by (auto simp: base_forms_def CtStateBitESTABLISHED_RELATED_def less_Suc_eq numeral_eq_Suc)
  then have "walk (Build E (mut_expr (muts ! i))) (rl_exprs x) = Mismatch \<and> rl_exprs x \<noteq> []"
    using assms(1)
    by (elim buildForwarding_cases) (auto simp: forwardings_def rule_form_def map_eq_Cons_conv)
  then show ?thesis
    using buildForwarding_nth(2) [OF assms(1,2)] by (simp add: RuleExpr_walk)
qed

section \<open>The four chains\<close>

definition own_places :: "(string \<times> hook) list" where
  "own_places = [(''PREROUTING'', ChainHookPrerouting), (''POSTROUTING'', ChainHookPostrouting),
     (''FORWARD'', ChainHookForward), (''OUTPUT'', ChainHookOutput)]"

definition own_key :: "family \<Rightarrow> string \<Rightarrow> ruleset \<Rightarrow> nat \<Rightarrow> chain_key" where
  "own_key fam name rs i = (hd (hooked fam (snd (own_places ! i)) rs), fam, nameOf name (fst (own_places ! i)))"

text \<open>Each of the four hooks is held, at its usual priority, by chains of a single table.\<close>

definition one_table :: "family \<Rightarrow> ruleset \<Rightarrow> bool" where
  "one_table fam rs \<longleftrightarrow> (\<forall>i < 4. length (hooked fam (snd (own_places ! i)) rs) = 1)"

text \<open>
  The four chains hold, each after its own rules of the start, the rules of a list of forwardings: \<open>Cs i\<close> is
  the list of the \<open>i\<close>-th. While a call is under way, or after one that failed, the lists differ.
\<close>

definition fills :: "codec \<Rightarrow> string \<Rightarrow> family \<Rightarrow> (nat \<Rightarrow> forwarding list) \<Rightarrow> ruleset \<Rightarrow> bool" where
  "fills E name fam Cs rs \<longleftrightarrow> ruleset_ok rs \<and> one_table fam rs \<and>
     (\<forall>i < 4. map rule_form (rs_rules rs (own_key fam name rs i)) = content E name (Cs i) i)"

text \<open>In the middle of a change from \<open>As\<close> to \<open>As'\<close>: the first \<open>n\<close> chains have it behind them.\<close>

definition follows :: "codec \<Rightarrow> string \<Rightarrow> family \<Rightarrow> nat \<Rightarrow> forwarding list \<Rightarrow> forwarding list \<Rightarrow> ruleset \<Rightarrow> bool" where
  "follows E name fam n As' As rs \<longleftrightarrow> fills E name fam (\<lambda>i. if i < n then As' else As) rs"

lemma fills_cong: "(\<And>i. i < 4 \<Longrightarrow> Cs i = Ds i) \<Longrightarrow> fills E name fam Cs rs = fills E name fam Ds rs"
  by (simp add: fills_def)

definition same_elsewhere :: "family \<Rightarrow> string \<Rightarrow> ruleset \<Rightarrow> ruleset \<Rightarrow> bool" where
  "same_elsewhere fam name rs rs' \<longleftrightarrow> rs_chains rs' = rs_chains rs \<and>
     (\<forall>\<kappa>. \<kappa> \<notin> own_key fam name rs ` {..<4} \<longrightarrow> rs_rules rs' \<kappa> = rs_rules rs \<kappa>)"

lemma nameOf_prefix: "HasPrefix (nameOf name sfx) name"
  by (simp add: nameOf_def HasPrefix_def)

lemma own_names: "i < 4 \<Longrightarrow> j < 4 \<Longrightarrow> nameOf name (fst (own_places ! i)) = nameOf name (fst (own_places ! j)) \<longleftrightarrow> i = j"
  by (auto simp: own_places_def nameOf_def ToUpper_def upper_char_def less_Suc_eq numeral_eq_Suc)

lemma own_key_inj: "i < 4 \<Longrightarrow> j < 4 \<Longrightarrow> own_key fam name rs i = own_key fam name rs j \<longleftrightarrow> i = j"
  using own_names by (auto simp: own_key_def)

lemma own_key_set_rules [simp]: "own_key fam name (set_rules \<kappa> rules rs) i = own_key fam name rs i"
  by (simp add: own_key_def hooked_def)

lemma one_table_set_rules [simp]: "one_table fam (set_rules \<kappa> rules rs) = one_table fam rs"
  by (simp add: one_table_def hooked_def)

lemma one_tableD: "one_table fam rs \<Longrightarrow> i < 4 \<Longrightarrow> hooked fam (snd (own_places ! i)) rs = [fst (own_key fam name rs i)]"
  by (cases "hooked fam (snd (own_places ! i)) rs") (auto simp: one_table_def own_key_def)

lemma forwarding_shape:
  assumes "buildForwarding E name rnd p f target to c = Ok muts" and "i < 4"
  shows "tm_hook (muts ! i) = snd (own_places ! i)"
    and "tm_chains (muts ! i) = [Chain (nameOf name (fst (own_places ! i)))
      [\<lparr>rm_expr = mut_expr (muts ! i), rm_first = False, rm_comment = c\<rparr>]]"
  using assms
  by (elim buildForwarding_cases; auto simp: forwardings_def forward_rule_def mut_expr_def table_rules_def own_places_def
      less_Suc_eq numeral_eq_Suc)+

text \<open>Changing the rules of one of the chains.\<close>

lemma fills_update:
  assumes "fills E name fam Cs rs" and "i < 4"
    and "ruleset_ok (set_rules (own_key fam name rs i) rules rs)" and "map rule_form rules = content E name As i"
  shows "fills E name fam (Cs(i := As)) (set_rules (own_key fam name rs i) rules rs)"
    and "same_elsewhere fam name rs (set_rules (own_key fam name rs i) rules rs)"
  using assms own_key_inj [of _ i fam name rs] by (auto simp: fills_def same_elsewhere_def)

end
