(* ===== verification/OwnCalls.thy ===== *)
theory OwnCalls
  imports OwnChains
begin

text \<open>
  What one addition and one removal of a forwarding make of the four chains, on every path: a call
  changes the chains one after the other, and one that fails has changed the first few.
\<close>

section \<open>Adding a forwarding\<close>

text \<open>Presenting sets only queues sets.\<close>

fun is_set_cmd :: "nft_cmd \<Rightarrow> bool" where
  "is_set_cmd (CAddSet _ _ _ _ _ _ _ _ _) = True"
| "is_set_cmd _ = False"

lemma commits_sets: "list_all is_set_cmd cs \<Longrightarrow> commits (cs @ ds) rs rs' \<longleftrightarrow> commits ds rs rs'"
proof (induction cs)
  case (Cons c cs)
  then show ?case by (cases c) auto
qed simp

lemma applies_sets: "list_all is_set_cmd cs \<Longrightarrow> applies (cs @ ds) rs \<longleftrightarrow> applies ds rs"
proof (induction cs)
  case (Cons c cs)
  then show ?case by (cases c) auto
qed simp

lemma applies_one: "commit c rs rs' \<Longrightarrow> applies [c] rs"
  by auto

lemma set_Present_log:
  assumes "is_open rw" and "set_Present L crw s rw = (q, rw')"
  shows "(\<exists>cs. rw' = rw\<lparr>rw_conn := Some (conn_log rw @ cs)\<rparr> \<and> list_all is_set_cmd cs) \<and> (\<forall>p. q \<noteq> Panic p) \<and>
    ((\<forall>c. lib_AddSet L c = None) \<longrightarrow> is_Ok q)"
proof -
  have keep: "\<exists>cs. rw = rw\<lparr>rw_conn := Some (conn_log rw @ cs)\<rparr> \<and> list_all is_set_cmd cs"
    using assms(1) by (intro exI [of _ "[]"]) (cases rw; auto simp: is_open_def conn_log_def)
  have queue: "\<exists>cs. queue_cmd c rw = rw\<lparr>rw_conn := Some (conn_log rw @ cs)\<rparr> \<and> list_all is_set_cmd cs"
    if "is_set_cmd c" for c
    using assms(1) that by (intro exI [of _ "[c]"]) (auto simp: is_open_def conn_log_def queue_cmd_def)
  show ?thesis
    using assms keep queue
    by (auto simp: set_Present_def crw_AddSet_def AddSet_def withOpenConn_open andThen_def wrapped_def Let_def
        split: option.splits)
qed

lemma sets_Present_log:
  assumes "is_open rw" and "sets_Present L crw ss rw = (q, rw')"
  shows "(\<exists>cs. rw' = rw\<lparr>rw_conn := Some (conn_log rw @ cs)\<rparr> \<and> list_all is_set_cmd cs) \<and> (\<forall>p. q \<noteq> Panic p) \<and>
    ((\<forall>c. lib_AddSet L c = None) \<longrightarrow> is_Ok q)"
  using assms
proof (induction ss arbitrary: rw q rw')
  case Nil
  then show ?case by (auto intro!: exI [of _ "[]"] simp: is_open_def conn_log_def)
next
  case (Cons s ss)
  obtain r1 rw1 where 1: "set_Present L crw s rw = (r1, rw1)" by fastforce
  obtain r2 rw2 where 2: "sets_Present L crw ss rw1 = (r2, rw2)" by fastforce
  obtain cs where cs: "rw1 = rw\<lparr>rw_conn := Some (conn_log rw @ cs)\<rparr>" "list_all is_set_cmd cs" "\<forall>p. r1 \<noteq> Panic p"
      "(\<forall>c. lib_AddSet L c = None) \<longrightarrow> is_Ok r1"
    using set_Present_log [OF Cons.prems(1) 1] by blast
  have op: "is_open rw1" "conn_log rw1 = conn_log rw @ cs" using cs(1) by (simp_all add: is_open_def conn_log_def)
  obtain ds where ds: "rw2 = rw1\<lparr>rw_conn := Some (conn_log rw1 @ ds)\<rparr>" "list_all is_set_cmd ds" "\<forall>p. r2 \<noteq> Panic p"
      "(\<forall>c. lib_AddSet L c = None) \<longrightarrow> is_Ok r2"
    using Cons.IH [OF op(1) 2] by blast
  have both: "rw2 = rw\<lparr>rw_conn := Some (conn_log rw @ (cs @ ds))\<rparr>" "list_all is_set_cmd (cs @ ds)"
    using cs ds op by simp_all
  show ?case
    using Cons.prems(2) 1 2 cs ds(3,4) both
    by (cases r1; cases r2) (auto simp: andThen_def)
qed

text \<open>
  What one call does to the list of a chain: a rule that is there already is not added again, and
  removing takes out the rule that looks like the forwarding's. Only what the kernel shows of a rule counts.
\<close>

definition shown :: "codec \<Rightarrow> string \<Rightarrow> nat \<Rightarrow> forwarding \<Rightarrow> expr list" where
  "shown E name i a = fwd_forms E name a ! i"

definition known_protocol :: "forwarding \<Rightarrow> bool" where
  "known_protocol a \<longleftrightarrow> fst (fst a) = TCP \<or> fst (fst a) = UDP"

definition lists_ok :: "codec \<Rightarrow> string \<Rightarrow> nat \<Rightarrow> forwarding list \<Rightarrow> bool" where
  "lists_ok E name i As \<longleftrightarrow> distinct (map (shown E name i) As) \<and> list_all known_protocol As"

definition add_to :: "codec \<Rightarrow> string \<Rightarrow> forwarding \<Rightarrow> nat \<Rightarrow> forwarding list \<Rightarrow> forwarding list" where
  "add_to E name a i As = (if shown E name i a \<in> shown E name i ` set As then As else As @ [a])"

definition drop_from :: "codec \<Rightarrow> string \<Rightarrow> forwarding \<Rightarrow> nat \<Rightarrow> forwarding list \<Rightarrow> forwarding list" where
  "drop_from E name a i As = filter (\<lambda>b. shown E name i b \<noteq> shown E name i a) As"

lemma lists_ok_add_to: "lists_ok E name i As \<Longrightarrow> known_protocol a \<Longrightarrow> lists_ok E name i (add_to E name a i As)"
  by (auto simp: lists_ok_def add_to_def)

lemma lists_ok_drop_from: "lists_ok E name i As \<Longrightarrow> lists_ok E name i (drop_from E name a i As)"
  by (auto simp: lists_ok_def drop_from_def distinct_map_filter list_all_iff)

lemma content_eq: "content E name As i = base_forms E ! i @ map (shown E name i) As"
  by (simp add: content_def shown_def)

text \<open>The conditions recognise exactly the rule that the kernel shows like theirs.\<close>

lemma shown_eq:
  assumes "buildForwarding E name rnd p f target to c = Ok muts" and "i < 4"
  shows "shown E name i ((p, f), (target, to)) = mut_form E (muts ! i)"
  using fwd_forms_eq [OF assms(1)] buildForwarding_nth(1) [OF assms(1)] assms(2) by (simp add: shown_def)

lemma tells:
  assumes E: "codec_ok E" and muts: "buildForwarding E name rnd p f target to c = Ok muts" and i: "i < 4"
    and b: "known_protocol b" and x: "rule_form x = shown E name i b"
  shows "RuleExpr E (mut_expr (muts ! i)) x = Some (shown E name i b = shown E name i ((p, f), (target, to)))"
proof -
  obtain p' f' target' to' where b': "b = ((p', f'), (target', to'))" by (metis surj_pair)
  then have "p' = TCP \<or> p' = UDP" using b by (simp add: known_protocol_def)
  then obtain muts' where m': "buildForwarding E name (\<lambda>_. 0) p' f' target' to' [] = Ok muts'"
    using buildForwarding_total by blast
  have x': "rule_form x = mut_form E (muts' ! i)" using x shown_eq [OF m' i] b' by simp
  consider "mut_form E (muts' ! i) = mut_form E (muts ! i)"
    | "mut_form E (muts' ! i) \<noteq> mut_form E (muts ! i)" "(p', f') = (p, f)" | "mut_form E (muts' ! i) \<noteq> mut_form E (muts ! i)" "(p, f) \<noteq> (p', f')" by metis
  then show ?thesis
  proof cases
    case 1
    have "RuleExpr E (mut_expr (muts ! i)) x = Some True"
      by (rule recognised [OF muts i]) (use x' 1 shown_eq [OF muts i] in \<open>simp add: shown_def\<close>)
    then show ?thesis using 1 shown_eq [OF muts i] shown_eq [OF m' i] b' by simp
  next
    case 2
    have "RuleExpr E (mut_expr (muts ! i)) x = Some False"
      by (rule tells_same_key [OF i muts _ x' 2(1)]) (use m' 2(2) in simp)
    then show ?thesis using 2 shown_eq [OF muts i] shown_eq [OF m' i] b' by simp
  next
    case 3
    have "RuleExpr E (mut_expr (muts ! i)) x = Some False" by (rule ignored [OF E 3(2) i muts m' x'])
    then show ?thesis using 3 shown_eq [OF muts i] shown_eq [OF m' i] b' by simp
  qed
qed

lemma filter_all2:
  assumes "list_all2 R xs ys" and "\<And>x y. y \<in> set ys \<Longrightarrow> R x y \<Longrightarrow> P x = Q y"
  shows "list_all2 R (filter P xs) (filter Q ys)"
  using assms by (induction rule: list_all2_induct) auto

lemma distinct_single: "distinct (map g As) \<Longrightarrow> length (filter (\<lambda>a. g a = k) As) \<le> 1"
  by (induction As) (auto simp: filter_empty_conv image_iff)

lemma content_matches:
  assumes E: "codec_ok E" and muts: "buildForwarding E name rnd p f target to c = Ok muts" and i: "i < 4"
    and ok: "lists_ok E name i As" and rules: "map rule_form rules = content E name As i"
  defines "P \<equiv> \<lambda>x. RuleExpr E (mut_expr (muts ! i)) x = Some True" and "a \<equiv> ((p, f), (target, to))"
  shows "length (filter P rules) \<le> 1" and "filter P rules = [] \<longleftrightarrow> shown E name i a \<notin> shown E name i ` set As"
    and "map rule_form (filter (\<lambda>x. \<not> P x) rules) = content E name (drop_from E name a i As) i"
    and "\<forall>x \<in> set rules. RuleExpr E (mut_expr (muts ! i)) x \<noteq> None"
proof -
  let ?g = "shown E name i" and ?Q = "\<lambda>b. shown E name i b = shown E name i a"
  obtain rs1 rs2 where split: "rules = rs1 @ rs2" "map rule_form rs1 = base_forms E ! i" "map rule_form rs2 = map ?g As"
    using rules by (auto simp: content_eq map_eq_append_conv)
  have base: "RuleExpr E (mut_expr (muts ! i)) x = Some False" if "x \<in> set rs1" for x
    by (rule base_ignored [OF muts i]) (use that in \<open>simp flip: split(2)\<close>)
  have fwd: "RuleExpr E (mut_expr (muts ! i)) x = Some (?Q b)" if "b \<in> set As" "rule_form x = ?g b" for x b
    using tells [OF E muts i _ that(2)] ok that(1) by (simp add: lists_ok_def list_all_iff a_def)
  have all2: "list_all2 (\<lambda>x b. rule_form x = ?g b) rs2 As"
    using split(3) by (simp add: list_all2_conv_all_nth list_eq_iff_nth_eq)
  have hits: "list_all2 (\<lambda>x b. rule_form x = ?g b) (filter P rs2) (filter ?Q As)"
    "list_all2 (\<lambda>x b. rule_form x = ?g b) (filter (\<lambda>x. \<not> P x) rs2) (filter (\<lambda>b. \<not> ?Q b) As)"
    by (rule filter_all2 [OF all2]; simp add: P_def fwd)+
  have none: "filter P rs1 = []" "filter (\<lambda>x. \<not> P x) rs1 = rs1"
    using base by (auto simp: P_def filter_empty_conv filter_id_conv)
  show "length (filter P rules) \<le> 1"
    using list_all2_lengthD [OF hits(1)] distinct_single [of ?g As "?g a"] ok none(1) split(1)
    by (simp add: lists_ok_def)
  have "filter P rules = [] \<longleftrightarrow> filter ?Q As = []" using list_all2_lengthD [OF hits(1)] none(1) split(1)
    by (metis append_Nil filter_append length_0_conv)
  then show "filter P rules = [] \<longleftrightarrow> ?g a \<notin> ?g ` set As" by (auto simp: filter_empty_conv image_iff)
  have "map rule_form (filter (\<lambda>x. \<not> P x) rs2) = map ?g (drop_from E name a i As)"
    using hits(2) by (simp add: drop_from_def list_all2_conv_all_nth list_eq_iff_nth_eq)
  then show "map rule_form (filter (\<lambda>x. \<not> P x) rules) = content E name (drop_from E name a i As) i"
    using none(2) split by (simp add: content_eq)
  have "RuleExpr E (mut_expr (muts ! i)) x \<noteq> None" if "x \<in> set rs2" for x
  proof -
    have "rule_form x \<in> set (map ?g As)" using that by (simp flip: split(3))
    then show ?thesis using fwd by auto
  qed
  with base show "\<forall>x \<in> set rules. RuleExpr E (mut_expr (muts ! i)) x \<noteq> None"
    unfolding split(1) by auto
qed

text \<open>What a fresh reader of the kernel makes of one of the four chains.\<close>

definition reads_view :: "string \<Rightarrow> family \<Rightarrow> ruleset \<Rightarrow> 'k readWriter \<Rightarrow> bool" where
  "reads_view name fam rs rw \<longleftrightarrow> snapshot_of name fam rw \<and> elems (rw_chains rw) = rs_chains rs \<and>
     elems (rw_rules rw) = listing name rs (rs_chains rs)"

lemma reads_viewD:
  assumes "reads_view name fam rs rw" and "fills E name fam Cs rs" and "i < 4"
  shows "is_open rw" "conn_log rw = []" "rw_family rw = fam" "wf_slice (rw_rules rw)"
    "group_keys (snd (own_places ! i)) rw = [fst (own_key fam name rs i)]"
  using assms one_tableD group_keys_hooked [of rw rs]
  by (simp_all add: reads_view_def snapshot_of_def reader_wf_def fills_def)

lemma own_place_owned:
  assumes "reads_view name fam rs rw" and "fills E name fam Cs rs" and "i < 4"
  shows "filter (owned E (place_of (fst (own_key fam name rs i)) h (nameOf name (fst (own_places ! i)))) fam c) (elems (rw_rules rw)) =
    filter (\<lambda>r. RuleExpr E c r = Some True) (rs_rules rs (own_key fam name rs i))"
  using owned_listing [OF _ nameOf_prefix, where rs = rs and E = E and h = h and fam = fam and c = c and name = name] assms
  by (simp add: reads_view_def fills_def own_key_def)

lemma own_place_readable:
  assumes "reads_view name fam rs rw" and "fills E name fam Cs rs" and "i < 4"
    and "\<forall>r \<in> set (rs_rules rs (own_key fam name rs i)). RuleExpr E c r \<noteq> None"
  shows "readable E (place_of (fst (own_key fam name rs i)) h (nameOf name (fst (own_places ! i)))) c rw"
  by (rule readable_listing [where rs = rs and name = name])
    (use assms in \<open>simp_all add: reads_view_def fills_def own_key_def snapshot_of_def\<close>)

lemma map_order_single: "map_order_ok L \<Longrightarrow> go_map_order L k [x] = [x]"
proof -
  assume "map_order_ok L"
  then have "mset (go_map_order L k [x]) = {#x#}" by (simp add: map_order_ok_def)
  then show ?thesis by simp
qed

text \<open>How many handles a table uses: a rule that is added takes one.\<close>

definition fuller :: "ruleset \<Rightarrow> ruleset \<Rightarrow> bool" where
  "fuller rs rs' \<longleftrightarrow> (\<forall>t. card (set (handles rs' t)) \<le> Suc (card (set (handles rs t))))"

lemma fuller_set_rules:
  assumes "rl_handle ` set rules \<subseteq> insert h (rl_handle ` set (rs_rules rs \<kappa>))"
  shows "fuller rs (set_rules \<kappa> rules rs)"
  unfolding fuller_def
proof
  fix t
  have "set (handles (set_rules \<kappa> rules rs) t) \<subseteq> insert h (set (handles rs t))"
    using assms by (auto simp: set_handles split: if_splits) blast+
  then have "card (set (handles (set_rules \<kappa> rules rs) t)) \<le> card (insert h (set (handles rs t)))"
    by (simp add: card_mono)
  also have "\<dots> \<le> Suc (card (set (handles rs t)))" by (simp add: card_insert_le_m1)
  finally show "card (set (handles (set_rules \<kappa> rules rs) t)) \<le> Suc (card (set (handles rs t)))" .
qed

lemma free_handle_exists:
  fixes hs :: "64 word list"
  assumes "card (set hs) < 2 ^ 64"
  shows "\<exists>h. h \<notin> set hs"
proof (rule ccontr)
  assume "\<nexists>h. h \<notin> set hs"
  then have "set hs = UNIV" by blast
  with assms show False by (simp add: card_word)
qed

text \<open>One matching rule: presenting it changes nothing.\<close>

lemma rule_Present_there:
  assumes wf: "wf_slice (rw_rules rw)" and read: "readable E rrw (rm_expr r) rw"
    and one: "length (filter (owned E rrw (rw_family rw) (rm_expr r)) (elems (rw_rules rw))) \<le> 1"
    and hit: "filter (owned E rrw (rw_family rw) (rm_expr r)) (elems (rw_rules rw)) \<noteq> []"
  shows "rule_Present L E rrw r rw = (Ok (), rw)"
proof -
  let ?P = "owned E rrw (rw_family rw) (rm_expr r)" and ?es = "elems (rw_rules rw)" and ?n = "glen (rw_rules rw)"
  have len: "length ?es = ?n" using wf by (simp add: length_elems)
  obtain k where k: "find_index ?P ?es = Some k"
    using hit by (cases "find_index ?P ?es") (auto simp: find_index_None filter_empty_conv)
  from find_index_Some [OF this] len have "k < ?n" "?P (?es ! k)" by auto
  have "delete_if L E rrw (rm_expr r) (backing (rw_rules rw) ! m) rw = (Ok (), rw)" if "Suc k \<le> m" "m < Suc k + (?n - Suc k)" for m
  proof -
    have m: "m < ?n" "m \<noteq> k" using that by auto
    then have "\<not> ?P (?es ! m)" using filter_at_most_one [OF one, of k m] \<open>k < ?n\<close> \<open>?P (?es ! k)\<close> len by auto
    moreover have "?es ! m \<in> set ?es" using m len by simp
    moreover have "backing (rw_rules rw) ! m = ?es ! m" using m(1) by (simp add: elems_def)
    ultimately show ?thesis using read by (simp add: readable_def delete_if_eq)
  qed
  then show ?thesis using k by (simp add: rule_Present_readable [OF read] range_slice_noop)
qed

text \<open>What a step has to do with its chain, on every path.\<close>

definition does :: "codec \<Rightarrow> string \<Rightarrow> family \<Rightarrow> (nat \<Rightarrow> forwarding list) \<Rightarrow> nat \<Rightarrow> forwarding list \<Rightarrow> ruleset \<Rightarrow>
    'k readWriter \<Rightarrow> unit result \<Rightarrow> 'k readWriter \<Rightarrow> bool" where
  "does E name fam Cs i As rs rw q rw' \<longleftrightarrow> rw_kernel rw' = rw_kernel rw \<and> is_open rw' \<and> (\<forall>p. q \<noteq> Panic p) \<and>
     (q = Ok () \<longrightarrow> (\<forall>rs'. commits (conn_log rw') rs rs' \<longrightarrow>
        fills E name fam (Cs(i := As)) rs' \<and> same_elsewhere fam name rs rs' \<and> fuller rs rs'))"

definition room :: "family \<Rightarrow> string \<Rightarrow> ruleset \<Rightarrow> nat \<Rightarrow> bool" where
  "room fam name rs i \<longleftrightarrow> own_key fam name rs i \<in> chain_key ` set (rs_chains rs) \<and>
     card (set (handles rs (table_of (own_key fam name rs i)))) < 2 ^ 64"

lemma present_step:
  assumes E: "codec_ok E" and L: "map_order_ok L" and rw: "reads_view name fam rs rw"
    and fol: "fills E name fam Cs rs" and i: "i < 4" and ok: "lists_ok E name i (Cs i)"
    and muts: "buildForwarding E name rnd p f target to c = Ok muts"
    and run: "table_Present L E (muts ! i) rw = (q, rw')"
  shows "does E name fam Cs i (add_to E name ((p, f), (target, to)) i (Cs i)) rs rw q rw'"
    and "\<forall>c. lib_AddSet L c = None \<Longrightarrow> room fam name rs i \<Longrightarrow> q = Ok () \<and> applies (conn_log rw') rs"
proof -
  let ?h = "snd (own_places ! i)" and ?n = "nameOf name (fst (own_places ! i))" and ?c = "mut_expr (muts ! i)"
  let ?t = "fst (own_key fam name rs i)" and ?\<kappa> = "own_key fam name rs i" and ?a = "((p, f), (target, to))"
  let ?r = "\<lparr>rm_expr = ?c, rm_first = False, rm_comment = c\<rparr>" and ?crw = "\<lparr>crw_table = ?t, crw_hook = ?h\<rparr>"
  let ?there = "shown E name i ?a \<in> shown E name i ` set (Cs i)" and ?add = "CAddRule ?t fam ?n (Build E ?c) (Marshal c)"
  note rd = reads_viewD [OF rw fol i] and shape = forwarding_shape [OF muts i]
  have \<kappa>: "(?t, fam, ?n) = ?\<kappa>" by (simp add: own_key_def)
  have now: "map rule_form (rs_rules rs ?\<kappa>) = content E name (Cs i) i" using fol i by (simp add: fills_def)
  note match = content_matches [OF E muts i ok now]
  obtain q1 rw1 where sets: "sets_Present L ?crw (tm_sets (muts ! i)) rw = (q1, rw1)" by fastforce
  obtain cs where cs: "rw1 = rw\<lparr>rw_conn := Some cs\<rparr>" "list_all is_set_cmd cs" and np: "\<forall>p. q1 \<noteq> Panic p"
    "(\<forall>c. lib_AddSet L c = None) \<longrightarrow> is_Ok q1"
    using sets_Present_log [OF rd(1) sets] rd(2) by auto
  have run1: "table_Present L E (muts ! i) rw = andThen (sets_Present L ?crw (tm_sets (muts ! i))) (\<lambda>ss.
      andThen (rule_Present L E (place_of ?t ?h ?n) ?r) (\<lambda>_ rw. (Ok (), rw))) rw"
    by (simp add: table_Present_def rd(5) shape map_order_single [OF L] runPresent_def rules_present_def place_of_def
        andThen_def Let_def split: prod.split result.split)
  have rw1: "reads_view name fam rs (rw1\<lparr>rw_conn := Some []\<rparr>)"
    using rw cs(1) by (simp add: reads_view_def snapshot_of_def reader_wf_def is_open_def conn_log_def)
  have "readable E (place_of ?t ?h ?n) ?c (rw1\<lparr>rw_conn := Some []\<rparr>)"
    by (rule own_place_readable [OF rw1 fol i match(4)])
  then have rd1: "readable E (place_of ?t ?h ?n) (rm_expr ?r) rw1" by (simp add: readable_def)
  have own: "filter (owned E (place_of ?t ?h ?n) (rw_family rw1) (rm_expr ?r)) (elems (rw_rules rw1)) =
      filter (\<lambda>x. RuleExpr E ?c x = Some True) (rs_rules rs ?\<kappa>)"
    using own_place_owned [OF rw fol i, of ?h ?c] rd(3) cs(1) by simp
  have rule: "rule_Present L E (place_of ?t ?h ?n) ?r rw1 = (Ok (), if ?there then rw1 else queue_cmd ?add rw1)"
  proof (cases ?there)
    case True
    have "wf_slice (rw_rules rw1)" using rd(4) cs(1) by simp
    then show ?thesis
      using rule_Present_there [OF _ rd1, of L] match(1,2) True unfolding own by auto
  next
    case False
    then have "\<forall>x \<in> set (elems (rw_rules rw1)). \<not> owned E (place_of ?t ?h ?n) (rw_family rw1) (rm_expr ?r) x"
      using match(2) own by (metis filter_empty_conv)
    with rd1 False show ?thesis
      using rule_Present_adds [of E "place_of ?t ?h ?n" ?r rw1 L] rd(3) cs(1) by (simp add: place_of_def is_open_def)
  qed
  have res: "(q, rw') = (if is_Ok q1 then (Ok (), if ?there then rw1 else queue_cmd ?add rw1)
      else (case q1 of Err e \<Rightarrow> Err e, rw1))"
    using run run1 sets rule np(1) by (cases q1) (auto simp: andThen_def)
  have log: "conn_log rw' = cs @ (if ?there then [] else [?add])" if "q = Ok ()"
    using res cs(1) np(1) that by (cases q1) (auto simp: conn_log_def queue_cmd_def)
  have com: "fills E name fam (Cs(i := add_to E name ?a i (Cs i))) rs' \<and> same_elsewhere fam name rs rs' \<and> fuller rs rs'"
    if qok: "q = Ok ()" and com: "commits (conn_log rw') rs rs'" for rs'
  proof (cases ?there)
    case True
    then have "rs' = rs" using com cs(2) log [OF qok] commits_sets [OF cs(2), of "[]"] by simp
    moreover have "Cs(i := add_to E name ?a i (Cs i)) = Cs" using True by (simp add: add_to_def fun_upd_idem)
    ultimately show ?thesis using fol by (simp add: same_elsewhere_def fuller_def)
  next
    case False
    then obtain x where x: "new_rule ?\<kappa> (Build E ?c) (Marshal c) rs x" "rs' = set_rules ?\<kappa> (rs_rules rs ?\<kappa> @ [x]) rs"
      using com cs(2) log [OF qok] by (auto simp: commits_sets \<kappa>)
    have "rule_form x = mut_form E (muts ! i)" using x(1) by (simp add: new_rule_def mut_form_def)
    then have "map rule_form (rs_rules rs ?\<kappa> @ [x]) = content E name (add_to E name ?a i (Cs i)) i"
      using now shown_eq [OF muts i] False by (simp add: content_eq add_to_def)
    from fills_update [OF fol i new_rule_ok(1) [OF _ x(1)] this] fol x(2)
      fuller_set_rules [where \<kappa> = ?\<kappa> and rules = "rs_rules rs ?\<kappa> @ [x]" and rs = rs and h = "rl_handle x"]
    show ?thesis by (simp add: fills_def [of E name fam Cs])
  qed
  have "rw_kernel rw' = rw_kernel rw \<and> is_open rw' \<and> (\<forall>p. q \<noteq> Panic p)"
    using res cs(1) np(1) by (cases q1) (auto simp: is_open_def queue_cmd_def)
  then show "does E name fam Cs i (add_to E name ?a i (Cs i)) rs rw q rw'" using com by (simp add: does_def)
  assume sets_ok: "\<forall>c. lib_AddSet L c = None" and "room fam name rs i"
  then have ex: "?\<kappa> \<in> chain_key ` set (rs_chains rs)" and room: "card (set (handles rs (table_of ?\<kappa>))) < 2 ^ 64"
    by (simp_all add: room_def)
  have q: "q = Ok ()" using res np sets_ok by (cases q1) auto
  obtain h where "h \<notin> set (handles rs (table_of ?\<kappa>))" using free_handle_exists [OF room] by blast
  then have "new_rule ?\<kappa> (Build E ?c) (Marshal c) rs \<lparr>rl_table = ?t, rl_family = fam, rl_chain = ?n, rl_handle = h,
      rl_exprs = Build E ?c, rl_userdata = Marshal c\<rparr>"
    using ex by (simp add: new_rule_def rule_key_def rule_form_def \<kappa>)
  then have "\<exists>rs'. commit ?add rs rs'" by (auto simp: \<kappa>)
  then have "applies [?add] rs" by (elim exE) (rule applies_one)
  then have "applies (if ?there then [] else [?add]) rs" by (simp split: if_split)
  then show "q = Ok () \<and> applies (conn_log rw') rs"
    using q cs(2) by (simp only: log applies_sets simp_thms)
qed

section \<open>Removing a forwarding\<close>

lemma cleanUp_step:
  assumes E: "codec_ok E" and L: "map_order_ok L" and rw: "reads_view name fam rs rw"
    and fol: "fills E name fam Cs rs" and i: "i < 4" and ok: "lists_ok E name i (Cs i)"
    and muts: "buildForwarding E name rnd p f target to c = Ok muts"
    and run: "table_CleanUp L E (muts ! i) rw = (q, rw')"
  shows "does E name fam Cs i (drop_from E name ((p, f), (target, to)) i (Cs i)) rs rw q rw'"
    and "\<forall>c. lib_DelRule L c = None \<Longrightarrow> q = Ok () \<and> applies (conn_log rw') rs"
proof -
  let ?h = "snd (own_places ! i)" and ?n = "nameOf name (fst (own_places ! i))" and ?c = "mut_expr (muts ! i)"
  let ?t = "fst (own_key fam name rs i)" and ?\<kappa> = "own_key fam name rs i"
  let ?r = "\<lparr>rm_expr = ?c, rm_first = False, rm_comment = c\<rparr>" and ?P = "\<lambda>x. RuleExpr E ?c x = Some True"
  let ?old = "rs_rules rs ?\<kappa>"
  note rd = reads_viewD [OF rw fol i] and shape = forwarding_shape [OF muts i]
  have rsok: "ruleset_ok rs" using fol by (simp add: fills_def)
  have \<kappa>: "(?t, fam, ?n) = ?\<kappa>" by (simp add: own_key_def)
  have now: "map rule_form ?old = content E name (Cs i) i" using fol i by (simp add: fills_def)
  note wo = content_matches [OF E muts i ok now]
  have own: "filter (owned E (place_of ?t ?h ?n) (rw_family rw) (rm_expr ?r)) (elems (rw_rules rw)) = filter ?P ?old"
    using own_place_owned [OF rw fol i] rd(3) by simp
  obtain q1 rw1 where clean: "rule_CleanUp L E (place_of ?t ?h ?n) ?r rw = (q1, rw1)" by fastforce
  have "readable E (place_of ?t ?h ?n) (rm_expr ?r) rw"
    using own_place_readable [OF rw fol i wo(4)] by simp
  from rule_CleanUp_single [OF rd(1,4) this _ clean] own wo(1)
  have single: "rw_kernel rw1 = rw_kernel rw" "is_open rw1" "\<forall>p. q1 \<noteq> Panic p"
    "q1 = Ok () \<longrightarrow> conn_log rw1 = map (\<lambda>x. CDelRule ?t fam ?n (rl_handle x)) (filter ?P ?old)"
    "(\<forall>c. lib_DelRule L c = None) \<longrightarrow> q1 = Ok ()"
    using rd(2,3) by (auto simp: rrw_cmd_def del_cmd_def place_of_def)
  have sets: "runCleanUp set_CleanUp ss rw2 = (Ok (), rw2)" for ss :: "set_mut list" and rw2 :: "'a readWriter"
    by (induction ss) (simp_all add: runCleanUp_def run_all_append andThen_def set_CleanUp_def)
  have "table_CleanUp L E (muts ! i) rw = (q1, rw1)"
    using clean single(3)
    by (cases q1) (auto simp: table_CleanUp_def rd(5) shape map_order_single [OF L] runCleanUp_def [of "chain_CleanUp L E crw" for crw]
        rules_cleanUp_def runCleanUp_def [of "rule_CleanUp L E rrw" for rrw] sets place_of_def andThen_def Let_def)
  with run have eq: "q = q1" "rw' = rw1" by simp_all
  let ?new = "filter (\<lambda>x. \<not> ?P x) ?old"
  have log: "(commits (conn_log rw') rs rs' \<longleftrightarrow> rs' = set_rules ?\<kappa> ?new rs) \<and> applies (conn_log rw') rs"
    if "q = Ok ()" for rs'
  proof (cases "filter ?P ?old")
    case Nil
    then have "?new = ?old" by (simp add: filter_empty_conv filter_id_conv)
    then have "set_rules ?\<kappa> ?new rs = rs" by (simp add: set_rules_def)
    then show ?thesis using single(4) eq that Nil by simp
  next
    case (Cons x xs)
    then have one: "filter ?P ?old = [x]" using wo(1) by simp
    have hit: "y \<in> set ?old \<and> ?P y \<longleftrightarrow> y = x" for y
      using arg_cong [OF one, of "\<lambda>ys. y \<in> set ys"] by simp
    have x: "x \<in> set ?old" "?P x" using hit [of x] by simp_all
    have inj: "inj_on rl_handle (set ?old)" using ruleset_okD(4) [OF rsok] by (simp add: distinct_map)
    have "(rl_handle y \<noteq> rl_handle x) = (\<not> ?P y)" if "y \<in> set ?old" for y
      unfolding inj_on_eq_iff [OF inj that x(1)] using hit [of y] that by blast
    then have "filter (\<lambda>y. rl_handle y \<noteq> rl_handle x) ?old = ?new" by (rule filter_cong [OF refl])
    moreover have "conn_log rw' = [CDelRule ?t fam ?n (rl_handle x)]" using single(4) eq that one by simp
    moreover have "applies [CDelRule ?t fam ?n (rl_handle x)] rs"
      by (rule applies_one [where rs' = "set_rules ?\<kappa> (filter (\<lambda>y. rl_handle y \<noteq> rl_handle x) ?old) rs"])
        (use x(1) in \<open>simp add: \<kappa>\<close>)
    ultimately show ?thesis using x(1) by (simp add: \<kappa>)
  qed
  show "\<forall>c. lib_DelRule L c = None \<Longrightarrow> q = Ok () \<and> applies (conn_log rw') rs"
    using single(5) eq log by simp
  have ok': "ruleset_ok (set_rules ?\<kappa> ?new rs)"
  proof (cases "?\<kappa> \<in> chain_key ` set (rs_chains rs)")
    case True
    then show ?thesis
      by (rule ruleset_ok_set_rules [OF rsok]) (use ruleset_okD(3,4) [OF rsok] in \<open>auto simp: distinct_map_filter\<close>)
  next
    case False
    then have "?old = []" using ruleset_okD(2) [OF rsok] by blast
    then show ?thesis using rsok by (simp add: set_rules_def fun_upd_idem)
  qed
  have "fuller rs (set_rules ?\<kappa> ?new rs)" by (rule fuller_set_rules [of _ 0]) auto
  with fills_update [OF fol i ok' wo(3)] single eq log
  show "does E name fam Cs i (drop_from E name ((p, f), (target, to)) i (Cs i)) rs rw q rw'" by (simp add: does_def)
qed

section \<open>Runs of mutations\<close>

lemma Flush_view:
  assumes "kernel_ok willing L view" and "is_open rw" and "Flush L rw = (r, rw')"
  shows "(r = Ok () \<and> commits (conn_log rw) (view (rw_kernel rw)) (view (rw_kernel rw'))) \<or>
    ((\<exists>e. r = Err (EWrap ''failed to flush commands to nftables'' e)) \<and> view (rw_kernel rw') = view (rw_kernel rw) \<and>
      \<not> (willing \<and> applies (conn_log rw) (view (rw_kernel rw))))"
proof -
  obtain cs where cs: "rw_conn rw = Some cs" "conn_log rw = cs" using assms(2) by (auto simp: is_open_def conn_log_def)
  obtain a k where fl: "lib_Flush L cs (rw_kernel rw) = (a, k)" by fastforce
  have "case lib_Flush L cs (rw_kernel rw) of
         (Ok _, k') \<Rightarrow> commits cs (view (rw_kernel rw)) (view k')
       | (Err _, k') \<Rightarrow> view k' = view (rw_kernel rw) \<and> \<not> (willing \<and> applies cs (view (rw_kernel rw)))
       | (Panic _, _) \<Rightarrow> False"
    using assms(1) by (simp add: kernel_ok_def)
  then show ?thesis
    using assms(3) cs fl by (cases a) (auto simp: Flush_def wrapped_def liftk_def)
qed

text \<open>
  Every mutation has its own reader and its own batch, so that a run that fails has made the
  changes of the mutations before and no others.
\<close>

lemma runMutation_from:
  assumes L: "kernel_ok willing L view"
    and step: "\<And>i rs rw q rw'. i < length muts \<Longrightarrow> S i rs \<Longrightarrow> reads_view name fam rs rw \<Longrightarrow> action (muts ! i) rw = (q, rw') \<Longrightarrow>
      rw_kernel rw' = rw_kernel rw \<and> is_open rw' \<and> (\<forall>p. q \<noteq> Panic p) \<and>
      (q = Ok () \<longrightarrow> (\<forall>rs'. commits (conn_log rw') rs rs' \<longrightarrow> S (Suc i) rs')) \<and>
      (go i \<longrightarrow> q = Ok () \<and> applies (conn_log rw') rs)"
    and go: "\<And>i. go i \<Longrightarrow> willing" and "i \<le> length muts" and "S i (view k)" and "runMutation L name fam action (drop i muts) k = (r, k')"
  shows "\<exists>n \<le> length muts. i \<le> n \<and> S n (view k') \<and> (r = Ok () \<longrightarrow> n = length muts) \<and> (\<forall>p. r \<noteq> Panic p) \<and> (go n \<longrightarrow> r = Ok ())"
  using assms(4-6)
proof (induction "length muts - i" arbitrary: i k)
  case 0
  then show ?case by (intro exI [of _ i]) auto
next
  case (Suc d)
  then have i: "i < length muts" by simp
  then have muts: "drop i muts = muts ! i # drop (Suc i) muts" by (simp add: Cons_nth_drop_Suc)
  obtain a k1 where new: "newReadWriter L name fam k = (a, k1)" by fastforce
  note n = newReadWriter_view [OF L new]
  have stay: ?case if "view k' = view k" "r \<noteq> Ok ()" "\<forall>p. r \<noteq> Panic p" "\<not> go i"
    using Suc.prems(2) that i by (intro exI [of _ i]) auto
  show ?case
  proof (cases a)
    case (Ok rw)
    have rw: "reads_view name fam (view k) rw" "rw_kernel rw = k1" using n(4) [OF Ok] by (simp_all add: reads_view_def)
    obtain q rw1 where act: "action (muts ! i) rw = (q, rw1)" by fastforce
    note st = step [OF i Suc.prems(2) rw(1) act]
    have v1: "view (rw_kernel rw1) = view k" using st rw(2) n(1) by simp
    show ?thesis
    proof (cases q)
      case (Ok u)
      obtain fr rw2 where fl: "Flush L rw1 = (fr, rw2)" by fastforce
      from Flush_view [OF L _ this] st consider
        "fr = Ok ()" "commits (conn_log rw1) (view k) (view (rw_kernel rw2))"
        | e where "fr = Err (EWrap ''failed to flush commands to nftables'' e)" "view (rw_kernel rw2) = view k" "\<not> go i"
        using v1 go Ok by auto
      then show ?thesis
      proof cases
        case 1
        then have "S (Suc i) (view (rw_kernel rw2))" using st Ok by simp
        moreover have "runMutation L name fam action (drop (Suc i) muts) (rw_kernel rw2) = (r, k')"
          using Suc.prems(3) new \<open>a = Ok rw\<close> act Ok fl 1 by (simp add: muts)
        ultimately have "\<exists>n \<le> length muts. Suc i \<le> n \<and> S n (view k') \<and> (r = Ok () \<longrightarrow> n = length muts) \<and> (\<forall>p. r \<noteq> Panic p) \<and> (go n \<longrightarrow> r = Ok ())"
          using Suc.hyps(1) [of "Suc i" "rw_kernel rw2"] Suc.hyps(2) i by simp
        then show ?thesis using Suc_leD by blast
      next
        case 2
        then have "r = Err (EWrap ''failed to flush commands to nftables'' e)" "k' = rw_kernel rw2"
          using Suc.prems(3) new \<open>a = Ok rw\<close> act Ok fl by (auto simp: muts IgnoreNotFound_def os_IsNotExist_def)
        then show ?thesis using 2 by (intro stay) auto
      qed
    next
      case (Err e)
      then have "r = Err e" "k' = rw_kernel rw1" using Suc.prems(3) new Ok act by (auto simp: muts)
      then show ?thesis using v1 st Err by (intro stay) auto
    next
      case (Panic p)
      then show ?thesis using st by blast
    qed
  next
    case (Err e)
    then have "r = Err e" "k' = k1" using Suc.prems(3) new by (auto simp: muts)
    then show ?thesis using n(1) n(3) go Err by (intro stay) auto
  next
    case (Panic p)
    then show ?thesis using n(2) by blast
  qed
qed

lemma runMutation_prefix:
  assumes L: "kernel_ok willing L view"
    and step: "\<And>i rs rw q rw'. i < length muts \<Longrightarrow> S i rs \<Longrightarrow> reads_view name fam rs rw \<Longrightarrow> action (muts ! i) rw = (q, rw') \<Longrightarrow>
      rw_kernel rw' = rw_kernel rw \<and> is_open rw' \<and> (\<forall>p. q \<noteq> Panic p) \<and>
      (q = Ok () \<longrightarrow> (\<forall>rs'. commits (conn_log rw') rs rs' \<longrightarrow> S (Suc i) rs')) \<and>
      (go \<longrightarrow> q = Ok () \<and> applies (conn_log rw') rs)"
    and "go \<Longrightarrow> willing" and "i \<le> length muts" and "S i (view k)" and "runMutation L name fam action (drop i muts) k = (r, k')"
  shows "\<exists>n \<le> length muts. S n (view k') \<and> (r = Ok () \<longrightarrow> n = length muts) \<and> (\<forall>p. r \<noteq> Panic p) \<and> (go \<longrightarrow> r = Ok ())"
  using runMutation_from [where S = S and go = "\<lambda>_. go" and i = i, OF assms] by blast

lemma same_elsewhere_refl [simp]: "same_elsewhere fam name rs rs"
  by (simp add: same_elsewhere_def)

lemma same_elsewhere_trans:
  assumes "same_elsewhere fam name rs1 rs2" and "same_elsewhere fam name rs2 rs3"
  shows "same_elsewhere fam name rs1 rs3"
proof -
  have "rs_chains rs2 = rs_chains rs1" using assms(1) by (simp add: same_elsewhere_def)
  then have "own_key fam name rs2 = own_key fam name rs1" by (simp add: own_key_def hooked_def fun_eq_iff)
  with assms show ?thesis by (simp add: same_elsewhere_def)
qed

abbreviation ruleset_of :: "('k \<Rightarrow> ruleset) \<Rightarrow> 'k nftables \<Rightarrow> ruleset" where
  "ruleset_of view nft \<equiv> view (nft_kernel nft)"

text \<open>The four chains exist and their tables have room for four more rules.\<close>

definition ready :: "family \<Rightarrow> string \<Rightarrow> ruleset \<Rightarrow> bool" where
  "ready fam name rs \<longleftrightarrow> (\<forall>i < 4. own_key fam name rs i \<in> chain_key ` set (rs_chains rs) \<and>
     card (set (handles rs (table_of (own_key fam name rs i)))) + 4 \<le> 2 ^ 64)"

text \<open>The lists after the first \<open>n\<close> chains have been changed.\<close>

definition done_upto :: "nat \<Rightarrow> (nat \<Rightarrow> forwarding list \<Rightarrow> forwarding list) \<Rightarrow> (nat \<Rightarrow> forwarding list) \<Rightarrow> nat \<Rightarrow> forwarding list" where
  "done_upto n f Cs i = (if i < n then f i (Cs i) else Cs i)"

lemma done_upto_Suc: "(done_upto n f Cs)(n := f n (done_upto n f Cs n)) = done_upto (Suc n) f Cs"
  by (auto simp: done_upto_def fun_eq_iff less_Suc_eq)

lemma chains_prefix:
  assumes L: "kernel_ok willing L view" and h: "fills E name fam Cs (view k)" and len: "length muts = 4"
    and run: "runMutation L name fam action muts k = (r, k')"
    and ok: "\<And>i. i < 4 \<Longrightarrow> lists_ok E name i (Cs i)"
    and step: "\<And>i Ds rs rw q rw'. i < 4 \<Longrightarrow> fills E name fam Ds rs \<Longrightarrow> lists_ok E name i (Ds i) \<Longrightarrow> reads_view name fam rs rw \<Longrightarrow>
      action (muts ! i) rw = (q, rw') \<Longrightarrow> does E name fam Ds i (f i (Ds i)) rs rw q rw' \<and>
      (willing \<longrightarrow> (needy \<longrightarrow> room fam name rs i) \<longrightarrow> q = Ok () \<and> applies (conn_log rw') rs)"
  shows "\<exists>n \<le> 4. fills E name fam (done_upto n f Cs) (view k') \<and> same_elsewhere fam name (view k) (view k') \<and>
    (r = Ok () \<longrightarrow> n = 4) \<and> (\<forall>p. r \<noteq> Panic p) \<and> (willing \<and> (needy \<longrightarrow> ready fam name (view k)) \<longrightarrow> r = Ok ())"
proof -
  let ?go = "willing \<and> (needy \<longrightarrow> ready fam name (view k))"
  let ?S = "\<lambda>n rs. fills E name fam (done_upto n f Cs) rs \<and> same_elsewhere fam name (view k) rs \<and>
    (\<forall>t. card (set (handles rs t)) \<le> card (set (handles (view k) t)) + n)"
  have "\<exists>n \<le> length muts. ?S n (view k') \<and> (r = Ok () \<longrightarrow> n = length muts) \<and> (\<forall>p. r \<noteq> Panic p) \<and> (?go \<longrightarrow> r = Ok ())"
  proof (rule runMutation_prefix [OF L, where S = ?S and i = 0])
    show "?S 0 (view k)" using h by (simp add: done_upto_def [abs_def])
    show "runMutation L name fam action (drop 0 muts) k = (r, k')" using run by simp
  next
    fix i rs rw q rw'
    assume i: "i < length muts" and S: "?S i rs" and rw: "reads_view name fam rs rw"
      and act: "action (muts ! i) rw = (q, rw')"
    have "lists_ok E name i (done_upto i f Cs i)" using ok i len by (simp add: done_upto_def)
    note st = step [OF i [unfolded len] S [THEN conjunct1] this rw act, unfolded does_def done_upto_Suc]
    have next_one: "?S (Suc i) rs'" if "q = Ok ()" "commits (conn_log rw') rs rs'" for rs'
    proof -
      from st that have "fills E name fam (done_upto (Suc i) f Cs) rs'" "same_elsewhere fam name rs rs'" "fuller rs rs'" by blast+
      moreover have "card (set (handles rs' t)) \<le> card (set (handles (view k) t)) + Suc i" if "fuller rs rs'" for t
      proof -
        have "card (set (handles rs' t)) \<le> Suc (card (set (handles rs t)))" using that unfolding fuller_def by (rule spec)
        moreover have "card (set (handles rs t)) \<le> card (set (handles (view k) t)) + i" using S by blast
        ultimately show ?thesis by simp
      qed
      ultimately show ?thesis using S same_elsewhere_trans by blast
    qed
    have keys: "own_key fam name rs = own_key fam name (view k)" and chs: "rs_chains rs = rs_chains (view k)"
      using S by (simp_all add: same_elsewhere_def own_key_def hooked_def fun_eq_iff)
    have "room fam name rs i" if "ready fam name (view k)"
    proof -
      have "card (set (handles (view k) (table_of (own_key fam name (view k) i)))) + 4 \<le> 2 ^ 64"
        "own_key fam name (view k) i \<in> chain_key ` set (rs_chains (view k))"
        using that i len unfolding ready_def by simp_all
      moreover have "card (set (handles rs (table_of (own_key fam name (view k) i)))) \<le>
          card (set (handles (view k) (table_of (own_key fam name (view k) i)))) + i"
        using S by blast
      ultimately show ?thesis using i len unfolding room_def keys chs by simp
    qed
    then have live: "q = Ok () \<and> applies (conn_log rw') rs" if ?go
      using st [THEN conjunct2] that by metis
    have next_all: "q = Ok () \<longrightarrow> (\<forall>rs'. commits (conn_log rw') rs rs' \<longrightarrow> ?S (Suc i) rs')"
      by (intro impI allI next_one)
    have live_all: "?go \<longrightarrow> q = Ok () \<and> applies (conn_log rw') rs"
      by (intro impI live)
    show "rw_kernel rw' = rw_kernel rw \<and> is_open rw' \<and> (\<forall>p. q \<noteq> Panic p) \<and>
      (q = Ok () \<longrightarrow> (\<forall>rs'. commits (conn_log rw') rs rs' \<longrightarrow> ?S (Suc i) rs')) \<and>
      (?go \<longrightarrow> q = Ok () \<and> applies (conn_log rw') rs)"
      using st next_all live_all by blast
  qed simp_all
  then show ?thesis using len by auto
qed

section \<open>Calls\<close>

text \<open>One call on every path, whatever the chains hold.\<close>

lemma AddForwarding_chains:
  assumes "kernel_ok willing L view" and "codec_ok E" and "map_order_ok L" and "nft_once nft" and p: "p = TCP \<or> p = UDP"
    and h: "fills E (nft_name nft) (nft_family nft) Cs (ruleset_of view nft)"
    and ok: "\<And>i. i < 4 \<Longrightarrow> lists_ok E (nft_name nft) i (Cs i)"
    and run: "nft_AddForwarding L E rnd p f target to c nft = (r, nft')"
  shows "\<exists>n \<le> 4. fills E (nft_name nft) (nft_family nft) (done_upto n (add_to E (nft_name nft) ((p, f), (target, to))) Cs) (ruleset_of view nft') \<and>
    same_elsewhere (nft_family nft) (nft_name nft) (ruleset_of view nft) (ruleset_of view nft') \<and>
    (r = Ok () \<longrightarrow> n = 4) \<and> (\<forall>p. r \<noteq> Panic p) \<and>
    (willing \<and> ready (nft_family nft) (nft_name nft) (ruleset_of view nft) \<longrightarrow> r = Ok ())"
proof -
  obtain muts where muts: "buildForwarding E (nft_name nft) rnd p f target to c = Ok muts"
    using buildForwarding_total [OF p] by blast
  have "nft_AddForwarding L E rnd p f target to c nft = present L E muts nft"
    using assms(4) muts by (simp add: nft_AddForwarding_def once_start_def andThen_def wrapped_def)
  with run obtain k' where k': "runMutation L (nft_name nft) (nft_family nft) (table_Present L E) muts (nft_kernel nft) = (r, k')"
    "nft' = nft\<lparr>nft_kernel := k'\<rparr>"
    by (auto simp: present_def on_kernel_def split: prod.splits)
  have lib: "willing \<Longrightarrow> \<forall>c. lib_AddSet L c = None" using assms(1) by (simp add: kernel_ok_def)
  show ?thesis
    using chains_prefix [OF assms(1) h buildForwarding_nth(1) [OF muts] k'(1) ok, where needy = True and
        f = "add_to E (nft_name nft) ((p, f), (target, to))"]
      present_step [OF assms(2,3) _ _ _ _ muts] lib k'(2) by auto
qed

lemma RemoveForwarding_chains:
  assumes "kernel_ok willing L view" and "codec_ok E" and "map_order_ok L" and p: "p = TCP \<or> p = UDP"
    and h: "fills E (nft_name nft) (nft_family nft) Cs (ruleset_of view nft)"
    and ok: "\<And>i. i < 4 \<Longrightarrow> lists_ok E (nft_name nft) i (Cs i)"
    and run: "nft_RemoveForwarding L E rnd p f target to nft = (r, nft')"
  shows "\<exists>n \<le> 4. fills E (nft_name nft) (nft_family nft) (done_upto n (drop_from E (nft_name nft) ((p, f), (target, to))) Cs) (ruleset_of view nft') \<and>
    same_elsewhere (nft_family nft) (nft_name nft) (ruleset_of view nft) (ruleset_of view nft') \<and>
    (r = Ok () \<longrightarrow> n = 4) \<and> (\<forall>p. r \<noteq> Panic p) \<and> (willing \<longrightarrow> r = Ok ())"
proof -
  obtain muts where muts: "buildForwarding E (nft_name nft) rnd p f target to [] = Ok muts"
    using buildForwarding_total [OF p] by blast
  obtain k' where k': "runMutation L (nft_name nft) (nft_family nft) (table_CleanUp L E) muts (nft_kernel nft) = (r, k')"
    "nft' = nft\<lparr>nft_kernel := k'\<rparr>"
    using run muts by (auto simp: nft_RemoveForwarding_def cleanUp_def on_kernel_def split: prod.splits)
  have lib: "willing \<Longrightarrow> \<forall>c. lib_DelRule L c = None" using assms(1) by (simp add: kernel_ok_def)
  show ?thesis
    using chains_prefix [OF assms(1) h buildForwarding_nth(1) [OF muts] k'(1) ok, where needy = False and
        f = "drop_from E (nft_name nft) ((p, f), (target, to))"]
      cleanUp_step [OF assms(2,3) _ _ _ _ muts] lib k'(2) by auto
qed

section \<open>Calls for distinct ports\<close>

text \<open>
  The guard lets at most one forwarding per port through. Then the lists are the same list of active
  forwardings, and a call appends to it or takes an element out.
\<close>

definition active_ok :: "forwarding list \<Rightarrow> bool" where
  "active_ok As \<longleftrightarrow> distinct (map fst As) \<and> (\<forall>a \<in> set As. fst (fst a) = TCP \<or> fst (fst a) = UDP)"

definition without :: "protocol \<times> 16 word \<Rightarrow> forwarding list \<Rightarrow> forwarding list" where
  "without k As = filter (\<lambda>a. fst a \<noteq> k) As"

lemma shown_keys:
  assumes E: "codec_ok E" and i: "i < 4" and "known_protocol a" "known_protocol b" and ne: "fst a \<noteq> fst b"
  shows "shown E name i a \<noteq> shown E name i b"
proof
  assume same: "shown E name i a = shown E name i b"
  obtain p f target to p' f' target' to' where ab: "a = ((p, f), (target, to))" "b = ((p', f'), (target', to'))"
    by (metis surj_pair)
  have "p = TCP \<or> p = UDP" "p' = TCP \<or> p' = UDP" using assms(3,4) ab by (simp_all add: known_protocol_def)
  then obtain muts muts' where m: "buildForwarding E name (\<lambda>_. 0) p f target to [] = Ok muts"
      "buildForwarding E name (\<lambda>_. 0) p' f' target' to' [] = Ok muts'"
    using buildForwarding_total by metis
  let ?x = "\<lparr>rl_table = [], rl_family = TableFamilyIPv4, rl_chain = [], rl_handle = 0, rl_exprs = Build E (mut_expr (muts' ! i)), rl_userdata = None\<rparr>"
  have x: "rule_form ?x = mut_form E (muts' ! i)" by (simp add: rule_form_def mut_form_def)
  have "RuleExpr E (mut_expr (muts ! i)) ?x = Some False"
    by (rule ignored [OF E _ i m x]) (use ne ab in simp)
  moreover have "RuleExpr E (mut_expr (muts ! i)) ?x = Some True"
    by (rule recognised [OF m(1) i]) (use x same shown_eq [OF m(2) i] ab in \<open>simp add: shown_def\<close>)
  ultimately show False by simp
qed

lemma active_lists:
  assumes "codec_ok E" and "i < 4" and "active_ok As"
  shows "lists_ok E name i As"
proof -
  have known: "list_all known_protocol As" using assms(3) by (auto simp: active_ok_def known_protocol_def list_all_iff)
  have "inj_on (shown E name i) (set As)"
  proof (rule inj_onI)
    fix a b assume ab: "a \<in> set As" "b \<in> set As" "shown E name i a = shown E name i b"
    then have "fst a = fst b" using shown_keys [OF assms(1,2)] known by (metis list_all_iff)
    then show "a = b" using ab(1,2) assms(3) by (simp add: active_ok_def eq_key_imp_eq_value prod_eq_iff)
       (metis eq_key_imp_eq_value prod.collapse)
  qed
  moreover have "distinct As" using assms(3) by (simp add: active_ok_def distinct_map)
  ultimately show ?thesis using known by (simp add: lists_ok_def distinct_map)
qed

lemma add_to_new:
  assumes "codec_ok E" and "i < 4" and "active_ok As" and "known_protocol a" and "fst a \<notin> fst ` set As"
  shows "add_to E name a i As = As @ [a]"
proof -
  have "shown E name i a \<noteq> shown E name i b" if "b \<in> set As" for b
    by (rule shown_keys [OF assms(1,2,4)]) (use that assms(3,5) in \<open>force simp: active_ok_def known_protocol_def\<close>)+
  then show ?thesis by (auto simp: add_to_def)
qed

lemma drop_from_key:
  assumes "codec_ok E" and "i < 4" and "active_ok As" and "known_protocol (k, v)" and "\<forall>w. (k, w) \<in> set As \<longrightarrow> w = v"
  shows "drop_from E name (k, v) i As = without k As"
proof -
  have "shown E name i b \<noteq> shown E name i (k, v) \<longleftrightarrow> fst b \<noteq> k" if "b \<in> set As" for b
  proof (cases "fst b = k")
    case True
    then have "b = (k, v)" using assms(5) that by (cases b) auto
    then show ?thesis by simp
  next
    case False
    have "shown E name i b \<noteq> shown E name i (k, v)"
      by (rule shown_keys [OF assms(1,2) _ assms(4)]) (use that assms(3) False in \<open>auto simp: active_ok_def known_protocol_def\<close>)
    then show ?thesis using False by simp
  qed
  then show ?thesis unfolding drop_from_def without_def by (rule filter_cong [OF refl])
qed

lemma follows_restart:
  assumes "follows E name fam 4 As' As rs" shows "follows E name fam 0 Bs As' rs"
  using assms by (simp add: follows_def fills_def)

lemma follows_any: "follows E name fam 0 As' As rs \<Longrightarrow> follows E name fam 0 Bs As rs"
  by (simp add: follows_def)

definition holds :: "codec \<Rightarrow> string \<Rightarrow> family \<Rightarrow> forwarding list \<Rightarrow> ruleset \<Rightarrow> bool" where
  "holds E name fam As rs \<longleftrightarrow> active_ok As \<and> follows E name fam 0 As As rs"

lemma holds_fills: "holds E name fam As rs \<longleftrightarrow> active_ok As \<and> fills E name fam (\<lambda>_. As) rs"
  by (simp add: holds_def follows_def)

lemma follows_upto:
  assumes "\<And>i. i < 4 \<Longrightarrow> f i As = As'"
  shows "fills E name fam (done_upto n f (\<lambda>_. As)) rs = follows E name fam n As' As rs"
  unfolding follows_def by (rule fills_cong) (simp add: done_upto_def assms)

lemma AddForwarding_prefix:
  assumes "kernel_ok willing L view" and "codec_ok E" and "map_order_ok L" and "nft_once nft" and p: "p = TCP \<or> p = UDP"
    and h: "holds E (nft_name nft) (nft_family nft) As (ruleset_of view nft)" and new: "(p, f) \<notin> fst ` set As"
    and run: "nft_AddForwarding L E rnd p f target to c nft = (r, nft')"
  shows "\<exists>n \<le> 4. follows E (nft_name nft) (nft_family nft) n (As @ [((p, f), (target, to))]) As (ruleset_of view nft') \<and>
    same_elsewhere (nft_family nft) (nft_name nft) (ruleset_of view nft) (ruleset_of view nft') \<and>
    (r = Ok () \<longrightarrow> n = 4) \<and> (\<forall>p. r \<noteq> Panic p) \<and>
    (willing \<and> ready (nft_family nft) (nft_name nft) (ruleset_of view nft) \<longrightarrow> r = Ok ())"
proof -
  have act: "active_ok As" and fl: "fills E (nft_name nft) (nft_family nft) (\<lambda>_. As) (ruleset_of view nft)"
    using h by (simp_all add: holds_fills)
  have new': "add_to E (nft_name nft) ((p, f), (target, to)) i As = As @ [((p, f), (target, to))]" if "i < 4" for i
    by (rule add_to_new [OF assms(2) that act]) (use p new in \<open>simp_all add: known_protocol_def\<close>)
  from AddForwarding_chains [OF assms(1-4) p fl active_lists [OF assms(2) _ act] run]
  show ?thesis by (simp only: follows_upto [where f = "add_to E (nft_name nft) ((p, f), (target, to))", OF new'])
qed

lemma RemoveForwarding_prefix:
  assumes "kernel_ok willing L view" and "codec_ok E" and "map_order_ok L" and p: "p = TCP \<or> p = UDP"
    and h: "holds E (nft_name nft) (nft_family nft) As (ruleset_of view nft)"
    and same: "\<forall>v. ((p, f), v) \<in> set As \<longrightarrow> v = (target, to)"
    and run: "nft_RemoveForwarding L E rnd p f target to nft = (r, nft')"
  shows "\<exists>n \<le> 4. follows E (nft_name nft) (nft_family nft) n (without (p, f) As) As (ruleset_of view nft') \<and>
    same_elsewhere (nft_family nft) (nft_name nft) (ruleset_of view nft) (ruleset_of view nft') \<and>
    (r = Ok () \<longrightarrow> n = 4) \<and> (\<forall>p. r \<noteq> Panic p) \<and> (willing \<longrightarrow> r = Ok ())"
proof -
  have act: "active_ok As" and fl: "fills E (nft_name nft) (nft_family nft) (\<lambda>_. As) (ruleset_of view nft)"
    using h by (simp_all add: holds_fills)
  have wo: "drop_from E (nft_name nft) ((p, f), (target, to)) i As = without (p, f) As" if "i < 4" for i
    by (rule drop_from_key [OF assms(2) that act]) (use p same in \<open>simp_all add: known_protocol_def\<close>)
  from RemoveForwarding_chains [OF assms(1-3) p fl active_lists [OF assms(2) _ act] run]
  show ?thesis by (simp only: follows_upto [where f = "drop_from E (nft_name nft) ((p, f), (target, to))", OF wo])
qed

end
