(* ===== verification/NfStart.thy ===== *)
theory NfStart
  imports OwnCalls
begin

text \<open>
  The start of the nftables implementation on a machine that may hold what earlier runs left: of each of the four
  places nothing, or the hooked chain alone, or the hooked chain with its jump and the program's own chain.
\<close>

definition start_places :: "(string \<times> string \<times> hook) list" where
  "start_places = [(''nat'', ''PREROUTING'', ChainHookPrerouting), (''nat'', ''POSTROUTING'', ChainHookPostrouting),
     (''filter'', ''FORWARD'', ChainHookForward), (''nat'', ''OUTPUT'', ChainHookOutput)]"

definition start_table :: "nat \<Rightarrow> string" where "start_table i = fst (start_places ! i)"
definition start_label :: "nat \<Rightarrow> string" where "start_label i = fst (snd (start_places ! i))"
definition start_hook :: "nat \<Rightarrow> hook" where "start_hook i = snd (snd (start_places ! i))"

definition start_rules :: "string \<Rightarrow> nat \<Rightarrow> rule_mut list" where
  "start_rules name i = (if i = 2 then [commented name (first_rule (Rule [TrackingEstablishedRelated, Accept]))] else [])"

definition jump_rule :: "string \<Rightarrow> nat \<Rightarrow> rule_mut" where
  "jump_rule name i = commented name (Rule [Counting, Jump (nameOf name (start_label i))])"

lemmas start_defs = start_table_def start_label_def start_hook_def start_places_def

lemma structure_nth:
  assumes "i < 4"
  shows "tm_name (nft_structure name force ! i) = start_table i" "tm_hook (nft_structure name force ! i) = start_hook i"
    "tm_sets (nft_structure name force ! i) = []"
    "tm_chains (nft_structure name force ! i) =
       [RegularChain (nameOf name (start_label i)) (start_rules name i) force, BaseChain (start_label i) [jump_rule name i]]"
  using assms
  by (auto simp: nft_structure_def foundation_def Table_def table_AddChain_def start_rules_def jump_rule_def start_defs
      less_Suc_eq numeral_eq_Suc)

lemma base_forms_start: "i < 4 \<Longrightarrow> base_forms E ! i = map (\<lambda>r. map kernel_form (Build E (rm_expr r))) (start_rules name i)"
  by (auto simp: base_forms_def start_rules_def CtStateBitESTABLISHED_RELATED_def commented_def first_rule_def Rule_def
      less_Suc_eq numeral_eq_Suc)

lemma nameOf_base: "i < 4 \<Longrightarrow> j < 4 \<Longrightarrow> nameOf name (start_label i) \<noteq> start_label j"
proof -
  assume "i < 4" "j < 4"
  then have "CHR ''-'' \<notin> set (start_label j)" by (auto simp: start_defs less_Suc_eq numeral_eq_Suc)
  moreover have "CHR ''-'' \<in> set (nameOf name (start_label i))" by (simp add: nameOf_def)
  ultimately show ?thesis by metis
qed

lemma nameOf_start: "i < 4 \<Longrightarrow> j < 4 \<Longrightarrow> nameOf name (start_label i) = nameOf name (start_label j) \<longleftrightarrow> i = j"
  by (auto simp: start_defs nameOf_def ToUpper_def upper_char_def less_Suc_eq numeral_eq_Suc)

lemma label_start: "i < 4 \<Longrightarrow> j < 4 \<Longrightarrow> start_label i = start_label j \<longleftrightarrow> i = j"
  by (auto simp: start_defs less_Suc_eq numeral_eq_Suc)

lemma less_4: "(i :: nat) < 4 \<longleftrightarrow> i = 0 \<or> i = 1 \<or> i = 2 \<or> i = 3"
  by auto

lemma hook_start: "i < 4 \<Longrightarrow> j < 4 \<Longrightarrow> hook_value (start_hook i) = hook_value (start_hook j) \<longleftrightarrow> i = j"
  unfolding less_4 by (elim disjE) (simp_all add: start_defs)

lemma own_label: "i < 4 \<Longrightarrow> fst (own_places ! i) = start_label i"
  unfolding less_4 by (elim disjE) (simp_all add: own_places_def start_defs)

lemma own_hook: "i < 4 \<Longrightarrow> snd (own_places ! i) = start_hook i"
  unfolding less_4 by (elim disjE) (simp_all add: own_places_def start_defs)

section \<open>What earlier runs leave\<close>

datatype place = Absent | Bare | Full "forwarding list"

definition own_chain :: "string \<Rightarrow> family \<Rightarrow> nat \<Rightarrow> nchain" where
  "own_chain name fam i = fst (new_chain fam (start_table i) (nameOf name (start_label i)) None)"

definition base_chain :: "family \<Rightarrow> nat \<Rightarrow> nchain" where
  "base_chain fam i = fst (new_chain fam (start_table i) (start_label i) (Some (start_hook i)))"

lemma chain_simps [simp]:
  "ch_table (own_chain name fam i) = start_table i" "ch_family (own_chain name fam i) = fam"
  "ch_name (own_chain name fam i) = nameOf name (start_label i)" "ch_hooknum (own_chain name fam i) = None"
  "ch_type (own_chain name fam i) = OtherChainType []"
  "ch_table (base_chain fam i) = start_table i" "ch_family (base_chain fam i) = fam"
  "ch_name (base_chain fam i) = start_label i" "ch_hooknum (base_chain fam i) = Some (hook_value (start_hook i))"
  "ch_priority (base_chain fam i) = Some (ChainPriority (start_hook i))" "ch_type (base_chain fam i) = ChainType (start_hook i)"
  "chain_key (own_chain name fam i) = (start_table i, fam, nameOf name (start_label i))"
  "chain_key (base_chain fam i) = (start_table i, fam, start_label i)"
  by (simp_all add: own_chain_def base_chain_def new_chain_def chain_key_def)

abbreviation own_at :: "string \<Rightarrow> family \<Rightarrow> nat \<Rightarrow> chain_key" where
  "own_at name fam i \<equiv> (start_table i, fam, nameOf name (start_label i))"

abbreviation base_at :: "family \<Rightarrow> nat \<Rightarrow> chain_key" where
  "base_at fam i \<equiv> (start_table i, fam, start_label i)"

fun place_chains :: "string \<Rightarrow> family \<Rightarrow> nat \<Rightarrow> place \<Rightarrow> nchain set" where
  "place_chains name fam i Absent = {}"
| "place_chains name fam i Bare = {base_chain fam i}"
| "place_chains name fam i (Full As) = {base_chain fam i, own_chain name fam i}"

fun own_forms :: "codec \<Rightarrow> string \<Rightarrow> nat \<Rightarrow> place \<Rightarrow> expr list list" where
  "own_forms E name i (Full As) = content E name As i"
| "own_forms E name i _ = []"

fun base_content :: "codec \<Rightarrow> string \<Rightarrow> nat \<Rightarrow> place \<Rightarrow> expr list list" where
  "base_content E name i (Full As) = [map kernel_form (Build E (rm_expr (jump_rule name i)))]"
| "base_content E name i _ = []"

definition laid :: "codec \<Rightarrow> string \<Rightarrow> family \<Rightarrow> (nat \<Rightarrow> place) \<Rightarrow> ruleset \<Rightarrow> bool" where
  "laid E name fam st rs \<longleftrightarrow> ruleset_ok rs \<and>
     {c \<in> set (rs_chains rs). ch_family c = fam} = (\<Union>i \<in> {..<4}. place_chains name fam i (st i)) \<and>
     (\<forall>i < 4. map rule_form (rs_rules rs (own_at name fam i)) = own_forms E name i (st i) \<and>
        map rule_form (rs_rules rs (base_at fam i)) = base_content E name i (st i))"

lemma laidD:
  assumes "laid E name fam st rs"
  shows "ruleset_ok rs" and "{c \<in> set (rs_chains rs). ch_family c = fam} = (\<Union>i \<in> {..<4}. place_chains name fam i (st i))"
    and "i < 4 \<Longrightarrow> map rule_form (rs_rules rs (own_at name fam i)) = own_forms E name i (st i)"
    and "i < 4 \<Longrightarrow> map rule_form (rs_rules rs (base_at fam i)) = base_content E name i (st i)"
  using assms unfolding laid_def by blast+

lemma own_neq_base: "i < 4 \<Longrightarrow> j < 4 \<Longrightarrow> own_at name fam i \<noteq> base_at fam j"
  using nameOf_base [of i j name] by simp

lemma own_at_eq: "i < 4 \<Longrightarrow> j < 4 \<Longrightarrow> own_at name fam i = own_at name fam j \<longleftrightarrow> i = j"
  using nameOf_start [of i j name] by auto

lemma base_at_eq: "i < 4 \<Longrightarrow> j < 4 \<Longrightarrow> base_at fam i = base_at fam j \<longleftrightarrow> i = j"
  using label_start [of i j] by auto

lemma in_place: "c \<in> place_chains name fam i s \<Longrightarrow> c = base_chain fam i \<and> s \<noteq> Absent \<or> c = own_chain name fam i \<and> (\<exists>As. s = Full As)"
  by (cases s) auto

text \<open>A place after one mutation.\<close>

lemma laid_update:
  assumes l: "laid E name fam st rs" and i: "i < 4" and "ruleset_ok rs'"
    and "{c \<in> set (rs_chains rs'). ch_family c = fam} = {c \<in> set (rs_chains rs). ch_family c = fam} -
      place_chains name fam i (st i) \<union> place_chains name fam i s"
    and "\<And>\<kappa>. \<kappa> \<noteq> own_at name fam i \<Longrightarrow> \<kappa> \<noteq> base_at fam i \<Longrightarrow> rs_rules rs' \<kappa> = rs_rules rs \<kappa>"
    and "map rule_form (rs_rules rs' (own_at name fam i)) = own_forms E name i s"
    and "map rule_form (rs_rules rs' (base_at fam i)) = base_content E name i s"
  shows "laid E name fam (st(i := s)) rs'"
proof -
  have disj: "place_chains name fam j (st j) \<inter> place_chains name fam i (st i) = {}" if "j < 4" "j \<noteq> i" for j
  proof -
    have "chain_key c \<noteq> chain_key d" if "c \<in> place_chains name fam j (st j)" "d \<in> place_chains name fam i (st i)" for c d
      using in_place [OF that(1)] in_place [OF that(2)] \<open>j \<noteq> i\<close> nameOf_base [OF \<open>j < 4\<close> i, of name]
        nameOf_base [OF i \<open>j < 4\<close>, of name, symmetric] nameOf_start [OF \<open>j < 4\<close> i, of name] label_start [OF \<open>j < 4\<close> i]
      by (elim disjE conjE exE) simp_all
    then show ?thesis by blast
  qed
  have chains: "{c \<in> set (rs_chains rs'). ch_family c = fam} = (\<Union>j \<in> {..<4}. place_chains name fam j ((st(i := s)) j))"
    unfolding assms(4) laidD(2) [OF l] using disj i by (auto split: if_splits) blast+
  have rules: "rs_rules rs' (own_at name fam j) = rs_rules rs (own_at name fam j)" "rs_rules rs' (base_at fam j) = rs_rules rs (base_at fam j)"
    if "j < 4" "j \<noteq> i" for j
    using assms(5) that i own_neq_base [of j i fam name] own_neq_base [of i j fam name] own_at_eq [of i j fam name] base_at_eq [of i j fam]
    by metis+
  show ?thesis
    unfolding laid_def chains using assms(3,6,7) rules laidD(3,4) [OF l] by auto
qed

text \<open>A machine without chains of the family.\<close>

definition clean :: "family \<Rightarrow> ruleset \<Rightarrow> bool" where
  "clean fam rs \<longleftrightarrow> ruleset_ok rs \<and> (\<forall>c \<in> set (rs_chains rs). ch_family c \<noteq> fam)"

lemma clean_laid:
  assumes "clean fam rs" shows "laid E name fam (\<lambda>_. Absent) rs"
proof -
  have "rs_rules rs (t, fam, n) = []" for t n
    using assms by (auto simp: clean_def chain_key_def intro!: ruleset_okD(2))
  then show ?thesis using assms by (auto simp: laid_def clean_def)
qed

section \<open>What a reader finds\<close>

lemma laid_chain:
  assumes "laid E name fam st rs" and "c \<in> set (rs_chains rs)" and "ch_family c = fam"
  obtains j where "j < 4" "c = base_chain fam j" "st j \<noteq> Absent" | j As where "j < 4" "c = own_chain name fam j" "st j = Full As"
proof -
  have "c \<in> {c \<in> set (rs_chains rs). ch_family c = fam}" using assms(2,3) by simp
  then obtain j where j: "j < 4" "c \<in> place_chains name fam j (st j)" unfolding laidD(2) [OF assms(1)] by auto
  from in_place [OF j(2)] show thesis using that j(1) by (elim disjE conjE exE)
qed

lemma laid_has:
  assumes "laid E name fam st rs" and "i < 4" and "c \<in> place_chains name fam i (st i)"
  shows "c \<in> set (rs_chains rs)" and "ch_family c = fam"
  using laidD(2) [OF assms(1)] assms(2,3) by blast+

lemma laid_keys:
  assumes l: "laid E name fam st rs" and i: "i < 4"
  shows "base_at fam i \<in> chain_key ` set (rs_chains rs) \<longleftrightarrow> st i \<noteq> Absent"
    and "own_at name fam i \<in> chain_key ` set (rs_chains rs) \<longleftrightarrow> (\<exists>As. st i = Full As)"
proof -
  have fam: "ch_family c = fam" if "chain_key c = (t, fam, n)" for c t n using that by (simp add: chain_key_def)
  show "base_at fam i \<in> chain_key ` set (rs_chains rs) \<longleftrightarrow> st i \<noteq> Absent"
  proof
    assume "base_at fam i \<in> chain_key ` set (rs_chains rs)"
    then obtain c where c: "c \<in> set (rs_chains rs)" "chain_key c = base_at fam i" by fastforce
    from laid_chain [OF l c(1) fam [OF c(2)]] show "st i \<noteq> Absent"
      by (cases) (use c(2) i nameOf_base label_start in auto)
  next
    assume "st i \<noteq> Absent"
    then have "base_chain fam i \<in> place_chains name fam i (st i)" by (cases "st i") auto
    from laid_has(1) [OF l i this] show "base_at fam i \<in> chain_key ` set (rs_chains rs)"
      by (intro image_eqI [where x = "base_chain fam i"]) simp_all
  qed
  show "own_at name fam i \<in> chain_key ` set (rs_chains rs) \<longleftrightarrow> (\<exists>As. st i = Full As)"
  proof
    assume "own_at name fam i \<in> chain_key ` set (rs_chains rs)"
    then obtain c where c: "c \<in> set (rs_chains rs)" "chain_key c = own_at name fam i" by fastforce
    from laid_chain [OF l c(1) fam [OF c(2)]] show "\<exists>As. st i = Full As"
      by (cases) (use c(2) i nameOf_base [of i _ name] nameOf_start [of _ i name] in \<open>auto dest: sym\<close>)
  next
    assume "\<exists>As. st i = Full As"
    then have "own_chain name fam i \<in> place_chains name fam i (st i)" by auto
    from laid_has(1) [OF l i this] show "own_at name fam i \<in> chain_key ` set (rs_chains rs)"
      by (intro image_eqI [where x = "own_chain name fam i"]) simp_all
  qed
qed

lemma laid_hooked:
  assumes l: "laid E name fam st rs" and i: "i < 4"
  shows "{c \<in> set (rs_chains rs). ch_family c = fam \<and> ChainHook (Some (hook_value (start_hook i))) c} =
    (if st i = Absent then {} else {base_chain fam i})" (is "?hooked = _")
proof -
  have "c = base_chain fam i \<and> st i \<noteq> Absent" if "c \<in> ?hooked" for c
  proof -
    have c: "c \<in> set (rs_chains rs)" "ch_family c = fam" "ChainHook (Some (hook_value (start_hook i))) c" using that by auto
    from laid_chain [OF l c(1,2)] show ?thesis
      by (cases) (use c(3) hook_start [OF _ i] in \<open>auto simp: ChainHook_def\<close>)
  qed
  moreover have "base_chain fam i \<in> ?hooked" if "st i \<noteq> Absent"
  proof -
    have "base_chain fam i \<in> place_chains name fam i (st i)" using that by (cases "st i") auto
    then show ?thesis using laid_has [OF l i] by (auto simp: ChainHook_def)
  qed
  ultimately show ?thesis by auto
qed

lemma hooked_laid:
  assumes l: "laid E name fam st rs" and i: "i < 4"
  shows "hooked fam (start_hook i) rs = (if st i = Absent then [] else [start_table i])"
proof -
  have "{c \<in> set (rs_chains rs). ch_family c = fam \<and> chainMatchPredicate (start_hook i) c} =
      {c \<in> {c \<in> set (rs_chains rs). ch_family c = fam \<and> ChainHook (Some (hook_value (start_hook i))) c}. ChainPriorityIs (Some (ChainPriority (start_hook i))) c}"
    by (auto simp: chainMatchPredicate_def)
  also have "\<dots> = (if st i = Absent then {} else {base_chain fam i})"
    unfolding laid_hooked [OF l i] by (auto simp: ChainPriorityIs_def)
  finally have "set (map ch_table (filter (\<lambda>c. ch_family c = fam \<and> chainMatchPredicate (start_hook i) c) (rs_chains rs))) =
      (if st i = Absent then {} else {start_table i})"
    unfolding set_map set_filter by auto
  then show ?thesis by (auto simp: hooked_def remdups_single)
qed

section \<open>The loop over the hooked chains\<close>

definition leaves_chains :: "('k readWriter, 'a) step \<Rightarrow> bool" where
  "leaves_chains m \<longleftrightarrow> (\<forall>rw. rw_chains (snd (m rw)) = rw_chains rw \<and> rw_family (snd (m rw)) = rw_family rw)"

lemma leaves_chains_rules:
  "leaves_chains (rules_present L E crw n rules)" "leaves_chains (rules_cleanUp L E crw n rules)"
proof -
  let ?I = "\<lambda>rw0 rw. rw_chains rw = rw_chains rw0 \<and> rw_family rw = rw_family rw0"
  have del: "?I rw0 (snd (delete_if L E rrw c x rw))" if "?I rw0 rw" for rrw c x and rw0 rw :: "'a readWriter"
    using that by (auto simp: delete_if_def rrw_DeleteRule_eq DeleteRule_def wrapped_def withOpenConn_def liftk_def queue_cmd_def Let_def
        split: option.splits bool.splits prod.splits result.splits)
  have add: "?I rw0 (snd (rrw_AddRule L rrw es f c rw))" if "?I rw0 rw" for rrw es f c and rw0 rw :: "'a readWriter"
    using that by (auto simp: rrw_AddRule_def crw_AddRule_def AddRule_def wrapped_def withOpenConn_def liftk_def queue_cmd_def
        split: option.splits bool.splits prod.splits result.splits)
  have one: "?I rw0 (snd (rule_Present L E rrw r rw))" "?I rw0 (snd (rule_CleanUp L E rrw r rw))" if "?I rw0 rw"
    for rrw r and rw0 rw :: "'a readWriter"
    using that add del range_slice_inv [where I = "?I rw0" and body = "delete_if L E rrw (rm_expr r)"]
    by (auto simp: rule_Present_def rule_CleanUp_def split: option.splits)
  show "leaves_chains (rules_present L E crw n rules)" "leaves_chains (rules_cleanUp L E crw n rules)"
    unfolding leaves_chains_def rules_present_def rules_cleanUp_def runPresent_def runCleanUp_def
    by (rule allI, rule run_all_inv [where I = "?I rw" for rw]; use one in auto)+
qed

lemma for_hooked_single:
  assumes "wf_slice (rw_chains rw)" and "\<And>c. leaves_chains (body c)"
    and "filter (\<lambda>c. ch_family c = rw_family rw \<and> ChainHook (Some (hook_value (crw_hook crw))) c) (elems (rw_chains rw)) = [c]"
  shows "for_hooked crw body rw = body c rw"
proof -
  let ?body = "\<lambda>c rw. if ch_family c = rw_family rw \<and> ChainHook (Some (hook_value (crw_hook crw))) c then body c rw else (Ok (), rw)"
  have "for_hooked crw body rw = run_all (map ?body (take (glen (rw_chains rw)) (drop 0 (backing (rw_chains rw))))) rw"
    unfolding for_hooked_def
    by (rule range_slice_stable) (use assms(1,2) in \<open>auto simp: leaves_chains_def wf_slice_def\<close>)
  also have "take (glen (rw_chains rw)) (drop 0 (backing (rw_chains rw))) = elems (rw_chains rw)" by (simp add: elems_def)
  also have "run_all (map ?body (elems (rw_chains rw))) rw = run_all (map body
      (filter (\<lambda>c. ch_family c = rw_family rw \<and> ChainHook (Some (hook_value (crw_hook crw))) c) (elems (rw_chains rw)))) rw"
    by (rule run_all_filter [where I = "\<lambda>s. rw_family s = rw_family rw"]) (use assms(2) in \<open>simp_all add: leaves_chains_def\<close>)
  also have "\<dots> = body c rw" unfolding assms(3) by (cases "body c rw"; cases "fst (body c rw)") (simp_all add: andThen_def)
  finally show ?thesis .
qed

section \<open>Presenting a place\<close>

lemma laid_reads:
  assumes rw: "reads_view name fam rs rw" and l: "laid E name fam st rs" and i: "i < 4"
  shows "rw_family rw = fam" "rw_conn rw = Some []" "elems (rw_chains rw) = rs_chains rs"
    "elems (rw_rules rw) = listing name rs (rs_chains rs)" "wf_slice (rw_chains rw)" "wf_slice (rw_rules rw)"
    "group_keys (start_hook i) rw = (if st i = Absent then [] else [start_table i])"
    "st i \<noteq> Absent \<Longrightarrow> filter (\<lambda>c. ch_family c = fam \<and> ChainHook (Some (hook_value (start_hook i))) c) (elems (rw_chains rw)) = [base_chain fam i]"
proof -
  show rd: "rw_family rw = fam" "rw_conn rw = Some []" "elems (rw_chains rw) = rs_chains rs"
      "elems (rw_rules rw) = listing name rs (rs_chains rs)" "wf_slice (rw_chains rw)" "wf_slice (rw_rules rw)"
    using rw by (auto simp: reads_view_def snapshot_of_def is_open_def conn_log_def reader_wf_def)
  show "group_keys (start_hook i) rw = (if st i = Absent then [] else [start_table i])"
    using group_keys_hooked [OF rd(3)] hooked_laid [OF l i] rd(1) by simp
  assume "st i \<noteq> Absent"
  then show "filter (\<lambda>c. ch_family c = fam \<and> ChainHook (Some (hook_value (start_hook i))) c) (elems (rw_chains rw)) = [base_chain fam i]"
    unfolding rd(3) using laid_hooked [OF l i] ruleset_okD(1) [OF laidD(1) [OF l]]
    by (intro filter_one) (simp_all add: distinct_map)
qed

lemma laid_absent:
  assumes l: "laid E name fam st rs" and i: "i < 4"
  shows "\<forall>As. st i \<noteq> Full As \<Longrightarrow> rs_rules rs (own_at name fam i) = []" and "\<forall>As. st i \<noteq> Full As \<Longrightarrow> rs_rules rs (base_at fam i) = []"
    and "\<forall>As. st i \<noteq> Full As \<Longrightarrow> c \<in> set (rs_chains rs) \<Longrightarrow> ch_family c = fam \<Longrightarrow> ch_name c \<noteq> nameOf name (start_label i)"
proof -
  assume s: "\<forall>As. st i \<noteq> Full As"
  then show "rs_rules rs (own_at name fam i) = []" "rs_rules rs (base_at fam i) = []"
    using laidD(3,4) [OF l i] by (cases "st i"; simp)+
  assume c: "c \<in> set (rs_chains rs)" "ch_family c = fam"
  from laid_chain [OF l this] show "ch_name c \<noteq> nameOf name (start_label i)"
    by (cases) (use s i nameOf_base [of i _ name] nameOf_start [of _ i name] in \<open>auto dest: sym\<close>)
qed

lemma most_frequency_stays:
  assumes "\<And>c. c \<in> set cs \<Longrightarrow> ch_type c = ct \<Longrightarrow> ch_table c = t"
  shows "most_frequency ct cs t n = t"
  using assms by (induction cs arbitrary: n) auto

lemma laid_elected:
  assumes l: "laid E name fam st rs" and i: "i < 4" and "elems (rw_chains rw) = rs_chains rs" and "rw_family rw = fam"
  shows "mostFrequencyTable rw (ChainType (start_hook i)) (start_table i) = start_table i"
  unfolding mostFrequencyTable_def
proof (rule most_frequency_stays)
  fix c assume c: "c \<in> set (Chains rw)" "ch_type c = ChainType (start_hook i)"
  have types: "OtherChainType [] \<noteq> ChainType (start_hook i)" "ChainType (start_hook j) = ChainType (start_hook i) \<Longrightarrow> start_table j = start_table i"
    if "j < 4" for j
    using i that unfolding less_4 by (elim disjE; simp add: start_defs ChainType_def)+
  have "c \<in> set (rs_chains rs)" "ch_family c = fam" using c(1) assms(3,4) by (simp_all add: Chains_def)
  from laid_chain [OF l this] show "ch_table c = start_table i"
    by (cases) (use c(2) types in \<open>auto dest: sym\<close>)
qed

text \<open>A rule in a chain that has none is simply queued.\<close>

lemma rule_Present_empty:
  assumes "ruleset_ok rs" and "elems (rw_rules rw) = listing name rs (rs_chains rs)" and "is_open rw"
    and "rs_rules rs (t, rw_family rw, n) = []"
  shows "rule_Present L E (place_of t h n) r rw = (Ok (), queue_cmd
    ((if rm_first r then CInsertRule else CAddRule) t (rw_family rw) n (Build E (rm_expr r)) (Marshal (rm_comment r))) rw)"
proof -
  have "readable E (place_of t h n) (rm_expr r) rw"
    by (rule readable_listing [OF assms(1,2)]) (simp add: assms(4))
  moreover have "\<forall>x \<in> set (elems (rw_rules rw)). \<not> owned E (place_of t h n) (rw_family rw) (rm_expr r) x"
  proof
    fix x assume "x \<in> set (elems (rw_rules rw))"
    then have "x \<in> set (rs_rules rs (rule_key x))" using assms(1,2) listing_rules by metis
    then have "rule_key x \<noteq> (t, rw_family rw, n)" using assms(4) by auto
    then show "\<not> owned E (place_of t h n) (rw_family rw) (rm_expr r) x"
      by (auto simp: owned_iff place_of_def rule_key_def)
  qed
  ultimately show ?thesis using rule_Present_adds assms(3) by (fastforce simp: place_of_def)
qed

lemma queue_conn: "queue_cmd c (rw\<lparr>rw_conn := Some cs\<rparr>) = rw\<lparr>rw_conn := Some (cs @ [c])\<rparr>"
  by (simp add: queue_cmd_def)

definition own_part :: "codec \<Rightarrow> string \<Rightarrow> family \<Rightarrow> nat \<Rightarrow> nft_cmd list" where
  "own_part E name fam i = (let t = start_table i; own = nameOf name (start_label i) in
     CAddChain (own_chain name fam i) None #
     map (\<lambda>r. CInsertRule t fam own (Build E (rm_expr r)) (Marshal (rm_comment r))) (start_rules name i))"

definition jump_cmd :: "codec \<Rightarrow> string \<Rightarrow> family \<Rightarrow> nat \<Rightarrow> nft_cmd" where
  "jump_cmd E name fam i = CAddRule (start_table i) fam (start_label i) (Build E (rm_expr (jump_rule name i))) (Marshal name)"

definition lay_log :: "codec \<Rightarrow> string \<Rightarrow> family \<Rightarrow> nat \<Rightarrow> place \<Rightarrow> nft_cmd list" where
  "lay_log E name fam i s = (if s = Absent then [CAddTable (start_table i) fam] else []) @ own_part E name fam i @
     (if s = Absent then [CAddChain (base_chain fam i) (Some (ChainPolicy (start_hook i)))] else []) @ [jump_cmd E name fam i]"

lemma lay_present_step:
  fixes rw :: "'k readWriter"
  assumes L: "map_order_ok L" and rw: "reads_view name fam rs rw" and l: "laid E name fam st rs" and i: "i < 4"
    and s: "\<forall>As. st i \<noteq> Full As"
  shows "table_Present L E (nft_structure name False ! i) rw = (Ok (), rw\<lparr>rw_conn := Some (lay_log E name fam i (st i))\<rparr>)"
proof -
  define w where "w = (\<lambda>cs. rw\<lparr>rw_conn := Some cs\<rparr>)"
  let ?t = "start_table i" and ?b = "start_label i" and ?own = "nameOf name (start_label i)" and ?h = "start_hook i"
  let ?crw = "\<lparr>crw_table = ?t, crw_hook = ?h\<rparr>"
  note rd = laid_reads [OF rw l i] and none = laid_absent [OF l i s]
  have w [simp]: "rw_family (w cs) = fam" "elems (rw_chains (w cs)) = rs_chains rs" "is_open (w cs)"
      "elems (rw_rules (w cs)) = listing name rs (rs_chains rs)" "queue_cmd c (w cs) = w (cs @ [c])" "wf_slice (rw_chains (w cs))"
      "rw_kernel (w cs) = rw_kernel rw" for c cs
    using rd by (simp_all add: w_def is_open_def queue_conn)
  have start: "w [] = rw" using rd(2) by (simp add: w_def)
  have add: "rule_Present L E (place_of ?t ?h n) r (w cs) = (Ok (), w (cs @
      [(if rm_first r then CInsertRule else CAddRule) ?t fam n (Build E (rm_expr r)) (Marshal (rm_comment r))]))"
    if "n = ?own \<or> n = ?b" for n r cs
    using rule_Present_empty [OF laidD(1) [OF l], of "w cs" name ?t n L E ?h r] none(1,2) that by auto
  have own: "rules_present L E ?crw ?own (start_rules name i) (w cs) = (Ok (), w (cs @
      map (\<lambda>r. CInsertRule ?t fam ?own (Build E (rm_expr r)) (Marshal (rm_comment r))) (start_rules name i)))" for cs
    using add by (auto simp: rules_present_def runPresent_def start_rules_def andThen_def first_rule_def commented_def
        simp flip: place_of_def)
  have base: "rules_present L E ?crw ?b [jump_rule name i] (w cs) = (Ok (), w (cs @ [jump_cmd E name fam i]))" for cs
    using add by (auto simp: rules_present_def runPresent_def jump_rule_def jump_cmd_def andThen_def Rule_def commented_def
        simp flip: place_of_def)
  have "fst (seq_First (Chains (w cs)) (ChainName ?own)) = None" for cs
    using none(3) by (simp add: seq_First_None ChainName_def Chains_def)
  then have reg: "chain_Present L E ?crw (RegularChain ?own (start_rules name i) False) (w cs) = (Ok (), w (cs @ own_part E name fam i))" for cs
    using own by (simp add: andThen_def AddRegularChain_def AddChain_open own_part_def own_chain_def new_chain_def)
  have bas: "chain_Present L E ?crw (BaseChain ?b [jump_rule name i]) (w cs) = (Ok (), w (cs @
      (if st i = Absent then [CAddChain (base_chain fam i) (Some (ChainPolicy ?h))] else []) @ [jump_cmd E name fam i]))" for cs
  proof (cases "st i = Absent")
    case True
    then have "HookedChains ?crw (w cs) = []"
      using laid_hooked [OF l i] by (auto simp: HookedChains_def Chains_def filter_empty_conv)
    then show ?thesis using True base by (simp add: andThen_def AddBaseChain_def AddChain_open base_chain_def new_chain_def)
  next
    case False
    have "filter (\<lambda>c. ch_family c = rw_family (w cs) \<and> ChainHook (Some (hook_value (crw_hook ?crw))) c) (elems (rw_chains (w cs))) = [base_chain fam i]"
      using rd(8) [OF False] rd(3) by simp
    from for_hooked_single [OF w(6) leaves_chains_rules(1) this]
    have "for_hooked ?crw (\<lambda>c. rules_present L E ?crw (ch_name c) [jump_rule name i]) (w cs) = (Ok (), w (cs @ [jump_cmd E name fam i]))"
      using base by simp
    moreover have "HookedChains ?crw (w cs) = [base_chain fam i]"
      using rd(8) [OF False] rd(3) by (simp add: HookedChains_def Chains_def conj_commute)
    ultimately show ?thesis using False by simp
  qed
  have groups: "groups_present L E ?h [RegularChain ?own (start_rules name i) False, BaseChain ?b [jump_rule name i]] [] [?t] (w cs) =
      (Ok (), w (cs @ own_part E name fam i @
        (if st i = Absent then [CAddChain (base_chain fam i) (Some (ChainPolicy ?h))] else []) @ [jump_cmd E name fam i]))" for cs
    using reg bas by (simp add: andThen_def runPresent_def Let_def)
  have "AddTable L ?t rw = (Ok (), w [CAddTable ?t fam])" unfolding start [symmetric] by (simp add: AddTable_open)
  then have "table_Present L E (nft_structure name False ! i) rw = (Ok (), w (lay_log E name fam i (st i)))"
    using rd(7) laid_elected [OF l i rd(3,1)] groups [of "[]"] groups [of "[CAddTable ?t fam]"]
    by (cases "st i = Absent") (simp_all add: table_Present_def structure_nth [OF i] andThen_Ok [of "wrapped _ _"] wrapped_def lay_log_def
        map_order_single [OF L] Let_def start del: groups_present.simps)
  then show ?thesis by (simp add: w_def)
qed

section \<open>What the kernel makes of it\<close>

definition add_chain :: "nchain \<Rightarrow> ruleset \<Rightarrow> ruleset" where
  "add_chain c rs = rs\<lparr>rs_chains := rs_chains rs @ [c]\<rparr>"

lemma add_chain_simps [simp]: "rs_chains (add_chain c rs) = rs_chains rs @ [c]" "rs_rules (add_chain c rs) = rs_rules rs"
  by (simp_all add: add_chain_def)

lemma commit_add_chain: "chain_key c \<notin> chain_key ` set (rs_chains rs) \<Longrightarrow> commit (CAddChain c p) rs rs' \<longleftrightarrow> rs' = add_chain c rs"
  by (simp add: add_chain_def)

lemma handles_add_chain: "rs_rules rs (chain_key c) = [] \<Longrightarrow> set (handles (add_chain c rs) t) = set (handles rs t)"
  by (auto simp: handles_def)

lemma new_rule_exists:
  assumes "\<kappa> \<in> chain_key ` set (rs_chains rs)" and "card (set (handles rs (table_of \<kappa>))) < 2 ^ 64"
  shows "\<exists>x. new_rule \<kappa> es ud rs x"
proof -
  obtain h where "h \<notin> set (handles rs (table_of \<kappa>))" using free_handle_exists [OF assms(2)] by blast
  then have "new_rule \<kappa> es ud rs \<lparr>rl_table = fst \<kappa>, rl_family = fst (snd \<kappa>), rl_chain = snd (snd \<kappa>), rl_handle = h,
      rl_exprs = es, rl_userdata = ud\<rparr>"
    using assms(1) by (simp add: new_rule_def rule_key_def rule_form_def)
  then show ?thesis by blast
qed

text \<open>A new chain and at most one rule in it.\<close>

definition filled :: "nchain \<Rightarrow> expr list list \<Rightarrow> ruleset \<Rightarrow> ruleset \<Rightarrow> bool" where
  "filled c forms rs rs' \<longleftrightarrow> rs_chains rs' = rs_chains rs @ [c] \<and>
     (\<forall>\<kappa>. \<kappa> \<noteq> chain_key c \<longrightarrow> rs_rules rs' \<kappa> = rs_rules rs \<kappa>) \<and> map rule_form (rs_rules rs' (chain_key c)) = forms \<and>
     fuller rs rs'"

lemma fill_empty:
  assumes "chain_key c \<notin> chain_key ` set (rs_chains rs)" and "rs_rules rs (chain_key c) = []"
  shows "commits [CAddChain c p] rs rs' \<Longrightarrow> filled c [] rs rs'" and "applies [CAddChain c p] rs"
  using assms by (auto simp: commit_add_chain filled_def fuller_def handles_add_chain simp del: commit.simps)

lemma fill_rule:
  assumes new: "chain_key c \<notin> chain_key ` set (rs_chains rs)" "rs_rules rs (chain_key c) = []"
    and c: "chain_key c = (t, f, n)" and cmd: "cmd = CAddRule t f n es ud \<or> cmd = CInsertRule t f n es ud"
  shows "commits [CAddChain c p, cmd] rs rs' \<Longrightarrow> filled c [map kernel_form es] rs rs'"
    and "card (set (handles rs (t, f))) < 2 ^ 64 \<Longrightarrow> applies [CAddChain c p, cmd] rs"
proof -
  let ?rs = "add_chain c rs"
  have cm: "commit cmd ?rs rs' \<longleftrightarrow> (\<exists>x. new_rule (t, f, n) es ud ?rs x \<and> rs' = set_rules (t, f, n) [x] ?rs)" for rs'
    using cmd new(2) c by auto
  show "filled c [map kernel_form es] rs rs'" if run: "commits [CAddChain c p, cmd] rs rs'"
  proof -
    obtain x where x: "new_rule (t, f, n) es ud ?rs x" "rs' = set_rules (t, f, n) [x] ?rs"
      using run by (auto simp: commit_add_chain [OF new(1)] cm simp del: commit.simps)
    have "fuller ?rs rs'" unfolding x(2) by (rule fuller_set_rules [where h = "rl_handle x"]) simp
    then have "fuller rs rs'" unfolding fuller_def handles_add_chain [OF new(2)] .
    then show ?thesis using x c by (simp add: filled_def new_rule_def)
  qed
  assume "card (set (handles rs (t, f))) < 2 ^ 64"
  then have "\<exists>x. new_rule (t, f, n) es ud ?rs x"
    using c by (intro new_rule_exists) (simp_all add: handles_add_chain [OF new(2)] table_of_def image_iff)
  then have "\<exists>rs'. commit cmd ?rs rs'" using cm by blast
  then have "applies [cmd] ?rs" by (elim exE) (rule applies_one)
  moreover have "commit (CAddChain c p) rs ?rs" by (simp only: commit_add_chain [OF new(1)])
  ultimately show "applies [CAddChain c p, cmd] rs" by (auto simp: commit_add_chain [OF new(1)] simp del: commit.simps)
qed

lemma applies_append: "applies (cs @ ds) rs \<longleftrightarrow> applies cs rs \<and> (\<forall>rs'. commits cs rs rs' \<longrightarrow> applies ds rs')"
  by (induction cs arbitrary: rs) auto

text \<open>The rules of the start are few.\<close>

definition tidy :: "(nat \<Rightarrow> place) \<Rightarrow> bool" where
  "tidy st \<longleftrightarrow> (\<forall>i As. st i = Full As \<longrightarrow> As = [])"

lemma length_base_forms: "i < 4 \<Longrightarrow> length (base_forms E ! i) \<le> 1"
  unfolding less_4 by (elim disjE) (simp_all add: base_forms_def)

lemma laid_handles:
  assumes l: "laid E name fam st rs" and "tidy st"
  shows "card (set (handles rs (t, fam))) \<le> 8"
proof -
  let ?H = "\<lambda>i. rl_handle ` set (rs_rules rs (own_at name fam i)) \<union> rl_handle ` set (rs_rules rs (base_at fam i))"
  have one: "card (?H i) \<le> 2" if i: "i < 4" for i
  proof -
    have "st i = Full [] \<or> st i = Absent \<or> st i = Bare"
      using assms(2) unfolding tidy_def by (cases "st i") blast+
    then have "length (own_forms E name i (st i)) \<le> 1" "length (base_content E name i (st i)) \<le> 1"
      using length_base_forms [OF i, of E] by (elim disjE; simp add: content_def)+
    then have "length (rs_rules rs (own_at name fam i)) \<le> 1" "length (rs_rules rs (base_at fam i)) \<le> 1"
      using arg_cong [OF laidD(3) [OF l i], of length] arg_cong [OF laidD(4) [OF l i], of length] by simp_all
    then have "card (rl_handle ` set (rs_rules rs (own_at name fam i))) \<le> 1" "card (rl_handle ` set (rs_rules rs (base_at fam i))) \<le> 1"
      by (auto intro: order_trans [OF card_image_le] order_trans [OF card_length])
    then show ?thesis using card_Un_le [of "rl_handle ` set (rs_rules rs (own_at name fam i))" "rl_handle ` set (rs_rules rs (base_at fam i))"]
      by linarith
  qed
  have "set (handles rs (t, fam)) \<subseteq> (\<Union>i \<in> {..<4}. ?H i)"
  proof
    fix h assume "h \<in> set (handles rs (t, fam))"
    then obtain c where c: "c \<in> set (rs_chains rs)" "table_of (chain_key c) = (t, fam)" "h \<in> rl_handle ` set (rs_rules rs (chain_key c))"
      by (auto simp: set_handles)
    then have "ch_family c = fam" by (simp add: table_of_def chain_key_def)
    from laid_chain [OF l c(1) this] show "h \<in> (\<Union>i \<in> {..<4}. ?H i)"
      by (cases) (use c(3) in auto)
  qed
  then have "card (set (handles rs (t, fam))) \<le> card (\<Union>i \<in> {..<4}. ?H i)" by (intro card_mono) auto
  also have "\<dots> \<le> (\<Sum>i \<in> {..<4}. card (?H i))" by (rule card_UN_le) simp
  also have "\<dots> \<le> (\<Sum>i \<in> {..<4 :: nat}. 2 :: nat)" by (rule sum_mono) (use one in simp)
  finally show ?thesis by simp
qed

definition others :: "family \<Rightarrow> ruleset \<Rightarrow> nchain list" where
  "others fam rs = filter (\<lambda>c. ch_family c \<noteq> fam) (rs_chains rs)"

lemma own_part_commits:
  assumes l: "laid E name fam st rs" and i: "i < 4" and s: "\<forall>As. st i \<noteq> Full As" and "tidy st"
  shows "commits (own_part E name fam i) rs rs1 \<Longrightarrow> filled (own_chain name fam i) (base_forms E ! i) rs rs1"
    and "applies (own_part E name fam i) rs"
proof -
  let ?own = "nameOf name (start_label i)" and ?t = "start_table i" and ?co = "own_chain name fam i"
  have new: "chain_key ?co \<notin> chain_key ` set (rs_chains rs)" "rs_rules rs (chain_key ?co) = []" "chain_key ?co = (?t, fam, ?own)"
    using laid_keys(2) [OF l i] laid_absent(1) [OF l i s] s by simp_all
  have room: "card (set (handles rs (?t, fam))) < 2 ^ 64"
    by (rule le_less_trans [OF laid_handles [OF l assms(4)]]) simp
  have own: "(\<forall>rs1. commits (own_part E name fam i) rs rs1 \<longrightarrow> filled ?co (base_forms E ! i) rs rs1) \<and> applies (own_part E name fam i) rs"
  proof (cases "i = 2")
    case True
    let ?r = "commented name (first_rule (Rule [TrackingEstablishedRelated, Accept]))"
    have "own_part E name fam i = [CAddChain ?co None, CInsertRule ?t fam ?own (Build E (rm_expr ?r)) (Marshal (rm_comment ?r))]"
      "base_forms E ! i = [map kernel_form (Build E (rm_expr ?r))]"
      using True i by (simp_all add: own_part_def start_rules_def Let_def base_forms_start [where name = name])
    with fill_rule [OF new, of "CInsertRule ?t fam ?own (Build E (rm_expr ?r)) (Marshal (rm_comment ?r))"] room
    show ?thesis by metis
  next
    case False
    then have "own_part E name fam i = [CAddChain ?co None]" "base_forms E ! i = []"
      using i by (simp_all add: own_part_def start_rules_def Let_def base_forms_start [where name = name])
    with fill_empty [OF new(1,2)] show ?thesis by metis
  qed
  then show "commits (own_part E name fam i) rs rs1 \<Longrightarrow> filled ?co (base_forms E ! i) rs rs1" "applies (own_part E name fam i) rs"
    by blast+
qed

lemma lay_step:
  assumes l: "laid E name fam st rs" and i: "i < 4" and s: "\<forall>As. st i \<noteq> Full As" and t: "tidy st"
  shows "commits (lay_log E name fam i (st i)) rs rs2 \<Longrightarrow> laid E name fam (st(i := Full [])) rs2 \<and> others fam rs2 = others fam rs"
    and "applies (lay_log E name fam i (st i)) rs"
proof -
  let ?co = "own_chain name fam i" and ?cb = "base_chain fam i" and ?jump = "jump_cmd E name fam i"
  let ?base = "(if st i = Absent then [CAddChain ?cb (Some (ChainPolicy (start_hook i)))] else []) @ [?jump]"
  let ?form = "map kernel_form (Build E (rm_expr (jump_rule name i)))"
  have own: "commits (own_part E name fam i) rs rs1 \<Longrightarrow> filled ?co (base_forms E ! i) rs rs1" "applies (own_part E name fam i) rs" for rs1
    using own_part_commits [OF l i s t] by blast+
  have ne: "chain_key ?cb \<noteq> chain_key ?co" using own_neq_base [OF i i, of fam name, symmetric] by simp
  have base: "(commits ?base rs1 rs2 \<longrightarrow> rs_chains rs2 = rs_chains rs1 @ (if st i = Absent then [?cb] else []) \<and>
      (\<forall>\<kappa>. \<kappa> \<noteq> chain_key ?cb \<longrightarrow> rs_rules rs2 \<kappa> = rs_rules rs1 \<kappa>) \<and> map rule_form (rs_rules rs2 (chain_key ?cb)) = [?form]) \<and>
      applies ?base rs1" if fo: "filled ?co (base_forms E ! i) rs rs1" for rs1 rs2
  proof -
    have chs: "rs_chains rs1 = rs_chains rs @ [?co]" using fo by (simp add: filled_def)
    have empty: "rs_rules rs1 (chain_key ?cb) = []"
      using fo ne laid_absent(2) [OF l i s] unfolding filled_def by simp
    have "card (set (handles rs1 (start_table i, fam))) \<le> Suc (card (set (handles rs (start_table i, fam))))"
      using fo unfolding filled_def fuller_def by blast
    also have "\<dots> \<le> Suc 8" using laid_handles [OF l t] by simp
    finally have room: "card (set (handles rs1 (start_table i, fam))) < 2 ^ 64" by simp
    show ?thesis
    proof (cases "st i = Absent")
      case True
      then have new: "chain_key ?cb \<notin> chain_key ` set (rs_chains rs1)" using laid_keys(1) [OF l i] ne chs by auto
      note f = fill_rule [OF new empty, of "start_table i" fam "start_label i" ?jump "Build E (rm_expr (jump_rule name i))" "Marshal name"]
      have "commits ?base rs1 rs2 \<Longrightarrow> filled ?cb [?form] rs1 rs2" "applies ?base rs1"
        using f(1) f(2) room True by (simp_all add: jump_cmd_def del: commits.simps applies.simps)
      then show ?thesis using True unfolding filled_def by auto
    next
      case False
      then have in_chains: "base_at fam i \<in> chain_key ` set (rs_chains rs1)" using laid_keys(1) [OF l i] chs by auto
      have cm: "commit ?jump rs1 rs' \<longleftrightarrow> (\<exists>x. new_rule (base_at fam i) (Build E (rm_expr (jump_rule name i))) (Marshal name) rs1 x \<and>
          rs' = set_rules (base_at fam i) [x] rs1)" for rs'
        using empty by (simp add: jump_cmd_def)
      obtain x where x: "new_rule (base_at fam i) (Build E (rm_expr (jump_rule name i))) (Marshal name) rs1 x"
        using new_rule_exists [OF in_chains] room by (auto simp: table_of_def)
      have "applies [?jump] rs1" by (rule applies_one) (use cm x in blast)
      moreover have "rs_chains rs2 = rs_chains rs1 \<and> (\<forall>\<kappa>. \<kappa> \<noteq> chain_key ?cb \<longrightarrow> rs_rules rs2 \<kappa> = rs_rules rs1 \<kappa>) \<and>
          map rule_form (rs_rules rs2 (chain_key ?cb)) = [?form]" if "commits [?jump] rs1 rs2"
      proof -
        have "commit ?jump rs1 rs2" using that by simp
        then obtain y where "new_rule (base_at fam i) (Build E (rm_expr (jump_rule name i))) (Marshal name) rs1 y"
          "rs2 = set_rules (base_at fam i) [y] rs1" using cm by blast
        then show ?thesis by (simp add: new_rule_def)
      qed
      ultimately show ?thesis using False by simp
    qed
  qed
  have split: "lay_log E name fam i (st i) = (if st i = Absent then [CAddTable (start_table i) fam] else []) @ own_part E name fam i @ ?base"
    by (simp add: lay_log_def)
  show "applies (lay_log E name fam i (st i)) rs"
  proof -
    have "applies (own_part E name fam i @ ?base) rs" unfolding applies_append [of "own_part E name fam i"]
      by (intro conjI allI impI own(2)) (rule base [OF own(1), THEN conjunct2])
    moreover have "applies (CAddTable t f # cs) rs \<longleftrightarrow> applies cs rs" for t f cs
    proof -
      have "Ex (commit (CAddTable t f) rs)" by (rule exI [of _ rs]) simp
      then show ?thesis by (simp only: applies.simps commit.simps simp_thms)
    qed
    ultimately show ?thesis unfolding split by (cases "st i = Absent") (simp_all del: applies.simps(2) commits.simps)
  qed
  assume run: "commits (lay_log E name fam i (st i)) rs rs2"
  then obtain rs1 where "commits (own_part E name fam i) rs rs1" and rs2: "commits ?base rs1 rs2"
    unfolding split by (auto simp: commits_append split: if_splits)
  then have fo: "filled ?co (base_forms E ! i) rs rs1" using own by blast
  note b = base [OF fo, THEN conjunct1, THEN mp, OF rs2]
  have b2: "rs_rules rs2 \<kappa> = rs_rules rs1 \<kappa>" if "\<kappa> \<noteq> chain_key ?cb" for \<kappa> using b that by blast
  have f2: "rs_rules rs1 \<kappa> = rs_rules rs \<kappa>" if "\<kappa> \<noteq> chain_key ?co" for \<kappa> using fo that unfolding filled_def by blast
  have ok: "ruleset_ok rs2" using commits_ok run laidD(1) [OF l] by blast
  have chs: "rs_chains rs2 = rs_chains rs @ [?co] @ (if st i = Absent then [?cb] else [])" using b fo by (simp add: filled_def)
  have "laid E name fam (st(i := Full [])) rs2"
  proof (rule laid_update [OF l i ok])
    show "{c \<in> set (rs_chains rs2). ch_family c = fam} = {c \<in> set (rs_chains rs). ch_family c = fam} -
        place_chains name fam i (st i) \<union> place_chains name fam i (Full [])"
      unfolding chs using s laid_has [OF l i] by (cases "st i") auto
    show "rs_rules rs2 \<kappa> = rs_rules rs \<kappa>" if "\<kappa> \<noteq> own_at name fam i" "\<kappa> \<noteq> base_at fam i" for \<kappa>
      using b2 [of \<kappa>] f2 [of \<kappa>] that by (metis chain_simps(12,13))
    show "map rule_form (rs_rules rs2 (own_at name fam i)) = own_forms E name i (Full [])"
      using b2 [of "own_at name fam i"] fo ne by (simp add: content_def filled_def)
    show "map rule_form (rs_rules rs2 (base_at fam i)) = base_content E name i (Full [])" using b by simp
  qed
  then show "laid E name fam (st(i := Full [])) rs2 \<and> others fam rs2 = others fam rs" by (simp add: others_def chs)
qed

section \<open>The four chains\<close>

lemma laid_own_key:
  assumes "laid E name fam st rs" and "i < 4" and "st i \<noteq> Absent"
  shows "own_key fam name rs i = own_at name fam i"
  using hooked_laid [OF assms(1,2)] assms(3) by (simp add: own_key_def own_hook [OF assms(2)] own_label [OF assms(2)])

lemma laid_fills:
  assumes l: "laid E name fam (\<lambda>i. Full (Cs i)) rs"
  shows "fills E name fam Cs rs"
  using laidD(1,3) [OF l] hooked_laid [OF l] laid_own_key [OF l]
  by (simp add: fills_def one_table_def own_hook)

lemma laid_after_call:
  assumes l: "laid E name fam (\<lambda>i. Full (Cs i)) rs" and f: "fills E name fam Ds rs'" and same: "same_elsewhere fam name rs rs'"
  shows "laid E name fam (\<lambda>i. Full (Ds i)) rs'"
proof -
  have chs: "rs_chains rs' = rs_chains rs" using same by (simp add: same_elsewhere_def)
  have keys: "own_key fam name rs' i = own_at name fam i" "own_key fam name rs i = own_at name fam i" if "i < 4" for i
    using laid_own_key [OF l that] chs by (simp_all add: own_key_def hooked_def)
  have "rs_rules rs' (base_at fam i) = rs_rules rs (base_at fam i)" if i: "i < 4" for i
  proof -
    have "base_at fam i \<notin> own_key fam name rs ` {..<4}"
    proof
      assume "base_at fam i \<in> own_key fam name rs ` {..<4}"
      then obtain j where j: "j < 4" "base_at fam i = own_at name fam j" using keys(2) by auto
      show False using own_neq_base [OF j(1) i, of fam name] j(2) by simp
    qed
    then show ?thesis using same unfolding same_elsewhere_def by blast
  qed
  then show ?thesis using l f keys(1) by (simp add: laid_def fills_def chs)
qed

lemma laid_holds:
  assumes l: "laid E name fam (\<lambda>_. Full []) rs"
  shows "holds E name fam [] rs" and "ready fam name rs"
proof -
  show "holds E name fam [] rs" using laid_fills [OF l] by (simp add: holds_fills active_ok_def)
  have "own_at name fam i \<in> chain_key ` set (rs_chains rs)" "card (set (handles rs (start_table i, fam))) + 4 \<le> 2 ^ 64" if "i < 4" for i
    using laid_keys(2) [OF l that] laid_handles [OF l, of "start_table i"] by (simp_all add: tidy_def)
  then show "ready fam name rs"
    unfolding ready_def using laid_own_key [OF l] by (simp add: table_of_def del: power.simps)
qed

end
