(* ===== verification/NfClose.thy ===== *)
theory NfClose
  imports NfStart
begin

text \<open>
  Cleaning up: \<open>Close\<close> takes out of each place the jump and the program's own chain, whatever rules it holds, and
  leaves the hooked chain; so a start over anything that earlier runs left creates the same chains again.
\<close>

section \<open>Which rules are recognised\<close>

lemma jump_recognised:
  assumes "rule_form x = map kernel_form (Build E (rm_expr (jump_rule name i)))"
  shows "RuleExpr E (rm_expr (jump_rule name i)) x = Some True"
proof -
  have "map kernel_form (rl_exprs x) = map kernel_form (Build E (rm_expr (jump_rule name i)))" using assms by (simp add: rule_form_def)
  from kernel_form_sims [OF this] show ?thesis
    by (simp add: RuleExpr_same same_exprs_def jump_rule_def commented_def Rule_def)
qed

lemma start_rule_cases:
  assumes "r \<in> set (start_rules name i)"
  shows "i = 2" "rm_expr r = Combine [TrackingEstablishedRelated, Accept]"
  using assms by (auto simp: start_rules_def commented_def first_rule_def Rule_def split: if_splits)

lemma established_recognised:
  assumes "rule_form x = map kernel_form (Build E (Combine [TrackingEstablishedRelated, Accept]))"
  shows "RuleExpr E (Combine [TrackingEstablishedRelated, Accept]) x = Some True"
proof -
  have "map kernel_form (rl_exprs x) = map kernel_form (Build E (Combine [TrackingEstablishedRelated, Accept]))"
    using assms by (simp add: rule_form_def)
  from kernel_form_sims [OF this] show ?thesis by (simp add: RuleExpr_same same_exprs_def)
qed

lemma established_ignores:
  assumes "rule_form x = shown E name 2 a"
  shows "RuleExpr E (Combine [TrackingEstablishedRelated, Accept]) x = Some False"
proof -
  obtain p f target to where a: "a = ((p, f), (target, to))" by (metis surj_pair)
  have "walk (Build E (Combine [TrackingEstablishedRelated, Accept])) (rl_exprs x) = Mismatch \<and> rl_exprs x \<noteq> []"
    using assms unfolding a by (auto simp: shown_def rule_form_def wire_redirected_def map_eq_Cons_conv)
  then show ?thesis by (simp add: RuleExpr_walk)
qed

text \<open>Among what a place holds, the rules of the start.\<close>

lemma content_start_rules:
  assumes i: "i < 4" and r: "r \<in> set (start_rules name i)" and rules: "map rule_form rules = content E name As i"
  defines "P \<equiv> \<lambda>x. RuleExpr E (rm_expr r) x = Some True"
  shows "length (filter P rules) \<le> 1" and "\<forall>x \<in> set rules. RuleExpr E (rm_expr r) x \<noteq> None"
proof -
  note two = start_rule_cases [OF r]
  obtain rs1 rs2 where split: "rules = rs1 @ rs2" "map rule_form rs1 = base_forms E ! i" "map rule_form rs2 = map (shown E name i) As"
    using rules by (auto simp: content_eq map_eq_append_conv)
  have "RuleExpr E (rm_expr r) x = Some True" if "x \<in> set rs1" for x
  proof -
    have "rule_form x \<in> set (base_forms E ! i)" using that by (simp flip: split(2))
    then show ?thesis
      unfolding two(2) by (intro established_recognised)
        (auto simp: two(1) base_forms_def CtStateBitESTABLISHED_RELATED_def)
  qed
  moreover have fwd: "RuleExpr E (rm_expr r) x = Some False" if "x \<in> set rs2" for x
  proof -
    have "rule_form x \<in> set (map (shown E name i) As)" using that by (simp flip: split(3))
    then show ?thesis unfolding two(2) using established_ignores two(1) by auto
  qed
  ultimately show "\<forall>x \<in> set rules. RuleExpr E (rm_expr r) x \<noteq> None" by (auto simp: split(1))
  have "filter P rs2 = []" using fwd by (simp add: filter_empty_conv P_def)
  moreover have "length rs1 \<le> 1" using length_base_forms [OF i, of E] by (simp flip: split(2))
  ultimately show "length (filter P rules) \<le> 1" unfolding split(1) by (simp add: order_trans [OF length_filter_le])
qed

section \<open>Deleting\<close>

lemma commits_deletions:
  assumes "set xs \<subseteq> set (rs_rules rs (t, f, n))" and "distinct (map rl_handle xs)"
  shows "(commits (map (\<lambda>x. CDelRule t f n (rl_handle x)) xs) rs rs' \<longleftrightarrow>
      rs' = set_rules (t, f, n) (filter (\<lambda>r. rl_handle r \<notin> rl_handle ` set xs) (rs_rules rs (t, f, n))) rs) \<and>
    applies (map (\<lambda>x. CDelRule t f n (rl_handle x)) xs) rs"
  using assms
proof (induction xs arbitrary: rs)
  case Nil
  have "set_rules (t, f, n) (rs_rules rs (t, f, n)) rs = rs" by (simp add: set_rules_def)
  then show ?case by simp
next
  case (Cons x xs)
  let ?rs = "set_rules (t, f, n) (filter (\<lambda>r. rl_handle r \<noteq> rl_handle x) (rs_rules rs (t, f, n))) rs"
  have commit: "commit (CDelRule t f n (rl_handle x)) rs rs1 \<longleftrightarrow> rs1 = ?rs" for rs1 using Cons.prems(1) by auto
  have sub: "set xs \<subseteq> set (rs_rules ?rs (t, f, n))" "distinct (map rl_handle xs)"
    using Cons.prems by (force simp: image_iff)+
  have "set_rules (t, f, n) (filter (\<lambda>r. rl_handle r \<notin> rl_handle ` set xs) (rs_rules ?rs (t, f, n))) ?rs =
      set_rules (t, f, n) (filter (\<lambda>r. rl_handle r \<notin> rl_handle ` set (x # xs)) (rs_rules rs (t, f, n))) rs"
    by (simp add: set_rules_def conj_commute)
  moreover have "Ex (commit (CDelRule t f n (rl_handle x)) rs)" using commit by blast
  ultimately show ?case using Cons.IH [OF sub]
    by (simp only: list.map commits.simps applies.simps commit) blast
qed

section \<open>Cleaning up a place\<close>

definition cleaned :: "'k nflib \<Rightarrow> string \<Rightarrow> family \<Rightarrow> string \<Rightarrow> nrule list \<Rightarrow> 'k readWriter \<Rightarrow> unit result \<Rightarrow> 'k readWriter \<Rightarrow> bool" where
  "cleaned L t fam n xs rw q rw' \<longleftrightarrow> rw_kernel rw' = rw_kernel rw \<and> rw_family rw' = fam \<and> is_open rw' \<and> (\<forall>p. q \<noteq> Panic p) \<and>
    ((\<forall>c. lib_DelRule L c = None) \<longrightarrow> q = Ok ()) \<and>
    (q = Ok () \<longrightarrow> conn_log rw' = conn_log rw @ map (\<lambda>x. CDelRule t fam n (rl_handle x)) xs \<and> rw_chains rw' = rw_chains rw \<and>
       wf_slice (rw_rules rw') \<and> set (elems (rw_rules rw')) \<subseteq> set (elems (rw_rules rw)) \<and>
       (\<forall>P. (\<forall>x \<in> set (elems (rw_rules rw)). P x \<longrightarrow> (\<forall>y \<in> set xs. rl_handle x \<noteq> rl_handle y)) \<longrightarrow>
          filter P (elems (rw_rules rw')) = filter P (elems (rw_rules rw))))"

lemma cleanedD:
  assumes "cleaned L t fam n xs rw (Ok ()) rw'"
  shows "rw_kernel rw' = rw_kernel rw" "rw_family rw' = fam" "is_open rw'" "conn_log rw' = conn_log rw @ map (\<lambda>x. CDelRule t fam n (rl_handle x)) xs"
    "rw_chains rw' = rw_chains rw" "wf_slice (rw_rules rw')" "set (elems (rw_rules rw')) \<subseteq> set (elems (rw_rules rw))"
    "(\<And>x y. x \<in> set (elems (rw_rules rw)) \<Longrightarrow> P x \<Longrightarrow> y \<in> set xs \<Longrightarrow> rl_handle x \<noteq> rl_handle y) \<Longrightarrow>
      filter P (elems (rw_rules rw')) = filter P (elems (rw_rules rw))"
  using assms unfolding cleaned_def by blast+

text \<open>Cleaning up the rules of a list with at most one element, over a snapshot of which some rules have gone.\<close>

lemma rules_cleanUp_few:
  assumes op: "is_open rw" and wf: "wf_slice (rw_rules rw)" and fam: "rw_family rw = fam" and len: "length rules \<le> 1"
    and xs: "\<And>r. r \<in> set rules \<Longrightarrow> filter (owned E (place_of t h n) fam (rm_expr r)) (elems (rw_rules rw)) = xs" "rules = [] \<Longrightarrow> xs = []"
    and one: "length xs \<le> 1" and read: "\<And>r. r \<in> set rules \<Longrightarrow> readable E (place_of t h n) (rm_expr r) rw"
    and run: "rules_cleanUp L E \<lparr>crw_table = t, crw_hook = h\<rparr> n rules rw = (q, rw')"
  shows "cleaned L t fam n xs rw q rw'"
proof (cases rules)
  case Nil
  then have "q = Ok ()" "rw' = rw" "xs = []" using run xs(2) by (simp_all add: rules_cleanUp_def runCleanUp_def)
  then show ?thesis using op wf fam by (simp add: cleaned_def)
next
  case (Cons r rest)
  then have r: "rules = [r]" using len by simp
  have act: "rule_CleanUp L E (place_of t h n) r rw = (q, rw')"
    using run unfolding r rules_cleanUp_def runCleanUp_def by (simp add: run_all_single place_of_def del: run_all.simps)
  have own: "filter (owned E (place_of t h n) (rw_family rw) (rm_expr r)) (elems (rw_rules rw)) = xs" using xs(1) r fam by simp
  have read': "readable E (place_of t h n) (rm_expr r) rw" using read r by simp
  note a = rule_CleanUp_single [OF op wf read' _ act, unfolded own, OF one]
  have cmd: "map (rrw_cmd (place_of t h n) (rw_family rw)) xs = map (\<lambda>x. CDelRule t fam n (rl_handle x)) xs"
    by (simp add: rrw_cmd_def del_cmd_def place_of_def fam)
  show ?thesis
  proof (cases "q = Ok ()")
    case True
    note b = rule_CleanUp_snapshot [OF op wf read' _ act [unfolded True], unfolded own, OF one]
    have "filter P (elems (rw_rules rw')) = filter P (elems (rw_rules rw))"
      if "\<forall>x \<in> set (elems (rw_rules rw)). P x \<longrightarrow> (\<forall>y \<in> set xs. rl_handle x \<noteq> rl_handle y)" for P
      by (rule b(2)) (use that in auto)
    then show ?thesis using a b(1) fam True unfolding cmd cleaned_def by simp
  next
    case False
    then show ?thesis using a fam unfolding cleaned_def by blast
  qed
qed

lemma close_parts:
  assumes L: "map_order_ok L" and rw: "reads_view name fam rs rw" and l: "laid E name fam st rs" and i: "i < 4" and s: "st i \<noteq> Absent"
  defines "crw \<equiv> \<lparr>crw_table = start_table i, crw_hook = start_hook i\<rparr>"
  shows "table_CleanUp L E (nft_structure name True ! i) rw =
    andThen (rules_cleanUp L E crw (start_label i) [jump_rule name i])
      (\<lambda>_. andThen (rules_cleanUp L E crw (nameOf name (start_label i)) (start_rules name i))
        (\<lambda>_. crw_DeleteChain L crw (nameOf name (start_label i)))) rw"
proof -
  note rd = laid_reads [OF rw l i]
  have hooked: "for_hooked crw (\<lambda>c. rules_cleanUp L E crw (ch_name c) [jump_rule name i]) rw =
      rules_cleanUp L E crw (start_label i) [jump_rule name i] rw"
    using for_hooked_single [OF rd(5) leaves_chains_rules(2), of crw "base_chain fam i"] rd(1) rd(8) [OF s] by (simp add: crw_def)
  have sets: "runCleanUp set_CleanUp [] = (\<lambda>rw :: 'a readWriter. (Ok (), rw))" by (simp add: runCleanUp_def fun_eq_iff)
  let ?base = "chain_CleanUp L E crw (BaseChain (start_label i) [jump_rule name i])"
  let ?own = "chain_CleanUp L E crw (RegularChain (nameOf name (start_label i)) (start_rules name i) True)"
  have chains: "runCleanUp (chain_CleanUp L E crw) (tm_chains (nft_structure name True ! i)) = andThen ?base (\<lambda>_. ?own)"
    by (rule ext) (simp add: structure_nth [OF i] runCleanUp_def run_all_two del: chain_CleanUp.simps run_all.simps)
  have own: "?own = andThen (rules_cleanUp L E crw (nameOf name (start_label i)) (start_rules name i))
      (\<lambda>_. crw_DeleteChain L crw (nameOf name (start_label i)))"
    by (simp add: fun_eq_iff)
  have base: "?base rw = rules_cleanUp L E crw (start_label i) [jump_rule name i] rw" using hooked by simp
  have "group_keys (start_hook i) rw = [start_table i]" using rd(7) s by simp
  then have "table_CleanUp L E (nft_structure name True ! i) rw = andThen ?base (\<lambda>_. ?own) rw"
    by (simp add: table_CleanUp_def map_order_single [OF L] Let_def structure_nth(2,3) [OF i] sets andThen_done [THEN ext] chains
        run_all_single crw_def [symmetric] del: chain_CleanUp.simps run_all.simps)
  then show ?thesis unfolding own using base by (simp add: andThen_def del: chain_CleanUp.simps)
qed

fun emptied :: "place \<Rightarrow> place" where
  "emptied Absent = Absent"
| "emptied _ = Bare"

text \<open>\<open>DeleteChain\<close> does not look at the family: no other family may have a chain with one of the four names.\<close>

definition alone :: "string \<Rightarrow> nchain list \<Rightarrow> bool" where
  "alone name cs \<longleftrightarrow> (\<forall>c \<in> set cs. \<forall>i < 4. ch_name c \<noteq> nameOf name (start_label i))"

definition close_log :: "string \<Rightarrow> family \<Rightarrow> nat \<Rightarrow> nrule list \<Rightarrow> nrule list \<Rightarrow> place \<Rightarrow> nft_cmd list" where
  "close_log name fam i xs ys s = map (\<lambda>x. CDelRule (start_table i) fam (start_label i) (rl_handle x)) xs @
     map (\<lambda>x. CDelRule (start_table i) fam (nameOf name (start_label i)) (rl_handle x)) ys @
     (case s of Full _ \<Rightarrow> [CDelChain (start_table i) fam (nameOf name (start_label i))] | _ \<Rightarrow> [])"

lemma base_cleaned:
  assumes rw: "reads_view name fam rs rw" and l: "laid E name fam st rs" and i: "i < 4"
    and run: "rules_cleanUp L E \<lparr>crw_table = start_table i, crw_hook = start_hook i\<rparr> (start_label i) [jump_rule name i] rw = (q, rw')"
  shows "cleaned L (start_table i) fam (start_label i) (rs_rules rs (base_at fam i)) rw q rw'"
proof -
  let ?t = "start_table i" and ?b = "start_label i" and ?h = "start_hook i" and ?xs = "rs_rules rs (base_at fam i)"
  note rd = laid_reads [OF rw l i] and ok = laidD(1) [OF l]
  have jump: "RuleExpr E (rm_expr (jump_rule name i)) x = Some True" if "x \<in> set ?xs" for x
  proof -
    have "rule_form x \<in> set (base_content E name i (st i))" using that by (simp flip: laidD(4) [OF l i])
    then show ?thesis by (cases "st i") (auto intro: jump_recognised)
  qed
  have "filter (\<lambda>r. RuleExpr E (rm_expr (jump_rule name i)) r = Some True) ?xs = ?xs" using jump by (simp add: filter_id_conv)
  moreover have "ch_hooknum c \<noteq> None" if "c \<in> set (rs_chains rs)" "chain_key c = base_at fam i" for c
  proof -
    have "ch_family c = fam" using that(2) by (simp add: chain_key_def)
    from laid_chain [OF l that(1) this] show ?thesis
      by (cases) (use that(2) i nameOf_base in auto)
  qed
  ultimately have xs: "filter (owned E (place_of ?t ?h ?b) fam (rm_expr (jump_rule name i))) (elems (rw_rules rw)) = ?xs"
    using owned_listing_any [OF ok, of ?t fam ?b name E ?h "rm_expr (jump_rule name i)"] rd(4) by auto
  have "length (base_content E name i (st i)) \<le> 1" by (cases "st i") simp_all
  then have xs1: "length ?xs \<le> 1" using arg_cong [OF laidD(4) [OF l i], of length] by simp
  have read: "readable E (place_of ?t ?h ?b) (rm_expr (jump_rule name i)) rw"
    by (rule readable_listing [OF ok rd(4)]) (use jump rd(1) in simp)
  have "is_open rw" using rd(2) by (simp add: is_open_def)
  from rules_cleanUp_few [OF this rd(6,1) _ _ _ xs1 _ run] xs read show ?thesis by simp
qed

lemma own_cleaned:
  assumes rw: "reads_view name fam rs rw" and l: "laid E name fam st rs" and i: "i < 4"
    and c: "cleaned L (start_table i) fam (start_label i) (rs_rules rs (base_at fam i)) rw (Ok ()) rw1"
    and run: "rules_cleanUp L E \<lparr>crw_table = start_table i, crw_hook = start_hook i\<rparr> (nameOf name (start_label i)) (start_rules name i) rw1 = (q, rw')"
  shows "\<exists>ys. cleaned L (start_table i) fam (nameOf name (start_label i)) ys rw1 q rw' \<and> set ys \<subseteq> set (rs_rules rs (own_at name fam i)) \<and>
    distinct (map rl_handle ys)"
proof -
  let ?t = "start_table i" and ?own = "nameOf name (start_label i)" and ?h = "start_hook i" and ?os = "rs_rules rs (own_at name fam i)"
  define ys where "ys = (case start_rules name i of [] \<Rightarrow> [] | r # _ \<Rightarrow> filter (\<lambda>x. RuleExpr E (rm_expr r) x = Some True) ?os)"
  note rd = laid_reads [OF rw l i] and ok = laidD(1) [OF l] and c1 = cleanedD [OF c]
  have few: "length (start_rules name i) \<le> 1" by (simp add: start_rules_def)
  have ys: "ys = filter (\<lambda>x. RuleExpr E (rm_expr r) x = Some True) ?os" if "r \<in> set (start_rules name i)" for r
    using that few unfolding ys_def by (cases "start_rules name i") auto
  have kept: "filter (owned E (place_of ?t ?h ?own) fam (rm_expr r)) (elems (rw_rules rw1)) = ys" if "r \<in> set (start_rules name i)" for r
  proof -
    have "filter (owned E (place_of ?t ?h ?own) fam (rm_expr r)) (elems (rw_rules rw1)) =
        filter (owned E (place_of ?t ?h ?own) fam (rm_expr r)) (elems (rw_rules rw))"
    proof (rule c1(8))
      fix x y assume x: "x \<in> set (elems (rw_rules rw))" "owned E (place_of ?t ?h ?own) fam (rm_expr r) x"
        and y: "y \<in> set (rs_rules rs (base_at fam i))"
      have "rule_key x = own_at name fam i" using x(2) by (auto simp: owned_iff place_of_def rule_key_def)
      then have os: "x \<in> set ?os" using listing_rules [OF ok, of x name] x(1) rd(4) by simp
      have "table_of (own_at name fam i) = table_of (base_at fam i)" by (simp add: table_of_def)
      from ruleset_okD(5) [OF ok this own_neq_base [OF i i] os y] show "rl_handle x \<noteq> rl_handle y" .
    qed
    also have "\<dots> = ys" using owned_listing [OF ok nameOf_prefix] rd(4) ys [OF that] by simp
    finally show ?thesis .
  qed
  have as: "\<exists>As. map rule_form ?os = content E name As i \<or> ?os = []" using laidD(3) [OF l i] by (cases "st i") auto
  then have one: "length ys \<le> 1" and read0: "\<forall>x \<in> set ?os. RuleExpr E (rm_expr r) x \<noteq> None" if "r \<in> set (start_rules name i)" for r
    using content_start_rules [OF i that] ys [OF that] by auto
  have one': "length ys \<le> 1" using one few by (cases "start_rules name i") (auto simp: ys_def)
  have read: "readable E (place_of ?t ?h ?own) (rm_expr r) rw1" if "r \<in> set (start_rules name i)" for r
  proof -
    have "readable E (place_of ?t ?h ?own) (rm_expr r) rw"
      by (rule readable_listing [OF ok rd(4)]) (use read0 [OF that] rd(1) in simp)
    then show ?thesis using c1(2,7) rd(1) unfolding readable_def by auto
  qed
  have empty: "start_rules name i = [] \<Longrightarrow> ys = []" by (simp add: ys_def)
  have "cleaned L ?t fam ?own ys rw1 q rw'"
    by (rule rules_cleanUp_few [OF c1(3,6,2) few kept empty one' read run])
  moreover have "set ys \<subseteq> set ?os" "distinct (map rl_handle ys)"
    unfolding ys_def using ruleset_okD(4) [OF ok, of "own_at name fam i"] by (auto split: list.splits simp: distinct_map_filter)
  ultimately show ?thesis by blast
qed

lemma delete_own_chain:
  assumes l: "laid E name fam st rs" and i: "i < 4" and alone: "alone name (others fam rs)"
    and rw: "is_open rw" "rw_family rw = fam" "elems (rw_chains rw) = rs_chains rs"
  shows "\<exists>rw'. crw_DeleteChain L \<lparr>crw_table = start_table i, crw_hook = h\<rparr> (nameOf name (start_label i)) rw = (Ok (), rw') \<and>
    rw_kernel rw' = rw_kernel rw \<and> is_open rw' \<and> conn_log rw' = conn_log rw @
      (case st i of Full _ \<Rightarrow> [CDelChain (start_table i) fam (nameOf name (start_label i))] | _ \<Rightarrow> [])"
proof -
  let ?P = "\<lambda>c. ch_table c = start_table i \<and> ch_name c = nameOf name (start_label i)"
  have own: "ch_family c = fam" if "c \<in> set (rs_chains rs)" "ch_name c = nameOf name (start_label i)" for c
    using alone that i by (auto simp: alone_def others_def)
  show ?thesis
  proof (cases "\<exists>As. st i = Full As")
    case True
    then have "own_chain name fam i \<in> place_chains name fam i (st i)" by auto
    from laid_has(1) [OF l i this] have "find_index ?P (rs_chains rs) \<noteq> None" unfolding find_index_None by (auto intro: bexI [where x = "own_chain name fam i"])
    then obtain j where "find_index ?P (rs_chains rs) = Some j" by blast
    then show ?thesis using True rw
      by (auto simp: crw_DeleteChain_def DeleteChain_def withOpenConn_open is_open_def conn_log_def queue_cmd_def)
  next
    case False
    then have "\<forall>c \<in> set (rs_chains rs). \<not> ?P c" using laid_absent(3) [OF l i] own by blast
    then have "find_index ?P (rs_chains rs) = None" by (simp add: find_index_None)
    then show ?thesis using False rw
      by (auto simp: crw_DeleteChain_def DeleteChain_def withOpenConn_open split: place.split)
  qed
qed

lemma close_emits:
  assumes L: "map_order_ok L" and rw: "reads_view name fam rs rw" and l: "laid E name fam st rs" and i: "i < 4" and s: "st i \<noteq> Absent"
    and alone: "alone name (others fam rs)" and run: "table_CleanUp L E (nft_structure name True ! i) rw = (q, rw')"
  shows "rw_kernel rw' = rw_kernel rw \<and> is_open rw' \<and> (\<forall>p. q \<noteq> Panic p) \<and> ((\<forall>c. lib_DelRule L c = None) \<longrightarrow> q = Ok ()) \<and>
    (q = Ok () \<longrightarrow> (\<exists>ys. set ys \<subseteq> set (rs_rules rs (own_at name fam i)) \<and> distinct (map rl_handle ys) \<and>
       conn_log rw' = close_log name fam i (rs_rules rs (base_at fam i)) ys (st i)))"
proof -
  let ?crw = "\<lparr>crw_table = start_table i, crw_hook = start_hook i\<rparr>" and ?own = "nameOf name (start_label i)"
  obtain q1 rw1 where one: "rules_cleanUp L E ?crw (start_label i) [jump_rule name i] rw = (q1, rw1)" by fastforce
  note parts = close_parts [OF L rw l i s] and c1 = base_cleaned [OF rw l i one]
  have log0: "conn_log rw = []" using rw by (simp add: reads_view_def snapshot_of_def)
  have fails: ?thesis if "q = q'" "rw' = rw2" "q' \<noteq> Ok ()" "cleaned L t fam n ys rw0 q' rw2" "rw_kernel rw0 = rw_kernel rw" for q' rw0 rw2 t n ys
    using that unfolding cleaned_def by auto
  show ?thesis
  proof (cases "q1 = Ok ()")
    case False
    then have "q = q1" "rw' = rw1" using run parts one c1 by (cases q1; simp add: andThen_def cleaned_def)+
    from fails [OF this False c1 refl] show ?thesis .
  next
    case True
    note d1 = cleanedD [OF c1 [unfolded True]]
    obtain q2 rw2 where two: "rules_cleanUp L E ?crw ?own (start_rules name i) rw1 = (q2, rw2)" by fastforce
    obtain ys where ys: "cleaned L (start_table i) fam ?own ys rw1 q2 rw2" "set ys \<subseteq> set (rs_rules rs (own_at name fam i))"
        "distinct (map rl_handle ys)"
      using own_cleaned [OF rw l i c1 [unfolded True] two] by blast
    show ?thesis
    proof (cases "q2 = Ok ()")
      case False
      then have "q = q2" "rw' = rw2" using run parts one True two ys(1) by (cases q2; simp add: andThen_def cleaned_def)+
      from fails [OF this False ys(1) d1(1)] show ?thesis .
    next
      case ok2: True
      note d2 = cleanedD [OF ys(1) [unfolded ok2]]
      have chs: "elems (rw_chains rw2) = rs_chains rs" using d1(5) d2(5) laid_reads(3) [OF rw l i] by simp
      from delete_own_chain [OF l i alone d2(3,2) chs, of L "start_hook i"]
      obtain rw3 where del: "crw_DeleteChain L ?crw ?own rw2 = (Ok (), rw3)" "rw_kernel rw3 = rw_kernel rw2" "is_open rw3"
          "conn_log rw3 = conn_log rw2 @ (case st i of Full _ \<Rightarrow> [CDelChain (start_table i) fam ?own] | _ \<Rightarrow> [])" by blast
      have "q = Ok ()" "rw' = rw3" using run parts one True two ok2 del(1) by (simp_all add: andThen_def)
      moreover have "conn_log rw3 = close_log name fam i (rs_rules rs (base_at fam i)) ys (st i)"
        using del(4) d1(4) d2(4) log0 by (simp add: close_log_def)
      ultimately show ?thesis using del(2,3) d1(1) d2(1) ys(2,3) by auto
    qed
  qed
qed

text \<open>What the kernel makes of it.\<close>

lemma close_commits:
  assumes l: "laid E name fam st rs" and i: "i < 4" and s: "st i \<noteq> Absent"
    and ys: "set ys \<subseteq> set (rs_rules rs (own_at name fam i))" "distinct (map rl_handle ys)"
  defines "log \<equiv> close_log name fam i (rs_rules rs (base_at fam i)) ys (st i)"
  shows "commits log rs rs' \<Longrightarrow> laid E name fam (st(i := Bare)) rs' \<and> others fam rs' = others fam rs" and "applies log rs"
proof -
  let ?b = "base_at fam i" and ?o = "own_at name fam i"
  let ?xs = "rs_rules rs ?b" and ?os = "filter (\<lambda>r. rl_handle r \<notin> rl_handle ` set ys) (rs_rules rs ?o)"
  note ok = laidD(1) [OF l] and ne = own_neq_base [OF i i, of fam name]
  let ?rs1 = "set_rules ?b [] rs" let ?rs2 = "set_rules ?o ?os ?rs1"
  let ?rs3 = "if st i = Bare then ?rs2 else drop_chains (\<lambda>\<kappa>. \<kappa> = ?o) ?rs2"
  have "filter (\<lambda>r. rl_handle r \<notin> rl_handle ` set ?xs) ?xs = []" by (simp add: filter_empty_conv)
  then have one: "commits (map (\<lambda>x. CDelRule (start_table i) fam (start_label i) (rl_handle x)) ?xs) rs rs1 \<longleftrightarrow> rs1 = ?rs1"
    "applies (map (\<lambda>x. CDelRule (start_table i) fam (start_label i) (rl_handle x)) ?xs) rs" for rs1
    using commits_deletions [of ?xs rs "start_table i" fam "start_label i"] ruleset_okD(4) [OF ok, of ?b] by simp_all
  have own1: "rs_rules ?rs1 ?o = rs_rules rs ?o" using ne by simp
  have two: "commits (map (\<lambda>x. CDelRule (start_table i) fam (nameOf name (start_label i)) (rl_handle x)) ys) ?rs1 rs2 \<longleftrightarrow> rs2 = ?rs2"
    "applies (map (\<lambda>x. CDelRule (start_table i) fam (nameOf name (start_label i)) (rl_handle x)) ys) ?rs1" for rs2
    using commits_deletions [of ys ?rs1 "start_table i" fam "nameOf name (start_label i)"] ys unfolding own1 by blast+
  let ?last = "case st i of Full _ \<Rightarrow> [CDelChain (start_table i) fam (nameOf name (start_label i))] | _ \<Rightarrow> []"
  have three: "commits ?last ?rs2 rs3 \<longleftrightarrow> rs3 = ?rs3" "applies ?last ?rs2" for rs3
  proof -
    define rs2 where "rs2 = ?rs2"
    have "commit (CDelChain (start_table i) fam (nameOf name (start_label i))) rs2 rs3 \<longleftrightarrow> rs3 = drop_chains (\<lambda>\<kappa>. \<kappa> = ?o) rs2"
      if "st i = Full As" for As rs3
      using laid_keys(2) [OF l i] that by (simp add: rs2_def)
    then have "(commits ?last rs2 rs3 \<longleftrightarrow> rs3 = (if st i = Bare then rs2 else drop_chains (\<lambda>\<kappa>. \<kappa> = ?o) rs2)) \<and> applies ?last rs2" for rs3
      using s by (cases "st i") (simp_all del: commit.simps, blast)
    then show "commits ?last ?rs2 rs3 \<longleftrightarrow> rs3 = ?rs3" "applies ?last ?rs2" unfolding rs2_def by blast+
  qed
  show "applies log rs"
    unfolding log_def close_log_def by (simp only: applies_append one two three simp_thms)
  assume run: "commits log rs rs'"
  then have rs': "rs' = ?rs3"
    unfolding log_def close_log_def by (simp only: commits_append one two three simp_thms)
  have "ruleset_ok rs'" using commits_ok run ok by blast
  then have "laid E name fam (st(i := Bare)) rs'"
  proof (rule laid_update [OF l i])
    have own: "chain_key c = ?o \<longleftrightarrow> c = own_chain name fam i" if "c \<in> set (rs_chains rs)" "st i = Full As" for c As
    proof -
      have "own_chain name fam i \<in> set (rs_chains rs)" "inj_on chain_key (set (rs_chains rs))"
        using ruleset_okD(1) [OF ok] laid_has(1) [OF l i, of "own_chain name fam i"] that(2) by (simp_all add: distinct_map)
      from inj_on_eq_iff [OF this(2) that(1) this(1)] show ?thesis by simp
    qed
    have "own_chain name fam i \<noteq> base_chain fam i" using ne by (metis chain_simps(12,13))
    then show "{c \<in> set (rs_chains rs'). ch_family c = fam} = {c \<in> set (rs_chains rs). ch_family c = fam} -
        place_chains name fam i (st i) \<union> place_chains name fam i Bare"
      using s own laid_has [OF l i] nameOf_base [OF i i, of name, symmetric] unfolding rs' by (cases "st i") auto
    show "rs_rules rs' \<kappa> = rs_rules rs \<kappa>" if "\<kappa> \<noteq> ?o" "\<kappa> \<noteq> ?b" for \<kappa>
      using that unfolding rs' by (cases "st i = Bare") simp_all
    have "rs_rules rs ?o = []" if "st i = Bare" using laid_absent(1) [OF l i] that by simp
    then show "map rule_form (rs_rules rs' ?o) = own_forms E name i Bare" unfolding rs' by (cases "st i = Bare") simp_all
    show "map rule_form (rs_rules rs' ?b) = base_content E name i Bare" unfolding rs' using ne by (cases "st i = Bare") simp_all
  qed
  moreover have "others fam rs' = others fam rs"
    unfolding rs' others_def by (auto simp: chain_key_def intro!: filter_cong)
  ultimately show "laid E name fam (st(i := Bare)) rs' \<and> others fam rs' = others fam rs" by blast
qed

lemma close_step:
  assumes L: "map_order_ok L" and rw: "reads_view name fam rs rw" and l: "laid E name fam st rs" and i: "i < 4"
    and alone: "st i \<noteq> Absent \<Longrightarrow> alone name (others fam rs)" and run: "table_CleanUp L E (nft_structure name True ! i) rw = (q, rw')"
  shows "rw_kernel rw' = rw_kernel rw \<and> is_open rw' \<and> (\<forall>p. q \<noteq> Panic p) \<and>
    (q = Ok () \<longrightarrow> (\<forall>rs'. commits (conn_log rw') rs rs' \<longrightarrow> laid E name fam (st(i := emptied (st i))) rs' \<and> others fam rs' = others fam rs)) \<and>
    ((\<forall>c. lib_DelRule L c = None) \<longrightarrow> q = Ok () \<and> applies (conn_log rw') rs)"
proof (cases "st i = Absent")
  case True
  have "go_map_order L (rw_kernel rw) [] = []" using map_order_set [OF L, of _ "[]"] by simp
  then have "table_CleanUp L E (nft_structure name True ! i) rw = (Ok (), rw)"
    using laid_reads(7) [OF rw l i] True by (simp add: table_CleanUp_def structure_nth(2) [OF i])
  moreover have "is_open rw" "conn_log rw = []" using rw by (simp_all add: reads_view_def snapshot_of_def)
  moreover have "st(i := emptied (st i)) = st" using True by (simp add: fun_upd_idem)
  ultimately show ?thesis using run l by simp
next
  case False
  then have em: "emptied (st i) = Bare" by (cases "st i") simp_all
  note e = close_emits [OF L rw l i False alone [OF False] run]
  show ?thesis
  proof (cases "q = Ok ()")
    case True
    then obtain ys where "set ys \<subseteq> set (rs_rules rs (own_at name fam i))" "distinct (map rl_handle ys)"
        "conn_log rw' = close_log name fam i (rs_rules rs (base_at fam i)) ys (st i)"
      using e by blast
    then show ?thesis using e close_commits [OF l i False] True em by auto
  next
    case False
    then show ?thesis using e by blast
  qed
qed

section \<open>Closing and starting\<close>

lemma laid_cong: "(\<And>i. i < 4 \<Longrightarrow> st i = st' i) \<Longrightarrow> laid E name fam st rs = laid E name fam st' rs"
  by (simp add: laid_def)

definition emptied_upto :: "nat \<Rightarrow> (nat \<Rightarrow> place) \<Rightarrow> nat \<Rightarrow> place" where
  "emptied_upto n st i = (if i < n then emptied (st i) else st i)"

definition laid_upto :: "nat \<Rightarrow> (nat \<Rightarrow> place) \<Rightarrow> nat \<Rightarrow> place" where
  "laid_upto n st i = (if i < n then Full [] else emptied (st i))"

lemma upto_Suc:
  "(emptied_upto n st)(n := emptied (emptied_upto n st n)) = emptied_upto (Suc n) st"
  "(laid_upto n st)(n := Full []) = laid_upto (Suc n) st"
  by (auto simp: emptied_upto_def laid_upto_def fun_eq_iff less_Suc_eq)

lemma emptied_neq_Full [simp]: "emptied s \<noteq> Full As" "emptied s = Absent \<longleftrightarrow> s = Absent"
  by (cases s; simp)+

definition safe :: "string \<Rightarrow> family \<Rightarrow> (nat \<Rightarrow> place) \<Rightarrow> ruleset \<Rightarrow> bool" where
  "safe name fam st rs \<longleftrightarrow> alone name (others fam rs) \<or> (\<forall>i < 4. st i = Absent)"

lemma Close_run:
  assumes L: "kernel_ok willing L view" and M: "map_order_ok L" and l: "laid E (nft_name nft) (nft_family nft) st (ruleset_of view nft)"
    and safe: "safe (nft_name nft) (nft_family nft) st (ruleset_of view nft)" and run: "nft_Close L E nft = (r, nft')"
  shows "(\<exists>n \<le> 4. laid E (nft_name nft) (nft_family nft) (emptied_upto n st) (ruleset_of view nft') \<and> (r = Ok () \<longrightarrow> n = 4)) \<and>
    others (nft_family nft) (ruleset_of view nft') = others (nft_family nft) (ruleset_of view nft) \<and>
    (\<forall>p. r \<noteq> Panic p) \<and> (willing \<longrightarrow> r = Ok ()) \<and> nft_name nft' = nft_name nft \<and> nft_family nft' = nft_family nft \<and> nft_once nft' = nft_once nft"
proof -
  let ?name = "nft_name nft" and ?fam = "nft_family nft" and ?muts = "nft_structure (nft_name nft) True"
  obtain k' where k': "runMutation L ?name ?fam (table_CleanUp L E) ?muts (nft_kernel nft) = (r, k')" "nft' = nft\<lparr>nft_kernel := k'\<rparr>"
    using run by (auto simp: nft_Close_def cleanUp_def on_kernel_def split: prod.splits)
  let ?S = "\<lambda>n rs. laid E ?name ?fam (emptied_upto n st) rs \<and> others ?fam rs = others ?fam (ruleset_of view nft)"
  have len: "length ?muts = 4" by (simp add: nft_structure_def)
  have lib: "willing \<Longrightarrow> \<forall>c. lib_DelRule L c = None" using L by (simp add: kernel_ok_def)
  have "\<exists>n \<le> length ?muts. ?S n (view k') \<and> (r = Ok () \<longrightarrow> n = length ?muts) \<and> (\<forall>p. r \<noteq> Panic p) \<and> (willing \<longrightarrow> r = Ok ())"
  proof (rule runMutation_prefix [OF L, where S = ?S and i = 0])
    show "?S 0 (view (nft_kernel nft))" using l by (simp add: emptied_upto_def [abs_def])
    show "runMutation L ?name ?fam (table_CleanUp L E) (drop 0 ?muts) (nft_kernel nft) = (r, k')" using k' by simp
  next
    fix i rs rw q rw'
    assume i: "i < length ?muts" and S: "?S i rs" and rw: "reads_view ?name ?fam rs rw" and act: "table_CleanUp L E (?muts ! i) rw = (q, rw')"
    have "alone ?name (others ?fam rs)" if "emptied_upto i st i \<noteq> Absent"
      using safe S that i len by (auto simp: safe_def emptied_upto_def)
    note st = close_step [OF M rw S [THEN conjunct1] i [unfolded len] this act, unfolded upto_Suc]
    then have "?S (Suc i) rs'" if "q = Ok ()" "commits (conn_log rw') rs rs'" for rs' using S that by simp
    then show "rw_kernel rw' = rw_kernel rw \<and> is_open rw' \<and> (\<forall>p. q \<noteq> Panic p) \<and>
      (q = Ok () \<longrightarrow> (\<forall>rs'. commits (conn_log rw') rs rs' \<longrightarrow> ?S (Suc i) rs')) \<and> (willing \<longrightarrow> q = Ok () \<and> applies (conn_log rw') rs)"
      using st lib by blast
  qed simp_all
  then show ?thesis using k'(2) len by auto
qed

lemma lay_run:
  assumes L: "kernel_ok willing L view" and M: "map_order_ok L" and l: "laid E (nft_name nft) (nft_family nft) (laid_upto 0 st) (ruleset_of view nft)"
    and run: "present L E (nft_structure (nft_name nft) False) nft = (r, nft')"
  shows "(\<exists>n \<le> 4. laid E (nft_name nft) (nft_family nft) (laid_upto n st) (ruleset_of view nft') \<and> (r = Ok () \<longrightarrow> n = 4)) \<and>
    others (nft_family nft) (ruleset_of view nft') = others (nft_family nft) (ruleset_of view nft) \<and>
    (\<forall>p. r \<noteq> Panic p) \<and> (willing \<longrightarrow> r = Ok ()) \<and> nft_name nft' = nft_name nft \<and> nft_family nft' = nft_family nft \<and> nft_once nft' = nft_once nft"
proof -
  let ?name = "nft_name nft" and ?fam = "nft_family nft" and ?muts = "nft_structure (nft_name nft) False"
  obtain k' where k': "runMutation L ?name ?fam (table_Present L E) ?muts (nft_kernel nft) = (r, k')" "nft' = nft\<lparr>nft_kernel := k'\<rparr>"
    using run by (auto simp: present_def on_kernel_def split: prod.splits)
  let ?S = "\<lambda>n rs. laid E ?name ?fam (laid_upto n st) rs \<and> others ?fam rs = others ?fam (ruleset_of view nft)"
  have len: "length ?muts = 4" by (simp add: nft_structure_def)
  have "\<exists>n \<le> length ?muts. ?S n (view k') \<and> (r = Ok () \<longrightarrow> n = length ?muts) \<and> (\<forall>p. r \<noteq> Panic p) \<and> (willing \<longrightarrow> r = Ok ())"
  proof (rule runMutation_prefix [OF L, where S = ?S and i = 0])
    show "?S 0 (view (nft_kernel nft))" using l by simp
    show "runMutation L ?name ?fam (table_Present L E) (drop 0 ?muts) (nft_kernel nft) = (r, k')" using k' by simp
  next
    fix i rs rw q rw'
    assume i: "i < length ?muts" and S: "?S i rs" and rw: "reads_view ?name ?fam rs rw" and act: "table_Present L E (?muts ! i) rw = (q, rw')"
    have s: "\<forall>As. laid_upto i st i \<noteq> Full As" and t: "tidy (laid_upto i st)" by (simp_all add: laid_upto_def tidy_def)
    note l = S [THEN conjunct1] and i4 = i [unfolded len]
    have eq: "q = Ok ()" "rw' = rw\<lparr>rw_conn := Some (lay_log E ?name ?fam i (laid_upto i st i))\<rparr>"
      using act lay_present_step [OF M rw l i4 s] by simp_all
    note st = lay_step [OF l i4 s t, unfolded upto_Suc]
    have "?S (Suc i) rs'" if "commits (lay_log E ?name ?fam i (laid_upto i st i)) rs rs'" for rs' using S st(1) [OF that] by simp
    then show "rw_kernel rw' = rw_kernel rw \<and> is_open rw' \<and> (\<forall>p. q \<noteq> Panic p) \<and>
      (q = Ok () \<longrightarrow> (\<forall>rs'. commits (conn_log rw') rs rs' \<longrightarrow> ?S (Suc i) rs')) \<and> (willing \<longrightarrow> q = Ok () \<and> applies (conn_log rw') rs)"
      using st(2) eq by (simp add: is_open_def conn_log_def)
  qed simp_all
  then show ?thesis using k'(2) len by auto
qed

text \<open>A place after a start that failed: as before, cleaned up, or laid again.\<close>

definition remains :: "(nat \<Rightarrow> place) \<Rightarrow> (nat \<Rightarrow> place) \<Rightarrow> bool" where
  "remains st st' \<longleftrightarrow> (\<forall>i. st' i = st i \<or> st' i = emptied (st i) \<or> st' i = Full [])"

lemma start_run:
  assumes L: "kernel_ok willing L view" and M: "map_order_ok L" and l: "laid E (nft_name nft) (nft_family nft) st (ruleset_of view nft)"
    and safe: "safe (nft_name nft) (nft_family nft) st (ruleset_of view nft)" and run: "nft_start L E nft = (r, nft')"
  shows "(\<exists>st'. remains st st' \<and> laid E (nft_name nft) (nft_family nft) st' (ruleset_of view nft') \<and> (r = Ok () \<longrightarrow> st' = (\<lambda>_. Full []))) \<and>
    others (nft_family nft) (ruleset_of view nft') = others (nft_family nft) (ruleset_of view nft) \<and>
    (\<forall>p. r \<noteq> Panic p) \<and> (willing \<longrightarrow> r = Ok ()) \<and> nft_name nft' = nft_name nft \<and> nft_family nft' = nft_family nft \<and> nft_once nft' = nft_once nft"
proof -
  obtain r1 nft1 where close: "nft_Close L E nft = (r1, nft1)" by fastforce
  note c = Close_run [OF L M l safe close]
  show ?thesis
  proof (cases r1)
    case (Ok u)
    then have "laid E (nft_name nft) (nft_family nft) (emptied_upto 4 st) (ruleset_of view nft1)" using c by auto
    also have "?this \<longleftrightarrow> laid E (nft_name nft1) (nft_family nft1) (laid_upto 0 st) (ruleset_of view nft1)"
      using c by (simp add: laid_cong [of "emptied_upto 4 st" "laid_upto 0 st"] emptied_upto_def laid_upto_def)
    finally have l1: "laid E (nft_name nft1) (nft_family nft1) (laid_upto 0 st) (ruleset_of view nft1)" .
    have "present L E (nft_structure (nft_name nft1) False) nft1 = (r, nft')"
      using run close Ok c by (auto simp: nft_start_def andThen_def wrapped_def)
    note p = lay_run [OF L M l1 this]
    then obtain n where n: "n \<le> 4" "laid E (nft_name nft) (nft_family nft) (laid_upto n st) (ruleset_of view nft')" "r = Ok () \<longrightarrow> n = 4"
      using c by auto
    have "\<exists>st'. remains st st' \<and> laid E (nft_name nft) (nft_family nft) st' (ruleset_of view nft') \<and> (r = Ok () \<longrightarrow> st' = (\<lambda>_. Full []))"
    proof (cases "r = Ok ()")
      case True
      then have "laid E (nft_name nft) (nft_family nft) (\<lambda>_. Full []) (ruleset_of view nft')"
        using n True laid_cong [of "laid_upto 4 st" "\<lambda>_. Full []"] by (simp add: laid_upto_def)
      then show ?thesis by (intro exI [of _ "\<lambda>_. Full []"]) (simp add: remains_def)
    next
      case False
      then show ?thesis using n(2) by (intro exI [of _ "laid_upto n st"]) (simp add: remains_def laid_upto_def)
    qed
    then show ?thesis using p c by simp
  next
    case (Err e)
    then obtain n where n: "laid E (nft_name nft) (nft_family nft) (emptied_upto n st) (ruleset_of view nft1)" using c by blast
    have r: "r = Err (EWrap ''failed to start port forwarding'' e)" "nft' = nft1"
      using run close Err by (auto simp: nft_start_def andThen_def wrapped_def)
    have "remains st (emptied_upto n st)" by (simp add: remains_def emptied_upto_def)
    then show ?thesis using n c r Err by auto
  next
    case (Panic p)
    then show ?thesis using c by blast
  qed
qed

text \<open>A machine that holds no chain of the family, or only what earlier runs of the program left.\<close>

definition traces :: "codec \<Rightarrow> string \<Rightarrow> family \<Rightarrow> ruleset \<Rightarrow> bool" where
  "traces E name fam rs \<longleftrightarrow> (\<exists>st. laid E name fam st rs \<and> safe name fam st rs)"

lemma clean_traces: "clean fam rs \<Longrightarrow> traces E name fam rs"
  unfolding traces_def safe_def using clean_laid by blast

theorem start_creates_chains:
  assumes "kernel_ok willing L view" and "map_order_ok L" and "traces E (nft_name nft) (nft_family nft) (ruleset_of view nft)"
    and "nft_start L E nft = (r, nft')"
  shows "(r = Ok () \<longrightarrow> laid E (nft_name nft) (nft_family nft) (\<lambda>_. Full []) (ruleset_of view nft')) \<and>
    (\<forall>p. r \<noteq> Panic p) \<and> (willing \<longrightarrow> r = Ok ()) \<and> nft_name nft' = nft_name nft \<and> nft_family nft' = nft_family nft"
  using assms(3) start_run [OF assms(1,2) _ _ assms(4)] unfolding traces_def by blast

end
