(* ===== verification/NfHistory.thy ===== *)
theory NfHistory
  imports NfClose
begin

text \<open>
  The nftables implementation as a refinement: the four chains hold the list of active forwardings.
  The start, one call on every path, histories of successful calls, a concrete kernel for the examples,
  and what goes wrong with two tables on a hook.
\<close>

section \<open>One call\<close>

lemma active_ok_append:
  "active_ok As \<Longrightarrow> (p, f) \<notin> fst ` set As \<Longrightarrow> p = TCP \<or> p = UDP \<Longrightarrow> active_ok (As @ [((p, f), v)])"
  by (auto simp: active_ok_def)

lemma active_ok_without: "active_ok As \<Longrightarrow> active_ok (without k As)"
  by (auto simp: active_ok_def without_def distinct_map_filter)

lemma holdsI: "active_ok As \<Longrightarrow> follows E name fam 4 As Bs rs \<Longrightarrow> holds E name fam As rs"
  by (simp add: holds_def follows_restart)

text \<open>
  The start on a machine that has no chains of the family, or what earlier runs of the program left: it creates the hooked
  chains that are missing and the program's four, which then hold the rules they start with and no others. It ends
  with success or an error, and with success unless the kernel makes errors of its own.
\<close>

theorem start_prepares_chains:
  assumes "kernel_ok willing L view" and "map_order_ok L" and "traces E (nft_name nft) (nft_family nft) (ruleset_of view nft)"
    and "nft_start L E nft = (r, nft')"
  shows "(r = Ok () \<longrightarrow> holds E (nft_name nft) (nft_family nft) [] (ruleset_of view nft') \<and>
      ready (nft_family nft) (nft_name nft) (ruleset_of view nft')) \<and>
    (\<forall>p. r \<noteq> Panic p) \<and> (willing \<longrightarrow> r = Ok ())"
  using start_creates_chains [OF assms] laid_holds by blast

text \<open>
  Once started, adding an inactive forwarding appends its rule to the four chains, a batch
  for each. With success all four are done; with an error the first few (possibly none) and
  nothing else; it never panics. It succeeds when the chains are there with handles left and the kernel
  makes no errors of its own.
\<close>

theorem AddForwarding_appends:
  assumes "kernel_ok willing L view" and "codec_ok E" and "map_order_ok L" and "nft_once nft" and "p = TCP \<or> p = UDP"
    and "holds E (nft_name nft) (nft_family nft) As (ruleset_of view nft)" and "(p, f) \<notin> fst ` set As"
    and "nft_AddForwarding L E rnd p f target to c nft = (r, nft')"
  shows "\<exists>n \<le> 4. follows E (nft_name nft) (nft_family nft) n (As @ [((p, f), (target, to))]) As (ruleset_of view nft') \<and>
    same_elsewhere (nft_family nft) (nft_name nft) (ruleset_of view nft) (ruleset_of view nft') \<and>
    (r = Ok () \<longrightarrow> n = 4) \<and> (\<forall>p. r \<noteq> Panic p) \<and>
    (willing \<and> ready (nft_family nft) (nft_name nft) (ruleset_of view nft) \<longrightarrow> r = Ok ())"
  by (rule AddForwarding_prefix [OF assms])

text \<open>
  Removing a forwarding that is active with these targets, or not at all, takes its rules out of the
  four chains and leaves every other rule where it is; it fails like an addition, and succeeds unless the kernel makes errors
  of its own.
\<close>

theorem RemoveForwarding_deletes:
  assumes "kernel_ok willing L view" and "codec_ok E" and "map_order_ok L" and "p = TCP \<or> p = UDP"
    and "holds E (nft_name nft) (nft_family nft) As (ruleset_of view nft)"
    and "\<forall>v. ((p, f), v) \<in> set As \<longrightarrow> v = (target, to)"
    and "nft_RemoveForwarding L E rnd p f target to nft = (r, nft')"
  shows "\<exists>n \<le> 4. follows E (nft_name nft) (nft_family nft) n (without (p, f) As) As (ruleset_of view nft') \<and>
    same_elsewhere (nft_family nft) (nft_name nft) (ruleset_of view nft) (ruleset_of view nft') \<and>
    (r = Ok () \<longrightarrow> n = 4) \<and> (\<forall>p. r \<noteq> Panic p) \<and> (willing \<longrightarrow> r = Ok ())"
  by (rule RemoveForwarding_prefix [OF assms])

section \<open>Histories\<close>

text \<open>
  Successful calls as the guard lets them through: additions of inactive forwardings, removals of
  active ones. The list of active forwardings is the abstract state.
\<close>

inductive nft_history :: "'k nflib \<Rightarrow> codec \<Rightarrow> 'k nftables \<Rightarrow> forwarding list \<Rightarrow> 'k nftables \<Rightarrow> forwarding list \<Rightarrow> bool"
  for L E nft0 As0 where
  start: "nft_history L E nft0 As0 nft0 As0"
| add: "nft_history L E nft0 As0 nft As \<Longrightarrow> p = TCP \<or> p = UDP \<Longrightarrow> (p, f) \<notin> fst ` set As \<Longrightarrow>
    nft_AddForwarding L E rnd p f target to c nft = (Ok (), nft') \<Longrightarrow>
    nft_history L E nft0 As0 nft' (As @ [((p, f), (target, to))])"
| remove: "nft_history L E nft0 As0 nft As \<Longrightarrow> ((p, f), (target, to)) \<in> set As \<Longrightarrow>
    nft_RemoveForwarding L E rnd p f target to nft = (Ok (), nft') \<Longrightarrow>
    nft_history L E nft0 As0 nft' (without (p, f) As)"

definition same_nft :: "'k nftables \<Rightarrow> 'k nftables \<Rightarrow> bool" where
  "same_nft nft nft' \<longleftrightarrow> nft_name nft' = nft_name nft \<and> nft_family nft' = nft_family nft \<and> (nft_once nft \<longrightarrow> nft_once nft')"

lemma same_nft_on_kernel: "same_nft nft (snd (on_kernel m nft))"
  by (simp add: same_nft_def on_kernel_def split: prod.split)

lemma same_nft_Add:
  assumes "nft_once nft"
  shows "same_nft nft (snd (nft_AddForwarding L E rnd p f target to c nft))"
  using assms same_nft_on_kernel [of nft]
  by (auto simp: nft_AddForwarding_def once_start_def andThen_def wrapped_def present_def same_nft_def split: result.split)

lemma same_nft_Remove: "same_nft nft (snd (nft_RemoveForwarding L E rnd p f target to nft))"
  using same_nft_on_kernel [of nft]
  by (auto simp: nft_RemoveForwarding_def cleanUp_def same_nft_def split: result.split)

lemma history_holds:
  assumes "nft_history L E nft0 As0 nft As" and "kernel_ok willing L view" and "codec_ok E" and "map_order_ok L" and "nft_once nft0"
    and "holds E (nft_name nft0) (nft_family nft0) As0 (ruleset_of view nft0)"
  shows "same_nft nft0 nft \<and> holds E (nft_name nft0) (nft_family nft0) As (ruleset_of view nft)"
  using assms(1)
proof induction
  case start
  then show ?case using assms(6) by (simp add: same_nft_def)
next
  case (add nft As p f rnd target to c nft')
  have nft: "nft_once nft" "nft_name nft = nft_name nft0" "nft_family nft = nft_family nft0"
    using add.IH assms(5) by (simp_all add: same_nft_def)
  have h: "holds E (nft_name nft) (nft_family nft) As (ruleset_of view nft)" using add.IH nft by simp
  have "follows E (nft_name nft) (nft_family nft) 4 (As @ [((p, f), (target, to))]) As (ruleset_of view nft')"
    using AddForwarding_prefix [OF assms(2-4) nft(1) add.hyps(2) h add.hyps(3,4)] by auto
  moreover have "active_ok (As @ [((p, f), (target, to))])"
    using active_ok_append h add.hyps(2,3) by (simp add: holds_def)
  moreover have "same_nft nft nft'" using same_nft_Add [OF nft(1)] add.hyps(4) by (metis snd_conv)
  ultimately show ?case using add.IH nft by (auto simp: same_nft_def intro: holdsI)
next
  case (remove nft As p f target to rnd nft')
  have nft: "nft_name nft = nft_name nft0" "nft_family nft = nft_family nft0" using remove.IH by (simp_all add: same_nft_def)
  have h: "holds E (nft_name nft) (nft_family nft) As (ruleset_of view nft)" using remove.IH nft by simp
  then have act: "active_ok As" by (simp add: holds_def)
  then have p: "p = TCP \<or> p = UDP" using remove.hyps(2) by (force simp: active_ok_def)
  have same: "\<forall>v. ((p, f), v) \<in> set As \<longrightarrow> v = (target, to)"
    using act remove.hyps(2) by (auto simp: active_ok_def dest: eq_key_imp_eq_value)
  have "follows E (nft_name nft) (nft_family nft) 4 (without (p, f) As) As (ruleset_of view nft')"
    using RemoveForwarding_prefix [OF assms(2-4) p h same remove.hyps(3)] by auto
  moreover have "same_nft nft nft'" using same_nft_Remove remove.hyps(3) by (metis snd_conv)
  ultimately show ?case using remove.IH nft active_ok_without [OF act] by (auto simp: same_nft_def intro: holdsI)
qed

lemma once_start_view:
  assumes "once_start L E (NewNft nm fam k) = (Ok (), nft0)" and "kernel_ok willing L view" and "map_order_ok L"
    and "traces E (ToUpper nm) fam (view k)"
  shows "nft_once nft0 \<and> nft_name nft0 = ToUpper nm \<and> nft_family nft0 = fam \<and>
    holds E (ToUpper nm) fam [] (ruleset_of view nft0) \<and> laid E (ToUpper nm) fam (\<lambda>_. Full []) (ruleset_of view nft0)"
proof -
  obtain r nft1 where st: "nft_start L E (NewNft nm fam k) = (r, nft1)" by fastforce
  then have "r = Ok ()" "nft0 = nft1\<lparr>nft_once := True\<rparr>" using assms(1) by (simp_all add: once_start_def NewNft_def)
  with start_creates_chains [OF assms(2,3) _ st] assms(4) show ?thesis by (simp add: NewNft_def laid_holds(1))
qed

text \<open>The first call starts the implementation; on what the start leaves it is like any other call.\<close>

lemma first_call:
  assumes "once_start L E nft = (Ok (), nft0)"
  shows "nft_AddForwarding L E rnd p f target to c nft = nft_AddForwarding L E rnd p f target to c nft0"
proof -
  have "nft_once nft0" using assms once_start_done [of L E nft] by simp
  then have "once_start L E nft0 = (Ok (), nft0)" by (simp add: once_start_def)
  with assms show ?thesis by (simp add: nft_AddForwarding_def andThen_def wrapped_def)
qed

text \<open>
  On a machine with no chains but what earlier runs left, after any history of successful calls, each of the
  four chains holds, besides what the start put there, one rule per active forwarding and nothing
  else, in the order of the additions.
\<close>

theorem chains_follow_forwardings:
  assumes "kernel_ok willing L view" and "codec_ok E" and "map_order_ok L" and "traces E (ToUpper nm) fam (view k)"
    and "once_start L E (NewNft nm fam k) = (Ok (), nft0)" and "nft_history L E nft0 [] nft As" and "i < 4"
  shows "map rule_form (rs_rules (ruleset_of view nft) (own_key fam (ToUpper nm) (ruleset_of view nft) i)) =
    base_forms E ! i @ map (\<lambda>a. fwd_forms E (ToUpper nm) a ! i) As"
  using history_holds [OF assms(6,1-3)] once_start_view [OF assms(5,1,3,4)] assms(7)
  by (simp add: holds_def follows_def fills_def content_def)

section \<open>A concrete kernel\<close>

text \<open>It gives out the first free handle and refuses only what cannot be applied.\<close>

definition free_handle :: "64 word list \<Rightarrow> 64 word option" where
  "free_handle hs = find (\<lambda>h. h \<notin> set hs) (map word_of_nat [0..<Suc (length hs)])"

definition model_rule :: "chain_key \<Rightarrow> expr list \<Rightarrow> gobytes \<Rightarrow> ruleset \<Rightarrow> nrule option" where
  "model_rule \<kappa> es ud rs = (case free_handle (handles rs (table_of \<kappa>)) of
      None \<Rightarrow> None
    | Some h \<Rightarrow>
        if \<kappa> \<in> chain_key ` set (rs_chains rs) then
          Some \<lparr>rl_table = fst \<kappa>, rl_family = fst (snd \<kappa>), rl_chain = snd (snd \<kappa>), rl_handle = h,
            rl_exprs = map kernel_form es, rl_userdata = ud\<rparr>
        else None)"

fun model_commit :: "nft_cmd \<Rightarrow> ruleset \<Rightarrow> ruleset option" where
  "model_commit (CAddTable t f) rs = Some rs"
| "model_commit (CDelTable t f) rs = Some (drop_chains (\<lambda>\<kappa>. table_of \<kappa> = (t, f)) rs)"
| "model_commit (CAddChain c p) rs =
     Some (if chain_key c \<in> chain_key ` set (rs_chains rs) then rs else rs\<lparr>rs_chains := rs_chains rs @ [c]\<rparr>)"
| "model_commit (CDelChain t f n) rs =
     (if (t, f, n) \<in> chain_key ` set (rs_chains rs) then Some (drop_chains (\<lambda>\<kappa>. \<kappa> = (t, f, n)) rs) else None)"
| "model_commit (CAddRule t f n es ud) rs =
     map_option (\<lambda>r. set_rules (t, f, n) (rs_rules rs (t, f, n) @ [r]) rs) (model_rule (t, f, n) es ud rs)"
| "model_commit (CInsertRule t f n es ud) rs =
     map_option (\<lambda>r. set_rules (t, f, n) (r # rs_rules rs (t, f, n)) rs) (model_rule (t, f, n) es ud rs)"
| "model_commit (CDelRule t f n h) rs =
     (if h \<in> rl_handle ` set (rs_rules rs (t, f, n))
      then Some (set_rules (t, f, n) (filter (\<lambda>r. rl_handle r \<noteq> h) (rs_rules rs (t, f, n))) rs) else None)"
| "model_commit (CAddSet t f i n m k v es c) rs = Some rs"

fun model_commits :: "nft_cmd list \<Rightarrow> ruleset \<Rightarrow> ruleset option" where
  "model_commits [] rs = Some rs"
| "model_commits (c # cs) rs = (case model_commit c rs of None \<Rightarrow> None | Some rs' \<Rightarrow> model_commits cs rs')"

definition model_lib :: "ruleset nflib" where
  "model_lib = \<lparr>
     lib_New = (\<lambda>k. (Ok (), k)), lib_ListTablesOfFamily = (\<lambda>f k. (Ok [], k)),
     lib_ListChains = (\<lambda>k. (Ok (rs_chains k), k)),
     lib_GetRules = (\<lambda>c k. (Ok (rs_rules k (chain_key c)), k)),
     lib_GetSets = (\<lambda>t k. (Ok [], k)), lib_GetSetElements = (\<lambda>s k. (Ok [], k)),
     lib_DelRule = (\<lambda>c. None), lib_AddSet = (\<lambda>c. None),
     lib_Flush = (\<lambda>cs k. case model_commits cs k of None \<Rightarrow> (Err (EErrno ENOENT), k) | Some k' \<Rightarrow> (Ok (), k')),
     go_map_order = (\<lambda>k ks. ks)\<rparr>"

lemma kernel_form_idem [simp]: "kernel_form (kernel_form e) = kernel_form e"
  by (cases e) simp_all

lemma free_handle_Some: "free_handle hs = Some h \<Longrightarrow> h \<notin> set hs"
  by (auto simp: free_handle_def find_Some_iff)

lemma free_handle_None: "free_handle hs = None \<Longrightarrow> h \<in> set hs"
proof (rule ccontr)
  assume none: "free_handle hs = None" and h: "h \<notin> set hs"
  have sub: "word_of_nat i \<in> set hs" if "i \<le> length hs" for i
    using none that by (auto simp: free_handle_def find_None_iff simp del: upt_Suc)
  have "length hs < unat h" using sub [of "unat h"] h by (cases "unat h \<le> length hs") auto
  then have len: "length hs < 2 ^ 64" using unsigned_less [of h, where ?'a = nat] by simp
  have "inj_on (\<lambda>i. word_of_nat i :: 64 word) {..length hs}"
  proof (rule inj_onI)
    fix i j assume "i \<in> {..length hs}" "j \<in> {..length hs}" and eq: "(word_of_nat i :: 64 word) = word_of_nat j"
    then have "i < 2 ^ 64" "j < 2 ^ 64" using len by auto
    then have "unat (word_of_nat i :: 64 word) = i" "unat (word_of_nat j :: 64 word) = j" by (simp_all add: unat_of_nat)
    with eq show "i = j" by metis
  qed
  moreover have "(\<lambda>i. word_of_nat i) ` {..length hs} \<subseteq> set hs" using sub by auto
  ultimately have "card {..length hs} \<le> card (set hs)" by (metis card_inj_on_le List.finite_set)
  then show False using card_length [of hs] by simp
qed

lemma model_rule_new: "model_rule \<kappa> es ud rs = Some r \<Longrightarrow> new_rule \<kappa> es ud rs r"
  by (auto simp: model_rule_def new_rule_def rule_key_def rule_form_def comp_def
      dest: free_handle_Some split: if_splits option.splits)

lemma model_rule_exists: "new_rule \<kappa> es ud rs r \<Longrightarrow> \<exists>r. model_rule \<kappa> es ud rs = Some r"
  using free_handle_None [of "handles rs (table_of \<kappa>)" "rl_handle r"]
  by (cases "free_handle (handles rs (table_of \<kappa>))") (auto simp: model_rule_def new_rule_def)

lemma model_commit_commit: "model_commit c rs = Some rs' \<Longrightarrow> commit c rs rs'"
  by (cases c) (auto dest: model_rule_new split: if_splits)

lemma model_commits_commits: "model_commits cs rs = Some rs' \<Longrightarrow> commits cs rs rs'"
  by (induction cs arbitrary: rs) (auto dest: model_commit_commit split: option.splits)

lemma model_commit_exists: "commit c rs rs' \<Longrightarrow> \<exists>rs'. model_commit c rs = Some rs'"
  by (cases c) (auto dest: model_rule_exists)

lemma model_commits_exists: "applies cs rs \<Longrightarrow> model_commits cs rs \<noteq> None"
proof (induction cs arbitrary: rs)
  case (Cons c cs)
  then obtain rs' where "model_commit c rs = Some rs'" using model_commit_exists by fastforce
  with Cons model_commit_commit show ?case by fastforce
qed simp

lemma model_kernel_ok: "kernel_ok willing model_lib (\<lambda>rs. rs)"
  by (auto simp: kernel_ok_def reads_def model_lib_def dest: model_commits_commits model_commits_exists
      split: option.split)

lemma model_map_order: "map_order_ok model_lib"
  by (simp add: map_order_ok_def model_lib_def)

text \<open>An empty machine, started, and a forwarding to two targets.\<close>

definition no_rules :: ruleset where
  "no_rules = \<lparr>rs_chains = [], rs_rules = (\<lambda>_. [])\<rparr>"

lemma clean_no_rules: "clean fam no_rules"
  by (simp add: clean_def no_rules_def ruleset_ok_def)

lemma traces_no_rules: "traces E name fam no_rules"
  by (rule clean_traces [OF clean_no_rules])

lemma start_prepares_chains_witness:
  "\<exists>nft'. nft_start model_lib le_codec (NewIPv4 ''kertical'' no_rules) = (Ok (), nft') \<and>
     holds le_codec (ToUpper ''kertical'') TableFamilyIPv4 [] (nft_kernel nft')"
proof -
  obtain r nft' where run: "nft_start model_lib le_codec (NewIPv4 ''kertical'' no_rules) = (r, nft')" by fastforce
  from start_prepares_chains [OF model_kernel_ok model_map_order _ run, of True] run traces_no_rules
  show ?thesis by (auto simp: NewIPv4_def NewNft_def)
qed

lemma demo_started:
  obtains nft where "once_start model_lib le_codec (NewNft ''kertical'' TableFamilyIPv4 no_rules) = (Ok (), nft)"
    "nft_once nft" "nft_name nft = ToUpper ''kertical''" "nft_family nft = TableFamilyIPv4"
    "holds le_codec (ToUpper ''kertical'') TableFamilyIPv4 [] (nft_kernel nft)"
    "ready TableFamilyIPv4 (ToUpper ''kertical'') (nft_kernel nft)"
proof -
  obtain r nft where run: "nft_start model_lib le_codec (NewNft ''kertical'' TableFamilyIPv4 no_rules) = (r, nft)" by fastforce
  from start_creates_chains [OF model_kernel_ok model_map_order _ run, of True] run traces_no_rules
  have l: "r = Ok ()" "laid le_codec (ToUpper ''kertical'') TableFamilyIPv4 (\<lambda>_. Full []) (nft_kernel nft)" by (auto simp: NewNft_def)
  then have r: "r = Ok ()" "ready TableFamilyIPv4 (ToUpper ''kertical'') (nft_kernel nft)" by (simp_all add: laid_holds(2))
  then have once: "once_start model_lib le_codec (NewNft ''kertical'' TableFamilyIPv4 no_rules) = (Ok (), nft\<lparr>nft_once := True\<rparr>)"
    using run by (simp add: once_start_def NewNft_def)
  from once_start_view [OF this model_kernel_ok model_map_order traces_no_rules] r(2) once that
  show thesis by auto
qed

abbreviation web :: forwarding where
  "web \<equiv> ((TCP, 8080), ([''10.0.0.1'', ''10.0.0.2''], 80))"

abbreviation add_web :: "ruleset nftables \<Rightarrow> unit result \<times> ruleset nftables" where
  "add_web \<equiv> nft_AddForwarding model_lib le_codec (\<lambda>i. word_of_nat i) TCP 8080 [''10.0.0.1'', ''10.0.0.2''] 80 ''web''"

abbreviation remove_web :: "ruleset nftables \<Rightarrow> unit result \<times> ruleset nftables" where
  "remove_web \<equiv> nft_RemoveForwarding model_lib le_codec (\<lambda>i. 7) TCP 8080 [''10.0.0.1'', ''10.0.0.2''] 80"

lemma AddForwarding_appends_witness:
  "\<exists>nft nft'. once_start model_lib le_codec (NewNft ''kertical'' TableFamilyIPv4 no_rules) = (Ok (), nft) \<and>
     add_web nft = (Ok (), nft') \<and> follows le_codec (ToUpper ''kertical'') TableFamilyIPv4 4 [web] [] (nft_kernel nft')"
proof -
  obtain nft where nft: "once_start model_lib le_codec (NewNft ''kertical'' TableFamilyIPv4 no_rules) = (Ok (), nft)"
    "nft_once nft" "nft_name nft = ToUpper ''kertical''" "nft_family nft = TableFamilyIPv4"
    "holds le_codec (ToUpper ''kertical'') TableFamilyIPv4 [] (nft_kernel nft)"
    "ready TableFamilyIPv4 (ToUpper ''kertical'') (nft_kernel nft)"
    by (rule demo_started)
  obtain r nft' where run: "add_web nft = (r, nft')" by fastforce
  from AddForwarding_appends [OF model_kernel_ok codec_ok_le model_map_order nft(2) _ _ _ run, of "[]" True] nft run
  show ?thesis by auto
qed

lemma web_added:
  obtains nft0 nft where "once_start model_lib le_codec (NewNft ''kertical'' TableFamilyIPv4 no_rules) = (Ok (), nft0)"
    "nft_once nft0" "nft_name nft0 = ToUpper ''kertical''" "nft_family nft0 = TableFamilyIPv4"
    "holds le_codec (ToUpper ''kertical'') TableFamilyIPv4 [] (nft_kernel nft0)"
    "nft_history model_lib le_codec nft0 [] nft [web]"
proof -
  obtain nft where nft: "once_start model_lib le_codec (NewNft ''kertical'' TableFamilyIPv4 no_rules) = (Ok (), nft)"
    "nft_once nft" "nft_name nft = ToUpper ''kertical''" "nft_family nft = TableFamilyIPv4"
    "holds le_codec (ToUpper ''kertical'') TableFamilyIPv4 [] (nft_kernel nft)"
    "ready TableFamilyIPv4 (ToUpper ''kertical'') (nft_kernel nft)"
    by (rule demo_started)
  obtain r nft' where run: "add_web nft = (r, nft')" by fastforce
  from AddForwarding_prefix [OF model_kernel_ok codec_ok_le model_map_order nft(2) _ _ _ run, of "[]" True] nft
  have "add_web nft = (Ok (), nft')" using run by auto
  from nft_history.add [OF nft_history.start _ _ this, of "[]"]
  have "nft_history model_lib le_codec nft [] nft' [web]" by simp
  with nft(1-5) that show thesis by blast
qed

lemma RemoveForwarding_deletes_witness:
  "\<exists>nft0 nft nft'. nft_history model_lib le_codec nft0 [] nft [web] \<and> remove_web nft = (Ok (), nft') \<and>
     follows le_codec (ToUpper ''kertical'') TableFamilyIPv4 4 [] [web] (nft_kernel nft')"
proof -
  obtain nft0 nft where nft: "nft_once nft0" "nft_name nft0 = ToUpper ''kertical''" "nft_family nft0 = TableFamilyIPv4"
    "holds le_codec (ToUpper ''kertical'') TableFamilyIPv4 [] (nft_kernel nft0)"
    "nft_history model_lib le_codec nft0 [] nft [web]"
    by (rule web_added)
  from history_holds [OF nft(5) model_kernel_ok codec_ok_le model_map_order nft(1)] nft(2-4)
  have h: "nft_name nft = ToUpper ''kertical''" "nft_family nft = TableFamilyIPv4"
    "holds le_codec (ToUpper ''kertical'') TableFamilyIPv4 [web] (nft_kernel nft)"
    by (simp_all add: same_nft_def)
  obtain r nft' where run: "remove_web nft = (r, nft')" by fastforce
  from RemoveForwarding_deletes [OF model_kernel_ok codec_ok_le model_map_order _ _ _ run, of "[web]" True] h
  have "r = Ok ()" "follows le_codec (ToUpper ''kertical'') TableFamilyIPv4 4 [] [web] (nft_kernel nft')"
    by (auto simp: without_def)
  with run nft(5) show ?thesis by blast
qed

lemma chains_follow_forwardings_witness:
  "\<exists>nft0 nft. nft_history model_lib le_codec nft0 [] nft [web] \<and>
     length (rs_rules (nft_kernel nft) (own_key TableFamilyIPv4 (ToUpper ''kertical'') (nft_kernel nft) 3)) = 1"
proof -
  obtain nft0 nft where nft: "once_start model_lib le_codec (NewNft ''kertical'' TableFamilyIPv4 no_rules) = (Ok (), nft0)"
    "nft_history model_lib le_codec nft0 [] nft [web]"
    by (rule web_added)
  from chains_follow_forwardings [OF model_kernel_ok codec_ok_le model_map_order traces_no_rules this, of 3]
  have "map rule_form (rs_rules (nft_kernel nft) (own_key TableFamilyIPv4 (ToUpper ''kertical'') (nft_kernel nft) 3)) =
      base_forms le_codec ! 3 @ [fwd_forms le_codec (ToUpper ''kertical'') web ! 3]"
    by simp
  from arg_cong [OF this, of length]
  have "length (rs_rules (nft_kernel nft) (own_key TableFamilyIPv4 (ToUpper ''kertical'') (nft_kernel nft) 3)) =
      length (base_forms le_codec ! 3) + 1"
    by simp
  moreover have "base_forms le_codec ! 3 = []"
    by (simp add: base_forms_def)
  ultimately show ?thesis using nft by auto
qed

section \<open>Two tables on a hook\<close>

text \<open>
  The condition of a single table per hook is needed: with two, a rule of the second table that
  shares the handle of the first table's rule is dropped from the snapshot in its place, and one
  cleanup deletes the rule of the first table only.
\<close>

definition shared_rule :: "string \<Rightarrow> nrule" where
  "shared_rule t = (demo_rule 5)\<lparr>rl_table := t\<rparr>"

definition shared_chains :: "nchain list" where
  "shared_chains = [demo_chain\<lparr>ch_table := ''a''\<rparr>, demo_chain\<lparr>ch_table := ''b''\<rparr>]"

definition shared_table :: table_mut where
  "shared_table = table_AddChain [Chain ''KERTICAL-OUTPUT'' [demo_mut]] (Table ''nat'' ChainHookOutput)"

lemma cleanUp_misses_shared_handle:
  "conn_log (snd (table_CleanUp (demo_lib [] [] (Ok ())) le_codec shared_table
     (demo_reader shared_chains [shared_rule ''b'', shared_rule ''a'']))) =
   [CDelRule ''a'' TableFamilyIPv4 ''KERTICAL-OUTPUT'' 5]"
  by code_simp

end
