(* ===== verification/PfSync.thy ===== *)
theory PfSync
  imports Strings "HOL-Library.AList" "HOL-Library.Multiset"
begin

text \<open>
  \<open>api/networking/v1alpha1\<close> (PortForwarding) and
  \<open>internal/controller/networking/portforwarding/portforwarding.go\<close>: the objects the controller
  works on, with the fields the source uses, and the computation of what has to change.

  Values of type \<open>int32\<close> are integers here; they are compared and stored, and cut to 16 bits where
  the controller does.
\<close>

section \<open>Objects\<close>

datatype ios_type = IntType | StringType

record intOrString =
  ios_Type :: ios_type
  ios_IntVal :: int
  ios_StrVal :: string

definition FromInt32 :: "int \<Rightarrow> intOrString" where
  "FromInt32 n = \<lparr>ios_Type = IntType, ios_IntVal = n, ios_StrVal = []\<rparr>"

record servicePort =
  sp_Name :: string
  sp_Protocol :: string
  sp_Port :: int
  sp_TargetPort :: intOrString

record service =
  svc_Namespace :: string
  svc_Name :: string
  svc_ClusterIP :: string
  svc_Ports :: "servicePort list"

record endpointPort =
  ep_Name :: "string option"
  ep_Protocol :: "string option"
  ep_Port :: "int option"

record endpoint =
  en_Addresses :: "string list"
  en_Ready :: "bool option"

record endpointSlice =
  es_Namespace :: string
  es_Labels :: "string \<rightharpoonup> string"
  es_Deleted :: bool
  es_Ports :: "endpointPort list"
  es_Endpoints :: "endpoint list"

datatype PortForwardingState =
    PortForwardingReady | PortForwardingConflict | PortForwardingRejected | PortForwardingResidual
  | PortForwardingFailed | PortForwardingUnknown | PortForwardingNoTarget | PortForwardingUnset

record ForwardedPort =
  fp_Protocol :: protocol
  fp_SourcePort :: intOrString
  fp_TargetHosts :: "string list"
  fp_TargetPort :: int
  fp_State :: PortForwardingState

record PortForwardingPort =
  pfp_Target :: intOrString
  pfp_HostPort :: "int option"

record NodePortForwardingStatus =
  ns_NodeName :: string
  ns_ForwardedPorts :: "ForwardedPort list"

record PortForwardingObject =
  pfo_Namespace :: string
  pfo_Name :: string
  pfo_Deleted :: bool
  pfo_Finalizers :: "string list"
  pfo_ServiceRef :: string
  pfo_Ports :: "PortForwardingPort list"
  pfo_Status :: "NodePortForwardingStatus list"

section \<open>Finding the target\<close>

definition ClusterIPNone :: string where "ClusterIPNone = ''None''"
definition ProtocolTCP :: string where "ProtocolTCP = ''TCP''"

definition Deref :: "'a option \<Rightarrow> 'a \<Rightarrow> 'a" where
  "Deref p d = (case p of None \<Rightarrow> d | Some v \<Rightarrow> v)"

definition ServiceObjectKey :: "PortForwardingObject \<Rightarrow> string \<times> string" where
  "ServiceObjectKey pf = (pfo_Namespace pf, pfo_ServiceRef pf)"

fun FindEndpointSlicePort :: "intOrString \<Rightarrow> endpointSlice list \<Rightarrow> endpointPort option" where
  "FindEndpointSlicePort target [] = None"
| "FindEndpointSlicePort target (es # ess) =
     (if length (es_Ports es) = 1 then Some (es_Ports es ! 0)
      else case List.find (\<lambda>p. Deref (ep_Name p) [] = ios_StrVal target \<or> Deref (ep_Port p) 0 = ios_IntVal target)
             (es_Ports es) of
        Some p \<Rightarrow> Some p
      | None \<Rightarrow> FindEndpointSlicePort target ess)"

definition FindServicePort :: "service \<Rightarrow> intOrString \<Rightarrow> endpointSlice list \<Rightarrow> servicePort option" where
  "FindServicePort svc target ess =
     (case List.find (\<lambda>p. sp_Port p = ios_IntVal target \<or> sp_Name p = ios_StrVal target) (svc_Ports svc) of
        None \<Rightarrow> None
      | Some port \<Rightarrow>
          if svc_ClusterIP svc = ClusterIPNone then
            (case FindEndpointSlicePort (sp_TargetPort port) ess of
               None \<Rightarrow> None
             | Some ep \<Rightarrow> Some \<lparr>sp_Name = Deref (ep_Name ep) [], sp_Protocol = Deref (ep_Protocol ep) ProtocolTCP,
                 sp_Port = Deref (ep_Port ep) 0, sp_TargetPort = FromInt32 0\<rparr>)
          else Some port)"

text \<open>
  The hosts of a forwarding, sorted by the bytes of their address. The sort is stable up to twelve
  elements; hosts with equal keys (the same address, or no address) keep their order.
\<close>

definition target_hosts :: "service \<Rightarrow> endpointSlice list \<Rightarrow> string list" where
  "target_hosts svc ess =
     sort_key (\<lambda>a. bytes_key (ParseIP a))
       (if svc_ClusterIP svc \<noteq> ClusterIPNone then [svc_ClusterIP svc]
        else concat (map (\<lambda>es. concat (map en_Addresses
               (filter (\<lambda>e. Deref (en_Ready e) False) (es_Endpoints es)))) ess))"

section \<open>What has to change\<close>

record sync_state =
  sy_forwarded :: "(intOrString \<times> ForwardedPort) list"
  sy_additions :: "ForwardedPort list"
  sy_deletions :: "ForwardedPort list"
  sy_unchanged :: "ForwardedPort list"
  sy_errors :: "ForwardedPort list"

text \<open>The ports recorded for this node, by source port (a later entry replaces an earlier one).\<close>

definition recorded_ports :: "string \<Rightarrow> PortForwardingObject \<Rightarrow> ForwardedPort list" where
  "recorded_ports node pf = (case List.find (\<lambda>ns. ns_NodeName ns = node) (pfo_Status pf) of
      None \<Rightarrow> [] | Some ns \<Rightarrow> ns_ForwardedPorts ns)"

definition recorded_map :: "string \<Rightarrow> PortForwardingObject \<Rightarrow> (intOrString \<times> ForwardedPort) list" where
  "recorded_map node pf = fold (\<lambda>e m. AList.update (fp_SourcePort e) e m) (recorded_ports node pf) []"

definition source_port :: "PortForwardingPort \<Rightarrow> servicePort \<Rightarrow> intOrString" where
  "source_port forwarding sp = (case pfp_HostPort forwarding of
      None \<Rightarrow> FromInt32 (sp_Port sp) | Some h \<Rightarrow> FromInt32 h)"

definition sync_port :: "service \<Rightarrow> endpointSlice list \<Rightarrow> PortForwardingPort \<Rightarrow> sync_state \<Rightarrow> sync_state" where
  "sync_port svc ess forwarding st =
     (case FindServicePort svc (pfp_Target forwarding) ess of
        None \<Rightarrow> st\<lparr>sy_errors := sy_errors st @
          [\<lparr>fp_Protocol = [], fp_SourcePort = pfp_Target forwarding, fp_TargetHosts = [], fp_TargetPort = 0,
            fp_State = PortForwardingFailed\<rparr>]\<rparr>
      | Some sp \<Rightarrow>
          let hosts = target_hosts svc ess; src = source_port forwarding sp; proto = sp_Protocol sp;
              new = \<lparr>fp_Protocol = proto, fp_SourcePort = src, fp_TargetHosts = hosts,
                     fp_TargetPort = sp_Port sp, fp_State = PortForwardingReady\<rparr> in
          (case map_of (sy_forwarded st) src of
             None \<Rightarrow> st\<lparr>sy_additions := sy_additions st @ [new]\<rparr>
           | Some old \<Rightarrow>
               let st' = st\<lparr>sy_forwarded := AList.delete src (sy_forwarded st)\<rparr> in
               if fp_Protocol old \<noteq> proto \<or> fp_SourcePort old \<noteq> src \<or> hosts \<noteq> fp_TargetHosts old
               then st'\<lparr>sy_deletions := sy_deletions st @ [old], sy_additions := sy_additions st @ [new]\<rparr>
               else st'\<lparr>sy_unchanged := sy_unchanged st @ [old]\<rparr>))"

text \<open>
  \<open>SyncForwardingPorts\<close>: additions, deletions, unchanged, errors. What is left in the map is deleted
  in the order \<open>ord\<close> in which Go ranges over it.
\<close>

definition SyncForwardingPorts :: "(ForwardedPort list \<Rightarrow> ForwardedPort list) \<Rightarrow> string \<Rightarrow> PortForwardingObject \<Rightarrow>
    service \<Rightarrow> endpointSlice list \<Rightarrow> ForwardedPort list \<times> ForwardedPort list \<times> ForwardedPort list \<times> ForwardedPort list" where
  "SyncForwardingPorts ord node pf svc ess =
     (let st = fold (sync_port svc ess) (pfo_Ports pf)
            \<lparr>sy_forwarded = recorded_map node pf, sy_additions = [], sy_deletions = [], sy_unchanged = [], sy_errors = []\<rparr> in
      (sy_additions st, sy_deletions st @ ord (map snd (sy_forwarded st)), sy_unchanged st, sy_errors st))"


section \<open>Facts\<close>

text \<open>What a forwarding of the spec asks for, if its target can be found.\<close>

definition desired :: "service \<Rightarrow> endpointSlice list \<Rightarrow> PortForwardingPort \<Rightarrow> ForwardedPort option" where
  "desired svc ess forwarding = (case FindServicePort svc (pfp_Target forwarding) ess of
      None \<Rightarrow> None
    | Some sp \<Rightarrow> Some \<lparr>fp_Protocol = sp_Protocol sp, fp_SourcePort = source_port forwarding sp,
        fp_TargetHosts = target_hosts svc ess, fp_TargetPort = sp_Port sp, fp_State = PortForwardingReady\<rparr>)"

definition failed_port :: "PortForwardingPort \<Rightarrow> ForwardedPort" where
  "failed_port forwarding = \<lparr>fp_Protocol = [], fp_SourcePort = pfp_Target forwarding, fp_TargetHosts = [],
     fp_TargetPort = 0, fp_State = PortForwardingFailed\<rparr>"

text \<open>Recorded and desired agree on what the comparison looks at.\<close>

definition agrees :: "ForwardedPort \<Rightarrow> ForwardedPort \<Rightarrow> bool" where
  "agrees old new \<longleftrightarrow> fp_Protocol old = fp_Protocol new \<and> fp_SourcePort old = fp_SourcePort new \<and>
     fp_TargetHosts old = fp_TargetHosts new"

lemma sync_port_desired:
  "sync_port svc ess f st = (case desired svc ess f of
      None \<Rightarrow> st\<lparr>sy_errors := sy_errors st @ [failed_port f]\<rparr>
    | Some new \<Rightarrow> (case map_of (sy_forwarded st) (fp_SourcePort new) of
        None \<Rightarrow> st\<lparr>sy_additions := sy_additions st @ [new]\<rparr>
      | Some old \<Rightarrow>
          let st' = st\<lparr>sy_forwarded := AList.delete (fp_SourcePort new) (sy_forwarded st)\<rparr> in
          if agrees old new then st'\<lparr>sy_unchanged := sy_unchanged st @ [old]\<rparr>
          else st'\<lparr>sy_deletions := sy_deletions st @ [old], sy_additions := sy_additions st @ [new]\<rparr>))"
  by (auto simp: sync_port_def desired_def failed_port_def agrees_def Let_def split: option.split)

lemma distinct_recorded_map: "distinct (map fst (recorded_map node pf))"
proof -
  have "distinct (map fst (fold (\<lambda>e m. AList.update (fp_SourcePort e) e m) es m))"
    if "distinct (map fst m)" for es and m :: "(intOrString \<times> ForwardedPort) list"
    using that by (induction es arbitrary: m) (auto intro: AList.distinct_update)
  then show ?thesis by (simp add: recorded_map_def)
qed

lemma mset_delete:
  assumes "distinct (map fst m)" and "map_of m k = Some v"
  shows "mset (map snd m) = add_mset v (mset (map snd (AList.delete k m)))"
  using assms
proof (induction m)
  case Nil
  then show ?case by simp
next
  case (Cons e m)
  obtain k' v' where e: "e = (k', v')" by (cases e)
  show ?case
  proof (cases "k' = k")
    case True
    then have "k \<notin> fst ` set m" using Cons.prems(1) e by auto
    then have "AList.delete k m = m" by (simp add: delete_id)
    with True e Cons.prems(2) show ?thesis by simp
  next
    case False
    with e Cons show ?thesis by simp
  qed
qed

lemma sync_fold:
  assumes "distinct (map fst (sy_forwarded st))" and "st' = fold (sync_port svc ess) ports st"
  shows "length (sy_additions st') + length (sy_unchanged st') + length (sy_errors st') =
      length (sy_additions st) + length (sy_unchanged st) + length (sy_errors st) + length ports \<and>
    mset (sy_deletions st') + mset (sy_unchanged st') + mset (map snd (sy_forwarded st')) =
      mset (sy_deletions st) + mset (sy_unchanged st) + mset (map snd (sy_forwarded st)) \<and>
    set (sy_additions st') \<subseteq> set (sy_additions st) \<union> {new. \<exists>f \<in> set ports. desired svc ess f = Some new} \<and>
    set (sy_unchanged st') \<subseteq> set (sy_unchanged st) \<union>
      {old. \<exists>f \<in> set ports. \<exists>new. desired svc ess f = Some new \<and> agrees old new}"
  using assms
proof (induction ports arbitrary: st)
  case Nil
  then show ?case by simp
next
  case (Cons f ports)
  let ?st = "sync_port svc ess f st"
  have dist: "distinct (map fst (sy_forwarded ?st))"
    using Cons.prems(1) by (auto simp: sync_port_desired Let_def distinct_delete split: option.split)
  have step: "length (sy_additions ?st) + length (sy_unchanged ?st) + length (sy_errors ?st) =
      length (sy_additions st) + length (sy_unchanged st) + length (sy_errors st) + 1"
    "mset (sy_deletions ?st) + mset (sy_unchanged ?st) + mset (map snd (sy_forwarded ?st)) =
      mset (sy_deletions st) + mset (sy_unchanged st) + mset (map snd (sy_forwarded st))"
    "set (sy_additions ?st) \<subseteq> set (sy_additions st) \<union> {new. desired svc ess f = Some new}"
    "set (sy_unchanged ?st) \<subseteq> set (sy_unchanged st) \<union> {old. \<exists>new. desired svc ess f = Some new \<and> agrees old new}"
    using mset_delete [OF Cons.prems(1)]
    by (auto simp: sync_port_desired Let_def split: option.split)
  have "st' = fold (sync_port svc ess) ports ?st" using Cons.prems(2) by simp
  from Cons.IH [OF dist this] step show ?case by auto
qed

lemma SyncForwardingPorts_partition_plain:
  assumes "SyncForwardingPorts ord node pf svc ess = (additions, deletions, unchanged, errors)"
    and "\<And>xs. mset (ord xs) = mset xs"
  shows "length additions + length unchanged + length errors = length (pfo_Ports pf) \<and>
    mset deletions + mset unchanged = mset (map snd (recorded_map node pf)) \<and>
    (\<forall>new \<in> set additions. \<exists>f \<in> set (pfo_Ports pf). desired svc ess f = Some new) \<and>
    (\<forall>old \<in> set unchanged. \<exists>f \<in> set (pfo_Ports pf). \<exists>new. desired svc ess f = Some new \<and> agrees old new)"
proof -
  let ?start = "\<lparr>sy_forwarded = recorded_map node pf, sy_additions = [], sy_deletions = [], sy_unchanged = [], sy_errors = []\<rparr>"
  let ?final = "fold (sync_port svc ess) (pfo_Ports pf) ?start"
  have parts: "additions = sy_additions ?final" "deletions = sy_deletions ?final @ ord (map snd (sy_forwarded ?final))"
    "unchanged = sy_unchanged ?final" "errors = sy_errors ?final"
    using assms(1) by (simp_all add: SyncForwardingPorts_def Let_def)
  have "mset deletions + mset unchanged =
      mset (sy_deletions ?final) + mset (sy_unchanged ?final) + mset (map snd (sy_forwarded ?final))"
    using assms(2) by (simp add: parts)
  with sync_fold [where st = ?start and ports = "pfo_Ports pf" and svc = svc and ess = ess, OF _ refl]
    distinct_recorded_map [of node pf]
  show ?thesis by (auto simp: parts)
qed


text \<open>A recorded status that agrees with the spec.\<close>

lemma sync_fold_stable:
  assumes "list_all2 (\<lambda>f old. \<exists>new. desired svc ess f = Some new \<and> agrees old new) ports olds"
    and "distinct (map fp_SourcePort olds)"
    and "sy_forwarded st = map (\<lambda>e. (fp_SourcePort e, e)) olds"
  shows "fold (sync_port svc ess) ports st = st\<lparr>sy_forwarded := [], sy_unchanged := sy_unchanged st @ olds\<rparr>"
  using assms
proof (induction ports olds arbitrary: st rule: list_all2_induct)
  case Nil
  then show ?case by simp
next
  case (Cons f ports old olds)
  obtain new where new: "desired svc ess f = Some new" "agrees old new" using Cons.hyps(1) by blast
  let ?rest = "map (\<lambda>e. (fp_SourcePort e, e)) olds"
  have "fp_SourcePort old \<notin> fst ` set ?rest" using Cons.prems(1) by force
  then have "AList.delete (fp_SourcePort old) ?rest = ?rest" by (simp add: delete_id)
  then have "sync_port svc ess f st = st\<lparr>sy_forwarded := ?rest, sy_unchanged := sy_unchanged st @ [old]\<rparr>"
    using new Cons.prems(2) by (simp add: sync_port_desired Let_def agrees_def)
  then show ?case using Cons.IH Cons.prems(1) by simp
qed

lemma update_new: "k \<notin> fst ` set m \<Longrightarrow> AList.update k v m = m @ [(k, v)]"
  by (induction m) auto

lemma recorded_map_distinct:
  assumes "distinct (map fp_SourcePort (recorded_ports node pf))"
  shows "recorded_map node pf = map (\<lambda>e. (fp_SourcePort e, e)) (recorded_ports node pf)"
proof -
  have "fold (\<lambda>e m. AList.update (fp_SourcePort e) e m) es m = m @ map (\<lambda>e. (fp_SourcePort e, e)) es"
    if "distinct (map fp_SourcePort es)" "fp_SourcePort ` set es \<inter> fst ` set m = {}"
    for es and m :: "(intOrString \<times> ForwardedPort) list"
    using that
  proof (induction es arbitrary: m)
    case Nil
    then show ?case by simp
  next
    case (Cons e es)
    have "AList.update (fp_SourcePort e) e m = m @ [(fp_SourcePort e, e)]"
      using Cons.prems(2) by (intro update_new) auto
    with Cons show ?case by auto
  qed
  with assms show ?thesis by (simp add: recorded_map_def)
qed

text \<open>
  A fixpoint: when the recorded ports agree, one by one, with what the spec asks for, nothing is
  added and nothing deleted.
\<close>

theorem SyncForwardingPorts_fixpoint:
  assumes "list_all2 (\<lambda>f old. \<exists>new. desired svc ess f = Some new \<and> agrees old new)
      (pfo_Ports pf) (recorded_ports node pf)"
    and "distinct (map fp_SourcePort (recorded_ports node pf))" and "ord [] = []"
  shows "SyncForwardingPorts ord node pf svc ess = ([], [], recorded_ports node pf, [])"
proof -
  let ?start = "\<lparr>sy_forwarded = recorded_map node pf, sy_additions = [], sy_deletions = [], sy_unchanged = [], sy_errors = []\<rparr>"
  have "fold (sync_port svc ess) (pfo_Ports pf) ?start =
      ?start\<lparr>sy_forwarded := [], sy_unchanged := sy_unchanged ?start @ recorded_ports node pf\<rparr>"
    by (rule sync_fold_stable [OF assms(1,2)]) (simp add: recorded_map_distinct [OF assms(2)])
  with assms(3) show ?thesis by (simp add: SyncForwardingPorts_def)
qed

text \<open>
  An unnamed port of a service with a cluster address is the target of every number: the
  comparison of names holds for two empty names.
\<close>

theorem FindServicePort_unnamed:
  assumes "svc_Ports svc = p # ps" and "sp_Name p = []" and "svc_ClusterIP svc \<noteq> ClusterIPNone"
  shows "FindServicePort svc (FromInt32 n) ess = Some p"
  using assms by (simp add: FindServicePort_def FromInt32_def)

text \<open>A service whose port moved from 80 to 8080, forwarded from host port 90 by name.\<close>

definition demo_service :: "int \<Rightarrow> service" where
  "demo_service n = \<lparr>svc_Namespace = ''default'', svc_Name = ''web'', svc_ClusterIP = ''10.0.0.1'',
     svc_Ports = [\<lparr>sp_Name = ''http'', sp_Protocol = TCP, sp_Port = n, sp_TargetPort = FromInt32 80\<rparr>]\<rparr>"

definition demo_forwarding :: "PortForwardingPort" where
  "demo_forwarding = \<lparr>pfp_Target = \<lparr>ios_Type = StringType, ios_IntVal = 0, ios_StrVal = ''http''\<rparr>, pfp_HostPort = Some 90\<rparr>"

text \<open>
  A change of the target port alone is not noticed: the recorded forwarding to the old port
  counts as unchanged and the desired one is not added.
\<close>

theorem SyncForwardingPorts_ignores_target_port:
  assumes "desired svc ess f = Some new" and "agrees old new" and "pfo_Ports pf = [f]"
    and "recorded_ports node pf = [old]" and "fp_TargetPort old \<noteq> fp_TargetPort new" and "ord [] = []"
  shows "SyncForwardingPorts ord node pf svc ess = ([], [], [old], [])"
proof -
  have m: "recorded_map node pf = [(fp_SourcePort old, old)]"
    using recorded_map_distinct [of node pf] assms(4) by simp
  show ?thesis
    using assms(1-3,6) by (simp add: SyncForwardingPorts_def m sync_port_desired Let_def agrees_def)
qed

section \<open>Examples\<close>

definition demo_object :: "ForwardedPort list \<Rightarrow> PortForwardingObject" where
  "demo_object ports = \<lparr>pfo_Namespace = ''default'', pfo_Name = ''fwd'', pfo_Deleted = False, pfo_Finalizers = [],
     pfo_ServiceRef = ''web'', pfo_Ports = [demo_forwarding],
     pfo_Status = [\<lparr>ns_NodeName = ''n1'', ns_ForwardedPorts = ports\<rparr>]\<rparr>"

definition demo_port :: "int \<Rightarrow> ForwardedPort" where
  "demo_port n = \<lparr>fp_Protocol = TCP, fp_SourcePort = FromInt32 90, fp_TargetHosts = [''10.0.0.1''],
     fp_TargetPort = n, fp_State = PortForwardingReady\<rparr>"

lemma demo_port_simps [simp]: "fp_TargetPort (demo_port n) = n" "fp_State (demo_port n) = PortForwardingReady"
  by (simp_all add: demo_port_def)

lemma demo_desired [simp]: "desired (demo_service n) [] demo_forwarding = Some (demo_port n)"
  by (simp add: desired_def FindServicePort_def demo_service_def demo_forwarding_def ClusterIPNone_def
      source_port_def target_hosts_def demo_port_def)

lemma demo_recorded [simp]: "recorded_ports ''n1'' (demo_object ports) = ports" "recorded_ports ''n2'' (demo_object ports) = []"
  "pfo_Ports (demo_object ports) = [demo_forwarding]"
  by (simp_all add: recorded_ports_def demo_object_def)

lemma demo_agrees [simp]: "agrees (demo_port m) (demo_port n)"
  by (simp add: agrees_def demo_port_def)


lemma SyncForwardingPorts_fixpoint_witness:
  "SyncForwardingPorts (\<lambda>xs. xs) ''n1'' (demo_object [demo_port 80]) (demo_service 80) [] = ([], [], [demo_port 80], [])"
  using SyncForwardingPorts_fixpoint [of "demo_service 80" "[]" "demo_object [demo_port 80]" "''n1''" "\<lambda>xs. xs"]
  by simp

lemma SyncForwardingPorts_ignores_target_port_witness:
  "SyncForwardingPorts (\<lambda>xs. xs) ''n1'' (demo_object [demo_port 80]) (demo_service 8080) [] = ([], [], [demo_port 80], [])"
  by (rule SyncForwardingPorts_ignores_target_port [of _ _ demo_forwarding "demo_port 8080"]) simp_all

end
