(* ===== verification/Transport.thy ===== *)
theory Transport
  imports Strings
begin

text \<open>
  Package \<open>internal/portforwarding/transport\<close> on Linux: whether a port is in use, from the kernel's
  socket tables. The file system is an argument: the content of a file, or the error of opening it.
\<close>

definition BPF_TCP_LISTEN :: "8 word" where "BPF_TCP_LISTEN = 0xa"
definition UdpConn :: "8 word" where "UdpConn = 0x7"

text \<open>One line of the table: does it hold the port in a state that has the bits of the mask?\<close>

definition field :: "string list \<Rightarrow> nat \<Rightarrow> string result" where
  "field fs i = (if i < length fs then Ok (fs ! i) else Panic IndexOutOfRange)"

definition check_line :: "nat \<Rightarrow> 8 word \<Rightarrow> string \<Rightarrow> bool result" where
  "check_line port bits line =
     (let fields = Fields line in
      andRes (field fields 1) (\<lambda>f1.
        let localAddr = Split f1 (CHR '':'') in
        if length localAddr = 2 then
          (case ParseUint16_64 (localAddr ! 1) of
             Ok localPort \<Rightarrow> andRes (field fields 3) (\<lambda>f3.
               case ParseUint16_64 f3 of
                 Ok st \<Rightarrow> Ok (localPort = port \<and> and (word_of_nat st) bits = bits)
               | _ \<Rightarrow> Ok False)
           | _ \<Rightarrow> Ok False)
        else Ok False))"

fun check_lines :: "nat \<Rightarrow> 8 word \<Rightarrow> string list \<Rightarrow> bool result" where
  "check_lines port bits [] = Ok False"
| "check_lines port bits (l # ls) =
     andRes (check_line port bits l) (\<lambda>found. if found then Ok True else check_lines port bits ls)"

definition parseAndCheck :: "string \<Rightarrow> nat \<Rightarrow> 8 word \<Rightarrow> bool result" where
  "parseAndCheck content port bits = check_lines port bits (scan_lines content)"

definition isListening :: "(string \<Rightarrow> string result) \<Rightarrow> string \<Rightarrow> 16 word \<Rightarrow> 8 word \<Rightarrow> bool result" where
  "isListening fs filename port bits =
     andRes (fs filename) (\<lambda>content. parseAndCheck content (unat port) bits)"

definition tcpListening :: "(string \<Rightarrow> string result) \<Rightarrow> 16 word \<Rightarrow> bool result" where
  "tcpListening fs port =
     andRes (isListening fs ''/proc/net/tcp'' port BPF_TCP_LISTEN) (\<lambda>listening.
       if listening then Ok True else isListening fs ''/proc/net/tcp6'' port BPF_TCP_LISTEN)"

definition udpListening :: "(string \<Rightarrow> string result) \<Rightarrow> 16 word \<Rightarrow> bool result" where
  "udpListening fs port =
     andRes (isListening fs ''/proc/net/udp'' port UdpConn) (\<lambda>listening.
       if listening then Ok True else isListening fs ''/proc/net/udp6'' port UdpConn)"

definition IsListening :: "(string \<Rightarrow> string result) \<Rightarrow> protocol \<Rightarrow> 16 word \<Rightarrow> bool result" where
  "IsListening fs proto port =
     (if proto = TCP then tcpListening fs port
      else if proto = UDP then udpListening fs port
      else Err (EText (''unknown transport protocol: '' @ proto)))"

section \<open>Facts\<close>

text \<open>A line of a socket table: it has the fields the parser indexes.\<close>

definition wellformed_line :: "string \<Rightarrow> bool" where
  "wellformed_line l \<longleftrightarrow> 4 \<le> length (Fields l)"

text \<open>The local port and state of a line, if it has both.\<close>

definition line_entry :: "string \<Rightarrow> (nat \<times> nat) option" where
  "line_entry l = (case Split (Fields l ! 1) (CHR '':'') of
      [a, p] \<Rightarrow> (case (ParseUint16_64 p, ParseUint16_64 (Fields l ! 3)) of
          (Ok port, Ok st) \<Rightarrow> Some (port, st) | _ \<Rightarrow> None)
    | _ \<Rightarrow> None)"

lemma check_line_entry:
  assumes "wellformed_line l"
  shows "check_line port bits l = Ok (\<exists>st. line_entry l = Some (port, st) \<and> and (word_of_nat st) bits = bits)"
proof -
  have "1 < length (Fields l)" "3 < length (Fields l)" using assms by (auto simp: wellformed_line_def)
  then show ?thesis
    by (cases "Split (Fields l ! 1) (CHR '':'')" rule: remdups_adj.cases)
      (auto simp: check_line_def field_def line_entry_def Let_def split: result.split list.split)
qed

lemma check_lines_wellformed:
  assumes "list_all wellformed_line ls"
  shows "check_lines port bits ls =
    Ok (\<exists>l \<in> set ls. \<exists>st. line_entry l = Some (port, st) \<and> and (word_of_nat st) bits = bits)"
  using assms by (induction ls) (auto simp: check_line_entry)

text \<open>
  On a table whose lines have their fields, the parser reports a port as in use exactly when
  some line has it as its local port, in a state that carries the mask, and it never panics.
\<close>

theorem parseAndCheck_iff:
  assumes "list_all wellformed_line (scan_lines content)"
  shows "parseAndCheck content port bits =
    Ok (\<exists>l \<in> set (scan_lines content). \<exists>st. line_entry l = Some (port, st) \<and> and (word_of_nat st) bits = bits)"
  using check_lines_wellformed [OF assms] by (simp add: parseAndCheck_def)

definition demo_line :: string where
  "demo_line = ''0: 0100007F:0016 00000000:0000 0A''"

lemma parseAndCheck_iff_witness:
  "parseAndCheck demo_line 22 BPF_TCP_LISTEN = Ok True"
proof -
  have nl: "newline = CHR 0x0A" "char_of (13::nat) = CHR 0x0D" by code_simp+
  have l: "scan_lines demo_line = [demo_line]"
    by (simp add: scan_lines.simps demo_line_def nl drop_cr_def Let_def)
  have f: "Fields demo_line = [''0:'', ''0100007F:0016'', ''00000000:0000'', ''0A'']"
    by (simp add: Fields_def demo_line_def is_space_def)
  have e: "line_entry demo_line = Some (22, 10)"
    unfolding line_entry_def f by (simp add: Split_def ParseUint16_64_def hex_val_def digit_val_def is_digit_def)
  have "list_all wellformed_line (scan_lines demo_line)" by (simp add: l wellformed_line_def f)
  from parseAndCheck_iff [OF this] show ?thesis by (simp add: l e BPF_TCP_LISTEN_def)
qed

text \<open>
  Of the TCP states of the kernel (1 to 12) the mask test accepts LISTEN and, with it, CLOSING.
\<close>

theorem listen_mask_states:
  "(\<forall>st \<in> {1..12::nat}. and (word_of_nat st) BPF_TCP_LISTEN = BPF_TCP_LISTEN \<longleftrightarrow> st = 10 \<or> st = 11)"
proof -
  have "{1..12::nat} = set [1..<13]" by auto
  also have "\<dots> = {1,2,3,4,5,6,7,8,9,10,11,12}" by (simp add: upt_rec eval_nat_numeral)
  finally show ?thesis by (simp add: BPF_TCP_LISTEN_def)
qed

lemma listen_mask_states_witness: "and (word_of_nat 11) BPF_TCP_LISTEN = BPF_TCP_LISTEN"
  using listen_mask_states by (rule ballE [of _ _ 11]) simp_all

lemma IsListening_protocol: "IsListening fs proto port = Ok b \<Longrightarrow> proto = TCP \<or> proto = UDP"
  by (auto simp: IsListening_def split: if_splits)

end
