(* ===== verification/Guard.thy ===== *)
theory Guard
  imports Transport
begin

text \<open>
  \<open>internal/portforwarding/portforwarding.go\<close>: the guard around an implementation of port
  forwarding. The implementation is a record of steps on its own state \<open>'u\<close>, which stands for the
  whole machine: the socket tables the guard reads are a function of it. Each method holds the
  mutex from start to end, so that calls are steps.
\<close>

section \<open>The interface and the guard\<close>

record 'u PortForwarding =
  pf_Add :: "protocol \<Rightarrow> 16 word \<Rightarrow> string list \<Rightarrow> 16 word \<Rightarrow> string \<Rightarrow> ('u, unit) step"
  pf_Remove :: "protocol \<Rightarrow> 16 word \<Rightarrow> string list \<Rightarrow> 16 word \<Rightarrow> ('u, unit) step"
  pf_Close :: "('u, unit) step"

definition ErrPortAlreadyInuse :: go_error where
  "ErrPortAlreadyInuse = ESentinel ''port already in use''"

definition ErrPortNotForwarded :: go_error where
  "ErrPortNotForwarded = ESentinel ''port is not forwarded yet''"

definition ErrPortAlreadyForwarded :: go_error where
  "ErrPortAlreadyForwarded = ESentinel ''port already forwarded''"

record 'u guardPortForwarding =
  gpf_underlying :: 'u
  gpf_listens :: "protocol \<rightharpoonup> 16 word set"

definition guard_New :: "'u \<Rightarrow> 'u guardPortForwarding" where
  "guard_New u = \<lparr>gpf_underlying = u, gpf_listens = [TCP \<mapsto> {}, UDP \<mapsto> {}]\<rparr>"

text \<open>\<open>New\<close>: the implementation chosen, or the error of choosing it.\<close>

definition New :: "'u result \<Rightarrow> 'u guardPortForwarding result" where
  "New found = andRes found (\<lambda>u. Ok (guard_New u))"

text \<open>A set of \<open>k8s.io/utils/set\<close> is a map: a nil one has no elements and cannot be written.\<close>

definition listens_Has :: "'u guardPortForwarding \<Rightarrow> protocol \<Rightarrow> 16 word \<Rightarrow> bool" where
  "listens_Has g proto port = (case gpf_listens g proto of None \<Rightarrow> False | Some s \<Rightarrow> port \<in> s)"

definition listens_Insert :: "protocol \<Rightarrow> 16 word \<Rightarrow> ('u guardPortForwarding, unit) step" where
  "listens_Insert proto port g = (case gpf_listens g proto of
      None \<Rightarrow> (Panic NilMapWrite, g)
    | Some s \<Rightarrow> (Ok (), g\<lparr>gpf_listens := (gpf_listens g)(proto \<mapsto> insert port s)\<rparr>))"

definition listens_Delete :: "protocol \<Rightarrow> 16 word \<Rightarrow> ('u guardPortForwarding, unit) step" where
  "listens_Delete proto port g = (case gpf_listens g proto of
      None \<Rightarrow> (Ok (), g)
    | Some s \<Rightarrow> (Ok (), g\<lparr>gpf_listens := (gpf_listens g)(proto \<mapsto> s - {port})\<rparr>))"

definition on_underlying :: "('u, 'a) step \<Rightarrow> ('u guardPortForwarding, 'a) step" where
  "on_underlying f g = (case f (gpf_underlying g) of (r, u) \<Rightarrow> (r, g\<lparr>gpf_underlying := u\<rparr>))"

text \<open>\<open>fs u\<close> is the file system in machine state \<open>u\<close>.\<close>

definition guard_Add :: "'u PortForwarding \<Rightarrow> ('u \<Rightarrow> string \<Rightarrow> string result) \<Rightarrow> protocol \<Rightarrow> 16 word \<Rightarrow> string list \<Rightarrow>
    16 word \<Rightarrow> string \<Rightarrow> ('u guardPortForwarding, unit) step" where
  "guard_Add P fs proto port target to comment g =
     (if listens_Has g proto port then (Err ErrPortAlreadyForwarded, g)
      else case IsListening (fs (gpf_underlying g)) proto port of
        Err e \<Rightarrow> (Err (EWrap ''failed to check ip port in the machine is listening'' e), g)
      | Panic p \<Rightarrow> (Panic p, g)
      | Ok listening \<Rightarrow>
          if listening then (Err ErrPortAlreadyInuse, g)
          else andThen (on_underlying (pf_Add P proto port target to comment)) (\<lambda>_.
            listens_Insert proto port) g)"

definition guard_Remove :: "'u PortForwarding \<Rightarrow> protocol \<Rightarrow> 16 word \<Rightarrow> string list \<Rightarrow> 16 word \<Rightarrow>
    ('u guardPortForwarding, unit) step" where
  "guard_Remove P proto port target to g =
     (if \<not> listens_Has g proto port then (Err ErrPortNotForwarded, g)
      else andThen (on_underlying (pf_Remove P proto port target to)) (\<lambda>_. listens_Delete proto port) g)"

definition guard_Close :: "'u PortForwarding \<Rightarrow> ('u guardPortForwarding, unit) step" where
  "guard_Close P = on_underlying (pf_Close P)"

section \<open>The contract of port forwarding\<close>

text \<open>
  What a client of the interface relies on: a set of active forwardings, changed by successful
  calls only; adding an active one and removing an inactive one are refused and change nothing.
\<close>

locale port_forwarding =
  fixes add :: "protocol \<Rightarrow> 16 word \<Rightarrow> string list \<Rightarrow> 16 word \<Rightarrow> string \<Rightarrow> ('s, unit) step"
    and remove :: "protocol \<Rightarrow> 16 word \<Rightarrow> string list \<Rightarrow> 16 word \<Rightarrow> ('s, unit) step"
    and active :: "'s \<Rightarrow> (protocol \<times> 16 word) set"
    and ok :: "'s \<Rightarrow> bool"
  assumes add_twice: "(p, f) \<in> active s \<Longrightarrow> add p f t to c s = (Err ErrPortAlreadyForwarded, s)"
    and add_success: "ok s \<Longrightarrow> add p f t to c s = (Ok (), s') \<Longrightarrow> active s' = insert (p, f) (active s)"
    and add_failure: "ok s \<Longrightarrow> add p f t to c s = (r, s') \<Longrightarrow> r \<noteq> Ok () \<Longrightarrow> active s' = active s"
    and add_keeps: "ok s \<Longrightarrow> ok (snd (add p f t to c s))"
    and remove_inactive: "(p, f) \<notin> active s \<Longrightarrow> remove p f t to s = (Err ErrPortNotForwarded, s)"
    and remove_success: "ok s \<Longrightarrow> remove p f t to s = (Ok (), s') \<Longrightarrow> active s' = active s - {(p, f)}"
    and remove_failure: "ok s \<Longrightarrow> remove p f t to s = (r, s') \<Longrightarrow> r \<noteq> Ok () \<Longrightarrow> active s' = active s"
    and remove_keeps: "ok s \<Longrightarrow> ok (snd (remove p f t to s))"
begin

lemma add_active:
  assumes "ok s" and "add p f t to c s = (Ok (), s')"
  shows "(p, f) \<notin> active s" and "(p, f) \<in> active s'"
  using add_twice [of p f s t to c] add_success [OF assms] assms(2) by auto

lemma remove_active:
  assumes "ok s" and "remove p f t to s = (Ok (), s')"
  shows "(p, f) \<in> active s" and "(p, f) \<notin> active s'"
  using remove_inactive [of p f s t to] remove_success [OF assms] assms(2) by auto

lemma add_others:
  assumes "ok s" and "add p f t to c s = (r, s')" and "(q, h) \<noteq> (p, f)"
  shows "(q, h) \<in> active s' \<longleftrightarrow> (q, h) \<in> active s"
proof (cases "r = Ok ()")
  case True
  with add_success [OF assms(1)] assms(2,3) show ?thesis by auto
next
  case False
  with add_failure [OF assms(1,2)] show ?thesis by simp
qed

lemma remove_others:
  assumes "ok s" and "remove p f t to s = (r, s')" and "(q, h) \<noteq> (p, f)"
  shows "(q, h) \<in> active s' \<longleftrightarrow> (q, h) \<in> active s"
proof (cases "r = Ok ()")
  case True
  with remove_success [OF assms(1)] assms(2,3) show ?thesis by auto
next
  case False
  with remove_failure [OF assms(1,2)] show ?thesis by simp
qed

end

text \<open>
  A provider whose \<open>ErrPortNotForwarded\<close> can be believed: it is returned for inactive forwardings
  only.
\<close>

locale honest_forwarding = port_forwarding +
  assumes remove_honest: "ok s \<Longrightarrow> remove p f t to s = (Err e, s') \<Longrightarrow> errors_Is e ErrPortNotForwarded \<Longrightarrow>
      (p, f) \<notin> active s"

section \<open>The guard keeps the contract\<close>

definition forwarded :: "'u guardPortForwarding \<Rightarrow> (protocol \<times> 16 word) set" where
  "forwarded g = {(p, f). listens_Has g p f}"

text \<open>The guard's map always has its two protocols and no other.\<close>

definition guard_inv :: "'u guardPortForwarding \<Rightarrow> bool" where
  "guard_inv g \<longleftrightarrow> dom (gpf_listens g) = {TCP, UDP}"

lemma guard_inv_New [simp]: "guard_inv (guard_New u)"
  by (auto simp: guard_inv_def guard_New_def)

lemma forwarded_New [simp]: "forwarded (guard_New u) = {}"
  by (auto simp: forwarded_def listens_Has_def guard_New_def split: option.splits if_splits)

lemma forwarded_iff: "(p, f) \<in> forwarded g \<longleftrightarrow> listens_Has g p f"
  by (simp add: forwarded_def)

lemma forwarded_underlying [simp]:
  "forwarded (g\<lparr>gpf_underlying := u\<rparr>) = forwarded g" "guard_inv (g\<lparr>gpf_underlying := u\<rparr>) = guard_inv g"
  by (simp_all add: forwarded_def listens_Has_def guard_inv_def)

lemma on_underlying_frame:
  "on_underlying f g = (r, g') \<Longrightarrow> forwarded g' = forwarded g \<and> guard_inv g' = guard_inv g"
  by (auto simp: on_underlying_def split: prod.splits)

lemma forwarded_update:
  "forwarded (g\<lparr>gpf_listens := (gpf_listens g)(p \<mapsto> s)\<rparr>) = {(q, f) \<in> forwarded g. q \<noteq> p} \<union> Pair p ` s"
  unfolding forwarded_def listens_Has_def by (auto split: if_splits)

lemma forwarded_Some: "gpf_listens g p = Some s \<Longrightarrow> (p, f) \<in> forwarded g \<longleftrightarrow> f \<in> s"
  by (simp add: forwarded_def listens_Has_def)

lemma guard_inv_update:
  "guard_inv g \<Longrightarrow> gpf_listens g p = Some s \<Longrightarrow> guard_inv (g\<lparr>gpf_listens := (gpf_listens g)(p \<mapsto> s')\<rparr>)"
  using domI [of "gpf_listens g" p s] by (simp add: guard_inv_def insert_absorb)

lemma listens_Insert_ok:
  assumes "guard_inv g" and "p = TCP \<or> p = UDP"
  shows "\<exists>g'. listens_Insert p f g = (Ok (), g') \<and> guard_inv g' \<and> forwarded g' = insert (p, f) (forwarded g)"
proof -
  have "p \<in> dom (gpf_listens g)" using assms unfolding guard_inv_def by blast
  then obtain s where s: "gpf_listens g p = Some s" by blast
  have "{(q, h) \<in> forwarded g. q \<noteq> p} \<union> Pair p ` insert f s = insert (p, f) (forwarded g)"
    using forwarded_Some [OF s] by blast
  then show ?thesis
    using guard_inv_update [OF assms(1) s] s by (simp add: listens_Insert_def forwarded_update)
qed

lemma listens_Delete_ok:
  assumes "guard_inv g"
  shows "\<exists>g'. listens_Delete p f g = (Ok (), g') \<and> guard_inv g' \<and> forwarded g' = forwarded g - {(p, f)}"
proof (cases "gpf_listens g p")
  case None
  then have "(p, f) \<notin> forwarded g" by (simp add: forwarded_def listens_Has_def)
  with None assms show ?thesis by (simp add: listens_Delete_def)
next
  case (Some s)
  have "{(q, h) \<in> forwarded g. q \<noteq> p} \<union> Pair p ` (s - {f}) = forwarded g - {(p, f)}"
    using forwarded_Some [OF Some] by blast
  then show ?thesis
    using guard_inv_update [OF assms Some] Some by (simp add: listens_Delete_def forwarded_update)
qed

text \<open>The ways an addition and a removal end.\<close>

lemma guard_Add_cases:
  assumes "guard_inv g" and "guard_Add P fs p f t to c g = (r, g')"
  shows "(r = Ok () \<and> (p, f) \<notin> forwarded g \<and> (p = TCP \<or> p = UDP) \<and>
      IsListening (fs (gpf_underlying g)) p f = Ok False \<and> guard_inv g' \<and>
      forwarded g' = insert (p, f) (forwarded g)) \<or>
    (r \<noteq> Ok () \<and> guard_inv g' \<and> forwarded g' = forwarded g)"
proof (cases "\<not> listens_Has g p f \<and> IsListening (fs (gpf_underlying g)) p f = Ok False")
  case False
  then show ?thesis
    using assms by (auto simp: guard_Add_def split: if_splits result.splits)
next
  case True
  obtain r1 g1 where u: "on_underlying (pf_Add P p f t to c) g = (r1, g1)" by fastforce
  have prot: "p = TCP \<or> p = UDP" using True IsListening_protocol by blast
  have g1: "forwarded g1 = forwarded g" "guard_inv g1" using on_underlying_frame [OF u] assms(1) by auto
  have run: "guard_Add P fs p f t to c g = andThen (on_underlying (pf_Add P p f t to c)) (\<lambda>_. listens_Insert p f) g"
    using True by (simp add: guard_Add_def)
  show ?thesis
  proof (cases r1)
    case (Ok a)
    with run u assms(2) listens_Insert_ok [OF g1(2) prot, of f] g1 True prot show ?thesis
      by (auto simp: andThen_def forwarded_iff)
  qed (use run u assms(2) g1 in \<open>auto simp: andThen_def\<close>)
qed

lemma guard_Remove_cases:
  assumes "guard_inv g" and "guard_Remove P p f t to g = (r, g')"
  shows "(r = Ok () \<and> (p, f) \<in> forwarded g \<and> guard_inv g' \<and> forwarded g' = forwarded g - {(p, f)}) \<or>
    (r \<noteq> Ok () \<and> guard_inv g' \<and> forwarded g' = forwarded g)"
proof (cases "listens_Has g p f")
  case False
  then show ?thesis using assms by (auto simp: guard_Remove_def)
next
  case True
  obtain r1 g1 where u: "on_underlying (pf_Remove P p f t to) g = (r1, g1)" by fastforce
  have g1: "forwarded g1 = forwarded g" "guard_inv g1" using on_underlying_frame [OF u] assms(1) by auto
  show ?thesis
  proof (cases r1)
    case (Ok a)
    with True u assms(2) listens_Delete_ok [OF g1(2), of p f] g1 show ?thesis
      by (auto simp: andThen_def forwarded_iff guard_Remove_def)
  qed (use True u assms(2) g1 in \<open>auto simp: andThen_def guard_Remove_def\<close>)
qed

interpretation guard: port_forwarding "guard_Add P fs" "guard_Remove P" forwarded guard_inv
  for P :: "'u PortForwarding" and fs
proof
  fix p f t to c and s s' :: "'u guardPortForwarding" and r :: "unit result"
  show "(p, f) \<in> forwarded s \<Longrightarrow> guard_Add P fs p f t to c s = (Err ErrPortAlreadyForwarded, s)"
    by (simp add: guard_Add_def forwarded_iff)
  show "guard_inv s \<Longrightarrow> guard_Add P fs p f t to c s = (Ok (), s') \<Longrightarrow> forwarded s' = insert (p, f) (forwarded s)"
    using guard_Add_cases by blast
  show "guard_inv s \<Longrightarrow> guard_Add P fs p f t to c s = (r, s') \<Longrightarrow> r \<noteq> Ok () \<Longrightarrow> forwarded s' = forwarded s"
    using guard_Add_cases by blast
  show "guard_inv s \<Longrightarrow> guard_inv (snd (guard_Add P fs p f t to c s))"
    using guard_Add_cases [of s P fs p f t to c] by (metis prod.collapse)
  show "(p, f) \<notin> forwarded s \<Longrightarrow> guard_Remove P p f t to s = (Err ErrPortNotForwarded, s)"
    by (simp add: guard_Remove_def forwarded_iff)
  show "guard_inv s \<Longrightarrow> guard_Remove P p f t to s = (Ok (), s') \<Longrightarrow> forwarded s' = forwarded s - {(p, f)}"
    using guard_Remove_cases by blast
  show "guard_inv s \<Longrightarrow> guard_Remove P p f t to s = (r, s') \<Longrightarrow> r \<noteq> Ok () \<Longrightarrow> forwarded s' = forwarded s"
    using guard_Remove_cases by blast
  show "guard_inv s \<Longrightarrow> guard_inv (snd (guard_Remove P p f t to s))"
    using guard_Remove_cases [of s P p f t to] by (metis prod.collapse)
qed


text \<open>
  The guard is honest if what it guards does not itself return \<open>ErrPortNotForwarded\<close>.
\<close>

locale honest_implementation =
  fixes P :: "'u PortForwarding"
  assumes impl_honest: "pf_Remove P p f t to u = (Err e, u') \<Longrightarrow> \<not> errors_Is e ErrPortNotForwarded"

sublocale honest_implementation \<subseteq> honest_guard: honest_forwarding "guard_Add P fs" "guard_Remove P" forwarded guard_inv
  for fs
proof
  fix p f t to e and s s' :: "'u guardPortForwarding"
  assume "guard_inv s" and run: "guard_Remove P p f t to s = (Err e, s')" and e: "errors_Is e ErrPortNotForwarded"
  show "(p, f) \<notin> forwarded s"
  proof (rule ccontr)
    assume "\<not> (p, f) \<notin> forwarded s"
    then have "listens_Has s p f" by (simp add: forwarded_iff)
    moreover obtain r u where u: "pf_Remove P p f t to (gpf_underlying s) = (r, u)" by fastforce
    ultimately have "r = Err e"
      using run by (cases r)
        (auto simp: guard_Remove_def andThen_def on_underlying_def listens_Delete_def split: option.splits)
    with impl_honest u e show False by blast
  qed
qed

context honest_implementation begin

lemma guard_honest: "honest_forwarding (guard_Add P fs) (guard_Remove P) forwarded guard_inv"
  by (rule honest_guard.honest_forwarding_axioms)

end

section \<open>Histories\<close>

text \<open>
  The guard as a state machine that starts on machine state \<open>u0\<close>: calls in any order, and \<open>env\<close>
  steps of the rest of the machine in between.
\<close>

datatype pf_call =
    CallAdd protocol "16 word" "string list" "16 word" string
  | CallRemove protocol "16 word" "string list" "16 word"
  | CallClose

fun guard_exec :: "'u PortForwarding \<Rightarrow> ('u \<Rightarrow> string \<Rightarrow> string result) \<Rightarrow> pf_call \<Rightarrow> ('u guardPortForwarding, unit) step" where
  "guard_exec P fs (CallAdd p f t to c) = guard_Add P fs p f t to c"
| "guard_exec P fs (CallRemove p f t to) = guard_Remove P p f t to"
| "guard_exec P fs CallClose = guard_Close P"

inductive guard_run :: "'u PortForwarding \<Rightarrow> ('u \<Rightarrow> string \<Rightarrow> string result) \<Rightarrow> ('u \<Rightarrow> 'u \<Rightarrow> bool) \<Rightarrow> 'u \<Rightarrow>
    (pf_call \<times> unit result) list \<Rightarrow> 'u guardPortForwarding \<Rightarrow> bool" for P fs env u0 where
  start: "guard_run P fs env u0 [] (guard_New u0)"
| call: "guard_run P fs env u0 h g \<Longrightarrow> guard_exec P fs c g = (r, g') \<Longrightarrow> guard_run P fs env u0 (h @ [(c, r)]) g'"
| environment: "guard_run P fs env u0 h g \<Longrightarrow> env (gpf_underlying g) u \<Longrightarrow>
    guard_run P fs env u0 h (g\<lparr>gpf_underlying := u\<rparr>)"

inductive_cases guard_run_NilE: "guard_run P fs env u0 [] g"
inductive_simps guard_run_snoc: "guard_run P fs env u0 (h @ [(c, r)]) g"

text \<open>The abstract machine: the successful calls alone decide what is active.\<close>

fun spec_step :: "(protocol \<times> 16 word) set \<Rightarrow> pf_call \<times> unit result \<Rightarrow> (protocol \<times> 16 word) set" where
  "spec_step A (CallAdd p f t to c, Ok _) = insert (p, f) A"
| "spec_step A (CallRemove p f t to, Ok _) = A - {(p, f)}"
| "spec_step A _ = A"

definition spec_active :: "(pf_call \<times> unit result) list \<Rightarrow> (protocol \<times> 16 word) set" where
  "spec_active h = foldl spec_step {} h"

text \<open>The successful additions (\<open>True\<close>) and removals (\<open>False\<close>) of one forwarding, in order.\<close>

fun event_of :: "protocol \<times> 16 word \<Rightarrow> pf_call \<times> unit result \<Rightarrow> bool option" where
  "event_of k (CallAdd p f t to c, Ok _) = (if k = (p, f) then Some True else None)"
| "event_of k (CallRemove p f t to, Ok _) = (if k = (p, f) then Some False else None)"
| "event_of k _ = None"

definition events_of :: "protocol \<times> 16 word \<Rightarrow> (pf_call \<times> unit result) list \<Rightarrow> bool list" where
  "events_of k h = List.map_filter (event_of k) h"

fun alternating :: "bool \<Rightarrow> bool list \<Rightarrow> bool" where
  "alternating b [] = True"
| "alternating b (e # es) \<longleftrightarrow> e = b \<and> alternating (\<not> b) es"

lemma alternating_snoc:
  "alternating b (es @ [e]) \<longleftrightarrow> alternating b es \<and> e = (if even (length es) then b else \<not> b)"
  by (induction es arbitrary: b) auto

lemma alternating_even:
  "alternating True es \<Longrightarrow> es \<noteq> [] \<and> last es \<longleftrightarrow> odd (length es)"
  by (induction es rule: rev_induct) (auto simp: alternating_snoc)

lemma guard_exec_spec:
  assumes "guard_inv g" and "guard_exec P fs c g = (r, g')"
  shows "guard_inv g' \<and> forwarded g' = spec_step (forwarded g) (c, r)"
proof (cases c)
  case (CallAdd p f t to cm)
  with assms guard_Add_cases [OF assms(1)] show ?thesis by (cases r) fastforce+
next
  case (CallRemove p f t to)
  with assms guard_Remove_cases [OF assms(1)] show ?thesis by (cases r) fastforce+
next
  case CallClose
  with assms on_underlying_frame [of "pf_Close P" g r g'] show ?thesis by (cases r) (auto simp: guard_Close_def)
qed

lemma guard_run_spec: "guard_run P fs env u0 h g \<Longrightarrow> guard_inv g \<and> forwarded g = spec_active h"
proof (induction rule: guard_run.induct)
  case (call h g c r g')
  then show ?case using guard_exec_spec [of g P fs c r g'] by (simp add: spec_active_def)
qed (simp_all add: spec_active_def)

lemma event_guarded:
  assumes "guard_inv g" and "guard_exec P fs c g = (r, g')" and "event_of k (c, r) = Some e"
  shows "(k \<in> forwarded g) = (\<not> e) \<and> (k \<in> forwarded g') = e"
proof (cases c)
  case (CallAdd p f t to cm)
  with assms guard_Add_cases [OF assms(1)] show ?thesis by (cases r) (fastforce split: if_splits)+
next
  case (CallRemove p f t to)
  with assms guard_Remove_cases [OF assms(1)] show ?thesis by (cases r) (fastforce split: if_splits)+
next
  case CallClose
  with assms show ?thesis by simp
qed

lemma no_event: "event_of k (c, r) = None \<Longrightarrow> k \<in> spec_step A (c, r) \<longleftrightarrow> k \<in> A"
  by (cases "(A, (c, r))" rule: spec_step.cases) (auto split: if_splits)

text \<open>
  C1: after any history of calls, failing and panicking ones included, and whatever else happened
  on the machine, the guard holds exactly the forwardings whose last successful call was an
  addition.
\<close>

theorem guard_refines_spec:
  assumes "guard_run P fs env u0 h g"
  shows "forwarded g = spec_active h \<and> dom (gpf_listens g) = {TCP, UDP}"
  using guard_run_spec [OF assms] by (simp add: guard_inv_def)

text \<open>
  For each protocol and port the successful calls alternate, an addition first: nothing is
  added twice without a removal in between, and nothing is removed that was not added.
\<close>

theorem guard_alternates:
  assumes "guard_run P fs env u0 h g"
  shows "alternating True (events_of k h) \<and> (k \<in> forwarded g \<longleftrightarrow> odd (length (events_of k h)))"
  using assms
proof (induction rule: guard_run.induct)
  case (call h g c r g')
  have inv: "guard_inv g" using guard_run_spec [OF call.hyps(1)] by simp
  show ?case
  proof (cases "event_of k (c, r)")
    case None
    with call.IH guard_exec_spec [OF inv call.hyps(2)] no_event [OF None] show ?thesis
      by (simp add: events_of_def map_filter_simps List.map_filter_def)
  next
    case (Some e)
    with call.IH event_guarded [OF inv call.hyps(2) Some] show ?thesis
      by (simp add: events_of_def List.map_filter_def alternating_snoc)
  qed
qed (simp_all add: events_of_def List.map_filter_def)

text \<open>
  A protocol other than TCP and UDP never reaches the implementation: adding it is an error and
  leaves the guard and the machine as they are.
\<close>

theorem guard_rejects_other_protocols:
  assumes "guard_run P fs env u0 h g" and "proto \<noteq> TCP" and "proto \<noteq> UDP"
  shows "guard_Add P fs proto port target to comment g =
      (Err (EWrap ''failed to check ip port in the machine is listening''
        (EText (''unknown transport protocol: '' @ proto))), g) \<and>
    guard_Remove P proto port target to g = (Err ErrPortNotForwarded, g)"
proof -
  have "proto \<notin> dom (gpf_listens g)"
    using guard_run_spec [OF assms(1)] assms(2,3) unfolding guard_inv_def by blast
  then have "\<not> listens_Has g proto port" by (auto simp: listens_Has_def)
  then show ?thesis using assms(2,3) by (simp add: guard_Add_def guard_Remove_def IsListening_def)
qed


text \<open>A call of the guard is refused, or it is the implementation's.\<close>

lemma guard_Add_run:
  assumes "guard_inv g" and "guard_Add P fs p f t to c g = (r, g')"
  shows "(r \<noteq> Ok () \<and> g' = g) \<or>
    ((p, f) \<notin> forwarded g \<and> (p = TCP \<or> p = UDP) \<and> IsListening (fs (gpf_underlying g)) p f = Ok False \<and>
     pf_Add P p f t to c (gpf_underlying g) = (r, gpf_underlying g') \<and>
     forwarded g' = (if r = Ok () then insert (p, f) (forwarded g) else forwarded g))"
proof (cases "\<not> listens_Has g p f \<and> IsListening (fs (gpf_underlying g)) p f = Ok False")
  case False
  then show ?thesis
    using assms by (auto simp: guard_Add_def split: if_splits result.splits)
next
  case True
  obtain r1 u1 where u: "pf_Add P p f t to c (gpf_underlying g) = (r1, u1)" by fastforce
  let ?g1 = "g\<lparr>gpf_underlying := u1\<rparr>"
  have prot: "p = TCP \<or> p = UDP" using True IsListening_protocol by blast
  have run: "guard_Add P fs p f t to c g = andThen (\<lambda>_. (r1, ?g1)) (\<lambda>_. listens_Insert p f) g"
    using True u by (simp add: guard_Add_def andThen_def on_underlying_def)
  obtain g2 where g2: "listens_Insert p f ?g1 = (Ok (), g2)" "forwarded g2 = insert (p, f) (forwarded g)"
    using listens_Insert_ok [of ?g1, OF _ prot, of f] assms(1) by auto
  have "gpf_underlying g2 = u1" using g2(1) by (auto simp: listens_Insert_def split: option.splits)
  then show ?thesis
    using run assms(2) g2 u True prot by (cases r1) (auto simp: andThen_def forwarded_iff)
qed

lemma guard_Remove_run:
  assumes "guard_inv g" and "guard_Remove P p f t to g = (r, g')"
  shows "(r \<noteq> Ok () \<and> g' = g) \<or>
    ((p, f) \<in> forwarded g \<and> pf_Remove P p f t to (gpf_underlying g) = (r, gpf_underlying g') \<and>
     forwarded g' = (if r = Ok () then forwarded g - {(p, f)} else forwarded g))"
proof (cases "listens_Has g p f")
  case False
  then show ?thesis using assms by (auto simp: guard_Remove_def)
next
  case True
  obtain r1 u1 where u: "pf_Remove P p f t to (gpf_underlying g) = (r1, u1)" by fastforce
  let ?g1 = "g\<lparr>gpf_underlying := u1\<rparr>"
  have run: "guard_Remove P p f t to g = andThen (\<lambda>_. (r1, ?g1)) (\<lambda>_. listens_Delete p f) g"
    using True u by (simp add: guard_Remove_def andThen_def on_underlying_def)
  obtain g2 where g2: "listens_Delete p f ?g1 = (Ok (), g2)" "forwarded g2 = forwarded g - {(p, f)}"
    using listens_Delete_ok [of ?g1 p f] assms(1) by auto
  have "gpf_underlying g2 = u1" using g2(1) by (auto simp: listens_Delete_def split: option.splits)
  then show ?thesis
    using run assms(2) g2 u True by (cases r1) (auto simp: andThen_def forwarded_iff)
qed

section \<open>Implementations behind the guard\<close>

text \<open>
  What an implementation has to keep about the active forwardings, if it is only called the way the
  guard calls it: additions of inactive ones, for TCP and UDP; removals of active ones.
\<close>

locale guarded_implementation =
  fixes P :: "'u PortForwarding" and env :: "'u \<Rightarrow> 'u \<Rightarrow> bool"
    and J :: "(protocol \<times> 16 word) set \<Rightarrow> 'u \<Rightarrow> bool"
  assumes impl_add: "J A u \<Longrightarrow> (p, f) \<notin> A \<Longrightarrow> p = TCP \<or> p = UDP \<Longrightarrow> pf_Add P p f t to c u = (r, u') \<Longrightarrow>
      J (if r = Ok () then insert (p, f) A else A) u'"
    and impl_remove: "J A u \<Longrightarrow> (p, f) \<in> A \<Longrightarrow> pf_Remove P p f t to u = (r, u') \<Longrightarrow>
      J (if r = Ok () then A - {(p, f)} else A) u'"
    and impl_close: "J A u \<Longrightarrow> J A (snd (pf_Close P u))"
    and impl_env: "J A u \<Longrightarrow> env u u' \<Longrightarrow> J A u'"
begin

lemma guard_Add_keeps:
  assumes "guard_inv g" and "J (forwarded g) (gpf_underlying g)" and "guard_Add P fs p f t to c g = (r, g')"
  shows "J (forwarded g') (gpf_underlying g')"
proof -
  from guard_Add_run [OF assms(1,3)] consider "g' = g"
    | (run) "(p, f) \<notin> forwarded g" "p = TCP \<or> p = UDP" "pf_Add P p f t to c (gpf_underlying g) = (r, gpf_underlying g')"
      "forwarded g' = (if r = Ok () then insert (p, f) (forwarded g) else forwarded g)"
    by blast
  then show ?thesis
  proof cases
    case run
    then show ?thesis using impl_add [OF assms(2) run(1-3)] by simp
  qed (simp add: assms(2))
qed

lemma guard_Remove_keeps:
  assumes "guard_inv g" and "J (forwarded g) (gpf_underlying g)" and "guard_Remove P p f t to g = (r, g')"
  shows "J (forwarded g') (gpf_underlying g')"
proof -
  from guard_Remove_run [OF assms(1,3)] consider "g' = g"
    | (run) "(p, f) \<in> forwarded g" "pf_Remove P p f t to (gpf_underlying g) = (r, gpf_underlying g')"
      "forwarded g' = (if r = Ok () then forwarded g - {(p, f)} else forwarded g)"
    by blast
  then show ?thesis
  proof cases
    case run
    then show ?thesis using impl_remove [OF assms(2) run(1,2)] by simp
  qed (simp add: assms(2))
qed

lemma run_keeps:
  assumes "guard_run P fs env u0 h g" and "J {} u0"
  shows "J (forwarded g) (gpf_underlying g)"
  using assms
proof (induction rule: guard_run.induct)
  case start
  then show ?case by (simp add: guard_New_def [of u0] flip: forwarded_New [of u0])
next
  case (call h g c r g')
  have inv: "guard_inv g" using guard_run_spec [OF call.hyps(1)] by simp
  have J: "J (forwarded g) (gpf_underlying g)" by (rule call.IH [OF call.prems])
  show ?case
  proof (cases c)
    case (CallAdd p f t to cm)
    then show ?thesis using guard_Add_keeps [OF inv J] call.hyps(2) by simp
  next
    case (CallRemove p f t to)
    then show ?thesis using guard_Remove_keeps [OF inv J] call.hyps(2) by simp
  next
    case CallClose
    then have "on_underlying (pf_Close P) g = (r, g')" using call.hyps(2) by (simp add: guard_Close_def)
    then show ?thesis
      using impl_close [OF J] by (auto simp: on_underlying_def split: prod.splits)
  qed
next
  case (environment h g u)
  then show ?case using impl_env by simp
qed

end

section \<open>Examples\<close>

text \<open>An implementation that does nothing, on a machine with no sockets in use.\<close>

definition demo_pf :: "unit PortForwarding" where
  "demo_pf = \<lparr>pf_Add = (\<lambda>p f t to c u. (Ok (), u)), pf_Remove = (\<lambda>p f t to u. (Ok (), u)), pf_Close = (\<lambda>u. (Ok (), u))\<rparr>"

definition no_sockets :: "'u \<Rightarrow> string \<Rightarrow> string result" where
  "no_sockets u file = Ok []"

lemma IsListening_no_sockets [simp]: "p = TCP \<or> p = UDP \<Longrightarrow> IsListening (no_sockets u) p f = Ok False"
  by (auto simp: IsListening_def tcpListening_def udpListening_def isListening_def no_sockets_def parseAndCheck_def
      scan_lines.simps)

lemma demo_run:
  "\<exists>g. guard_run demo_pf no_sockets (\<lambda>_ _. False) () [(CallAdd TCP 80 [] 80 [], Ok ())] g"
proof -
  have "guard_exec demo_pf no_sockets (CallAdd TCP 80 [] 80 []) (guard_New ()) =
      (Ok (), (guard_New ())\<lparr>gpf_listens := [TCP \<mapsto> {80}, UDP \<mapsto> {}]\<rparr>)"
    by (simp add: guard_Add_def listens_Has_def guard_New_def andThen_def on_underlying_def demo_pf_def
        listens_Insert_def fun_upd_twist)
  from guard_run.call [OF guard_run.start this] show ?thesis by auto
qed

lemma guard_refines_spec_witness:
  "\<exists>g. guard_run demo_pf no_sockets (\<lambda>_ _. False) () [(CallAdd TCP 80 [] 80 [], Ok ())] g \<and> forwarded g = {(TCP, 80)}"
proof -
  obtain g where g: "guard_run demo_pf no_sockets (\<lambda>_ _. False) () [(CallAdd TCP 80 [] 80 [], Ok ())] g"
    using demo_run by blast
  from guard_refines_spec [OF g] g show ?thesis by (auto simp: spec_active_def)
qed

lemma guard_alternates_witness:
  "\<exists>g. guard_run demo_pf no_sockets (\<lambda>_ _. False) () [(CallAdd TCP 80 [] 80 [], Ok ())] g \<and>
     (TCP, 80) \<in> forwarded g \<and> (UDP, 80) \<notin> forwarded g"
proof -
  obtain g where g: "guard_run demo_pf no_sockets (\<lambda>_ _. False) () [(CallAdd TCP 80 [] 80 [], Ok ())] g"
    using demo_run by blast
  from guard_alternates [OF g, of "(TCP, 80)"] guard_alternates [OF g, of "(UDP, 80)"] g show ?thesis
    by (auto simp: events_of_def map_filter_simps)
qed

lemma guard_rejects_other_protocols_witness:
  "guard_Remove demo_pf ''SCTP'' 80 [] 80 (guard_New ()) = (Err ErrPortNotForwarded, guard_New ())"
  using guard_rejects_other_protocols [OF guard_run.start [of demo_pf no_sockets "\<lambda>_ _. False" "()"], of "''SCTP''" 80 "[]" 80 "[]"]
  by simp

end
