(* ===== verification/PfController.thy ===== *)
theory PfController
  imports PfSync Guard
begin

text \<open>
  The PortForwarding controller: \<open>internal/controller/networking/portforwarding_controller.go\<close> with
  the finalizer and the status updater of its package. The API server behind the client is the
  parameter \<open>api\<close>, steps on an abstract state \<open>'k\<close>; the forwarder is the interface of \<open>Guard\<close>.
\<close>

section \<open>The client\<close>

text \<open>
  \<open>api_Retry\<close> is \<open>retry.RetryOnConflict\<close> with the default back-off; the closures it runs may set one
  captured flag, which is the second part of their state. \<open>api_IntValue\<close> is \<open>IntOrString.IntValue\<close>.
\<close>

record 'k api =
  api_GetPF :: "string \<times> string \<Rightarrow> ('k, PortForwardingObject) step"
  api_ListPFs :: "string \<Rightarrow> ('k, PortForwardingObject list) step"
  api_GetService :: "string \<times> string \<Rightarrow> ('k, service) step"
  api_ListEndpointSlices :: "string \<Rightarrow> string \<Rightarrow> ('k, endpointSlice list) step"
  api_UpdatePF :: "PortForwardingObject \<Rightarrow> ('k, unit) step"
  api_UpdatePFStatus :: "PortForwardingObject \<Rightarrow> ('k, unit) step"
  api_IsNotFound :: "go_error \<Rightarrow> bool"
  api_IsConflict :: "go_error \<Rightarrow> bool"
  api_Retry :: "('k \<times> bool, unit) step \<Rightarrow> ('k \<times> bool, unit) step"
  api_IntValue :: "intOrString \<Rightarrow> int"

text \<open>
  What retrying does, by its documentation: it runs the closure and, as long as it fails with a
  conflict, may run it again.
\<close>

inductive retry_runs :: "(go_error \<Rightarrow> bool) \<Rightarrow> ('s, unit) step \<Rightarrow> 's \<Rightarrow> unit result \<Rightarrow> 's \<Rightarrow> bool"
  for conflict f where
  last: "f s = (r, s') \<Longrightarrow> retry_runs conflict f s r s'"
| again: "f s = (Err e, s1) \<Longrightarrow> conflict e \<Longrightarrow> retry_runs conflict f s1 r s' \<Longrightarrow> retry_runs conflict f s r s'"

definition retry_ok :: "'k api \<Rightarrow> bool" where
  "retry_ok A \<longleftrightarrow> (\<forall>f s r s'. api_Retry A f s = (r, s') \<longrightarrow> retry_runs (api_IsConflict A) f s r s')"

text \<open>Whatever holds of every run of the closure holds of the retried closure.\<close>

lemma retry_runs_inv:
  assumes "retry_runs conflict f s r s'" and "\<And>s r s'. I s \<Longrightarrow> f s = (r, s') \<Longrightarrow> I s' \<and> Q r s'" and "I s"
  shows "I s' \<and> Q r s'"
  using assms by (induction rule: retry_runs.induct) blast+

definition on_first :: "('k, 'a) step \<Rightarrow> ('k \<times> 'b, 'a) step" where
  "on_first f s = (case f (fst s) of (r, k) \<Rightarrow> (r, (k, snd s)))"

definition set_flag :: "bool \<Rightarrow> ('k \<times> bool, unit) step" where
  "set_flag b s = (Ok (), (fst s, b))"

definition skip :: "('s, unit) step" where
  "skip s = (Ok (), s)"

definition IgnoreNotFound_api :: "'k api \<Rightarrow> go_error \<Rightarrow> unit result" where
  "IgnoreNotFound_api A e = (if api_IsNotFound A e then Ok () else Err e)"

text \<open>\<open>Get\<close>, with the closure's early return \<open>client.IgnoreNotFound(err)\<close>.\<close>

definition get_or_ignore :: "'k api \<Rightarrow> string \<times> string \<Rightarrow> (PortForwardingObject \<Rightarrow> ('k \<times> bool, unit) step) \<Rightarrow>
    ('k \<times> bool, unit) step" where
  "get_or_ignore A key body s = (case on_first (api_GetPF A key) s of
      (Ok obj, s') \<Rightarrow> body obj s'
    | (Err e, s') \<Rightarrow> (IgnoreNotFound_api A e, s')
    | (Panic p, s') \<Rightarrow> (Panic p, s'))"

definition pf_key :: "PortForwardingObject \<Rightarrow> string \<times> string" where
  "pf_key pf = (pfo_Namespace pf, pfo_Name pf)"

section \<open>The status\<close>

fun patch_node :: "string \<Rightarrow> ForwardedPort list \<Rightarrow> NodePortForwardingStatus list \<Rightarrow> NodePortForwardingStatus list" where
  "patch_node node ports [] = [\<lparr>ns_NodeName = node, ns_ForwardedPorts = ports\<rparr>]"
| "patch_node node ports (ns # nss) =
     (if ns_NodeName ns = node then ns\<lparr>ns_ForwardedPorts := ports\<rparr> # nss else ns # patch_node node ports nss)"

definition PatchNodeForwardedStatus :: "'k api \<Rightarrow> PortForwardingObject \<Rightarrow> string \<Rightarrow> ForwardedPort list \<Rightarrow> ('k, unit) step" where
  "PatchNodeForwardedStatus A pf node ports k =
     (case api_Retry A (andThen (on_first (api_GetPF A (pf_key pf))) (\<lambda>newObject.
          on_first (api_UpdatePFStatus A (newObject\<lparr>pfo_Status := patch_node node ports (pfo_Status newObject)\<rparr>))))
        (k, False) of (r, s) \<Rightarrow> (r, fst s))"

text \<open>
  \<open>UpdateCondition\<close>: the object with its conditions, \<open>meta.SetStatusCondition\<close> (whether it changed, and the
  new object) and \<open>client.MergeFrom\<close> with the patch are the library's.
\<close>

record ('k, 'o, 'c) conditions_lib =
  cn_Get :: "string \<times> string \<Rightarrow> ('k, 'o) step"
  cn_SetStatusCondition :: "'o \<Rightarrow> 'c \<Rightarrow> bool \<times> 'o"
  cn_Patch :: "'o \<Rightarrow> 'o \<Rightarrow> ('k, unit) step"

definition UpdateCondition :: "'k api \<Rightarrow> ('k, 'o, 'c) conditions_lib \<Rightarrow> PortForwardingObject \<Rightarrow> 'c \<Rightarrow> ('k, unit) step" where
  "UpdateCondition A N pf condition k =
     (case api_Retry A (andThen (on_first (cn_Get N (pf_key pf))) (\<lambda>current.
          case cn_SetStatusCondition N current condition of (changed, newObject) \<Rightarrow>
            if changed then on_first (cn_Patch N newObject current) else skip))
        (k, False) of (r, s) \<Rightarrow> (r, fst s))"

text \<open>A condition that is set already is not patched again.\<close>

lemma UpdateCondition_set_already:
  assumes "retry_ok A" "cn_Get N (pf_key pf) k = (Ok current, k)" "\<not> fst (cn_SetStatusCondition N current condition)"
  shows "UpdateCondition A N pf condition k = (Ok (), k)"
proof -
  let ?f = "andThen (on_first (cn_Get N (pf_key pf))) (\<lambda>current.
          case cn_SetStatusCondition N current condition of (changed, newObject) \<Rightarrow>
            if changed then on_first (cn_Patch N newObject current) else skip)"
  have f: "?f (k, False) = (Ok (), (k, False))"
    using assms(2, 3) by (cases "cn_SetStatusCondition N current condition") (simp add: andThen_def on_first_def skip_def)
  obtain r s' where run: "api_Retry A ?f (k, False) = (r, s')" by (cases "api_Retry A ?f (k, False)") blast
  then have "retry_runs (api_IsConflict A) ?f (k, False) r s'" using assms(1) unfolding retry_ok_def by blast
  then have "r = Ok () \<and> s' = (k, False)" using f by cases auto
  then show ?thesis using run by (simp add: UpdateCondition_def)
qed

section \<open>The finalizer\<close>

definition FinalizerName :: string where
  "FinalizerName = ''networking.kertical.com/portforwarding''"

definition ContainsFinalizer :: "PortForwardingObject \<Rightarrow> bool" where
  "ContainsFinalizer pf \<longleftrightarrow> FinalizerName \<in> set (pfo_Finalizers pf)"

definition AddFinalizer :: "'k api \<Rightarrow> PortForwardingObject \<Rightarrow> ('k, unit) step" where
  "AddFinalizer A pf k =
     (case api_Retry A (get_or_ignore A (pf_key pf) (\<lambda>newObject.
          if \<not> pfo_Deleted newObject \<and> \<not> ContainsFinalizer newObject
          then on_first (api_UpdatePF A (newObject\<lparr>pfo_Finalizers := pfo_Finalizers newObject @ [FinalizerName]\<rparr>))
          else skip)) (k, False) of (r, s) \<Rightarrow> (r, fst s))"

definition RemoveFinalizer :: "'k api \<Rightarrow> PortForwardingObject \<Rightarrow> 'k \<Rightarrow> bool \<times> unit result \<times> 'k" where
  "RemoveFinalizer A pf k =
     (case api_Retry A (get_or_ignore A (pf_key pf) (\<lambda>newObject.
          if pfo_Deleted newObject then
            andThen (set_flag False) (\<lambda>_.
              if ContainsFinalizer newObject then
                if list_ex (\<lambda>ns. ns_ForwardedPorts ns \<noteq> []) (pfo_Status pf) then set_flag True
                else on_first (api_UpdatePF A
                  (newObject\<lparr>pfo_Finalizers := removeAll FinalizerName (pfo_Finalizers newObject)\<rparr>))
              else skip)
          else skip)) (k, False) of (r, s) \<Rightarrow> (snd s, r, fst s))"

section \<open>Reconciling the forwardings\<close>

record ('k, 'u) ctl =
  ct_api :: 'k
  ct_fwd :: 'u

definition on_api :: "('k, 'a) step \<Rightarrow> (('k, 'u) ctl, 'a) step" where
  "on_api f c = (case f (ct_api c) of (r, k) \<Rightarrow> (r, c\<lparr>ct_api := k\<rparr>))"

definition on_fwd :: "('u, 'a) step \<Rightarrow> (('k, 'u) ctl, 'a) step" where
  "on_fwd f c = (case f (ct_fwd c) of (r, u) \<Rightarrow> (r, c\<lparr>ct_fwd := u\<rparr>))"

text \<open>A call whose error the code looks at instead of returning it.\<close>

definition attempt :: "('u, unit) step \<Rightarrow> ('u, go_error option) step" where
  "attempt f u = (case f u of
      (Ok _, u') \<Rightarrow> (Ok None, u') | (Err e, u') \<Rightarrow> (Ok (Some e), u') | (Panic p, u') \<Rightarrow> (Panic p, u'))"

definition port16 :: "int \<Rightarrow> 16 word" where
  "port16 n = word_of_int n"

definition ret :: "'a \<Rightarrow> ('s, 'a) step" where
  "ret a s = (Ok a, s)"

definition call_Add :: "'k api \<Rightarrow> 'u PortForwarding \<Rightarrow> string \<Rightarrow> ForwardedPort \<Rightarrow> ('u, unit) step" where
  "call_Add A F comment e = pf_Add F (fp_Protocol e) (port16 (api_IntValue A (fp_SourcePort e)))
     (fp_TargetHosts e) (port16 (fp_TargetPort e)) comment"

text \<open>The loop over the unchanged ports; the result is the ports with their new states.\<close>

definition unchanged_state :: "ForwardedPort \<Rightarrow> go_error option \<Rightarrow> ForwardedPort" where
  "unchanged_state e r = (case r of
      None \<Rightarrow> e\<lparr>fp_State := PortForwardingReady\<rparr>
    | Some err \<Rightarrow> if \<not> errors_Is err ErrPortAlreadyForwarded then e\<lparr>fp_State := PortForwardingFailed\<rparr> else e)"

fun sync_unchanged :: "'k api \<Rightarrow> 'u PortForwarding \<Rightarrow> string \<Rightarrow> ForwardedPort list \<Rightarrow> ('u, ForwardedPort list) step" where
  "sync_unchanged A F comment [] u = (Ok [], u)"
| "sync_unchanged A F comment (e # es) u =
     andThen (if port16 (api_IntValue A (fp_SourcePort e)) > 0
              then andThen (attempt (call_Add A F comment e)) (\<lambda>r. ret (unchanged_state e r))
              else ret (e\<lparr>fp_State := PortForwardingUnknown\<rparr>)) (\<lambda>e'.
       andThen (sync_unchanged A F comment es) (\<lambda>es'. ret (e' # es'))) u"

text \<open>The loop over the deletions; the result is the residual ports.\<close>

fun sync_deletions :: "'k api \<Rightarrow> 'u PortForwarding \<Rightarrow> ForwardedPort list \<Rightarrow> ('u, ForwardedPort list) step" where
  "sync_deletions A F [] u = (Ok [], u)"
| "sync_deletions A F (e # es) u =
     andThen (if port16 (api_IntValue A (fp_SourcePort e)) > 0
              then attempt (pf_Remove F (fp_Protocol e) (port16 (ios_IntVal (fp_SourcePort e)))
                     (fp_TargetHosts e) (port16 (fp_TargetPort e)))
              else ret None) (\<lambda>r.
       andThen (sync_deletions A F es) (\<lambda>es'. ret
         (case r of
            Some err \<Rightarrow> if \<not> errors_Is err ErrPortNotForwarded then e\<lparr>fp_State := PortForwardingResidual\<rparr> # es' else es'
          | None \<Rightarrow> es'))) u"

text \<open>The loop over the additions.\<close>

definition addition_state :: "ForwardedPort \<Rightarrow> go_error option \<Rightarrow> ForwardedPort" where
  "addition_state e r = (case r of
      None \<Rightarrow> e
    | Some err \<Rightarrow>
        if errors_Is err ErrPortAlreadyForwarded then e\<lparr>fp_State := PortForwardingConflict\<rparr>
        else if errors_Is err ErrPortAlreadyInuse then e\<lparr>fp_State := PortForwardingRejected\<rparr>
        else e\<lparr>fp_State := PortForwardingFailed\<rparr>)"

fun sync_additions :: "'k api \<Rightarrow> 'u PortForwarding \<Rightarrow> string \<Rightarrow> ForwardedPort list \<Rightarrow> ('u, ForwardedPort list) step" where
  "sync_additions A F comment [] u = (Ok [], u)"
| "sync_additions A F comment (e # es) u =
     andThen (attempt (call_Add A F comment e)) (\<lambda>r.
       andThen (sync_additions A F comment es) (\<lambda>es'. ret (addition_state e r # es'))) u"

definition listOwnedEndpointSlices :: "'k api \<Rightarrow> service \<Rightarrow> ('k, endpointSlice list) step" where
  "listOwnedEndpointSlices A svc =
     andThen (api_ListEndpointSlices A (svc_Namespace svc) (svc_Name svc)) (\<lambda>items.
       ret (filter (\<lambda>es. \<not> es_Deleted es) items))"

text \<open>
  \<open>removePortForwarding\<close>: for the first status of this node that has ports. The loop returns the
  entries that stay when a reason is given.
\<close>

fun remove_ports :: "'k api \<Rightarrow> 'u PortForwarding \<Rightarrow> PortForwardingState option \<Rightarrow> ForwardedPort list \<Rightarrow>
    ('u, ForwardedPort list) step" where
  "remove_ports A F reason [] u = (Ok [], u)"
| "remove_ports A F reason (e # es) u =
     (if port16 (api_IntValue A (fp_SourcePort e)) > 0 then
        andThen (attempt (pf_Remove F (fp_Protocol e) (port16 (api_IntValue A (fp_SourcePort e)))
                   (fp_TargetHosts e) (port16 (fp_TargetPort e)))) (\<lambda>r.
          if r \<noteq> None \<and> \<not> errors_Is (the r) ErrPortNotForwarded then (\<lambda>u. (Err (the r), u))
          else andThen (remove_ports A F reason es) (\<lambda>es'. ret (case reason of
              None \<Rightarrow> es'
            | Some st \<Rightarrow> \<lparr>fp_Protocol = fp_Protocol e, fp_SourcePort = fp_SourcePort e, fp_TargetHosts = [],
                fp_TargetPort = 0, fp_State = st\<rparr> # es'))) u
      else remove_ports A F reason es u)"

definition removePortForwarding :: "'k api \<Rightarrow> 'u PortForwarding \<Rightarrow> string \<Rightarrow> PortForwardingObject \<Rightarrow>
    PortForwardingState option \<Rightarrow> (('k, 'u) ctl, unit) step" where
  "removePortForwarding A F node pf reason =
     (case List.find (\<lambda>ns. ns_NodeName ns = node \<and> ns_ForwardedPorts ns \<noteq> []) (pfo_Status pf) of
        None \<Rightarrow> skip
      | Some ns \<Rightarrow> andThen (on_fwd (remove_ports A F reason (ns_ForwardedPorts ns))) (\<lambda>kept.
          on_api (PatchNodeForwardedStatus A pf node kept)))"

text \<open>
  \<open>syncPortForwarding\<close>. The final sort is by port number, stable up to twelve entries; entries with
  the same number keep their order.
\<close>

definition sync_ports :: "'k api \<Rightarrow> 'u PortForwarding \<Rightarrow> string \<Rightarrow>
    ForwardedPort list \<times> ForwardedPort list \<times> ForwardedPort list \<times> ForwardedPort list \<Rightarrow> ('u, ForwardedPort list) step" where
  "sync_ports A F comment diff = (case diff of (additions, deletions, unchanged, errs) \<Rightarrow>
     andThen (sync_unchanged A F comment unchanged) (\<lambda>us.
       andThen (sync_deletions A F deletions) (\<lambda>ds.
         andThen (sync_additions A F comment additions) (\<lambda>as.
           ret (sort_key (\<lambda>e. api_IntValue A (fp_SourcePort e)) (errs @ us @ ds @ as))))))"

definition syncPortForwarding :: "'k api \<Rightarrow> 'u PortForwarding \<Rightarrow> (ForwardedPort list \<Rightarrow> ForwardedPort list) \<Rightarrow> string \<Rightarrow>
    PortForwardingObject \<Rightarrow> (('k, 'u) ctl, unit) step" where
  "syncPortForwarding A F ord node pf c =
     (case on_api (api_GetService A (ServiceObjectKey pf)) c of
        (Err e, c') \<Rightarrow>
          if api_IsNotFound A e then removePortForwarding A F node pf (Some PortForwardingNoTarget) c'
          else (Err e, c')
      | (Panic p, c') \<Rightarrow> (Panic p, c')
      | (Ok svc, c') \<Rightarrow>
          andThen (on_api (listOwnedEndpointSlices A svc)) (\<lambda>ess.
            andThen (on_fwd (sync_ports A F (svc_Name svc) (SyncForwardingPorts ord node pf svc ess))) (\<lambda>newPorts.
              on_api (PatchNodeForwardedStatus A pf node newPorts))) c')"

text \<open>\<open>Reconcile\<close>: the result is whether to requeue.\<close>

definition Reconcile :: "'k api \<Rightarrow> 'u PortForwarding \<Rightarrow> (ForwardedPort list \<Rightarrow> ForwardedPort list) \<Rightarrow> string \<Rightarrow>
    string \<times> string \<Rightarrow> (('k, 'u) ctl, bool) step" where
  "Reconcile A F ord node key c =
     (case on_api (api_GetPF A key) c of
        (Err e, c') \<Rightarrow> (andRes (IgnoreNotFound_api A e) (\<lambda>_. Ok False), c')
      | (Panic p, c') \<Rightarrow> (Panic p, c')
      | (Ok pf, c') \<Rightarrow>
          if \<not> pfo_Deleted pf then
            andThen (on_api (AddFinalizer A pf)) (\<lambda>_.
              andThen (syncPortForwarding A F ord node pf) (\<lambda>_. ret False)) c'
          else if ContainsFinalizer pf then
            andThen (removePortForwarding A F node pf None) (\<lambda>_ c.
              case RemoveFinalizer A pf (ct_api c) of
                (requeue, r, k) \<Rightarrow> (andRes r (\<lambda>_. Ok requeue), c\<lparr>ct_api := k\<rparr>)) c'
          else (Ok False, c'))"

definition CleanUp :: "'u PortForwarding \<Rightarrow> (('k, 'u) ctl, unit) step" where
  "CleanUp F = on_fwd (pf_Close F)"

text \<open>
  Which objects an event asks to reconcile; \<open>None\<close> is the nil sequence returned when listing fails.
\<close>

definition LabelServiceName :: string where
  "LabelServiceName = ''kubernetes.io/service-name''"

definition resolveReferencedPortForwarding :: "'k api \<Rightarrow> string \<Rightarrow> string \<Rightarrow> 'k \<Rightarrow> (string \<times> string) list option \<times> 'k" where
  "resolveReferencedPortForwarding A namespace name k =
     (case api_ListPFs A namespace k of
        (Ok pfs, k') \<Rightarrow> (Some (map (\<lambda>pf. (namespace, pfo_Name pf)) (filter (\<lambda>pf. pfo_ServiceRef pf = name) pfs)), k')
      | (_, k') \<Rightarrow> (None, k'))"

definition resolveIndirectPortForwarding :: "'k api \<Rightarrow> endpointSlice \<Rightarrow> 'k \<Rightarrow> (string \<times> string) list option \<times> 'k" where
  "resolveIndirectPortForwarding A es k =
     (case es_Labels es LabelServiceName of
        Some serviceName \<Rightarrow> resolveReferencedPortForwarding A (es_Namespace es) serviceName k
      | None \<Rightarrow> (Some [], k))"


section \<open>Facts\<close>

definition fp_key :: "'k api \<Rightarrow> ForwardedPort \<Rightarrow> protocol \<times> 16 word" where
  "fp_key A e = (fp_Protocol e, port16 (api_IntValue A (fp_SourcePort e)))"

text \<open>\<open>IntOrString.IntValue\<close> of a number is the number.\<close>

definition IntValue_ok :: "'k api \<Rightarrow> bool" where
  "IntValue_ok A \<longleftrightarrow> (\<forall>x. ios_Type x = IntType \<longrightarrow> api_IntValue A x = ios_IntVal x)"

lemma attempt_cases:
  assumes "attempt f u = (Ok r, u')"
  shows "(r = None \<and> f u = (Ok (), u')) \<or> (\<exists>e. r = Some e \<and> f u = (Err e, u'))"
  using assms by (auto simp: attempt_def split: prod.splits result.splits)

lemma ret_Ok [simp]: "ret a s = (Ok b, s') \<longleftrightarrow> b = a \<and> s' = s"
  by (auto simp: ret_def)

text \<open>A port with nothing but its state changed.\<close>

definition restated :: "ForwardedPort \<Rightarrow> ForwardedPort \<Rightarrow> bool" where
  "restated e e' \<longleftrightarrow> e' = e\<lparr>fp_State := fp_State e'\<rparr>"

lemma restated_simps [simp]:
  "restated e (e\<lparr>fp_State := s\<rparr>)" "restated e e"
  by (simp_all add: restated_def)

context port_forwarding begin

lemma sync_additions_active:
  assumes F: "pf_Add F = add"
    and "ok u" and "sync_additions A F c es u = (Ok es', u')"
  shows "ok u' \<and> active u \<subseteq> active u' \<and>
    list_all2 (\<lambda>e e'. restated e e' \<and> (fp_State e' = PortForwardingReady \<longrightarrow> fp_key A e \<in> active u')) es es' \<and>
    active u' \<subseteq> active u \<union> fp_key A ` set es"
  using assms(2,3)
proof (induction es arbitrary: u es')
  case Nil
  then show ?case by simp
next
  case (Cons e es)
  obtain r u1 es1 where r: "attempt (call_Add A F c e) u = (Ok r, u1)"
    and rest: "sync_additions A F c es u1 = (Ok es1, u')" and es': "es' = addition_state e r # es1"
    using Cons.prems(2) by (auto elim!: andThen_OkE)
  let ?k = "fp_key A e"
  have step: "ok u1 \<and> active u \<subseteq> active u1 \<and> active u1 \<subseteq> insert ?k (active u) \<and> (r = None \<longrightarrow> ?k \<in> active u1)"
    using attempt_cases [OF r]
  proof (elim disjE exE conjE)
    assume n: "r = None" and run: "call_Add A F c e u = (Ok (), u1)"
    have "ok u1" using add_keeps [OF Cons.prems(1)] run by (metis F call_Add_def snd_conv)
    with n add_success [OF Cons.prems(1) run [unfolded call_Add_def F]] show ?thesis by (auto simp: fp_key_def)
  next
    fix err assume n: "r = Some err" and run: "call_Add A F c e u = (Err err, u1)"
    have "ok u1" using add_keeps [OF Cons.prems(1)] run by (metis F call_Add_def snd_conv)
    with n add_failure [OF Cons.prems(1) run [unfolded call_Add_def F]] show ?thesis by auto
  qed
  have st: "restated e (addition_state e r)" "fp_State (addition_state e r) = PortForwardingReady \<longrightarrow> r = None"
    by (auto simp: addition_state_def split: option.splits)
  from Cons.IH [OF _ rest] step st show ?case unfolding es' by auto
qed

lemma sync_unchanged_active:
  assumes F: "pf_Add F = add"
    and "ok u" and "sync_unchanged A F c es u = (Ok es', u')"
  shows "ok u' \<and> active u \<subseteq> active u' \<and> list_all2 restated es es'"
  using assms(2,3)
proof (induction es arbitrary: u es')
  case Nil
  then show ?case by simp
next
  case (Cons e es)
  obtain e1 u1 es1 where e1: "(if port16 (api_IntValue A (fp_SourcePort e)) > 0
              then andThen (attempt (call_Add A F c e)) (\<lambda>r. ret (unchanged_state e r))
              else ret (e\<lparr>fp_State := PortForwardingUnknown\<rparr>)) u = (Ok e1, u1)"
    and rest: "sync_unchanged A F c es u1 = (Ok es1, u')" and es': "es' = e1 # es1"
    using Cons.prems(2) by (auto elim!: andThen_OkE)
  have "ok u1 \<and> active u \<subseteq> active u1 \<and> restated e e1"
  proof (cases "port16 (api_IntValue A (fp_SourcePort e)) > 0")
    case True
    then obtain r where r: "attempt (call_Add A F c e) u = (Ok r, u1)" and e1': "e1 = unchanged_state e r"
      using e1 by (auto elim!: andThen_OkE)
    have "ok u1 \<and> active u \<subseteq> active u1"
      using attempt_cases [OF r]
    proof (elim disjE exE conjE)
      assume run: "call_Add A F c e u = (Ok (), u1)"
      have "ok u1" using add_keeps [OF Cons.prems(1)] run by (metis F call_Add_def snd_conv)
      with add_success [OF Cons.prems(1) run [unfolded call_Add_def F]] show ?thesis by auto
    next
      fix err assume run: "call_Add A F c e u = (Err err, u1)"
      have "ok u1" using add_keeps [OF Cons.prems(1)] run by (metis F call_Add_def snd_conv)
      with add_failure [OF Cons.prems(1) run [unfolded call_Add_def F]] show ?thesis by auto
    qed
    then show ?thesis by (auto simp: e1' unchanged_state_def split: option.split)
  next
    case False
    then show ?thesis using e1 Cons.prems(1) by auto
  qed
  with Cons.IH [OF _ rest] show ?case unfolding es' by auto
qed

end

context honest_forwarding begin

text \<open>What one removal whose error is looked at leaves.\<close>

lemma removal_step:
  assumes "ok u" and "attempt (remove p f t to) u = (Ok r, u1)"
  shows "ok u1 \<and> active u1 \<subseteq> active u \<and>
    (r = None \<or> errors_Is (the r) ErrPortNotForwarded \<longrightarrow> (p, f) \<notin> active u1)"
  using attempt_cases [OF assms(2)]
proof (elim disjE exE conjE)
  assume "r = None" and run: "remove p f t to u = (Ok (), u1)"
  have "ok u1" using remove_keeps [OF assms(1)] run by (metis snd_conv)
  with remove_success [OF assms(1) run] show ?thesis by auto
next
  fix err assume r: "r = Some err" and run: "remove p f t to u = (Err err, u1)"
  have "ok u1" using remove_keeps [OF assms(1)] run by (metis snd_conv)
  with r remove_failure [OF assms(1) run] remove_honest [OF assms(1) run] show ?thesis by auto
qed

lemma remove_ports_inactive:
  assumes F: "pf_Remove F = remove"
    and "ok u" and "remove_ports A F reason es u = (Ok kept, u')"
  shows "ok u' \<and> active u' \<subseteq> active u \<and>
    (\<forall>e \<in> set es. snd (fp_key A e) > 0 \<longrightarrow> fp_key A e \<notin> active u') \<and> (reason = None \<longrightarrow> kept = [])"
  using assms(2,3)
proof (induction es arbitrary: u kept)
  case Nil
  then show ?case by simp
next
  case (Cons e es)
  show ?case
  proof (cases "port16 (api_IntValue A (fp_SourcePort e)) > 0")
    case False
    then have "remove_ports A F reason es u = (Ok kept, u')" using Cons.prems(2) by simp
    from Cons.IH [OF Cons.prems(1) this] False show ?thesis by (auto simp: fp_key_def)
  next
    case True
    let ?rm = "attempt (pf_Remove F (fp_Protocol e) (port16 (api_IntValue A (fp_SourcePort e)))
                   (fp_TargetHosts e) (port16 (fp_TargetPort e)))"
    obtain r u1 where r: "?rm u = (Ok r, u1)" and fine: "r = None \<or> errors_Is (the r) ErrPortNotForwarded"
      and rest: "\<exists>kept1. remove_ports A F reason es u1 = (Ok kept1, u') \<and> (reason = None \<longrightarrow> kept = kept1)"
      using Cons.prems(2) True by (auto elim!: andThen_OkE split: if_splits)
    have step: "ok u1 \<and> active u1 \<subseteq> active u \<and> fp_key A e \<notin> active u1"
      using removal_step [OF Cons.prems(1) r [unfolded F]] fine by (simp add: fp_key_def)
    obtain kept1 where kept1: "remove_ports A F reason es u1 = (Ok kept1, u')" "reason = None \<longrightarrow> kept = kept1"
      using rest by blast
    from Cons.IH [OF _ kept1(1)] step kept1(2) show ?thesis by auto
  qed
qed

lemma sync_deletions_inactive:
  assumes F: "pf_Remove F = remove"
    and "ok u" and "sync_deletions A F es u = (Ok res, u')"
  shows "ok u' \<and> active u' \<subseteq> active u \<and>
    (\<forall>e \<in> set es. port16 (api_IntValue A (fp_SourcePort e)) > 0 \<longrightarrow>
       (fp_Protocol e, port16 (ios_IntVal (fp_SourcePort e))) \<notin> active u' \<or>
       e\<lparr>fp_State := PortForwardingResidual\<rparr> \<in> set res) \<and>
    (\<forall>e' \<in> set res. \<exists>e \<in> set es. e' = e\<lparr>fp_State := PortForwardingResidual\<rparr>)"
  using assms(2,3)
proof (induction es arbitrary: u res)
  case Nil
  then show ?case by simp
next
  case (Cons e es)
  let ?go = "port16 (api_IntValue A (fp_SourcePort e)) > 0"
  let ?k = "(fp_Protocol e, port16 (ios_IntVal (fp_SourcePort e)))"
  obtain r u1 res1 where r: "(if ?go then attempt (pf_Remove F (fp_Protocol e) (port16 (ios_IntVal (fp_SourcePort e)))
                     (fp_TargetHosts e) (port16 (fp_TargetPort e))) else ret None) u = (Ok r, u1)"
    and rest: "sync_deletions A F es u1 = (Ok res1, u')"
    and res: "res = (case r of
            Some err \<Rightarrow> if \<not> errors_Is err ErrPortNotForwarded then e\<lparr>fp_State := PortForwardingResidual\<rparr> # res1 else res1
          | None \<Rightarrow> res1)"
    using Cons.prems(2) by (auto elim!: andThen_OkE)
  have step: "ok u1 \<and> active u1 \<subseteq> active u \<and>
      (?go \<longrightarrow> ?k \<notin> active u1 \<or> e\<lparr>fp_State := PortForwardingResidual\<rparr> \<in> set res)"
  proof (cases ?go)
    case True
    with removal_step [OF Cons.prems(1), of "fp_Protocol e" "port16 (ios_IntVal (fp_SourcePort e))"] r
    show ?thesis by (auto simp: F res split: option.split)
  next
    case False
    then show ?thesis using r Cons.prems(1) by auto
  qed
  have sub: "set res \<subseteq> insert (e\<lparr>fp_State := PortForwardingResidual\<rparr>) (set res1)" "set res1 \<subseteq> set res"
    by (auto simp: res split: option.split)
  have IH: "ok u'" "active u' \<subseteq> active u1"
    "\<forall>e \<in> set es. port16 (api_IntValue A (fp_SourcePort e)) > 0 \<longrightarrow>
       (fp_Protocol e, port16 (ios_IntVal (fp_SourcePort e))) \<notin> active u' \<or>
       e\<lparr>fp_State := PortForwardingResidual\<rparr> \<in> set res1"
    "\<forall>e' \<in> set res1. \<exists>e \<in> set es. e' = e\<lparr>fp_State := PortForwardingResidual\<rparr>"
    using Cons.IH [OF _ rest] step by auto
  show ?case
  proof (intro conjI)
    show "ok u'" "active u' \<subseteq> active u" using IH(1,2) step by auto
    show "\<forall>x \<in> set (e # es). port16 (api_IntValue A (fp_SourcePort x)) > 0 \<longrightarrow>
       (fp_Protocol x, port16 (ios_IntVal (fp_SourcePort x))) \<notin> active u' \<or>
       x\<lparr>fp_State := PortForwardingResidual\<rparr> \<in> set res"
      using IH(2,3) step sub(2) by (auto simp: subset_iff)
    show "\<forall>e' \<in> set res. \<exists>x \<in> set (e # es). e' = x\<lparr>fp_State := PortForwardingResidual\<rparr>"
      using IH(4) sub(1) by (auto simp: subset_iff)
  qed
qed

text \<open>The three loops together.\<close>

lemma sync_ports_outcome:
  assumes "pf_Add F = add" and "pf_Remove F = remove" and "ok u"
    and "sync_ports A F c (additions, deletions, unchanged, errs) u = (Ok new, u')"
  shows "\<exists>us ds as. new = sort_key (\<lambda>e. api_IntValue A (fp_SourcePort e)) (errs @ us @ ds @ as) \<and>
    list_all2 restated unchanged us \<and>
    list_all2 (\<lambda>e e'. restated e e' \<and> (fp_State e' = PortForwardingReady \<longrightarrow> fp_key A e \<in> active u')) additions as \<and>
    (\<forall>e' \<in> set ds. \<exists>e \<in> set deletions. e' = e\<lparr>fp_State := PortForwardingResidual\<rparr>) \<and>
    (\<forall>e \<in> set deletions. port16 (api_IntValue A (fp_SourcePort e)) > 0 \<longrightarrow>
       (fp_Protocol e, port16 (ios_IntVal (fp_SourcePort e))) \<notin> active u' - fp_key A ` set additions \<or>
       e\<lparr>fp_State := PortForwardingResidual\<rparr> \<in> set ds)"
proof -
  obtain us u1 ds u2 as where us: "sync_unchanged A F c unchanged u = (Ok us, u1)"
    and ds: "sync_deletions A F deletions u1 = (Ok ds, u2)"
    and as: "sync_additions A F c additions u2 = (Ok as, u')"
    and new: "new = sort_key (\<lambda>e. api_IntValue A (fp_SourcePort e)) (errs @ us @ ds @ as)"
    using assms(4) by (auto simp: sync_ports_def elim!: andThen_OkE)
  have 1: "ok u1" "list_all2 restated unchanged us"
    using sync_unchanged_active [OF assms(1,3) us] by auto
  note 2 = sync_deletions_inactive [OF assms(2) 1(1) ds]
  then have "ok u2" by blast
  from sync_additions_active [OF assms(1) this as] 1(2) 2 new show ?thesis by blast
qed

end

section \<open>The theorems\<close>

text \<open>The controller's forwarder is the guard.\<close>

definition guarded :: "'u PortForwarding \<Rightarrow> ('u \<Rightarrow> string \<Rightarrow> string result) \<Rightarrow> 'u guardPortForwarding PortForwarding" where
  "guarded P fs = \<lparr>pf_Add = guard_Add P fs, pf_Remove = guard_Remove P, pf_Close = guard_Close P\<rparr>"

lemma guarded_simps [simp]:
  "pf_Add (guarded P fs) = guard_Add P fs" "pf_Remove (guarded P fs) = guard_Remove P"
  by (simp_all add: guarded_def)

text \<open>
  C14: the status written after a synchronisation is true of the guard: an addition reported Ready is
  forwarded; a deletion is no longer forwarded, unless it is reported Residual or an addition
  claims the same port again; errors and unchanged ports are all there.
\<close>

theorem sync_ports_status_true:
  assumes "honest_implementation P" and "guard_inv g"
    and "sync_ports A (guarded P fs) comment (additions, deletions, unchanged, errs) g = (Ok new, g')"
  shows "\<exists>us ds as. new = sort_key (\<lambda>e. api_IntValue A (fp_SourcePort e)) (errs @ us @ ds @ as) \<and>
    list_all2 restated unchanged us \<and>
    list_all2 (\<lambda>e e'. restated e e' \<and> (fp_State e' = PortForwardingReady \<longrightarrow> fp_key A e \<in> forwarded g')) additions as \<and>
    (\<forall>e' \<in> set ds. \<exists>e \<in> set deletions. e' = e\<lparr>fp_State := PortForwardingResidual\<rparr>) \<and>
    (\<forall>e \<in> set deletions. port16 (api_IntValue A (fp_SourcePort e)) > 0 \<longrightarrow>
       (fp_Protocol e, port16 (ios_IntVal (fp_SourcePort e))) \<notin> forwarded g' - fp_key A ` set additions \<or>
       e\<lparr>fp_State := PortForwardingResidual\<rparr> \<in> set ds)"
  by (rule honest_forwarding.sync_ports_outcome
      [OF honest_implementation.guard_honest [OF assms(1)] guarded_simps(1,2) assms(2,3)])

text \<open>The ports \<open>removePortForwarding\<close> takes down.\<close>

definition own_ports :: "string \<Rightarrow> PortForwardingObject \<Rightarrow> ForwardedPort list" where
  "own_ports node pf = (case List.find (\<lambda>ns. ns_NodeName ns = node \<and> ns_ForwardedPorts ns \<noteq> []) (pfo_Status pf) of
      None \<Rightarrow> [] | Some ns \<Rightarrow> ns_ForwardedPorts ns)"

text \<open>
  C31: when removing an object's forwardings succeeds, none of the ports its status lists for this
  node is forwarded any more, whichever state the entry was in and whoever added the port.
\<close>

theorem removePortForwarding_removes:
  assumes "honest_implementation P" and "guard_inv (ct_fwd c)"
    and "removePortForwarding A (guarded P fs) node pf reason c = (Ok (), c')"
    and "e \<in> set (own_ports node pf)" and "snd (fp_key A e) > 0"
  shows "fp_key A e \<notin> forwarded (ct_fwd c') \<and> guard_inv (ct_fwd c')"
proof (cases "List.find (\<lambda>ns. ns_NodeName ns = node \<and> ns_ForwardedPorts ns \<noteq> []) (pfo_Status pf)")
  case None
  then show ?thesis using assms(4) by (simp add: own_ports_def)
next
  case (Some ns)
  obtain kept c1 where run: "on_fwd (remove_ports A (guarded P fs) reason (ns_ForwardedPorts ns)) c = (Ok kept, c1)"
    and patch: "on_api (PatchNodeForwardedStatus A pf node kept) c1 = (Ok (), c')"
    using assms(3) Some by (auto simp: removePortForwarding_def elim!: andThen_OkE)
  have "remove_ports A (guarded P fs) reason (ns_ForwardedPorts ns) (ct_fwd c) = (Ok kept, ct_fwd c1)"
    using run by (auto simp: on_fwd_def split: prod.splits)
  note removed = honest_forwarding.remove_ports_inactive
    [OF honest_implementation.guard_honest [OF assms(1)] guarded_simps(2) assms(2) this]
  have "ct_fwd c' = ct_fwd c1" using patch by (auto simp: on_api_def split: prod.splits)
  with removed assms(4,5) Some show ?thesis by (simp add: own_ports_def)
qed


text \<open>
  Patching a node's status sets that node's ports and leaves the entries of every other node,
  and their order, alone.
\<close>

theorem patch_node_own_entry:
  "map_option ns_ForwardedPorts (List.find (\<lambda>ns. ns_NodeName ns = node) (patch_node node ports nss)) = Some ports \<and>
   filter (\<lambda>ns. ns_NodeName ns \<noteq> node) (patch_node node ports nss) = filter (\<lambda>ns. ns_NodeName ns \<noteq> node) nss"
  by (induction nss) auto

section \<open>Examples\<close>

definition demo_api :: "PortForwardingObject \<Rightarrow> unit api" where
  "demo_api pf = \<lparr>api_GetPF = (\<lambda>key k. (Ok pf, k)), api_ListPFs = (\<lambda>ns k. (Ok [pf], k)),
     api_GetService = (\<lambda>key k. (Ok (demo_service 80), k)), api_ListEndpointSlices = (\<lambda>ns n k. (Ok [], k)),
     api_UpdatePF = (\<lambda>pf k. (Ok (), k)), api_UpdatePFStatus = (\<lambda>pf k. (Ok (), k)),
     api_IsNotFound = (\<lambda>e. False), api_IsConflict = (\<lambda>e. False), api_Retry = (\<lambda>f. f),
     api_IntValue = ios_IntVal\<rparr>"

lemma demo_retry_ok [simp]: "retry_ok (demo_api pf)"
  by (auto simp: retry_ok_def demo_api_def intro: retry_runs.last)

lemma demo_honest [simp]: "honest_implementation demo_pf"
  by (simp add: honest_implementation_def demo_pf_def)

lemma demo_fp_key [simp]: "fp_key (demo_api pf) (demo_port n) = (TCP, 90)"
  by (simp add: fp_key_def demo_api_def demo_port_def FromInt32_def port16_def)

lemma sync_ports_status_true_witness:
  "\<exists>g'. sync_ports (demo_api (demo_object [])) (guarded demo_pf no_sockets) ''web'' ([demo_port 80], [], [], []) (guard_New ()) =
       (Ok [demo_port 80], g') \<and> (TCP, 90) \<in> forwarded g'"
proof -
  have "\<exists>g'. sync_ports (demo_api (demo_object [])) (guarded demo_pf no_sockets) ''web'' ([demo_port 80], [], [], []) (guard_New ()) =
       (Ok [demo_port 80], g')"
    by (simp add: sync_ports_def andThen_def ret_def attempt_def call_Add_def guard_Add_def demo_port_def listens_Has_def
        guard_New_def on_underlying_def demo_pf_def listens_Insert_def addition_state_def)
  then obtain g' where run: "sync_ports (demo_api (demo_object [])) (guarded demo_pf no_sockets) ''web''
      ([demo_port 80], [], [], []) (guard_New ()) = (Ok [demo_port 80], g')" by blast
  from sync_ports_status_true [OF demo_honest guard_inv_New run] have "(TCP, 90) \<in> forwarded g'"
    by (auto simp: list_all2_Cons1 restated_def)
  with run show ?thesis by blast
qed

lemma removePortForwarding_removes_witness:
  "\<exists>c'. removePortForwarding (demo_api (demo_object [demo_port 80])) (guarded demo_pf no_sockets) ''n1'' (demo_object [demo_port 80]) None
       \<lparr>ct_api = (), ct_fwd = guard_New ()\<rparr> = (Ok (), c') \<and> (TCP, 90) \<notin> forwarded (ct_fwd c')"
proof -
  let ?A = "demo_api (demo_object [demo_port 80])" and ?c = "\<lparr>ct_api = (), ct_fwd = guard_New ()\<rparr>"
  have "\<exists>c'. removePortForwarding ?A (guarded demo_pf no_sockets) ''n1'' (demo_object [demo_port 80]) None ?c = (Ok (), c')"
    by (simp add: removePortForwarding_def demo_object_def demo_port_def andThen_def on_fwd_def on_api_def attempt_def
        guard_Remove_def listens_Has_def guard_New_def PatchNodeForwardedStatus_def demo_api_def ret_def on_first_def
        FromInt32_def port16_def)
  then obtain c' where run: "removePortForwarding ?A (guarded demo_pf no_sockets) ''n1'' (demo_object [demo_port 80]) None ?c = (Ok (), c')"
    by blast
  have own: "demo_port 80 \<in> set (own_ports ''n1'' (demo_object [demo_port 80]))"
    by (simp add: own_ports_def demo_object_def)
  have inv: "guard_inv (ct_fwd ?c)" by simp
  have pos: "snd (fp_key ?A (demo_port 80)) > 0" by simp
  from removePortForwarding_removes [OF demo_honest inv run own pos] run show ?thesis by auto
qed


end
