(* ===== verification/PureGo.thy ===== *)
theory PureGo
  imports Guard
begin

text \<open>
  Package \<open>internal/portforwarding/purego\<close>: forwarding by user-space proxies. A proxy is a
  goroutine tied to a context; contexts are numbered, and a proxy serves as long as neither its
  context nor the root context is cancelled. What the sockets do is the world \<open>'w\<close>: opening a
  listener is a step on it.
\<close>

section \<open>The forwarder\<close>

record forwarder =
  fw_tcp :: "nat option"
  fw_udp :: "nat option"

record proxy =
  px_ctx :: nat
  px_proto :: protocol
  px_port :: "16 word"
  px_targets :: "string list"
  px_to :: "16 word"

record 'w purego =
  pg_root_cancelled :: bool
  pg_next :: nat
  pg_cancelled :: "nat list"
  pg_forwards :: "16 word \<Rightarrow> forwarder"
  pg_proxies :: "proxy list"
  pg_world :: 'w

definition purego_Available :: "bool result" where
  "purego_Available = Ok True"

definition purego_New :: "'w \<Rightarrow> 'w purego" where
  "purego_New w = \<lparr>pg_root_cancelled = False, pg_next = 0, pg_cancelled = [],
     pg_forwards = (\<lambda>_. \<lparr>fw_tcp = None, fw_udp = None\<rparr>), pg_proxies = [], pg_world = w\<rparr>"

definition cancel :: "nat \<Rightarrow> 'w purego \<Rightarrow> 'w purego" where
  "cancel c pg = pg\<lparr>pg_cancelled := c # pg_cancelled pg\<rparr>"

text \<open>
  \<open>forwardTCP\<close> and \<open>forwardUDP\<close>: open the listener (\<open>listen\<close>), then start the proxy's goroutines.
\<close>

definition forward :: "(protocol \<Rightarrow> 16 word \<Rightarrow> ('w, unit) step) \<Rightarrow> nat \<Rightarrow> protocol \<Rightarrow> 16 word \<Rightarrow> string list \<Rightarrow> 16 word \<Rightarrow>
    ('w purego, unit) step" where
  "forward listen ctx proto port target to pg = (case listen proto port (pg_world pg) of
      (Ok _, w) \<Rightarrow> (Ok (), pg\<lparr>pg_world := w, pg_proxies := pg_proxies pg @
         [\<lparr>px_ctx = ctx, px_proto = proto, px_port = port, px_targets = target, px_to = to\<rparr>]\<rparr>)
    | (Err e, w) \<Rightarrow> (Err e, pg\<lparr>pg_world := w\<rparr>)
    | (Panic p, w) \<Rightarrow> (Panic p, pg\<lparr>pg_world := w\<rparr>))"

definition purego_Add :: "(protocol \<Rightarrow> 16 word \<Rightarrow> ('w, unit) step) \<Rightarrow> protocol \<Rightarrow> 16 word \<Rightarrow> string list \<Rightarrow> 16 word \<Rightarrow>
    string \<Rightarrow> ('w purego, unit) step" where
  "purego_Add listen proto port target to comment pg0 =
     (let ctx = pg_next pg0; pg = pg0\<lparr>pg_next := Suc ctx\<rparr> in
      if proto = TCP then
        (case forward listen ctx TCP port target to pg of
           (Ok _, pg') \<Rightarrow> (Ok (), pg'\<lparr>pg_forwards := (pg_forwards pg')(port := (pg_forwards pg' port)\<lparr>fw_tcp := Some ctx\<rparr>)\<rparr>)
         | (Err e, pg') \<Rightarrow> (Err e, cancel ctx pg')
         | (Panic p, pg') \<Rightarrow> (Panic p, pg'))
      else if proto = UDP then
        (case forward listen ctx UDP port target to pg of
           (Ok _, pg') \<Rightarrow> (Ok (), pg'\<lparr>pg_forwards := (pg_forwards pg')(port := (pg_forwards pg' port)\<lparr>fw_udp := Some ctx\<rparr>)\<rparr>)
         | (Err e, pg') \<Rightarrow> (Err e, cancel ctx pg')
         | (Panic p, pg') \<Rightarrow> (Panic p, pg'))
      else (Panic (ExplicitPanic ''unsupported protocol''), pg))"

definition purego_Remove :: "protocol \<Rightarrow> 16 word \<Rightarrow> string list \<Rightarrow> 16 word \<Rightarrow> ('w purego, unit) step" where
  "purego_Remove proto port target to pg =
     (if proto = TCP then
        (Ok (), case fw_tcp (pg_forwards pg port) of None \<Rightarrow> pg | Some c \<Rightarrow> cancel c pg)
      else if proto = UDP then
        (Ok (), case fw_udp (pg_forwards pg port) of None \<Rightarrow> pg | Some c \<Rightarrow> cancel c pg)
      else (Panic (ExplicitPanic ''unsupported protocol''), pg))"

definition purego_Close :: "('w purego, unit) step" where
  "purego_Close pg = (Ok (), pg\<lparr>pg_root_cancelled := True\<rparr>)"

definition purego_impl :: "(protocol \<Rightarrow> 16 word \<Rightarrow> ('w, unit) step) \<Rightarrow> 'w purego PortForwarding" where
  "purego_impl listen = \<lparr>pf_Add = purego_Add listen, pf_Remove = purego_Remove, pf_Close = purego_Close\<rparr>"

text \<open>The address a dialer connects to; \<open>r\<close> is the value \<open>rand.Intn\<close> returns, which panics on 0.\<close>

definition dial_address :: "string list \<Rightarrow> 16 word \<Rightarrow> nat \<Rightarrow> string result" where
  "dial_address addresses port r =
     (if length addresses = 0 then Panic (ExplicitPanic ''invalid argument to Intn'')
      else if r < length addresses then Ok (addresses ! r @ '':'' @ Itoa (unat port))
      else Panic IndexOutOfRange)"

section \<open>Facts\<close>

definition live :: "'w purego \<Rightarrow> proxy \<Rightarrow> bool" where
  "live pg px \<longleftrightarrow> px \<in> set (pg_proxies pg) \<and> px_ctx px \<notin> set (pg_cancelled pg) \<and> \<not> pg_root_cancelled pg"

definition slot :: "'w purego \<Rightarrow> protocol \<times> 16 word \<Rightarrow> nat option" where
  "slot pg k = (if fst k = TCP then fw_tcp (pg_forwards pg (snd k)) else if fst k = UDP then fw_udp (pg_forwards pg (snd k)) else None)"

text \<open>
  The proxies and the slots: contexts are fresh and used once; the proxies not cancelled are those
  the slots of the forwarded ports point to.
\<close>

definition purego_inv :: "(protocol \<times> 16 word) set \<Rightarrow> 'w purego \<Rightarrow> bool" where
  "purego_inv A pg \<longleftrightarrow>
     distinct (map px_ctx (pg_proxies pg)) \<and>
     (\<forall>px \<in> set (pg_proxies pg). px_ctx px < pg_next pg) \<and>
     (\<forall>c \<in> set (pg_cancelled pg). c < pg_next pg) \<and>
     (\<forall>px \<in> set (pg_proxies pg). px_ctx px \<notin> set (pg_cancelled pg) \<longrightarrow>
        (px_proto px, px_port px) \<in> A \<and> slot pg (px_proto px, px_port px) = Some (px_ctx px)) \<and>
     (\<forall>k \<in> A. \<exists>px \<in> set (pg_proxies pg). px_ctx px \<notin> set (pg_cancelled pg) \<and>
        (px_proto px, px_port px) = k)"

lemma purego_inv_New: "purego_inv {} (purego_New w)"
  by (simp add: purego_inv_def purego_New_def)


text \<open>Nothing but the world changes without the program.\<close>

definition purego_env :: "'w purego \<Rightarrow> 'w purego \<Rightarrow> bool" where
  "purego_env pg pg' \<longleftrightarrow> (\<exists>w. pg' = pg\<lparr>pg_world := w\<rparr>)"

lemma purego_inv_world [simp]: "purego_inv A (pg\<lparr>pg_world := w\<rparr>) = purego_inv A pg"
  by (simp add: purego_inv_def slot_def)

lemma slot_simps [simp]:
  "slot (pg\<lparr>pg_next := n\<rparr>) k = slot pg k" "slot (pg\<lparr>pg_cancelled := cs\<rparr>) k = slot pg k"
  "slot (pg\<lparr>pg_world := w\<rparr>) k = slot pg k" "slot (pg\<lparr>pg_root_cancelled := b\<rparr>) k = slot pg k"
  by (simp_all add: slot_def)

lemma purego_inv_inj:
  "purego_inv A pg \<Longrightarrow> x \<in> set (pg_proxies pg) \<Longrightarrow> y \<in> set (pg_proxies pg) \<Longrightarrow> px_ctx x = px_ctx y \<Longrightarrow> x = y"
  unfolding purego_inv_def distinct_map inj_on_def by blast

lemma purego_inv_slot:
  "purego_inv A pg \<Longrightarrow> px \<in> set (pg_proxies pg) \<Longrightarrow> px_ctx px \<notin> set (pg_cancelled pg) \<Longrightarrow>
   (px_proto px, px_port px) \<in> A \<and> slot pg (px_proto px, px_port px) = Some (px_ctx px)"
  unfolding purego_inv_def by blast

text \<open>A context drawn and cancelled, or drawn and lost, changes nothing.\<close>

lemma purego_inv_next:
  assumes "purego_inv A pg"
  shows "purego_inv A (pg\<lparr>pg_next := Suc (pg_next pg)\<rparr>)"
    and "purego_inv A (cancel (pg_next pg) (pg\<lparr>pg_next := Suc (pg_next pg)\<rparr>))"
proof -
  show "purego_inv A (pg\<lparr>pg_next := Suc (pg_next pg)\<rparr>)"
    using assms by (simp add: purego_inv_def less_Suc_eq)
  have "px_ctx px \<noteq> pg_next pg" if "px \<in> set (pg_proxies pg)" for px
    using assms that by (auto simp: purego_inv_def)
  with assms show "purego_inv A (cancel (pg_next pg) (pg\<lparr>pg_next := Suc (pg_next pg)\<rparr>))"
    by (simp add: purego_inv_def cancel_def less_Suc_eq Ball_def Bex_def)
qed

definition started :: "nat \<Rightarrow> protocol \<Rightarrow> 16 word \<Rightarrow> string list \<Rightarrow> 16 word \<Rightarrow> 'w purego \<Rightarrow> 'w purego" where
  "started ctx p f t to pg = pg\<lparr>pg_next := Suc ctx,
     pg_proxies := pg_proxies pg @ [\<lparr>px_ctx = ctx, px_proto = p, px_port = f, px_targets = t, px_to = to\<rparr>],
     pg_forwards := (pg_forwards pg)(f := (if p = TCP then (pg_forwards pg f)\<lparr>fw_tcp := Some ctx\<rparr>
        else (pg_forwards pg f)\<lparr>fw_udp := Some ctx\<rparr>))\<rparr>"

lemma slot_started:
  assumes "p = TCP \<or> p = UDP"
  shows "slot (started c p f t to pg) k = (if k = (p, f) then Some c else slot pg k)"
  using assms by (cases k) (auto simp: slot_def started_def)

lemma purego_inv_started:
  assumes "purego_inv A pg" and "(p, f) \<notin> A" and "p = TCP \<or> p = UDP"
  shows "purego_inv (insert (p, f) A) (started (pg_next pg) p f t to pg)"
proof -
  have proj: "pg_proxies (started (pg_next pg) p f t to pg) = pg_proxies pg @
      [\<lparr>px_ctx = pg_next pg, px_proto = p, px_port = f, px_targets = t, px_to = to\<rparr>]"
    "pg_next (started (pg_next pg) p f t to pg) = Suc (pg_next pg)"
    "pg_cancelled (started (pg_next pg) p f t to pg) = pg_cancelled pg"
    by (simp_all add: started_def)
  show ?thesis
    using assms unfolding purego_inv_def proj slot_started [OF assms(3)]
    by (auto simp: less_Suc_eq)
qed

lemma purego_Add_eq:
  assumes "p = TCP \<or> p = UDP"
  shows "purego_Add listen p f t to c pg = (case listen p f (pg_world pg) of
      (Ok _, w) \<Rightarrow> (Ok (), (started (pg_next pg) p f t to pg)\<lparr>pg_world := w\<rparr>)
    | (Err e, w) \<Rightarrow> (Err e, (cancel (pg_next pg) (pg\<lparr>pg_next := Suc (pg_next pg)\<rparr>))\<lparr>pg_world := w\<rparr>)
    | (Panic q, w) \<Rightarrow> (Panic q, pg\<lparr>pg_next := Suc (pg_next pg), pg_world := w\<rparr>))"
  using assms
  by (auto simp: purego_Add_def forward_def started_def cancel_def Let_def split: prod.split result.split)

lemma purego_inv_cancel:
  assumes "purego_inv A pg" and "(p, f) \<in> A" and "slot pg (p, f) = Some c"
  shows "purego_inv (A - {(p, f)}) (cancel c pg)"
proof -
  have proj: "pg_proxies (cancel c pg) = pg_proxies pg" "pg_next (cancel c pg) = pg_next pg"
    "pg_cancelled (cancel c pg) = c # pg_cancelled pg" "slot (cancel c pg) k = slot pg k" for k
    by (simp_all add: cancel_def slot_def)
  obtain px where px: "px \<in> set (pg_proxies pg)" "px_ctx px \<notin> set (pg_cancelled pg)"
      "(px_proto px, px_port px) = (p, f)"
    using assms(1,2) unfolding purego_inv_def by meson
  then have c: "px_ctx px = c" using assms(1,3) by (auto simp: purego_inv_def)
  have lt: "c < pg_next pg" using assms(1) px(1) c by (auto simp: purego_inv_def)
  have only: "px_ctx y \<noteq> c" if "y \<in> set (pg_proxies pg)" "(px_proto y, px_port y) \<noteq> (p, f)" for y
    using purego_inv_inj [OF assms(1) that(1) px(1)] c px(3) that(2) by auto
  have other: "(px_proto y, px_port y) \<in> A - {(p, f)} \<and> slot pg (px_proto y, px_port y) = Some (px_ctx y)"
    if "y \<in> set (pg_proxies pg)" "px_ctx y \<notin> set (c # pg_cancelled pg)" for y
    using purego_inv_slot [OF assms(1) that(1)] that(2) assms(3) by auto
  have serves: "\<exists>y \<in> set (pg_proxies pg). px_ctx y \<notin> set (c # pg_cancelled pg) \<and> (px_proto y, px_port y) = k"
    if k: "k \<in> A - {(p, f)}" for k
  proof -
    obtain y where "y \<in> set (pg_proxies pg)" "px_ctx y \<notin> set (pg_cancelled pg)" "(px_proto y, px_port y) = k"
      using assms(1) k unfolding purego_inv_def by (meson DiffD1)
    with only [of y] k show ?thesis by (intro bexI [of _ y]) auto
  qed
  have "distinct (map px_ctx (pg_proxies pg))" "\<forall>px \<in> set (pg_proxies pg). px_ctx px < pg_next pg"
    "\<forall>c \<in> set (pg_cancelled pg). c < pg_next pg"
    using assms(1) by (simp_all add: purego_inv_def)
  with lt other serves show ?thesis unfolding purego_inv_def proj by simp
qed

lemma purego_slot:
  assumes "purego_inv A pg" and "(p, f) \<in> A"
  shows "\<exists>c. slot pg (p, f) = Some c \<and> (p = TCP \<or> p = UDP)"
proof -
  obtain px where "px \<in> set (pg_proxies pg)" "px_ctx px \<notin> set (pg_cancelled pg)"
      "(px_proto px, px_port px) = (p, f)"
    using assms unfolding purego_inv_def by meson
  then have "slot pg (p, f) = Some (px_ctx px)" using assms(1) by (auto simp: purego_inv_def)
  then show ?thesis by (auto simp: slot_def split: if_splits)
qed

lemma purego_Remove_eq:
  assumes "p = TCP \<or> p = UDP"
  shows "purego_Remove p f t to pg = (Ok (), case slot pg (p, f) of None \<Rightarrow> pg | Some c \<Rightarrow> cancel c pg)"
  using assms by (auto simp: purego_Remove_def slot_def)

interpretation pure_go: guarded_implementation "purego_impl listen" purego_env purego_inv
  for listen :: "protocol \<Rightarrow> 16 word \<Rightarrow> ('w, unit) step"
proof
  fix A p f t to c r and u u' :: "'w purego"
  assume J: "purego_inv A u" and new: "(p, f) \<notin> A" and p: "p = TCP \<or> p = UDP"
    and run: "pf_Add (purego_impl listen) p f t to c u = (r, u')"
  have "purego_inv A (u\<lparr>pg_next := Suc (pg_next u), pg_world := w\<rparr>)" for w
    using purego_inv_next(1) [OF J] purego_inv_world [where pg = "u\<lparr>pg_next := Suc (pg_next u)\<rparr>" and A = A and w = w] by simp
  with run purego_inv_started [OF J new p] purego_inv_next(2) [OF J]
  show "purego_inv (if r = Ok () then insert (p, f) A else A) u'"
    by (auto simp: purego_impl_def purego_Add_eq [OF p] split: prod.splits result.splits)
next
  fix A p f t to r and u u' :: "'w purego"
  assume J: "purego_inv A u" and act: "(p, f) \<in> A"
    and run: "pf_Remove (purego_impl listen) p f t to u = (r, u')"
  obtain c where c: "slot u (p, f) = Some c" "p = TCP \<or> p = UDP" using purego_slot [OF J act] by blast
  with run purego_inv_cancel [OF J act c(1)]
  show "purego_inv (if r = Ok () then A - {(p, f)} else A) u'"
    by (auto simp: purego_impl_def purego_Remove_eq)
next
  fix A and u :: "'w purego"
  assume "purego_inv A u"
  then show "purego_inv A (snd (pf_Close (purego_impl listen) u))"
    by (simp add: purego_impl_def purego_Close_def purego_inv_def)
next
  fix A and u u' :: "'w purego"
  assume "purego_inv A u" and "purego_env u u'"
  then show "purego_inv A u'" by (auto simp: purego_env_def)
qed

lemma purego_serves_forwarded_plain:
  assumes "guard_run (purego_impl listen) fs purego_env (purego_New w) h g"
    and "\<not> pg_root_cancelled (gpf_underlying g)"
  shows "(p, f) \<in> forwarded g \<longleftrightarrow> (\<exists>!px. live (gpf_underlying g) px \<and> px_proto px = p \<and> px_port px = f)"
proof -
  have inv: "purego_inv (forwarded g) (gpf_underlying g)"
    by (rule pure_go.run_keeps [OF assms(1) purego_inv_New])
  let ?pg = "gpf_underlying g"
  show ?thesis
  proof
    assume "(p, f) \<in> forwarded g"
    then obtain px where px: "px \<in> set (pg_proxies ?pg)" "px_ctx px \<notin> set (pg_cancelled ?pg)"
        "(px_proto px, px_port px) = (p, f)"
      using inv unfolding purego_inv_def by meson
    have same: "y = px" if "live ?pg y \<and> px_proto y = p \<and> px_port y = f" for y
    proof -
      have "slot ?pg (p, f) = Some (px_ctx y)" "slot ?pg (p, f) = Some (px_ctx px)"
        using purego_inv_slot [OF inv, of y] purego_inv_slot [OF inv, of px] that px by (auto simp: live_def)
      then have "px_ctx y = px_ctx px" by simp
      then show ?thesis using purego_inv_inj [OF inv] that px(1) by (auto simp: live_def)
    qed
    show "\<exists>!px. live ?pg px \<and> px_proto px = p \<and> px_port px = f"
    proof (rule ex1I [of _ px])
      show "live ?pg px \<and> px_proto px = p \<and> px_port px = f" using px assms(2) by (simp add: live_def)
    qed (rule same)
  next
    assume "\<exists>!px. live ?pg px \<and> px_proto px = p \<and> px_port px = f"
    then obtain px where "live ?pg px" "px_proto px = p" "px_port px = f" by blast
    with purego_inv_slot [OF inv, of px] show "(p, f) \<in> forwarded g" by (simp add: live_def)
  qed
qed

text \<open>
  Behind the guard, and until it is closed, the user-space implementation serves exactly the
  active forwardings: one proxy for each of them, and none for any other port.
\<close>

theorem purego_serves_forwarded:
  assumes "guard_run (purego_impl listen) fs purego_env (purego_New w) h g"
    and "\<not> pg_root_cancelled (gpf_underlying g)"
  shows "(p, f) \<in> forwarded g \<longleftrightarrow> (\<exists>!px. live (gpf_underlying g) px \<and> px_proto px = p \<and> px_port px = f)"
  by (rule purego_serves_forwarded_plain [OF assms])

interpretation pure_go_honest: honest_implementation "purego_impl listen"
  for listen :: "protocol \<Rightarrow> 16 word \<Rightarrow> ('w, unit) step"
  by unfold_locales (auto simp: purego_impl_def purego_Remove_def split: if_splits)

section \<open>Examples\<close>

lemma purego_serves_forwarded_witness:
  "\<exists>g. guard_run (purego_impl (\<lambda>p f w. (Ok (), w))) no_sockets purego_env (purego_New ())
       [(CallAdd TCP 80 [''10.0.0.1''] 8080 [], Ok ())] g \<and>
     (\<exists>!px. live (gpf_underlying g) px \<and> px_proto px = TCP \<and> px_port px = 80)"
proof -
  let ?listen = "\<lambda>p f w. (Ok (), w) :: unit result \<times> unit"
  obtain g where e: "guard_exec (purego_impl ?listen) no_sockets (CallAdd TCP 80 [''10.0.0.1''] 8080 [])
      (guard_New (purego_New ())) = (Ok (), g)" and c: "\<not> pg_root_cancelled (gpf_underlying g)" "(TCP, 80) \<in> forwarded g"
    by (simp add: guard_Add_def listens_Has_def guard_New_def andThen_def on_underlying_def purego_impl_def purego_Add_def
        purego_New_def forward_def listens_Insert_def forwarded_def)
  from guard_run.call [OF guard_run.start e]
  have run: "guard_run (purego_impl ?listen) no_sockets purego_env (purego_New ()) [(CallAdd TCP 80 [''10.0.0.1''] 8080 [], Ok ())] g"
    by simp
  from purego_serves_forwarded [OF run c(1), of TCP 80] c(2) run show ?thesis by blast
qed

end
