(* ===== verification/NodeAgent.thy ===== *)
theory NodeAgent
  imports PfController PureGo
begin

text \<open>
  The agent of one node: the controller's reconciliations of any number of objects, the guard they share
  and the implementation behind it (\<open>cmd/forwarding/main.go\<close> puts them together). A reconciliation reaches
  the forwarder through calls of the guard only, so what holds of the guard's histories holds of the
  agent's; and the calls are about the ports its object claims or has recorded.
\<close>

section \<open>Calls of the guard\<close>

text \<open>From one state of the guard to another by additions and removals of forwardings in \<open>K\<close>.\<close>

definition call_in :: "(protocol \<times> 16 word) set \<Rightarrow> pf_call \<Rightarrow> bool" where
  "call_in K c = (case c of CallAdd p f t to cm \<Rightarrow> (p, f) \<in> K | CallRemove p f t to \<Rightarrow> (p, f) \<in> K | CallClose \<Rightarrow> False)"

inductive guard_calls :: "'u PortForwarding \<Rightarrow> ('u \<Rightarrow> string \<Rightarrow> string result) \<Rightarrow> (protocol \<times> 16 word) set \<Rightarrow>
    'u guardPortForwarding \<Rightarrow> 'u guardPortForwarding \<Rightarrow> bool" for P fs K where
  none [intro]: "guard_calls P fs K g g"
| call: "guard_calls P fs K g g' \<Longrightarrow> call_in K c \<Longrightarrow> guard_calls P fs K g (snd (guard_exec P fs c g'))"

lemma guard_calls_trans:
  "guard_calls P fs K g2 g3 \<Longrightarrow> guard_calls P fs K g1 g2 \<Longrightarrow> guard_calls P fs K g1 g3"
  by (induction rule: guard_calls.induct) (auto intro: guard_calls.call)

text \<open>Calls extend a history of the guard, and forwardings outside \<open>K\<close> stay as they are.\<close>

lemma guard_calls_run:
  assumes "guard_calls P fs K g g'" and "guard_run P fs env u0 h g"
  shows "\<exists>h'. guard_run P fs env u0 (h @ h') g' \<and> CallClose \<notin> fst ` set h'"
  using assms
proof (induction rule: guard_calls.induct)
  case (none g)
  then show ?case by (intro exI [of _ "[]"]) simp
next
  case (call g g' c)
  then obtain h' where h': "guard_run P fs env u0 (h @ h') g'" "CallClose \<notin> fst ` set h'" by blast
  obtain r g2 where e: "guard_exec P fs c g' = (r, g2)" by fastforce
  from guard_run.call [OF h'(1) e] have "guard_run P fs env u0 (h @ (h' @ [(c, r)])) g2" by simp
  moreover have "c \<noteq> CallClose" using call.hyps(2) by (auto simp: call_in_def)
  ultimately show ?case using h'(2) e by (intro exI [of _ "h' @ [(c, r)]"]) auto
qed

lemma spec_step_outside: "call_in K c \<Longrightarrow> k \<notin> K \<Longrightarrow> k \<in> spec_step A (c, r) \<longleftrightarrow> k \<in> A"
  by (cases c; cases r) (auto simp: call_in_def)

lemma guard_calls_frame:
  "guard_calls P fs K g g' \<Longrightarrow> guard_inv g \<Longrightarrow> guard_inv g' \<and> (\<forall>k. k \<notin> K \<longrightarrow> k \<in> forwarded g' \<longleftrightarrow> k \<in> forwarded g)"
proof (induction rule: guard_calls.induct)
  case (call g g' c)
  obtain r g2 where e: "guard_exec P fs c g' = (r, g2)" by fastforce
  then show ?case
    using guard_exec_spec [OF _ e] call spec_step_outside [OF call.hyps(2)] by simp
qed simp

section \<open>Steps that make only such calls\<close>

definition calls :: "'u PortForwarding \<Rightarrow> ('u \<Rightarrow> string \<Rightarrow> string result) \<Rightarrow> (protocol \<times> 16 word) set \<Rightarrow>
    ('u guardPortForwarding, 'a) step \<Rightarrow> bool" where
  "calls P fs K m \<longleftrightarrow> (\<forall>g. guard_calls P fs K g (snd (m g)))"

definition ctl_calls :: "'u PortForwarding \<Rightarrow> ('u \<Rightarrow> string \<Rightarrow> string result) \<Rightarrow> (protocol \<times> 16 word) set \<Rightarrow>
    (('k, 'u guardPortForwarding) ctl, 'a) step \<Rightarrow> bool" where
  "ctl_calls P fs K m \<longleftrightarrow> (\<forall>c. guard_calls P fs K (ct_fwd c) (ct_fwd (snd (m c))))"

named_theorems call_rules

lemma calls_then [call_rules]: "calls P fs K m \<Longrightarrow> (\<And>a. calls P fs K (f a)) \<Longrightarrow> calls P fs K (andThen m f)"
  unfolding calls_def
proof
  fix g assume m: "\<forall>g. guard_calls P fs K g (snd (m g))" and f: "\<And>a. \<forall>g. guard_calls P fs K g (snd (f a g))"
  obtain r g1 where e: "m g = (r, g1)" by fastforce
  then have g1: "guard_calls P fs K g g1" using m by (metis snd_conv)
  show "guard_calls P fs K g (snd (andThen m f g))"
  proof (cases r)
    case (Ok a)
    have "guard_calls P fs K g1 (snd (f a g1))" using f by blast
    then show ?thesis using guard_calls_trans [OF _ g1] by (simp add: andThen_def e Ok)
  qed (simp_all add: andThen_def e g1)
qed

lemma ctl_then [call_rules]: "ctl_calls P fs K m \<Longrightarrow> (\<And>a. ctl_calls P fs K (f a)) \<Longrightarrow> ctl_calls P fs K (andThen m f)"
  unfolding ctl_calls_def
proof
  fix c assume m: "\<forall>c. guard_calls P fs K (ct_fwd c) (ct_fwd (snd (m c)))"
    and f: "\<And>a. \<forall>c. guard_calls P fs K (ct_fwd c) (ct_fwd (snd (f a c)))"
  obtain r c1 where e: "m c = (r, c1)" by fastforce
  then have c1: "guard_calls P fs K (ct_fwd c) (ct_fwd c1)" using m by (metis snd_conv)
  show "guard_calls P fs K (ct_fwd c) (ct_fwd (snd (andThen m f c)))"
  proof (cases r)
    case (Ok a)
    have "guard_calls P fs K (ct_fwd c1) (ct_fwd (snd (f a c1)))" using f by blast
    then show ?thesis using guard_calls_trans [OF _ c1] by (simp add: andThen_def e Ok)
  qed (simp_all add: andThen_def e c1)
qed

lemma calls_pure [call_rules]: "calls P fs K (ret a)" "calls P fs K (\<lambda>g. (r, g))" "ctl_calls P fs K (ret a)"
  "ctl_calls P fs K skip" "ctl_calls P fs K (\<lambda>c. (r, c))"
  by (auto simp: calls_def ctl_calls_def ret_def skip_def)

lemma calls_if [call_rules]: "(b \<Longrightarrow> calls P fs K m) \<Longrightarrow> (\<not> b \<Longrightarrow> calls P fs K n) \<Longrightarrow> calls P fs K (if b then m else n)"
  by simp

lemma calls_attempt [call_rules]: "calls P fs K m \<Longrightarrow> calls P fs K (attempt m)"
  by (auto simp: calls_def attempt_def split: prod.split result.split) (metis snd_conv)+

lemma calls_api [call_rules]: "ctl_calls P fs K (on_api m)"
  by (auto simp: ctl_calls_def on_api_def split: prod.split)

lemma calls_fwd [call_rules]: "calls P fs K m \<Longrightarrow> ctl_calls P fs K (on_fwd m)"
  by (auto simp: ctl_calls_def calls_def on_fwd_def split: prod.split) (metis snd_conv)

lemma calls_Add [call_rules]: "(p, f) \<in> K \<Longrightarrow> calls P fs K (pf_Add (guarded P fs) p f t to cm)"
  using guard_calls.call [OF guard_calls.none, where c = "CallAdd p f t to cm"] by (auto simp: calls_def call_in_def)

lemma calls_Remove [call_rules]: "(p, f) \<in> K \<Longrightarrow> calls P fs K (pf_Remove (guarded P fs) p f t to)"
  using guard_calls.call [OF guard_calls.none, where c = "CallRemove p f t to"] by (auto simp: calls_def call_in_def)

lemmas guard_call_rules [call_rules] = calls_Add [simplified] calls_Remove [simplified]

section \<open>A reconciliation\<close>

text \<open>The forwardings an entry of a status is about; the deletion loop reads the number of the port otherwise.\<close>

definition entry_keys :: "'k api \<Rightarrow> ForwardedPort \<Rightarrow> (protocol \<times> 16 word) set" where
  "entry_keys A e = {fp_key A e, (fp_Protocol e, port16 (ios_IntVal (fp_SourcePort e)))}"

lemma calls_sync_unchanged: "fp_key A ` set es \<subseteq> K \<Longrightarrow> calls P fs K (sync_unchanged A (guarded P fs) cm es)"
proof (induction es)
  case Nil
  have "sync_unchanged A (guarded P fs) cm [] = ret []" by (rule ext) (simp add: ret_def)
  then show ?case by (simp add: call_rules)
next
  case (Cons e es)
  have "sync_unchanged A (guarded P fs) cm (e # es) = andThen (if port16 (api_IntValue A (fp_SourcePort e)) > 0
              then andThen (attempt (call_Add A (guarded P fs) cm e)) (\<lambda>r. ret (unchanged_state e r))
              else ret (e\<lparr>fp_State := PortForwardingUnknown\<rparr>)) (\<lambda>e'.
       andThen (sync_unchanged A (guarded P fs) cm es) (\<lambda>es'. ret (e' # es')))" by (rule ext) simp
  moreover have "calls P fs K (call_Add A (guarded P fs) cm e)"
    using Cons.prems unfolding call_Add_def by (intro call_rules) (simp add: fp_key_def)
  ultimately show ?case using Cons by (auto intro!: call_rules)
qed

lemma calls_sync_additions: "fp_key A ` set es \<subseteq> K \<Longrightarrow> calls P fs K (sync_additions A (guarded P fs) cm es)"
proof (induction es)
  case Nil
  have "sync_additions A (guarded P fs) cm [] = ret []" by (rule ext) (simp add: ret_def)
  then show ?case by (simp add: call_rules)
next
  case (Cons e es)
  have "sync_additions A (guarded P fs) cm (e # es) = andThen (attempt (call_Add A (guarded P fs) cm e)) (\<lambda>r.
       andThen (sync_additions A (guarded P fs) cm es) (\<lambda>es'. ret (addition_state e r # es')))" by (rule ext) simp
  moreover have "calls P fs K (call_Add A (guarded P fs) cm e)"
    using Cons.prems unfolding call_Add_def by (intro call_rules) (simp add: fp_key_def)
  ultimately show ?case using Cons by (auto intro!: call_rules)
qed

definition removal_keys :: "'k api \<Rightarrow> ForwardedPort list \<Rightarrow> (protocol \<times> 16 word) set" where
  "removal_keys A es = (\<Union>e \<in> {e \<in> set es. port16 (api_IntValue A (fp_SourcePort e)) > 0}. entry_keys A e)"

lemma calls_sync_deletions: "removal_keys A es \<subseteq> K \<Longrightarrow> calls P fs K (sync_deletions A (guarded P fs) es)"
proof (induction es)
  case Nil
  have "sync_deletions A (guarded P fs) [] = ret []" by (rule ext) (simp add: ret_def)
  then show ?case by (simp add: call_rules)
next
  case (Cons e es)
  have "sync_deletions A (guarded P fs) (e # es) = andThen (if port16 (api_IntValue A (fp_SourcePort e)) > 0
              then attempt (pf_Remove (guarded P fs) (fp_Protocol e) (port16 (ios_IntVal (fp_SourcePort e)))
                     (fp_TargetHosts e) (port16 (fp_TargetPort e)))
              else ret None) (\<lambda>r.
       andThen (sync_deletions A (guarded P fs) es) (\<lambda>es'. ret
         (case r of
            Some err \<Rightarrow> if \<not> errors_Is err ErrPortNotForwarded then e\<lparr>fp_State := PortForwardingResidual\<rparr> # es' else es'
          | None \<Rightarrow> es')))" by (rule ext) simp
  moreover have "(fp_Protocol e, port16 (ios_IntVal (fp_SourcePort e))) \<in> K" if "port16 (api_IntValue A (fp_SourcePort e)) > 0"
    using Cons.prems that by (auto simp: entry_keys_def removal_keys_def)
  moreover have "calls P fs K (sync_deletions A (guarded P fs) es)" using Cons by (auto simp: removal_keys_def)
  ultimately show ?case by (auto intro!: call_rules)
qed

lemma calls_remove_ports: "fp_key A ` set es \<subseteq> K \<Longrightarrow> calls P fs K (remove_ports A (guarded P fs) reason es)"
proof (induction es)
  case Nil
  have "remove_ports A (guarded P fs) reason [] = ret []" by (rule ext) (simp add: ret_def)
  then show ?case by (simp add: call_rules)
next
  case (Cons e es)
  then have IH: "calls P fs K (remove_ports A (guarded P fs) reason es)" by simp
  have rm: "calls P fs K (attempt (pf_Remove (guarded P fs) (fp_Protocol e) (port16 (api_IntValue A (fp_SourcePort e)))
                   (fp_TargetHosts e) (port16 (fp_TargetPort e))))"
    using Cons.prems by (intro call_rules) (simp add: fp_key_def)
  show ?case
  proof (cases "port16 (api_IntValue A (fp_SourcePort e)) > 0")
    case False
    then have "remove_ports A (guarded P fs) reason (e # es) = remove_ports A (guarded P fs) reason es" by (intro ext) simp
    with IH show ?thesis by simp
  next
    case True
    then have "remove_ports A (guarded P fs) reason (e # es) = andThen (attempt (pf_Remove (guarded P fs) (fp_Protocol e)
        (port16 (api_IntValue A (fp_SourcePort e))) (fp_TargetHosts e) (port16 (fp_TargetPort e)))) (\<lambda>r.
          if r \<noteq> None \<and> \<not> errors_Is (the r) ErrPortNotForwarded then (\<lambda>u. (Err (the r), u))
          else andThen (remove_ports A (guarded P fs) reason es) (\<lambda>es'. ret (case reason of
              None \<Rightarrow> es'
            | Some st \<Rightarrow> \<lparr>fp_Protocol = fp_Protocol e, fp_SourcePort = fp_SourcePort e, fp_TargetHosts = [],
                fp_TargetPort = 0, fp_State = st\<rparr> # es')))"
      by (intro ext) (simp only: remove_ports.simps if_True)
    then show ?thesis using rm IH by (auto intro!: call_rules)
  qed
qed

text \<open>Every forwarding the object can be about: its entries for the node and the ports its spec asks for.\<close>

definition node_entries :: "string \<Rightarrow> PortForwardingObject \<Rightarrow> ForwardedPort set" where
  "node_entries node pf = (\<Union>ns \<in> {ns \<in> set (pfo_Status pf). ns_NodeName ns = node}. set (ns_ForwardedPorts ns))"

definition asks_for :: "PortForwardingObject \<Rightarrow> 16 word \<Rightarrow> bool" where
  "asks_for pf f \<longleftrightarrow> (\<exists>w \<in> set (pfo_Ports pf). case pfp_HostPort w of None \<Rightarrow> True | Some h \<Rightarrow> port16 h = f)"

definition claimed :: "'k api \<Rightarrow> string \<Rightarrow> PortForwardingObject \<Rightarrow> (protocol \<times> 16 word) set" where
  "claimed A node pf = (\<Union>e \<in> node_entries node pf. entry_keys A e) \<union> {(p, f). asks_for pf f}"

lemma find_SomeD: "List.find Q xs = Some x \<Longrightarrow> x \<in> set xs \<and> Q x"
  by (induction xs) (auto split: if_splits)

lemma recorded_entries: "set (recorded_ports node pf) \<subseteq> node_entries node pf"
  by (auto simp: recorded_ports_def node_entries_def split: option.splits dest!: sym [where s = "Some _"] find_SomeD)

lemma own_entries: "set (own_ports node pf) \<subseteq> node_entries node pf"
  by (auto simp: own_ports_def node_entries_def split: option.splits dest!: sym [where s = "Some _"] find_SomeD)

lemma update_values: "snd ` set (AList.update k v m) \<subseteq> insert v (snd ` set m)"
  by (induction m) auto

lemma fold_update_values:
  "snd ` set (fold (\<lambda>e m. AList.update (fp_SourcePort e) e m) es m) \<subseteq> set es \<union> snd ` set m"
proof (induction es arbitrary: m)
  case (Cons e es)
  show ?case
    using Cons [of "AList.update (fp_SourcePort e) e m"] update_values [of "fp_SourcePort e" e m] unfolding fold_Cons o_apply by auto
qed simp

lemma recorded_map_values: "snd ` set (recorded_map node pf) \<subseteq> set (recorded_ports node pf)"
  using fold_update_values [of "recorded_ports node pf" "[]"] by (simp add: recorded_map_def)

lemma desired_key:
  assumes "IntValue_ok A" "desired svc ess w = Some new" "w \<in> set (pfo_Ports pf)"
  shows "asks_for pf (snd (fp_key A new))"
proof -
  obtain sp where "new = \<lparr>fp_Protocol = sp_Protocol sp, fp_SourcePort = source_port w sp,
      fp_TargetHosts = target_hosts svc ess, fp_TargetPort = sp_Port sp, fp_State = PortForwardingReady\<rparr>"
    using assms(2) by (auto simp: desired_def split: option.splits)
  then have "fp_key A new = (sp_Protocol sp, port16 (case pfp_HostPort w of None \<Rightarrow> sp_Port sp | Some h \<Rightarrow> h))"
    using assms(1) by (simp add: fp_key_def source_port_def FromInt32_def IntValue_ok_def split: option.split)
  then show ?thesis using assms(3) unfolding asks_for_def by (force split: option.split)
qed

lemma sync_parts_claimed:
  assumes "IntValue_ok A" "\<And>xs. mset (ord xs) = mset xs"
    and "SyncForwardingPorts ord node pf svc ess = (additions, deletions, unchanged, errs)"
  shows "fp_key A ` set additions \<subseteq> claimed A node pf" "fp_key A ` set unchanged \<subseteq> claimed A node pf"
    "removal_keys A deletions \<subseteq> claimed A node pf"
proof -
  note parts = SyncForwardingPorts_partition_plain [OF assms(3,2)]
  have "set deletions \<union> set unchanged = set_mset (mset deletions + mset unchanged)" by simp
  also have "\<dots> = snd ` set (recorded_map node pf)" using parts by simp
  finally have rec: "set deletions \<union> set unchanged \<subseteq> node_entries node pf"
    using recorded_map_values [of node pf] recorded_entries [of node pf] by blast
  then show "fp_key A ` set unchanged \<subseteq> claimed A node pf" "removal_keys A deletions \<subseteq> claimed A node pf"
    by (auto simp: claimed_def entry_keys_def removal_keys_def)
  show "fp_key A ` set additions \<subseteq> claimed A node pf"
  proof
    fix k assume "k \<in> fp_key A ` set additions"
    then obtain new where new: "new \<in> set additions" "k = fp_key A new" by blast
    then obtain w where "w \<in> set (pfo_Ports pf)" "desired svc ess w = Some new" using parts by blast
    from desired_key [OF assms(1) this(2,1)] new(2) show "k \<in> claimed A node pf"
      unfolding claimed_def by (simp add: case_prod_unfold)
  qed
qed

lemma calls_sync_ports:
  assumes "IntValue_ok A" "\<And>xs. mset (ord xs) = mset xs" "claimed A node pf \<subseteq> K"
  shows "calls P fs K (sync_ports A (guarded P fs) cm (SyncForwardingPorts ord node pf svc ess))"
proof -
  obtain additions deletions unchanged errs
    where parts: "SyncForwardingPorts ord node pf svc ess = (additions, deletions, unchanged, errs)" by (metis prod_cases4)
  note sub = sync_parts_claimed [OF assms(1,2) parts]
  show ?thesis
    unfolding parts sync_ports_def prod.case
    by (intro call_rules calls_sync_unchanged calls_sync_deletions calls_sync_additions) (use sub assms(3) in blast)+
qed

lemma calls_removePortForwarding:
  assumes "claimed A node pf \<subseteq> K"
  shows "ctl_calls P fs K (removePortForwarding A (guarded P fs) node pf reason)"
proof (cases "List.find (\<lambda>ns. ns_NodeName ns = node \<and> ns_ForwardedPorts ns \<noteq> []) (pfo_Status pf)")
  case None
  then show ?thesis unfolding removePortForwarding_def by (simp add: call_rules)
next
  case (Some ns)
  then have "set (ns_ForwardedPorts ns) \<subseteq> node_entries node pf" using own_entries [of node pf] by (simp add: own_ports_def)
  then have "fp_key A ` set (ns_ForwardedPorts ns) \<subseteq> K" using assms by (auto simp: claimed_def entry_keys_def)
  then show ?thesis unfolding removePortForwarding_def Some option.case by (intro call_rules calls_remove_ports)
qed

lemma ctl_case_api:
  fixes m :: "('a, 'c) step" and f :: "'c \<Rightarrow> (('a, 'b guardPortForwarding) ctl, 'd) step"
  assumes "\<And>a. ctl_calls P fs K (f a)" "\<And>e. ctl_calls P fs K (g e)" "\<And>p. ctl_calls P fs K (h p)"
  shows "ctl_calls P fs K (\<lambda>c. case on_api m c of (Ok a, c') \<Rightarrow> f a c' | (Err e, c') \<Rightarrow> g e c' | (Panic p, c') \<Rightarrow> h p c')"
  unfolding ctl_calls_def
proof
  fix c :: "('a, 'b guardPortForwarding) ctl"
  obtain r k where e: "m (ct_api c) = (r, k)" by fastforce
  then have "on_api m c = (r, c\<lparr>ct_api := k\<rparr>)" by (simp add: on_api_def)
  then show "guard_calls P fs K (ct_fwd c) (ct_fwd (snd (case on_api m c of
      (Ok a, c') \<Rightarrow> f a c' | (Err e, c') \<Rightarrow> g e c' | (Panic p, c') \<Rightarrow> h p c')))"
    using assms unfolding ctl_calls_def by (cases r) (simp, metis ctl.select_convs(2) ctl.surjective ctl.update_convs(1))+
qed

lemma calls_syncPortForwarding:
  assumes "IntValue_ok A" "\<And>xs. mset (ord xs) = mset xs" "claimed A node pf \<subseteq> K"
  shows "ctl_calls P fs K (syncPortForwarding A (guarded P fs) ord node pf)"
  unfolding syncPortForwarding_def [abs_def]
proof (rule ctl_case_api)
  show "ctl_calls P fs K (andThen (on_api (listOwnedEndpointSlices A svc)) (\<lambda>ess.
      andThen (on_fwd (sync_ports A (guarded P fs) (svc_Name svc) (SyncForwardingPorts ord node pf svc ess))) (\<lambda>newPorts.
        on_api (PatchNodeForwardedStatus A pf node newPorts))))" for svc
    by (intro call_rules calls_sync_ports assms)
  show "ctl_calls P fs K (\<lambda>c'. if api_IsNotFound A e then removePortForwarding A (guarded P fs) node pf (Some PortForwardingNoTarget) c'
          else (Err e, c'))" for e
    by (cases "api_IsNotFound A e") (simp_all add: calls_removePortForwarding assms(3) call_rules)
  show "ctl_calls P fs K (\<lambda>c'. (Panic p, c'))" for p by (rule call_rules)
qed

text \<open>What a reconciliation does to the guard, once it has read the object.\<close>

lemma Reconcile_calls:
  assumes "IntValue_ok A" "\<And>xs. mset (ord xs) = mset xs"
    and "\<And>pf k. api_GetPF A key (ct_api c) = (Ok pf, k) \<Longrightarrow> claimed A node pf \<subseteq> K"
  shows "guard_calls P fs K (ct_fwd c) (ct_fwd (snd (Reconcile A (guarded P fs) ord node key c)))"
proof -
  obtain r k where get: "api_GetPF A key (ct_api c) = (r, k)" by fastforce
  then have on: "on_api (api_GetPF A key) c = (r, c\<lparr>ct_api := k\<rparr>)" by (simp add: on_api_def)
  show ?thesis
  proof (cases r)
    case (Ok pf)
    have K: "claimed A node pf \<subseteq> K" using assms(3) get Ok by simp
    have live: "ctl_calls P fs K (andThen (on_api (AddFinalizer A pf)) (\<lambda>_.
        andThen (syncPortForwarding A (guarded P fs) ord node pf) (\<lambda>_. ret False)))"
      by (intro call_rules calls_syncPortForwarding assms(1,2) K)
    have fin: "ctl_calls P fs K (\<lambda>c. case RemoveFinalizer A pf (ct_api c) of
        (requeue, r, k) \<Rightarrow> (andRes r (\<lambda>_. Ok requeue), c\<lparr>ct_api := k\<rparr>))"
      by (auto simp: ctl_calls_def split: prod.split)
    have gone: "ctl_calls P fs K (andThen (removePortForwarding A (guarded P fs) node pf None) (\<lambda>_ c. case RemoveFinalizer A pf (ct_api c) of
        (requeue, r, k) \<Rightarrow> (andRes r (\<lambda>_. Ok requeue), c\<lparr>ct_api := k\<rparr>)))"
      by (intro call_rules calls_removePortForwarding K fin)
    show ?thesis
      using live [unfolded ctl_calls_def, THEN spec, of "c\<lparr>ct_api := k\<rparr>"] gone [unfolded ctl_calls_def, THEN spec, of "c\<lparr>ct_api := k\<rparr>"]
      by (simp add: Reconcile_def on Ok guard_calls.none)
  qed (simp_all add: Reconcile_def on guard_calls.none)
qed


section \<open>The agent\<close>

text \<open>
  What happens on a node: reconciliations, one at a time (the controller has one worker), of any objects
  and in any order; changes of the API server and of the machine in between; and the clean-up.
\<close>

datatype node_event = Reconciled "string \<times> string" | ApiChanged | MachineChanged | CleanedUp

inductive node_run :: "'k api \<Rightarrow> 'u PortForwarding \<Rightarrow> ('u \<Rightarrow> string \<Rightarrow> string result) \<Rightarrow> string \<Rightarrow> ('u \<Rightarrow> 'u \<Rightarrow> bool) \<Rightarrow>
    'u \<Rightarrow> node_event list \<Rightarrow> ('k, 'u guardPortForwarding) ctl \<Rightarrow> bool" for A P fs node env u0 where
  start: "node_run A P fs node env u0 [] \<lparr>ct_api = k, ct_fwd = guard_New u0\<rparr>"
| reconcile: "node_run A P fs node env u0 evs c \<Longrightarrow> mset \<circ> ord = mset \<Longrightarrow>
    node_run A P fs node env u0 (evs @ [Reconciled key]) (snd (Reconcile A (guarded P fs) ord node key c))"
| api: "node_run A P fs node env u0 evs c \<Longrightarrow> node_run A P fs node env u0 (evs @ [ApiChanged]) (c\<lparr>ct_api := k\<rparr>)"
| machine: "node_run A P fs node env u0 evs c \<Longrightarrow> env (gpf_underlying (ct_fwd c)) u \<Longrightarrow>
    node_run A P fs node env u0 (evs @ [MachineChanged]) (c\<lparr>ct_fwd := (ct_fwd c)\<lparr>gpf_underlying := u\<rparr>\<rparr>)"
| cleanup: "node_run A P fs node env u0 evs c \<Longrightarrow>
    node_run A P fs node env u0 (evs @ [CleanedUp]) (snd (CleanUp (guarded P fs) c))"

text \<open>The agent's guard has a history of its own, without a close before the clean-up.\<close>

lemma node_run_guard:
  assumes "node_run A P fs node env u0 evs c" "IntValue_ok A"
  shows "\<exists>h. guard_run P fs env u0 h (ct_fwd c) \<and> (CleanedUp \<notin> set evs \<longrightarrow> CallClose \<notin> fst ` set h)"
  using assms(1)
proof (induction rule: node_run.induct)
  case (start k)
  show ?case by (intro exI [of _ "[]"]) (simp add: guard_run.start)
next
  case (reconcile evs c ord key)
  then obtain h where h: "guard_run P fs env u0 h (ct_fwd c)" "CleanedUp \<notin> set evs \<longrightarrow> CallClose \<notin> fst ` set h" by blast
  have "mset (ord xs) = mset xs" for xs using reconcile.hyps(2) by (metis comp_apply)
  then have "guard_calls P fs UNIV (ct_fwd c) (ct_fwd (snd (Reconcile A (guarded P fs) ord node key c)))"
    by (intro Reconcile_calls [OF assms(2)]) auto
  from guard_calls_run [OF this h(1)] obtain h' where
    "guard_run P fs env u0 (h @ h') (ct_fwd (snd (Reconcile A (guarded P fs) ord node key c)))" "CallClose \<notin> fst ` set h'" by blast
  then show ?case using h(2) by (intro exI [of _ "h @ h'"]) auto
next
  case (api evs c k)
  then show ?case by simp
next
  case (machine evs c u)
  then obtain h where "guard_run P fs env u0 h (ct_fwd c)" "CleanedUp \<notin> set evs \<longrightarrow> CallClose \<notin> fst ` set h" by blast
  with guard_run.environment [OF this(1) machine.hyps(2)] show ?case by auto
next
  case (cleanup evs c)
  then obtain h where h: "guard_run P fs env u0 h (ct_fwd c)" by blast
  obtain r g where e: "guard_exec P fs CallClose (ct_fwd c) = (r, g)" by fastforce
  then have "ct_fwd (snd (CleanUp (guarded P fs) c)) = g" by (simp add: CleanUp_def on_fwd_def guarded_def)
  with guard_run.call [OF h e] show ?case by auto
qed

text \<open>The machine behind the guard changes by the implementation's own call, or not at all.\<close>

fun impl_call :: "'u PortForwarding \<Rightarrow> pf_call \<Rightarrow> ('u, unit) step" where
  "impl_call P (CallAdd p f t to c) = pf_Add P p f t to c"
| "impl_call P (CallRemove p f t to) = pf_Remove P p f t to"
| "impl_call P CallClose = pf_Close P"

lemma guard_exec_underlying:
  "gpf_underlying (snd (guard_exec P fs c g)) \<in> {gpf_underlying g, snd (impl_call P c (gpf_underlying g))}"
proof -
  have un: "gpf_underlying (snd (on_underlying m g)) = snd (m (gpf_underlying g))" for m :: "('a, unit) step"
    by (simp add: on_underlying_def split: prod.split)
  have ins: "gpf_underlying (snd (andThen (on_underlying m) (\<lambda>_. n) g)) = snd (m (gpf_underlying g))"
    if "\<And>g. gpf_underlying (snd (n g)) = gpf_underlying g" for m :: "('a, unit) step" and n :: "('a guardPortForwarding, unit) step"
    using that by (cases "m (gpf_underlying g)"; cases "fst (m (gpf_underlying g))") (auto simp: andThen_def on_underlying_def)
  have frame: "gpf_underlying (snd (listens_Insert p f g)) = gpf_underlying g" "gpf_underlying (snd (listens_Delete p f g)) = gpf_underlying g"
    for p f and g :: "'a guardPortForwarding" by (auto simp: listens_Insert_def listens_Delete_def split: option.split)
  show ?thesis
    by (cases c) (auto simp: guard_Add_def guard_Remove_def guard_Close_def un ins frame split: result.split)
qed

lemma purego_call_root:
  assumes "c \<noteq> CallClose"
  shows "pg_root_cancelled (snd (impl_call (purego_impl listen) c u)) = pg_root_cancelled u"
  using assms
  by (cases c) (auto simp: purego_impl_def purego_Add_def purego_Remove_def forward_def cancel_def Let_def
      split: prod.split result.split option.split)

lemma purego_not_closed:
  assumes "guard_run (purego_impl listen) fs purego_env (purego_New w) h g" "CallClose \<notin> fst ` set h"
  shows "\<not> pg_root_cancelled (gpf_underlying g)"
  using assms
proof (induction rule: guard_run.induct)
  case start
  then show ?case by (simp add: guard_New_def purego_New_def)
next
  case (call h g c r g')
  then have "\<not> pg_root_cancelled (gpf_underlying g)" "c \<noteq> CallClose" by auto
  then show ?case
    using guard_exec_underlying [of "purego_impl listen" fs c g] purego_call_root [of c listen "gpf_underlying g"] call.hyps(2) by auto
next
  case (environment h g u)
  then show ?case by (auto simp: purego_env_def)
qed

text \<open>
  C12: at every moment until the clean-up, whatever was reconciled in whichever order and with whichever
  outcome, the node serves exactly the forwardings its guard holds: each by one live proxy, and no other port.
\<close>

theorem node_serves_forwarded:
  assumes "node_run A (purego_impl listen) fs node purego_env (purego_New w) evs c" "IntValue_ok A" "CleanedUp \<notin> set evs"
  shows "(p, f) \<in> forwarded (ct_fwd c) \<longleftrightarrow>
    (\<exists>!px. live (gpf_underlying (ct_fwd c)) px \<and> px_proto px = p \<and> px_port px = f)"
proof -
  obtain h where h: "guard_run (purego_impl listen) fs purego_env (purego_New w) h (ct_fwd c)" "CallClose \<notin> fst ` set h"
    using node_run_guard [OF assms(1,2)] assms(3) by blast
  from purego_serves_forwarded_plain [OF h(1) purego_not_closed [OF h]] show ?thesis .
qed

end
