(* ===== verification/NodeStatus.thy ===== *)
theory NodeStatus
  imports NodeAgent
begin

text \<open>
  The status the agent writes: what it reports as Ready is served, and its entries are well typed. Both hold of
  every reconciliation at any point of any run of the agent (\<open>NodeAgent\<close>).
\<close>

section \<open>The status is sound\<close>

text \<open>
  What the library and the implementation return are not the guard's own errors.
\<close>

definition own_errors :: "'u PortForwarding \<Rightarrow> ('u \<Rightarrow> string \<Rightarrow> string result) \<Rightarrow> bool" where
  "own_errors P fs \<longleftrightarrow>
     (\<forall>p f t to c u e u'. pf_Add P p f t to c u = (Err e, u') \<longrightarrow> \<not> errors_Is e ErrPortAlreadyForwarded) \<and>
     (\<forall>u path e. fs u path = Err e \<longrightarrow> \<not> errors_Is e ErrPortAlreadyForwarded)"

lemma parse_no_error: "parseAndCheck content n bits \<noteq> Err e"
proof -
  have "check_line n bits l \<noteq> Err e" for l
    by (auto simp: check_line_def field_def Let_def split: result.split)
  then have "check_lines n bits ls \<noteq> Err e" for ls
    by (induction ls) (auto simp: andRes_def split: result.split)
  then show ?thesis by (simp add: parseAndCheck_def)
qed

lemma IsListening_error:
  assumes "IsListening fs p f = Err e"
  shows "(\<exists>path. fs path = Err e) \<or> (\<exists>m. e = EText m)"
proof -
  have one: "fs path = Err e'" if "isListening fs path n bits = Err e'" for path n bits e'
    using that parse_no_error by (cases "fs path") (auto simp: isListening_def)
  show ?thesis
    using assms one
    by (auto simp: IsListening_def tcpListening_def udpListening_def split: if_splits)
      (auto simp: andRes_def split: result.splits if_splits intro: one exI)
qed

lemma guard_Add_already:
  assumes "own_errors P fs" "guard_Add P fs p f t to c g = (Err e, g')" "errors_Is e ErrPortAlreadyForwarded"
  shows "(p, f) \<in> forwarded g' \<and> g' = g"
proof (cases "listens_Has g p f")
  case True
  then show ?thesis using assms(2) by (auto simp: guard_Add_def forwarded_iff)
next
  case False
  show ?thesis
  proof (cases "IsListening (fs (gpf_underlying g)) p f")
    case (Err e')
    then have "\<not> errors_Is e' ErrPortAlreadyForwarded"
      using IsListening_error [OF Err] assms(1) by (auto simp: own_errors_def ErrPortAlreadyForwarded_def)
    then show ?thesis using assms(2,3) False Err by (auto simp: guard_Add_def ErrPortAlreadyForwarded_def)
  next
    case (Panic q)
    then show ?thesis using assms(2) False by (simp add: guard_Add_def)
  next
    case (Ok b)
    obtain r u where u: "pf_Add P p f t to c (gpf_underlying g) = (r, u)" by fastforce
    then have "r = Err e" if "\<not> b"
      using that assms(2) False Ok
      by (cases r) (auto simp: guard_Add_def andThen_def on_underlying_def listens_Insert_def split: option.splits)
    moreover have "\<not> errors_Is e ErrPortAlreadyForwarded" if "r = Err e" using assms(1) u that unfolding own_errors_def by blast
    moreover have "e = ErrPortAlreadyInuse" if b using that assms(2) False Ok by (simp add: guard_Add_def)
    ultimately show ?thesis
      using assms(3) \<open>\<not> b \<Longrightarrow> r = Err e\<close> by (cases b) (auto simp: ErrPortAlreadyForwarded_def ErrPortAlreadyInuse_def)
  qed
qed

text \<open>The loop over the unchanged ports leaves Ready only what is forwarded.\<close>

lemma sync_unchanged_ready:
  assumes "own_errors P fs" "guard_inv g" "sync_unchanged A (guarded P fs) cm es g = (Ok es', g')"
  shows "guard_inv g' \<and> forwarded g \<subseteq> forwarded g' \<and>
    list_all2 (\<lambda>e e'. restated e e' \<and> (fp_State e' = PortForwardingReady \<longrightarrow> fp_key A e \<in> forwarded g' \<and> snd (fp_key A e) > 0)) es es'"
  using assms(2,3)
proof (induction es arbitrary: g es')
  case Nil
  then show ?case by simp
next
  case (Cons e es)
  obtain e1 g1 es1 where e1: "(if port16 (api_IntValue A (fp_SourcePort e)) > 0
              then andThen (attempt (call_Add A (guarded P fs) cm e)) (\<lambda>r. ret (unchanged_state e r))
              else ret (e\<lparr>fp_State := PortForwardingUnknown\<rparr>)) g = (Ok e1, g1)"
    and rest: "sync_unchanged A (guarded P fs) cm es g1 = (Ok es1, g')" and es': "es' = e1 # es1"
    using Cons.prems(2) by (auto elim!: andThen_OkE)
  have first: "guard_inv g1 \<and> forwarded g \<subseteq> forwarded g1 \<and> restated e e1 \<and>
      (fp_State e1 = PortForwardingReady \<longrightarrow> fp_key A e \<in> forwarded g1 \<and> snd (fp_key A e) > 0)"
  proof (cases "port16 (api_IntValue A (fp_SourcePort e)) > 0")
    case False
    then show ?thesis using e1 Cons.prems(1) by auto
  next
    case True
    then obtain r where r: "attempt (call_Add A (guarded P fs) cm e) g = (Ok r, g1)" and u: "e1 = unchanged_state e r"
      using e1 by (auto elim!: andThen_OkE)
    from attempt_cases [OF r] show ?thesis
    proof (elim disjE exE conjE)
      assume "r = None" and run: "call_Add A (guarded P fs) cm e g = (Ok (), g1)"
      then show ?thesis
        using guard_Add_cases [OF Cons.prems(1) run [unfolded call_Add_def guarded_simps]]
        using True by (auto simp: u unchanged_state_def fp_key_def)
    next
      fix err assume "r = Some err" and run: "call_Add A (guarded P fs) cm e g = (Err err, g1)"
      note run = run [unfolded call_Add_def guarded_simps]
      then show ?thesis
        using guard_Add_cases [OF Cons.prems(1) run] guard_Add_already [OF assms(1) run] \<open>r = Some err\<close> True
        by (auto simp: u unchanged_state_def fp_key_def)
    qed
  qed
  with Cons.IH [OF _ rest] show ?case unfolding es' by auto
qed

lemma sync_deletions_residual:
  "sync_deletions A F es u = (Ok res, u') \<Longrightarrow> e' \<in> set res \<Longrightarrow> fp_State e' = PortForwardingResidual"
  by (induction es arbitrary: u res) (auto elim!: andThen_OkE split: option.splits if_splits)

lemma sync_errors_from_spec:
  assumes "SyncForwardingPorts ord node pf svc ess = (additions, deletions, unchanged, errs)" "e \<in> set errs"
  shows "\<exists>w \<in> set (pfo_Ports pf). e = failed_port w"
proof -
  have step: "sy_errors (sync_port svc ess w st) = sy_errors st @ (if desired svc ess w = None then [failed_port w] else [])" for w st
    by (simp add: sync_port_desired Let_def split: option.split)
  have "set (sy_errors (fold (sync_port svc ess) ws st)) \<subseteq> set (sy_errors st) \<union> failed_port ` set ws" for ws st
  proof (induction ws arbitrary: st)
    case (Cons w ws)
    show ?case using Cons [of "sync_port svc ess w st"] by (auto simp: step split: if_splits)
  qed simp
  from this [of "pfo_Ports pf" "\<lparr>sy_forwarded = recorded_map node pf, sy_additions = [], sy_deletions = [], sy_unchanged = [], sy_errors = []\<rparr>"]
  have "set errs \<subseteq> failed_port ` set (pfo_Ports pf)" using assms(1) by (auto simp: SyncForwardingPorts_def Let_def)
  then show ?thesis using assms(2) by blast
qed

lemma sync_errors_failed:
  assumes "SyncForwardingPorts ord node pf svc ess = (additions, deletions, unchanged, errs)" "e \<in> set errs"
  shows "fp_State e = PortForwardingFailed"
  using sync_errors_from_spec [OF assms] by (auto simp: failed_port_def)

text \<open>A recorded port as the controller records it: a number that fits a port.\<close>

definition numeric_port :: "ForwardedPort \<Rightarrow> bool" where
  "numeric_port e \<longleftrightarrow> (\<exists>n. fp_SourcePort e = FromInt32 n \<and> 0 < n \<and> n < 65536)"

text \<open>Entries without such a port are those whose port is not a number; nothing is called for them.\<close>

definition recordable :: "'k api \<Rightarrow> ForwardedPort \<Rightarrow> bool" where
  "recordable A e \<longleftrightarrow> (port16 (api_IntValue A (fp_SourcePort e)) > 0 \<longrightarrow> numeric_port e)"

lemma numeric_port_keys:
  assumes "IntValue_ok A" "numeric_port d" "numeric_port u" "fp_SourcePort d \<noteq> fp_SourcePort u"
  shows "fp_key A u \<notin> entry_keys A d"
proof -
  obtain m n where mn: "fp_SourcePort d = FromInt32 m" "0 < m" "m < 65536" "fp_SourcePort u = FromInt32 n" "0 < n" "n < 65536"
    using assms(2,3) unfolding numeric_port_def by blast
  have "port16 m \<noteq> port16 n"
  proof
    assume "port16 m = port16 n"
    then have "uint (port16 m) = uint (port16 n)" by simp
    then have "m = n" using mn by (simp add: port16_def uint_word_of_int)
    with mn assms(4) show False by simp
  qed
  then show ?thesis using assms(1) mn by (simp add: entry_keys_def fp_key_def IntValue_ok_def FromInt32_def)
qed

lemma sync_parts_distinct:
  assumes "SyncForwardingPorts ord node pf svc ess = (additions, deletions, unchanged, errs)" "\<And>xs. mset (ord xs) = mset xs"
  shows "distinct (map fp_SourcePort (deletions @ unchanged))" "set deletions \<union> set unchanged \<subseteq> set (recorded_ports node pf)"
proof -
  note m = SyncForwardingPorts_partition_plain [OF assms, THEN conjunct2, THEN conjunct1]
  have "\<forall>x \<in> set (fold (\<lambda>e m. AList.update (fp_SourcePort e) e m) es m). fst x = fp_SourcePort (snd x)"
    if "\<forall>x \<in> set m. fst x = fp_SourcePort (snd x)" for es and m :: "(intOrString \<times> ForwardedPort) list"
    using that
  proof (induction es arbitrary: m)
    case (Cons e es)
    have "\<forall>x \<in> set (AList.update (fp_SourcePort e) e m). fst x = fp_SourcePort (snd x)"
      using Cons.prems by (induction m) auto
    from Cons.IH [OF this] show ?case by simp
  qed simp
  from this [of "[]" "recorded_ports node pf"]
  have "map fst (recorded_map node pf) = map fp_SourcePort (map snd (recorded_map node pf))"
    by (simp add: recorded_map_def)
  then have "distinct (map fp_SourcePort (map snd (recorded_map node pf)))"
    using distinct_recorded_map [of node pf] by (simp only:)
  moreover have "mset (map fp_SourcePort (deletions @ unchanged)) = mset (map fp_SourcePort (map snd (recorded_map node pf)))"
    using m by (metis mset_append mset_map)
  ultimately show "distinct (map fp_SourcePort (deletions @ unchanged))" using mset_eq_imp_distinct_iff by blast
  have "set deletions \<union> set unchanged = set_mset (mset deletions + mset unchanged)" by simp
  then show "set deletions \<union> set unchanged \<subseteq> set (recorded_ports node pf)"
    using m recorded_map_values [of node pf] by simp
qed

lemma list_all2_preimage: "list_all2 R xs ys \<Longrightarrow> y \<in> set ys \<Longrightarrow> \<exists>x \<in> set xs. R x y"
  by (induction rule: list_all2_induct) auto

lemma restated_key: "restated x e \<Longrightarrow> fp_key A e = fp_key A x"
  unfolding restated_def by (metis fp_key_def ForwardedPort.select_convs(1,2) ForwardedPort.surjective ForwardedPort.update_convs(5))

lemma sync_ports_sound:
  assumes "own_errors P fs" "guard_inv g" "IntValue_ok A" "\<And>xs. mset (ord xs) = mset xs"
    and recordable: "\<forall>e \<in> set (recorded_ports node pf). recordable A e"
    and run: "sync_ports A (guarded P fs) cm (SyncForwardingPorts ord node pf svc ess) g = (Ok new, g')"
  shows "guard_inv g' \<and> (\<forall>e \<in> set new. fp_State e = PortForwardingReady \<longrightarrow> fp_key A e \<in> forwarded g')"
proof -
  obtain additions deletions unchanged errs
    where parts: "SyncForwardingPorts ord node pf svc ess = (additions, deletions, unchanged, errs)" by (metis prod_cases4)
  obtain us g1 ds g2 as where us: "sync_unchanged A (guarded P fs) cm unchanged g = (Ok us, g1)"
    and ds: "sync_deletions A (guarded P fs) deletions g1 = (Ok ds, g2)"
    and as: "sync_additions A (guarded P fs) cm additions g2 = (Ok as, g')"
    and new: "new = sort_key (\<lambda>e. api_IntValue A (fp_SourcePort e)) (errs @ us @ ds @ as)"
    using run unfolding parts by (auto simp: sync_ports_def elim!: andThen_OkE)
  note u = sync_unchanged_ready [OF assms(1,2) us]
  have "guard_calls P fs (removal_keys A deletions) g1 g2"
    using calls_sync_deletions [OF subset_refl, where A = A and es = deletions and P = P and fs = fs] ds by (metis calls_def snd_conv)
  note d = guard_calls_frame [OF this]
  have g1: "guard_inv g1" using u by blast
  then have g2: "guard_inv g2" using d by blast
  note a = guard.sync_additions_active [OF guarded_simps(1) g2 as]
  have ready_us: "fp_key A e \<in> forwarded g'" if e: "e \<in> set us" "fp_State e = PortForwardingReady" for e
  proof -
    obtain old where old: "old \<in> set unchanged" "restated old e" "fp_key A old \<in> forwarded g1" "snd (fp_key A old) > 0"
      using list_all2_preimage [OF u [THEN conjunct2, THEN conjunct2] e(1)] e(2) by (auto simp: restated_def)
    have "fp_key A old \<notin> entry_keys A d" if "d \<in> set deletions" "port16 (api_IntValue A (fp_SourcePort d)) > 0" for d
    proof (rule numeric_port_keys [OF assms(3)])
      show "numeric_port d" "numeric_port old"
        using sync_parts_distinct(2) [OF parts assms(4)] recordable that old(1,4)
        by (auto simp: recordable_def fp_key_def)
      show "fp_SourcePort d \<noteq> fp_SourcePort old"
        using sync_parts_distinct(1) [OF parts assms(4)] that(1) old(1) by (auto simp: image_iff)
    qed
    then have "fp_key A old \<in> forwarded g2" using d [OF g1] old(3) unfolding removal_keys_def by blast
    moreover have "fp_key A e = fp_key A old" using old(2) by (rule restated_key)
    ultimately show ?thesis using a by auto
  qed
  have ready_as: "fp_key A e \<in> forwarded g'" if e: "e \<in> set as" "fp_State e = PortForwardingReady" for e
  proof -
    obtain x where x: "restated x e" "fp_key A x \<in> forwarded g'"
      using list_all2_preimage [OF a [THEN conjunct2, THEN conjunct2, THEN conjunct1] e(1)] e(2) by (auto simp: restated_def)
    moreover have "fp_key A e = fp_key A x" using x(1) by (rule restated_key)
    ultimately show ?thesis by simp
  qed
  have "guard_inv g'" using a by blast
  moreover have "fp_State e \<noteq> PortForwardingReady" if "e \<in> set errs \<union> set ds" for e
    using that sync_errors_failed [OF parts] sync_deletions_residual [OF ds] by auto
  ultimately show ?thesis using ready_us ready_as unfolding new by auto
qed

text \<open>The status a reconciliation has written when it returns, if it wrote one.\<close>

definition wrote_status :: "'k api \<Rightarrow> string \<Rightarrow> PortForwardingObject \<Rightarrow> ForwardedPort list \<Rightarrow> 'k \<Rightarrow> bool" where
  "wrote_status A node pf new k' \<longleftrightarrow> (\<exists>k. PatchNodeForwardedStatus A pf node new k = (Ok (), k'))"

lemma on_api_OkE:
  assumes "on_api m c = (Ok a, c')"
  obtains k where "m (ct_api c) = (Ok a, k)" "c' = c\<lparr>ct_api := k\<rparr>"
  using assms by (auto simp: on_api_def split: prod.splits)

lemma on_fwd_OkE:
  assumes "on_fwd m c = (Ok a, c')"
  obtains u where "m (ct_fwd c) = (Ok a, u)" "c' = c\<lparr>ct_fwd := u\<rparr>"
  using assms by (auto simp: on_fwd_def split: prod.splits)

lemma remove_ports_reason:
  "remove_ports A F (Some st) es u = (Ok kept, u') \<Longrightarrow> e \<in> set kept \<Longrightarrow> fp_State e = st"
  by (induction es arbitrary: u kept) (auto elim!: andThen_OkE split: if_splits)

lemma syncPortForwarding_sound:
  assumes "own_errors P fs" "guard_inv (ct_fwd c)" "IntValue_ok A" "\<And>xs. mset (ord xs) = mset xs"
    and "\<forall>e \<in> set (recorded_ports node pf). recordable A e"
    and run: "syncPortForwarding A (guarded P fs) ord node pf c = (Ok (), c')"
  shows "(\<exists>new. wrote_status A node pf new (ct_api c') \<and>
      (\<forall>e \<in> set new. fp_State e = PortForwardingReady \<longrightarrow> fp_key A e \<in> forwarded (ct_fwd c'))) \<or>
    (own_ports node pf = [] \<and> ct_fwd c' = ct_fwd c)"
proof -
  obtain r c1 where get: "on_api (api_GetService A (ServiceObjectKey pf)) c = (r, c1)" by fastforce
  then have c1: "ct_fwd c1 = ct_fwd c" by (auto simp: on_api_def split: prod.splits)
  show ?thesis
  proof (cases r)
    case (Ok svc)
    then obtain ess c2 new c3 where ess: "on_api (listOwnedEndpointSlices A svc) c1 = (Ok ess, c2)"
      and new: "on_fwd (sync_ports A (guarded P fs) (svc_Name svc) (SyncForwardingPorts ord node pf svc ess)) c2 = (Ok new, c3)"
      and patch: "on_api (PatchNodeForwardedStatus A pf node new) c3 = (Ok (), c')"
      using run get by (auto simp: syncPortForwarding_def elim!: andThen_OkE)
    have c2: "ct_fwd c2 = ct_fwd c" using ess c1 by (auto elim!: on_api_OkE)
    obtain u where u: "sync_ports A (guarded P fs) (svc_Name svc) (SyncForwardingPorts ord node pf svc ess) (ct_fwd c) = (Ok new, u)"
      "ct_fwd c3 = u" using new c2 by (auto elim!: on_fwd_OkE)
    have "ct_fwd c' = u" "wrote_status A node pf new (ct_api c')"
      using patch u(2) by (auto elim!: on_api_OkE simp: wrote_status_def)
    with sync_ports_sound [OF assms(1-5) u(1)] show ?thesis by blast
  next
    case (Err e)
    then have rm: "removePortForwarding A (guarded P fs) node pf (Some PortForwardingNoTarget) c1 = (Ok (), c')"
      using run get by (auto simp: syncPortForwarding_def split: if_splits)
    show ?thesis
    proof (cases "List.find (\<lambda>ns. ns_NodeName ns = node \<and> ns_ForwardedPorts ns \<noteq> []) (pfo_Status pf)")
      case None
      then have "c' = c1" using rm by (simp add: removePortForwarding_def skip_def)
      then show ?thesis using None c1 by (simp add: own_ports_def)
    next
      case (Some ns)
      obtain kept c2 where kept: "on_fwd (remove_ports A (guarded P fs) (Some PortForwardingNoTarget) (ns_ForwardedPorts ns)) c1 = (Ok kept, c2)"
        and patch: "on_api (PatchNodeForwardedStatus A pf node kept) c2 = (Ok (), c')"
        using rm Some by (auto simp: removePortForwarding_def elim!: andThen_OkE)
      have "fp_State e \<noteq> PortForwardingReady" if "e \<in> set kept" for e
        using kept remove_ports_reason that by (fastforce elim!: on_fwd_OkE)
      moreover have "wrote_status A node pf kept (ct_api c')" using patch by (auto elim!: on_api_OkE simp: wrote_status_def)
      ultimately show ?thesis by blast
    qed
  qed (use run get in \<open>simp add: syncPortForwarding_def\<close>)
qed

lemma Reconcile_sound:
  assumes "own_errors P fs" "guard_inv (ct_fwd c)" "IntValue_ok A" "\<And>xs. mset (ord xs) = mset xs"
    and get: "api_GetPF A key (ct_api c) = (Ok pf, k1)" and "\<not> pfo_Deleted pf"
    and "\<forall>e \<in> set (recorded_ports node pf). recordable A e"
    and run: "Reconcile A (guarded P fs) ord node key c = (Ok b, c')"
  shows "(\<exists>new. wrote_status A node pf new (ct_api c') \<and>
      (\<forall>e \<in> set new. fp_State e = PortForwardingReady \<longrightarrow> fp_key A e \<in> forwarded (ct_fwd c'))) \<or>
    (own_ports node pf = [] \<and> ct_fwd c' = ct_fwd c)"
proof -
  have "on_api (api_GetPF A key) c = (Ok pf, c\<lparr>ct_api := k1\<rparr>)" using get by (simp add: on_api_def)
  then obtain c1 where fin: "on_api (AddFinalizer A pf) (c\<lparr>ct_api := k1\<rparr>) = (Ok (), c1)"
    and sync: "syncPortForwarding A (guarded P fs) ord node pf c1 = (Ok (), c')"
    using run assms(6) by (auto simp: Reconcile_def ret_def elim!: andThen_OkE)
  have c1: "ct_fwd c1 = ct_fwd c" using fin by (auto elim!: on_api_OkE)
  show ?thesis using syncPortForwarding_sound [OF assms(1) _ assms(3,4,7) sync] assms(2) c1 by simp
qed


section \<open>The status is well typed\<close>

text \<open>
  An entry of a status: a declared state, and a source port that is a number in range wherever the controller
  takes it for one. The ports of specs and services are validated to be in range by the API server.
\<close>

definition port_typed :: "'k api \<Rightarrow> ForwardedPort \<Rightarrow> bool" where
  "port_typed A e \<longleftrightarrow> recordable A e \<and> fp_State e \<noteq> PortForwardingUnset"

definition in_range :: "int \<Rightarrow> bool" where
  "in_range n \<longleftrightarrow> 0 \<le> n \<and> n < 65536"

definition input_typed :: "'k api \<Rightarrow> PortForwardingObject \<Rightarrow> service \<Rightarrow> endpointSlice list \<Rightarrow> bool" where
  "input_typed A pf svc ess \<longleftrightarrow>
     (\<forall>w \<in> set (pfo_Ports pf). recordable A (failed_port w) \<and> (\<forall>h. pfp_HostPort w = Some h \<longrightarrow> in_range h)) \<and>
     (\<forall>p \<in> set (svc_Ports svc). in_range (sp_Port p)) \<and>
     (\<forall>es \<in> set ess. \<forall>p \<in> set (es_Ports es). in_range (Deref (ep_Port p) 0))"

lemma in_range_recordable:
  assumes "IntValue_ok A" "fp_SourcePort e = FromInt32 n" "in_range n"
  shows "recordable A e"
proof -
  have "n \<noteq> 0" if "port16 n > 0" using that by (auto simp: port16_def)
  then show ?thesis using assms by (auto simp: recordable_def numeric_port_def in_range_def IntValue_ok_def FromInt32_def)
qed

lemma FindEndpointSlicePort_member: "FindEndpointSlicePort target ess = Some p \<Longrightarrow> \<exists>es \<in> set ess. p \<in> set (es_Ports es)"
  by (induction target ess rule: FindEndpointSlicePort.induct)
    (fastforce split: if_splits option.splits dest: find_SomeD)+

lemma desired_typed:
  assumes "input_typed A pf svc ess" "IntValue_ok A" "w \<in> set (pfo_Ports pf)" "desired svc ess w = Some new"
  shows "port_typed A new"
proof -
  obtain sp where sp: "FindServicePort svc (pfp_Target w) ess = Some sp"
    and new: "new = \<lparr>fp_Protocol = sp_Protocol sp, fp_SourcePort = source_port w sp,
      fp_TargetHosts = target_hosts svc ess, fp_TargetPort = sp_Port sp, fp_State = PortForwardingReady\<rparr>"
    using assms(4) by (auto simp: desired_def split: option.splits)
  have "in_range (sp_Port sp)"
    using sp assms(1)
    by (auto simp: FindServicePort_def input_typed_def split: option.splits if_splits
        dest!: find_SomeD FindEndpointSlicePort_member)
  then obtain n where "fp_SourcePort new = FromInt32 n" "in_range n"
    using assms(1,3) by (cases "pfp_HostPort w") (auto simp: new source_port_def input_typed_def)
  from in_range_recordable [OF assms(2) this] show ?thesis by (simp add: port_typed_def new)
qed

lemma restated_recordable: "restated x e \<Longrightarrow> recordable A e = recordable A x"
  unfolding restated_def recordable_def numeric_port_def
  by (metis ForwardedPort.select_convs(2) ForwardedPort.surjective ForwardedPort.update_convs(5))

lemma sync_unchanged_states:
  "sync_unchanged A F cm es u = (Ok es', u') \<Longrightarrow> list_all2 (\<lambda>e e'. restated e e' \<and> fp_State e' \<in>
     {fp_State e, PortForwardingReady, PortForwardingFailed, PortForwardingUnknown}) es es'"
  by (induction es arbitrary: u es') (auto elim!: andThen_OkE simp: unchanged_state_def split: if_splits option.splits)

lemma sync_additions_states:
  "sync_additions A F cm es u = (Ok es', u') \<Longrightarrow> list_all2 (\<lambda>e e'. restated e e' \<and> fp_State e' \<in>
     {fp_State e, PortForwardingConflict, PortForwardingRejected, PortForwardingFailed}) es es'"
  by (induction es arbitrary: u es') (auto elim!: andThen_OkE simp: addition_state_def split: if_splits option.splits)

lemma sync_deletions_states:
  "sync_deletions A F es u = (Ok res, u') \<Longrightarrow> e' \<in> set res \<Longrightarrow> \<exists>e \<in> set es. e' = e\<lparr>fp_State := PortForwardingResidual\<rparr>"
proof (induction es arbitrary: u res)
  case (Cons e es)
  obtain r u1 res1 where rest: "sync_deletions A F es u1 = (Ok res1, u')"
    and res: "res = (case r of
            Some err \<Rightarrow> if \<not> errors_Is err ErrPortNotForwarded then e\<lparr>fp_State := PortForwardingResidual\<rparr> # res1 else res1
          | None \<Rightarrow> res1)"
    using Cons.prems(1) by (auto elim!: andThen_OkE)
  have "e' = e\<lparr>fp_State := PortForwardingResidual\<rparr> \<or> e' \<in> set res1" using Cons.prems(2) by (auto simp: res split: option.splits if_splits)
  then show ?case using Cons.IH [OF rest] by auto
qed simp

lemma sync_ports_typed:
  assumes "input_typed A pf svc ess" "IntValue_ok A" "\<And>xs. mset (ord xs) = mset xs"
    and typed: "\<forall>e \<in> set (recorded_ports node pf). port_typed A e"
    and run: "sync_ports A F cm (SyncForwardingPorts ord node pf svc ess) u = (Ok new, u')" and e: "e \<in> set new"
  shows "port_typed A e"
proof -
  obtain additions deletions unchanged errs
    where parts: "SyncForwardingPorts ord node pf svc ess = (additions, deletions, unchanged, errs)" by (metis prod_cases4)
  obtain us u1 ds u2 as where us: "sync_unchanged A F cm unchanged u = (Ok us, u1)"
    and ds: "sync_deletions A F deletions u1 = (Ok ds, u2)"
    and as: "sync_additions A F cm additions u2 = (Ok as, u')"
    and "new = sort_key (\<lambda>e. api_IntValue A (fp_SourcePort e)) (errs @ us @ ds @ as)"
    using run unfolding parts by (auto simp: sync_ports_def elim!: andThen_OkE)
  then have new: "set new = set errs \<union> set us \<union> set ds \<union> set as" by auto
  note rec = sync_parts_distinct(2) [OF parts assms(3)]
  consider "e \<in> set errs" | "e \<in> set us" | "e \<in> set ds" | "e \<in> set as" using e new by blast
  then show ?thesis
  proof cases
    case 1
    then obtain w where "w \<in> set (pfo_Ports pf)" "e = failed_port w" using sync_errors_from_spec [OF parts] by blast
    then show ?thesis using assms(1) by (simp add: input_typed_def port_typed_def failed_port_def)
  next
    case 2
    from list_all2_preimage [OF sync_unchanged_states [OF us] 2] obtain x where
      x: "x \<in> set unchanged" "restated x e" "fp_State e \<in> {fp_State x, PortForwardingReady, PortForwardingFailed, PortForwardingUnknown}" by blast
    then have "port_typed A x" using typed rec by blast
    then show ?thesis using x(3) restated_recordable [OF x(2), of A] by (auto simp: port_typed_def)
  next
    case 3
    from sync_deletions_states [OF ds 3] obtain x where x: "x \<in> set deletions" "e = x\<lparr>fp_State := PortForwardingResidual\<rparr>" by blast
    then show ?thesis using typed rec restated_recordable [of x e A] by (auto simp: port_typed_def)
  next
    case 4
    from list_all2_preimage [OF sync_additions_states [OF as] 4] obtain x where
      x: "x \<in> set additions" "restated x e" "fp_State e \<in> {fp_State x, PortForwardingConflict, PortForwardingRejected, PortForwardingFailed}" by blast
    then obtain w where "w \<in> set (pfo_Ports pf)" "desired svc ess w = Some x"
      using SyncForwardingPorts_partition_plain [OF parts assms(3)] by blast
    from desired_typed [OF assms(1,2) this] x show ?thesis using restated_recordable [of x e A] by (auto simp: port_typed_def)
  qed
qed

lemma recorded_patched:
  "recorded_ports node (pf\<lparr>pfo_Status := patch_node node new nss\<rparr>) = new"
  using patch_node_own_entry [of node new nss] by (auto simp: recorded_ports_def split: option.splits)


section \<open>Examples\<close>

text \<open>A node where every port can be opened; the object forwards host port 90 to the service's port 80.\<close>

definition open_all :: "protocol \<Rightarrow> 16 word \<Rightarrow> (unit, unit) step" where
  "open_all p f w = (Ok (), w)"

definition demo_agent :: "(unit, unit purego guardPortForwarding) ctl" where
  "demo_agent = \<lparr>ct_api = (), ct_fwd = guard_New (purego_New ())\<rparr>"

lemma demo_agent_start: "node_run A P fs node env (purego_New ()) [] demo_agent"
  unfolding demo_agent_def by (rule node_run.start)

lemma demo_IntValue [simp]: "IntValue_ok (demo_api pf)"
  by (simp add: IntValue_ok_def demo_api_def)

lemma demo_own_errors: "own_errors (purego_impl open_all) no_sockets"
  by (auto simp: own_errors_def purego_impl_def purego_Add_def Let_def forward_def open_all_def no_sockets_def
      split: if_splits prod.splits)

lemma demo_parts: "SyncForwardingPorts id ''n1'' (demo_object [demo_port 80]) (demo_service 80) [] = ([], [], [demo_port 80], [])"
  by (simp add: SyncForwardingPorts_def recorded_map_def sync_port_desired)

lemma demo_guard_Add:
  "guard_Add (purego_impl open_all) no_sockets TCP 90 [''10.0.0.1''] 80 cm (guard_New (purego_New ())) =
     (Ok (), \<lparr>gpf_underlying = snd (purego_Add open_all TCP 90 [''10.0.0.1''] 80 cm (purego_New ())),
       gpf_listens = [TCP \<mapsto> {90}, UDP \<mapsto> {}]\<rparr>)"
  by (simp add: guard_Add_def listens_Has_def guard_New_def andThen_def on_underlying_def purego_impl_def purego_Add_def
      purego_New_def forward_def listens_Insert_def open_all_def fun_upd_twist)

lemma demo_sync_ports:
  assumes "guard_Add P no_sockets TCP 90 [''10.0.0.1''] 80 cm g = (Ok (), g')"
  shows "sync_ports (demo_api (demo_object [demo_port 80])) (guarded P no_sockets) cm ([], [], [demo_port 80], []) g = (Ok [demo_port 80], g')"
  using assms by (simp add: sync_ports_def andThen_def ret_def attempt_def call_Add_def demo_port_def demo_api_def FromInt32_def
      port16_def unchanged_state_def)

lemma demo_Reconcile_adds:
  assumes "guard_Add P no_sockets TCP 90 [''10.0.0.1''] 80 (svc_Name (demo_service 80)) g = (Ok (), g')"
  shows "Reconcile (demo_api (demo_object [demo_port 80])) (guarded P no_sockets) id ''n1'' key \<lparr>ct_api = (), ct_fwd = g\<rparr> =
    (Ok False, \<lparr>ct_api = (), ct_fwd = g'\<rparr>)"
proof -
  let ?A = "demo_api (demo_object [demo_port 80])"
  have api: "api_GetPF ?A k () = (Ok (demo_object [demo_port 80]), ())" "api_GetService ?A k () = (Ok (demo_service 80), ())"
    "listOwnedEndpointSlices ?A svc () = (Ok [], ())" "AddFinalizer ?A pf () = (Ok (), ())" "PatchNodeForwardedStatus ?A pf node new () = (Ok (), ())"
    for k svc pf node new
    by (simp_all add: demo_api_def listOwnedEndpointSlices_def AddFinalizer_def PatchNodeForwardedStatus_def get_or_ignore_def
        on_first_def skip_def andThen_def ret_def)
  have "\<not> pfo_Deleted (demo_object [demo_port 80])" by (simp add: demo_object_def)
  then show ?thesis
    by (simp add: Reconcile_def syncPortForwarding_def on_api_def on_fwd_def andThen_def ret_def api demo_parts
        demo_sync_ports [OF assms])
qed

lemma demo_Reconcile:
  "\<exists>c'. Reconcile (demo_api (demo_object [demo_port 80])) (guarded (purego_impl open_all) no_sockets) id ''n1'' key demo_agent =
       (Ok False, c') \<and> (TCP, 90) \<in> forwarded (ct_fwd c')"
  unfolding demo_agent_def by (simp add: demo_Reconcile_adds [OF demo_guard_Add] forwarded_def listens_Has_def)

lemma node_serves_forwarded_witness:
  "\<exists>c. node_run (demo_api (demo_object [demo_port 80])) (purego_impl open_all) no_sockets ''n1'' purego_env (purego_New ())
       [Reconciled ([], [])] c \<and> (\<exists>!px. live (gpf_underlying (ct_fwd c)) px \<and> px_proto px = TCP \<and> px_port px = 90)"
proof -
  let ?A = "demo_api (demo_object [demo_port 80])"
  obtain c where c: "Reconcile ?A (guarded (purego_impl open_all) no_sockets) id ''n1'' ([], []) demo_agent = (Ok False, c)"
    "(TCP, 90) \<in> forwarded (ct_fwd c)" using demo_Reconcile by blast
  from node_run.reconcile [OF demo_agent_start, where ord = id and A = ?A and key = "([], [])"]
  have run: "node_run ?A (purego_impl open_all) no_sockets ''n1'' purego_env (purego_New ()) [Reconciled ([], [])] c"
    using c(1) by (metis append_Nil comp_id snd_conv)
  from node_serves_forwarded [OF run, of TCP 90] c(2) run show ?thesis by auto
qed




end
