(* ===== verification/NfAgent.thy ===== *)
theory NfAgent
  imports NfHistory NodeStatus
begin

text \<open>
  The guard over the nftables implementation, and the agent of a node over both, under the hypothesis on
  the kernel: which rules the program's chains hold after any history of the guard's calls.
\<close>

section \<open>The implementation behind the guard\<close>

text \<open>The values drawn for the identifiers of sets depend on the state of the machine.\<close>

definition nft_impl :: "'k nflib \<Rightarrow> codec \<Rightarrow> ('k \<Rightarrow> nat \<Rightarrow> 32 word) \<Rightarrow> 'k nftables PortForwarding" where
  "nft_impl L E rnd = \<lparr>pf_Add = (\<lambda>p f target to c nft. nft_AddForwarding L E (rnd (nft_kernel nft)) p f target to c nft),
     pf_Remove = (\<lambda>p f target to nft. nft_RemoveForwarding L E (rnd (nft_kernel nft)) p f target to nft), pf_Close = nft_Close L E\<rparr>"

text \<open>Others may change the tables of the other families of the kernel.\<close>

definition same_family :: "family \<Rightarrow> ruleset \<Rightarrow> ruleset \<Rightarrow> bool" where
  "same_family fam rs rs' \<longleftrightarrow> ruleset_ok rs' \<and>
     filter (\<lambda>c. ch_family c = fam) (rs_chains rs') = filter (\<lambda>c. ch_family c = fam) (rs_chains rs) \<and>
     (\<forall>\<kappa>. fst (snd \<kappa>) = fam \<longrightarrow> rs_rules rs' \<kappa> = rs_rules rs \<kappa>)"

definition nft_env :: "('k \<Rightarrow> ruleset) \<Rightarrow> 'k nftables \<Rightarrow> 'k nftables \<Rightarrow> bool" where
  "nft_env view nft nft' \<longleftrightarrow> (\<exists>k. nft' = nft\<lparr>nft_kernel := k\<rparr> \<and> same_family (nft_family nft) (ruleset_of view nft) (view k))"

lemma same_family_hooked: "same_family fam rs rs' \<Longrightarrow> hooked fam h rs' = hooked fam h rs"
proof -
  assume "same_family fam rs rs'"
  then have "filter (chainMatchPredicate h) (filter (\<lambda>c. ch_family c = fam) (rs_chains rs')) =
      filter (chainMatchPredicate h) (filter (\<lambda>c. ch_family c = fam) (rs_chains rs))"
    by (simp add: same_family_def)
  then show ?thesis by (simp add: hooked_def conj_commute)
qed

lemma same_family_key: "same_family fam rs rs' \<Longrightarrow> own_key fam name rs' i = own_key fam name rs i"
  by (simp add: own_key_def same_family_hooked)

lemma own_key_family [simp]: "fst (snd (own_key fam name rs i)) = fam"
  by (simp add: own_key_def)

lemma same_family_rules:
  "same_family fam rs rs' \<Longrightarrow> rs_rules rs' (own_key fam name rs' i) = rs_rules rs (own_key fam name rs i)"
  unfolding same_family_key by (metis own_key_family same_family_def)

lemma same_family_fills: "same_family fam rs rs' \<Longrightarrow> fills E name fam Cs rs \<Longrightarrow> fills E name fam Cs rs'"
  using same_family_rules [of fam rs rs' name]
  by (simp add: fills_def one_table_def same_family_hooked) (simp add: same_family_def)

lemma same_family_clean: "same_family fam rs rs' \<Longrightarrow> clean fam rs \<Longrightarrow> clean fam rs'"
  by (auto simp: clean_def same_family_def filter_empty_conv)

lemma same_family_keys:
  assumes "same_family fam rs rs'" and "fst (snd \<kappa>) = fam"
  shows "\<kappa> \<in> chain_key ` set (rs_chains rs') \<longleftrightarrow> \<kappa> \<in> chain_key ` set (rs_chains rs)"
proof -
  have part: "\<kappa> \<in> chain_key ` set (rs_chains rs) \<longleftrightarrow> \<kappa> \<in> chain_key ` set (filter (\<lambda>c. ch_family c = fam) (rs_chains rs))" for rs
  proof -
    have "ch_family c = fam" if "\<kappa> = chain_key c" for c using that assms(2) by (simp add: chain_key_def)
    then show ?thesis by (auto simp: image_iff)
  qed
  have "filter (\<lambda>c. ch_family c = fam) (rs_chains rs') = filter (\<lambda>c. ch_family c = fam) (rs_chains rs)"
    using assms(1) unfolding same_family_def by blast
  then show ?thesis unfolding part [of rs'] part [of rs] by simp
qed

section \<open>Handles do not run out\<close>

text \<open>
  The chains of the start have eight rules at most, and there are at most \<open>2 ^ 17\<close> forwardings: a table never
  has as many rules as there are handles.
\<close>

definition outside :: "family \<Rightarrow> string \<Rightarrow> ruleset \<Rightarrow> string \<Rightarrow> 64 word set" where
  "outside fam name rs t = (\<Union>\<kappa> \<in> {\<kappa> \<in> chain_key ` set (rs_chains rs). table_of \<kappa> = (t, fam)} - own_key fam name rs ` {..<4}.
     rl_handle ` set (rs_rules rs \<kappa>))"

definition spacious :: "family \<Rightarrow> string \<Rightarrow> ruleset \<Rightarrow> bool" where
  "spacious fam name rs \<longleftrightarrow> (\<forall>i < 4. own_key fam name rs i \<in> chain_key ` set (rs_chains rs)) \<and>
     (\<forall>t. card (outside fam name rs t) \<le> 8)"

lemma handles_union:
  "set (handles rs t) = (\<Union>\<kappa> \<in> {\<kappa> \<in> chain_key ` set (rs_chains rs). table_of \<kappa> = t}. rl_handle ` set (rs_rules rs \<kappa>))"
  by (rule set_eqI) (unfold set_handles, blast)

lemma handles_parts:
  "set (handles rs (t, fam)) \<subseteq> outside fam name rs t \<union> (\<Union>i \<in> {..<4}. rl_handle ` set (rs_rules rs (own_key fam name rs i)))"
proof
  fix h assume "h \<in> set (handles rs (t, fam))"
  then obtain \<kappa> where k: "\<kappa> \<in> {\<kappa> \<in> chain_key ` set (rs_chains rs). table_of \<kappa> = (t, fam)}" "h \<in> rl_handle ` set (rs_rules rs \<kappa>)"
    unfolding handles_union by (rule UN_E)
  show "h \<in> outside fam name rs t \<union> (\<Union>i \<in> {..<4}. rl_handle ` set (rs_rules rs (own_key fam name rs i)))"
  proof (cases "\<kappa> \<in> own_key fam name rs ` {..<4}")
    case True
    then obtain i where "i \<in> {..<4}" "\<kappa> = own_key fam name rs i" by (rule imageE)
    then show ?thesis using k(2) by (intro UnI2 UN_I) simp_all
  next
    case False
    then show ?thesis unfolding outside_def using k by (intro UnI1 UN_I) simp_all
  qed
qed

lemma outside_handles: "outside fam name rs t \<subseteq> set (handles rs (t, fam))"
  unfolding outside_def handles_union by (rule UN_mono) auto

lemma active_bound:
  assumes "active_ok As"
  shows "length As \<le> 2 ^ 17"
proof -
  have "fst ` set As \<subseteq> {TCP, UDP} \<times> (UNIV :: 16 word set)"
    using assms by (force simp: active_ok_def)
  then have "card (fst ` set As) \<le> card ({TCP, UDP} \<times> (UNIV :: 16 word set))" by (rule card_mono [rotated]) simp
  also have "\<dots> = card {TCP, UDP} * 2 ^ 16" by (simp add: card_cartesian_product card_word)
  also have "\<dots> \<le> 2 * 2 ^ 16" by (rule mult_right_mono) (auto simp: card_insert_if)
  finally show ?thesis
    using assms distinct_card [of "map fst As"] by (simp add: active_ok_def)
qed

lemma spacious_ready:
  assumes "spacious fam name rs" and "holds E name fam As rs"
  shows "ready fam name rs"
proof -
  have fl: "fills E name fam (\<lambda>_. As) rs" and act: "active_ok As" using assms(2) by (simp_all add: holds_fills)
  have own: "card (rl_handle ` set (rs_rules rs (own_key fam name rs i))) \<le> 1 + 2 ^ 17" if "i < 4" for i
  proof -
    have "length (rs_rules rs (own_key fam name rs i)) = length (content E name As i)"
      using fl that unfolding fills_def by (metis length_map)
    moreover have "length (content E name As i) \<le> 1 + 2 ^ 17"
      using length_base_forms [OF that, of E] active_bound [OF act] by (simp add: content_def)
    moreover have "card (rl_handle ` set (rs_rules rs (own_key fam name rs i))) \<le> length (rs_rules rs (own_key fam name rs i))"
      by (metis card_image_le card_length finite_set order_trans)
    ultimately show ?thesis by simp
  qed
  have "card (set (handles rs (t, fam))) + 4 \<le> 2 ^ 64" for t
  proof -
    have "card (set (handles rs (t, fam))) \<le>
        card (outside fam name rs t \<union> (\<Union>i \<in> {..<4}. rl_handle ` set (rs_rules rs (own_key fam name rs i))))"
      by (rule card_mono [OF _ handles_parts]) (simp add: finite_subset [OF outside_handles])
    also have "\<dots> \<le> card (outside fam name rs t) + (\<Sum>i < 4. card (rl_handle ` set (rs_rules rs (own_key fam name rs i))))"
      by (rule order_trans [OF card_Un_le add_left_mono [OF card_UN_le]]) simp
    also have "\<dots> \<le> 8 + (\<Sum>i < (4 :: nat). 1 + 2 ^ 17)"
      by (rule add_mono [OF _ sum_mono]) (use assms(1) own in \<open>simp_all add: spacious_def\<close>)
    finally show ?thesis by simp
  qed
  then show ?thesis
    using assms(1) unfolding ready_def spacious_def by (simp add: table_of_def own_key_def)
qed

lemma same_elsewhere_key: "same_elsewhere fam name rs rs' \<Longrightarrow> own_key fam name rs' = own_key fam name rs"
  by (simp add: same_elsewhere_def own_key_def hooked_def fun_eq_iff)

lemma same_elsewhere_spacious:
  assumes "same_elsewhere fam name rs rs'" and "spacious fam name rs"
  shows "spacious fam name rs'"
proof -
  have "rs_rules rs' \<kappa> = rs_rules rs \<kappa>" if "\<kappa> \<notin> own_key fam name rs ` {..<4}" for \<kappa>
    using assms(1) that unfolding same_elsewhere_def by blast
  moreover have "rs_chains rs' = rs_chains rs" using assms(1) by (simp add: same_elsewhere_def)
  ultimately have "outside fam name rs' t = outside fam name rs t" for t
    unfolding outside_def same_elsewhere_key [OF assms(1)] by (intro SUP_cong) auto
  then show ?thesis
    using assms unfolding spacious_def same_elsewhere_key [OF assms(1)] by (simp add: same_elsewhere_def)
qed

lemma same_family_spacious:
  assumes "same_family fam rs rs'" and "spacious fam name rs"
  shows "spacious fam name rs'"
proof -
  have keys: "own_key fam name rs' = own_key fam name rs" using same_family_key [OF assms(1)] by blast
  have rules: "rs_rules rs' \<kappa> = rs_rules rs \<kappa>" if "fst (snd \<kappa>) = fam" for \<kappa>
    using assms(1) that unfolding same_family_def by blast
  have fam: "fst (snd \<kappa>) = fam" if "table_of \<kappa> = (t, fam)" for \<kappa> t using that by (simp add: table_of_def)
  have "{\<kappa> \<in> chain_key ` set (rs_chains rs'). table_of \<kappa> = (t, fam)} = {\<kappa> \<in> chain_key ` set (rs_chains rs). table_of \<kappa> = (t, fam)}" for t
    using same_family_keys [OF assms(1) fam] by blast
  then have "outside fam name rs' t = outside fam name rs t" for t
    unfolding outside_def keys using rules fam by (intro SUP_cong) auto
  then show ?thesis
    using assms(2) same_family_keys [OF assms(1)] unfolding spacious_def keys by simp
qed

lemma laid_spacious:
  assumes l: "laid E name fam (\<lambda>_. Full []) rs"
  shows "spacious fam name rs"
proof -
  have "card (outside fam name rs t) \<le> 8" for t
    using card_mono [OF _ outside_handles, of rs t fam name] laid_handles [OF l, of t] by (simp add: tidy_def)
  then show ?thesis using laid_holds(2) [OF l] by (simp add: spacious_def ready_def)
qed

section \<open>Histories of the guard\<close>

text \<open>
  The forwardings the successful calls of a history leave, in the order of their additions, with the
  targets they were added with; and whether the removals named these targets.
\<close>

fun recorded_step :: "forwarding list \<Rightarrow> pf_call \<times> unit result \<Rightarrow> forwarding list" where
  "recorded_step As (CallAdd p f target to c, Ok _) = As @ [((p, f), (target, to))]"
| "recorded_step As (CallRemove p f target to, Ok _) = without (p, f) As"
| "recorded_step As _ = As"

definition recorded :: "(pf_call \<times> unit result) list \<Rightarrow> forwarding list" where
  "recorded h = foldl recorded_step [] h"

fun matching :: "forwarding list \<Rightarrow> pf_call \<times> unit result \<Rightarrow> bool" where
  "matching As (CallRemove p f target to, Ok _) \<longleftrightarrow> ((p, f), (target, to)) \<in> set As"
| "matching As _ \<longleftrightarrow> True"

fun matched_from :: "forwarding list \<Rightarrow> (pf_call \<times> unit result) list \<Rightarrow> bool" where
  "matched_from As [] \<longleftrightarrow> True"
| "matched_from As (x # h) \<longleftrightarrow> matching As x \<and> matched_from (recorded_step As x) h"

definition matched :: "(pf_call \<times> unit result) list \<Rightarrow> bool" where
  "matched h \<longleftrightarrow> matched_from [] h"

lemma recorded_snoc [simp]: "recorded (h @ [x]) = recorded_step (recorded h) x"
  by (simp add: recorded_def)

lemma recorded_Nil [simp]: "recorded [] = []"
  by (simp add: recorded_def)

lemma matched_snoc [simp]: "matched (h @ [x]) \<longleftrightarrow> matched h \<and> matching (recorded h) x"
proof -
  have "matched_from As (h @ [x]) \<longleftrightarrow> matched_from As h \<and> matching (foldl recorded_step As h) x" for As
    by (induction h arbitrary: As) auto
  then show ?thesis by (simp add: matched_def recorded_def)
qed

lemma recorded_failed [simp]: "r \<noteq> Ok () \<Longrightarrow> recorded_step As (c, r) = As"
  by (cases c; cases r) auto

lemma matching_failed [simp]: "r \<noteq> Ok () \<Longrightarrow> matching As (c, r)"
  by (cases c; cases r) auto

text \<open>What holds of the implementation after a history.\<close>

definition nft_inv :: "codec \<Rightarrow> ('k \<Rightarrow> ruleset) \<Rightarrow> string \<Rightarrow> family \<Rightarrow> (pf_call \<times> unit result) list \<Rightarrow> 'k nftables \<Rightarrow> bool" where
  "nft_inv E view name fam h nft \<longleftrightarrow> nft_name nft = name \<and> nft_family nft = fam \<and> active_ok (recorded h) \<and>
     (if nft_once nft then spacious fam name (ruleset_of view nft) \<and>
        (\<exists>Cs. fills E name fam Cs (ruleset_of view nft) \<and> (\<forall>i < 4. lists_ok E name i (Cs i) \<and>
           shown E name i ` set (recorded h) \<subseteq> shown E name i ` set (Cs i) \<and> (matched h \<longrightarrow> Cs i = recorded h)))
      else recorded h = [] \<and> clean fam (ruleset_of view nft))"

lemma nft_invI:
  assumes "nft_once nft" and "nft_name nft = name" and "nft_family nft = fam" and "active_ok (recorded h)"
    and "spacious fam name (ruleset_of view nft)" and "fills E name fam Cs (ruleset_of view nft)"
    and "\<And>i. i < 4 \<Longrightarrow> lists_ok E name i (Cs i)"
    and "\<And>i. i < 4 \<Longrightarrow> shown E name i ` set (recorded h) \<subseteq> shown E name i ` set (Cs i)"
    and "\<And>i. i < 4 \<Longrightarrow> matched h \<Longrightarrow> Cs i = recorded h"
  shows "nft_inv E view name fam h nft"
  unfolding nft_inv_def using assms by (simp only: if_True simp_thms) blast

lemma inv_started:
  assumes "nft_inv E view name fam h nft" and "kernel_ok True L view" and "map_order_ok L"
  shows "\<exists>nft0. once_start L E nft = (Ok (), nft0) \<and> nft_once nft0 \<and> nft_inv E view name fam h nft0"
proof (cases "nft_once nft")
  case True
  then show ?thesis using assms(1) by (simp add: once_start_def)
next
  case False
  then have rec: "recorded h = []" "nft_name nft = name" "nft_family nft = fam" and clean: "clean (nft_family nft) (ruleset_of view nft)"
    using assms(1) by (simp_all add: nft_inv_def)
  obtain r nft0 where st: "nft_start L E nft = (r, nft0)" by fastforce
  note m = start_creates_chains [OF assms(2,3) clean_traces [OF clean] st]
  have r: "r = Ok ()" using m by simp
  then have l: "laid E name fam (\<lambda>_. Full []) (ruleset_of view nft0)" using m rec by simp
  then have "nft_inv E view name fam h (nft0\<lparr>nft_once := True\<rparr>)"
    using laid_spacious [OF l] laid_fills [OF l] m rec
    by (simp add: nft_inv_def active_ok_def) (intro exI [of _ "\<lambda>_. []"], simp add: lists_ok_def)
  then show ?thesis using False st r by (simp add: once_start_def)
qed

lemma inv_env:
  assumes "nft_inv E view name fam h nft" and "nft_env view nft nft'"
  shows "nft_inv E view name fam h nft'"
proof -
  obtain k where k: "nft' = nft\<lparr>nft_kernel := k\<rparr>" "same_family fam (ruleset_of view nft) (view k)"
    using assms by (auto simp: nft_env_def nft_inv_def)
  then show ?thesis
    using assms(1) same_family_fills [OF k(2)] same_family_spacious [OF k(2)] same_family_clean [OF k(2)]
    unfolding nft_inv_def by (simp split: if_splits) blast
qed

lemma recorded_add: "active_ok As \<Longrightarrow> (p, f) \<notin> fst ` set As \<Longrightarrow> p = TCP \<or> p = UDP \<Longrightarrow> active_ok (recorded_step As (CallAdd p f t to c, r))"
  by (cases "r = Ok ()") (simp_all add: active_ok_append)

lemma inv_add:
  assumes inv: "nft_inv E view name fam h nft" and L: "kernel_ok True L view" and E: "codec_ok E" and M: "map_order_ok L"
    and p: "p = TCP \<or> p = UDP" and new: "(p, f) \<notin> fst ` set (recorded h)"
    and run: "nft_AddForwarding L E rnd p f t to c nft = (r, nft')"
  shows "nft_inv E view name fam (h @ [(CallAdd p f t to c, r)]) nft'" and "matched h \<Longrightarrow> r = Ok ()"
proof -
  obtain nft0 where st: "once_start L E nft = (Ok (), nft0)" "nft_once nft0" "nft_inv E view name fam h nft0"
    using inv_started [OF inv L M] by blast
  have run0: "nft_AddForwarding L E rnd p f t to c nft0 = (r, nft')" using run first_call [OF st(1)] by simp
  let ?a = "((p, f), (t, to))" and ?rs = "ruleset_of view nft0" and ?rs' = "ruleset_of view nft'"
  have id: "nft_name nft0 = name" "nft_family nft0 = fam" "active_ok (recorded h)" "spacious fam name ?rs"
    using st(2,3) by (simp_all add: nft_inv_def)
  obtain Cs where Cs: "fills E name fam Cs ?rs" "\<And>i. i < 4 \<Longrightarrow> lists_ok E name i (Cs i)"
      "\<And>i. i < 4 \<Longrightarrow> shown E name i ` set (recorded h) \<subseteq> shown E name i ` set (Cs i)" "\<And>i. matched h \<Longrightarrow> i < 4 \<Longrightarrow> Cs i = recorded h"
    using st(2,3) unfolding nft_inv_def by (simp, blast)
  obtain n where n: "n \<le> 4" "fills E name fam (done_upto n (add_to E name ?a) Cs) ?rs'" "same_elsewhere fam name ?rs ?rs'"
      "r = Ok () \<longrightarrow> n = 4" "ready fam name ?rs \<longrightarrow> r = Ok ()"
    using AddForwarding_chains [OF L E M st(2) p _ _ run0, of Cs] Cs(1,2) id(1,2) by auto
  show ok: "r = Ok ()" if "matched h"
  proof -
    have "fills E name fam (\<lambda>_. recorded h) ?rs" using Cs(1) Cs(4) [OF that] by (subst fills_cong [of _ Cs]) auto
    then have "holds E name fam (recorded h) ?rs" using id(3) by (simp add: holds_fills)
    then show ?thesis using spacious_ready [OF id(4)] n(5) by blast
  qed
  have known: "known_protocol ?a" using p by (simp add: known_protocol_def)
  have once: "nft_once nft'" "nft_name nft' = name" "nft_family nft' = fam"
    using same_nft_Add [OF st(2), of L E rnd p f t to c] run0 id(1,2) st(2) by (simp_all add: same_nft_def)
  let ?Ds = "done_upto n (add_to E name ?a) Cs"
  have Ds: "lists_ok E name i (?Ds i)" "shown E name i ` set (recorded_step (recorded h) (CallAdd p f t to c, r)) \<subseteq> shown E name i ` set (?Ds i)"
      "matched h \<Longrightarrow> ?Ds i = recorded_step (recorded h) (CallAdd p f t to c, r)" if i: "i < 4" for i
  proof -
    show "lists_ok E name i (?Ds i)" using lists_ok_add_to [OF Cs(2) [OF i] known] Cs(2) [OF i] by (simp add: done_upto_def)
    have sub: "shown E name i ` set (Cs i) \<subseteq> shown E name i ` set (?Ds i)" by (auto simp: done_upto_def add_to_def)
    have "shown E name i ?a \<in> shown E name i ` set (?Ds i)" if "r = Ok ()"
      using n(4) that i by (auto simp: done_upto_def add_to_def)
    then show "shown E name i ` set (recorded_step (recorded h) (CallAdd p f t to c, r)) \<subseteq> shown E name i ` set (?Ds i)"
      using Cs(3) [OF i] sub by (cases "r = Ok ()") auto
    show "?Ds i = recorded_step (recorded h) (CallAdd p f t to c, r)" if "matched h"
      using ok [OF that] n(4) Cs(4) [OF that i] add_to_new [OF E i id(3) known] new i by (simp add: done_upto_def)
  qed
  show "nft_inv E view name fam (h @ [(CallAdd p f t to c, r)]) nft'"
  proof (rule nft_invI [where Cs = ?Ds])
    show "fills E name fam ?Ds ?rs'" by (rule n(2))
    show "spacious fam name ?rs'" by (rule same_elsewhere_spacious [OF n(3) id(4)])
    show "active_ok (recorded (h @ [(CallAdd p f t to c, r)]))" unfolding recorded_snoc by (rule recorded_add [OF id(3) new p])
    show "lists_ok E name i (?Ds i)" if "i < 4" for i by (rule Ds(1) [OF that])
    show "shown E name i ` set (recorded (h @ [(CallAdd p f t to c, r)])) \<subseteq> shown E name i ` set (?Ds i)" if "i < 4" for i
      unfolding recorded_snoc by (rule Ds(2) [OF that])
    show "?Ds i = recorded (h @ [(CallAdd p f t to c, r)])" if "i < 4" "matched (h @ [(CallAdd p f t to c, r)])" for i
      using that(2) unfolding recorded_snoc matched_snoc by (intro Ds(3) [OF that(1)]) simp
  qed (rule once)+
qed

lemma inv_remove:
  assumes inv: "nft_inv E view name fam h nft" and L: "kernel_ok True L view" and E: "codec_ok E" and M: "map_order_ok L"
    and old: "(p, f) \<in> fst ` set (recorded h)" and run: "nft_RemoveForwarding L E rnd p f t to nft = (r, nft')"
  shows "nft_inv E view name fam (h @ [(CallRemove p f t to, r)]) nft'" and "r = Ok ()"
proof -
  let ?a = "((p, f), (t, to))" and ?rs = "ruleset_of view nft" and ?rs' = "ruleset_of view nft'"
  have once: "nft_once nft" using inv old by (auto simp: nft_inv_def split: if_splits)
  have id: "nft_name nft = name" "nft_family nft = fam" "active_ok (recorded h)" "spacious fam name ?rs"
    using inv once by (simp_all add: nft_inv_def)
  obtain Cs where Cs: "fills E name fam Cs ?rs" "\<And>i. i < 4 \<Longrightarrow> lists_ok E name i (Cs i)"
      "\<And>i. i < 4 \<Longrightarrow> shown E name i ` set (recorded h) \<subseteq> shown E name i ` set (Cs i)" "\<And>i. matched h \<Longrightarrow> i < 4 \<Longrightarrow> Cs i = recorded h"
    using inv once unfolding nft_inv_def by (simp, blast)
  have p: "p = TCP \<or> p = UDP" using old id(3) by (force simp: active_ok_def)
  obtain n where n: "n \<le> 4" "fills E name fam (done_upto n (drop_from E name ?a) Cs) ?rs'" "same_elsewhere fam name ?rs ?rs'"
      "r = Ok () \<longrightarrow> n = 4" "r = Ok ()"
    using RemoveForwarding_chains [OF L E M p _ _ run, of Cs] Cs(1,2) id(1,2) by auto
  show ok: "r = Ok ()" by (rule n(5))
  have known: "known_protocol ?a" using p by (simp add: known_protocol_def)
  have same: "nft_once nft'" "nft_name nft' = name" "nft_family nft' = fam"
    using same_nft_Remove [of nft L E rnd p f t to] run id(1,2) once by (simp_all add: same_nft_def)
  have Ds: "lists_ok E name i (drop_from E name ?a i (Cs i))"
      "shown E name i ` set (without (p, f) (recorded h)) \<subseteq> shown E name i ` set (drop_from E name ?a i (Cs i))"
      "matched h \<Longrightarrow> ?a \<in> set (recorded h) \<Longrightarrow> drop_from E name ?a i (Cs i) = without (p, f) (recorded h)" if i: "i < 4" for i
  proof -
    show "lists_ok E name i (drop_from E name ?a i (Cs i))" by (rule lists_ok_drop_from [OF Cs(2) [OF i]])
    show "shown E name i ` set (without (p, f) (recorded h)) \<subseteq> shown E name i ` set (drop_from E name ?a i (Cs i))"
    proof (rule image_subsetI)
      fix b assume b: "b \<in> set (without (p, f) (recorded h))"
      then have bb: "b \<in> set (recorded h)" "fst b \<noteq> (p, f)" by (auto simp: without_def)
      then have "known_protocol b" using id(3) by (auto simp: active_ok_def known_protocol_def)
      then have "shown E name i b \<noteq> shown E name i ?a" using shown_keys [OF E i _ known] bb(2) by simp
      moreover obtain d where "d \<in> set (Cs i)" "shown E name i b = shown E name i d" using Cs(3) [OF i] bb(1) by blast
      ultimately show "shown E name i b \<in> shown E name i ` set (drop_from E name ?a i (Cs i))" by (auto simp: drop_from_def)
    qed
    show "drop_from E name ?a i (Cs i) = without (p, f) (recorded h)" if m: "matched h" "?a \<in> set (recorded h)"
    proof -
      have "\<forall>w. ((p, f), w) \<in> set (recorded h) \<longrightarrow> w = (t, to)"
        using m(2) id(3) by (auto simp: active_ok_def dest: eq_key_imp_eq_value)
      then show ?thesis unfolding Cs(4) [OF m(1) i] by (rule drop_from_key [OF E i id(3) known])
    qed
  qed
  have "done_upto n (drop_from E name ?a) Cs i = drop_from E name ?a i (Cs i)" if "i < 4" for i
    using n(4,5) that by (simp add: done_upto_def)
  then have fl: "fills E name fam (\<lambda>i. drop_from E name ?a i (Cs i)) ?rs'" using n(2) by (subst (asm) fills_cong) auto
  show "nft_inv E view name fam (h @ [(CallRemove p f t to, r)]) nft'"
  proof (rule nft_invI [where Cs = "\<lambda>i. drop_from E name ?a i (Cs i)"])
    show "fills E name fam (\<lambda>i. drop_from E name ?a i (Cs i)) ?rs'" by (rule fl)
    show "spacious fam name ?rs'" by (rule same_elsewhere_spacious [OF n(3) id(4)])
    show "active_ok (recorded (h @ [(CallRemove p f t to, r)]))" using active_ok_without [OF id(3)] ok by simp
    show "lists_ok E name i (drop_from E name ?a i (Cs i))" if "i < 4" for i by (rule Ds(1) [OF that])
    show "shown E name i ` set (recorded (h @ [(CallRemove p f t to, r)])) \<subseteq> shown E name i ` set (drop_from E name ?a i (Cs i))"
      if "i < 4" for i
      unfolding recorded_snoc ok recorded_step.simps by (rule Ds(2) [OF that])
    show "drop_from E name ?a i (Cs i) = recorded (h @ [(CallRemove p f t to, r)])"
      if "i < 4" "matched (h @ [(CallRemove p f t to, r)])" for i
      using that(2) unfolding recorded_snoc matched_snoc ok recorded_step.simps matching.simps by (intro Ds(3) [OF that(1)]) simp_all
  qed (rule same)+
qed

text \<open>The guard makes such calls only.\<close>

lemma inv_failed: "nft_inv E view name fam h nft \<Longrightarrow> r \<noteq> Ok () \<Longrightarrow> nft_inv E view name fam (h @ [(c, r)]) nft"
  by (simp add: nft_inv_def)

lemma fst_without: "fst ` set (without k As) = fst ` set As - {k}"
  by (auto simp: without_def)

lemma run_inv:
  assumes "guard_run (nft_impl L E rnd) fs (nft_env view) (NewNft nm fam k) h g" and "CallClose \<notin> fst ` set h"
    and L: "kernel_ok True L view" and E: "codec_ok E" and M: "map_order_ok L" and "clean fam (view k)"
  shows "nft_inv E view (ToUpper nm) fam h (gpf_underlying g) \<and> forwarded g = fst ` set (recorded h)"
  using assms(1,2)
proof (induction rule: guard_run.induct)
  case start
  have u: "gpf_underlying (guard_New (NewNft nm fam k)) = NewNft nm fam k" by (simp add: guard_New_def)
  show ?case unfolding u forwarded_New using assms(6) by (simp add: NewNft_def nft_inv_def active_ok_def)
next
  case (environment h g u)
  then show ?case using inv_env [OF _ environment.hyps(2)] by simp
next
  case (call h g c r g')
  then have inv: "nft_inv E view (ToUpper nm) fam h (gpf_underlying g)" and fw: "forwarded g = fst ` set (recorded h)"
    and nc: "c \<noteq> CallClose" by auto
  have gi: "guard_inv g" using guard_run_spec [OF call.hyps(1)] by simp
  have stay: ?case if "r \<noteq> Ok ()" "g' = g" using inv_failed [OF inv that(1)] fw that by simp
  show ?case
  proof (cases c)
    case CallClose
    then show ?thesis using nc by simp
  next
    case (CallAdd p f t to cm)
    then have "guard_Add (nft_impl L E rnd) fs p f t to cm g = (r, g')" using call.hyps(2) by simp
    from guard_Add_run [OF gi this] consider "r \<noteq> Ok ()" "g' = g"
      | (run) "(p, f) \<notin> forwarded g" "p = TCP \<or> p = UDP"
        "pf_Add (nft_impl L E rnd) p f t to cm (gpf_underlying g) = (r, gpf_underlying g')"
        "forwarded g' = (if r = Ok () then insert (p, f) (forwarded g) else forwarded g)"
      by blast
    then show ?thesis
    proof cases
      case run
      have "nft_inv E view (ToUpper nm) fam (h @ [(CallAdd p f t to cm, r)]) (gpf_underlying g')"
        by (rule inv_add(1) [OF inv L E M run(2)]) (use run(1,3) fw in \<open>simp_all add: nft_impl_def\<close>)
      then show ?thesis using fw run(4) CallAdd by (cases "r = Ok ()") auto
    qed (rule stay)
  next
    case (CallRemove p f t to)
    then have "guard_Remove (nft_impl L E rnd) p f t to g = (r, g')" using call.hyps(2) by simp
    from guard_Remove_run [OF gi this] consider "r \<noteq> Ok ()" "g' = g"
      | (run) "(p, f) \<in> forwarded g" "pf_Remove (nft_impl L E rnd) p f t to (gpf_underlying g) = (r, gpf_underlying g')"
        "forwarded g' = (if r = Ok () then forwarded g - {(p, f)} else forwarded g)"
      by blast
    then show ?thesis
    proof cases
      case run
      have "nft_inv E view (ToUpper nm) fam (h @ [(CallRemove p f t to, r)]) (gpf_underlying g')"
        by (rule inv_remove(1) [OF inv L E M]) (use run(1,2) fw in \<open>simp_all add: nft_impl_def\<close>)
      then show ?thesis using fw run(3) CallRemove by (cases "r = Ok ()") (auto simp: fst_without)
    qed (rule stay)
  qed
qed

section \<open>The theorems\<close>

lemma inv_chains:
  assumes "nft_inv E view name fam h nft" and "i < 4" and "a \<in> set (recorded h)"
  shows "fwd_forms E name a ! i \<in> rule_form ` set (rs_rules (ruleset_of view nft) (own_key fam name (ruleset_of view nft) i))"
proof -
  have "nft_once nft" using assms(1,3) by (auto simp: nft_inv_def split: if_splits)
  then obtain Cs where Cs: "fills E name fam Cs (ruleset_of view nft)" "shown E name i ` set (recorded h) \<subseteq> shown E name i ` set (Cs i)"
    using assms(1,2) unfolding nft_inv_def by (simp, blast)
  have "map rule_form (rs_rules (ruleset_of view nft) (own_key fam name (ruleset_of view nft) i)) = content E name (Cs i) i"
    using Cs(1) assms(2) by (simp add: fills_def)
  from arg_cong [OF this, of set] have "rule_form ` set (rs_rules (ruleset_of view nft) (own_key fam name (ruleset_of view nft) i)) =
      set (base_forms E ! i) \<union> shown E name i ` set (Cs i)"
    by (simp add: content_eq)
  then show ?thesis using Cs(2) assms(3) unfolding shown_def by blast
qed

lemma inv_matched:
  assumes "nft_inv E view name fam h nft" and "matched h" and "nft_once nft"
  shows "holds E name fam (recorded h) (ruleset_of view nft)"
proof -
  obtain Cs where Cs: "fills E name fam Cs (ruleset_of view nft)" "\<And>i. i < 4 \<Longrightarrow> Cs i = recorded h"
    using assms unfolding nft_inv_def by (simp, blast)
  then have "fills E name fam (\<lambda>_. recorded h) (ruleset_of view nft)" by (subst fills_cong [of _ Cs]) auto
  then show ?thesis using assms(1) by (simp add: holds_fills nft_inv_def)
qed

lemma guard_Add_succeeds:
  assumes "nft_inv E view name fam h (gpf_underlying g)" and "forwarded g = fst ` set (recorded h)" and "matched h" and "guard_inv g"
    and "kernel_ok True L view" and "codec_ok E" and "map_order_ok L"
    and new: "(p, f) \<notin> forwarded g" and free: "IsListening (fs (gpf_underlying g)) p f = Ok False"
  shows "fst (guard_Add (nft_impl L E rnd) fs p f t to c g) = Ok ()"
proof -
  obtain r nft' where impl: "pf_Add (nft_impl L E rnd) p f t to c (gpf_underlying g) = (r, nft')" by fastforce
  have p: "p = TCP \<or> p = UDP" using free IsListening_protocol by blast
  have "r = Ok ()"
    by (rule inv_add(2) [OF assms(1,5-7) p _ _ assms(3)]) (use assms(2) new impl in \<open>simp_all add: nft_impl_def\<close>)
  then show ?thesis
    using new free impl listens_Insert_ok [of "g\<lparr>gpf_underlying := nft'\<rparr>", OF _ p, of f] assms(4)
    by (auto simp: guard_Add_def forwarded_iff andThen_def on_underlying_def)
qed


text \<open>
  C6: the agent of a node over nftables: whatever was reconciled, in whichever order and with whichever
  outcome, until the clean-up each of the four chains has a rule for every forwarding the
  guard holds, on a kernel that makes no errors of its own and was clean at the start.
\<close>

theorem node_forwards_in_kernel:
  assumes "kernel_ok True L view" and "codec_ok E" and "map_order_ok L" and "clean fam (view k)" and "IntValue_ok A"
    and "node_run A (nft_impl L E rnd) fs node (nft_env view) (NewNft nm fam k) evs c" and "CleanedUp \<notin> set evs"
    and "(p, f) \<in> forwarded (ct_fwd c)"
  shows "\<exists>target to. \<forall>i < 4. fwd_forms E (ToUpper nm) ((p, f), (target, to)) ! i \<in> rule_form `
    set (rs_rules (ruleset_of view (gpf_underlying (ct_fwd c))) (own_key fam (ToUpper nm) (ruleset_of view (gpf_underlying (ct_fwd c))) i))"
proof -
  obtain h where h: "guard_run (nft_impl L E rnd) fs (nft_env view) (NewNft nm fam k) h (ct_fwd c)" "CallClose \<notin> fst ` set h"
    using node_run_guard [OF assms(6,5)] assms(7) by blast
  note run = run_inv [OF h assms(1-4)]
  then obtain target to where "((p, f), (target, to)) \<in> set (recorded h)" using assms(8) by force
  then show ?thesis using inv_chains [OF run [THEN conjunct1]] by blast
qed

section \<open>Examples\<close>

abbreviation demo_nft :: "ruleset nftables" where
  "demo_nft \<equiv> NewNft ''kertical'' TableFamilyIPv4 no_rules"

abbreviation demo_impl :: "ruleset nftables PortForwarding" where
  "demo_impl \<equiv> nft_impl model_lib le_codec (\<lambda>_ i. word_of_nat i)"

lemma demo_nft_inv: "nft_inv le_codec (\<lambda>rs. rs) (ToUpper ''kertical'') TableFamilyIPv4 [] (gpf_underlying (guard_New demo_nft))"
  using clean_no_rules [of TableFamilyIPv4] by (simp add: nft_inv_def NewNft_def active_ok_def guard_New_def)

lemma demo_nft_Add:
  assumes "p = TCP \<or> p = UDP"
  obtains g where "guard_Add demo_impl no_sockets p f t to c (guard_New demo_nft) = (Ok (), g)"
proof -
  have "fst (guard_Add demo_impl no_sockets p f t to c (guard_New demo_nft)) = Ok ()"
    by (rule guard_Add_succeeds [where h = "[]" and g = "guard_New demo_nft" and fs = no_sockets,
          OF demo_nft_inv _ _ _ model_kernel_ok codec_ok_le model_map_order])
      (use assms in \<open>simp_all add: matched_def\<close>)
  with that show thesis by (metis prod.collapse)
qed


lemma node_forwards_in_kernel_witness:
  "\<exists>c. node_run (demo_api (demo_object [demo_port 80])) demo_impl no_sockets ''n1'' (nft_env (\<lambda>rs. rs)) demo_nft [Reconciled ([], [])] c \<and>
     (\<exists>target to. fwd_forms le_codec (ToUpper ''kertical'') ((TCP, 90), (target, to)) ! 3 \<in> rule_form `
        set (rs_rules (nft_kernel (gpf_underlying (ct_fwd c))) (own_key TableFamilyIPv4 (ToUpper ''kertical'')
          (nft_kernel (gpf_underlying (ct_fwd c))) 3)))"
proof -
  let ?A = "demo_api (demo_object [demo_port 80])" and ?c0 = "\<lparr>ct_api = (), ct_fwd = guard_New demo_nft\<rparr>"
  obtain g where g: "guard_Add demo_impl no_sockets TCP 90 [''10.0.0.1''] 80 (svc_Name (demo_service 80)) (guard_New demo_nft) = (Ok (), g)"
    using demo_nft_Add [of TCP 90 "[''10.0.0.1'']" 80] by blast
  have "node_run ?A demo_impl no_sockets ''n1'' (nft_env (\<lambda>rs. rs)) demo_nft ([] @ [Reconciled ([], [])]) (snd (Reconcile ?A (guarded demo_impl no_sockets) id ''n1'' ([], []) ?c0))"
    by (rule node_run.reconcile [OF node_run.start]) simp
  then have run: "node_run ?A demo_impl no_sockets ''n1'' (nft_env (\<lambda>rs. rs)) demo_nft [Reconciled ([], [])] \<lparr>ct_api = (), ct_fwd = g\<rparr>"
    by (simp add: demo_Reconcile_adds [OF g])
  have "(TCP, 90) \<in> forwarded g" using guard_Add_run [OF guard_inv_New g] by auto
  with node_forwards_in_kernel [OF model_kernel_ok codec_ok_le model_map_order clean_no_rules demo_IntValue run, of TCP 90]
  obtain target to where all: "\<forall>i < 4. fwd_forms le_codec (ToUpper ''kertical'') ((TCP, 90), (target, to)) ! i \<in> rule_form `
        set (rs_rules (nft_kernel (gpf_underlying g)) (own_key TableFamilyIPv4 (ToUpper ''kertical'') (nft_kernel (gpf_underlying g)) i))"
    by (auto simp del: fwd_forms.simps)
  have "fwd_forms le_codec (ToUpper ''kertical'') ((TCP, 90), (target, to)) ! 3 \<in> rule_form `
        set (rs_rules (nft_kernel (gpf_underlying g)) (own_key TableFamilyIPv4 (ToUpper ''kertical'') (nft_kernel (gpf_underlying g)) 3))"
    by (rule all [rule_format]) simp
  with run show ?thesis by (intro exI conjI) (assumption, simp del: fwd_forms.simps)
qed

end
