(* ===== verification/NfFailures.thy ===== *)
theory NfFailures
  imports NfAgent
begin

text \<open>
  The nftables implementation when calls fail. Nothing is rolled back: a call that fails has changed the first
  few of the four chains. A later call that succeeds makes all four right for its forwarding; but the
  guard does not record an addition that failed, and so never removes what it left.
\<close>

section \<open>Sequences of calls\<close>

fun called :: "pf_call \<Rightarrow> bool \<times> forwarding" where
  "called (CallAdd p f target to c) = (True, ((p, f), (target, to)))"
| "called (CallRemove p f target to) = (False, ((p, f), (target, to)))"
| "called CallClose = (False, (([], 0), ([], 0)))"

definition well_called :: "pf_call \<Rightarrow> bool" where
  "well_called c \<longleftrightarrow> known_protocol (snd (called c))"

text \<open>Calls with any outcome, and what they do to the lists of the chains.\<close>

inductive nft_calls :: "'k nflib \<Rightarrow> codec \<Rightarrow> ('k \<Rightarrow> nat \<Rightarrow> 32 word) \<Rightarrow> 'k nftables \<Rightarrow> (pf_call \<times> unit result) list \<Rightarrow>
    'k nftables \<Rightarrow> bool" for L E rnd nft0 where
  none: "nft_calls L E rnd nft0 [] nft0"
| call: "nft_calls L E rnd nft0 h nft \<Longrightarrow> well_called c \<Longrightarrow> impl_call (nft_impl L E rnd) c nft = (r, nft') \<Longrightarrow>
    nft_calls L E rnd nft0 (h @ [(c, r)]) nft'"

inductive_cases nft_calls_snocE: "nft_calls L E rnd nft0 (h @ [(c, r)]) nft"

definition changes :: "codec \<Rightarrow> string \<Rightarrow> pf_call \<Rightarrow> nat \<Rightarrow> forwarding list \<Rightarrow> forwarding list" where
  "changes E name c = (if fst (called c) then add_to E name (snd (called c)) else drop_from E name (snd (called c)))"

inductive list_calls :: "codec \<Rightarrow> string \<Rightarrow> (pf_call \<times> unit result) list \<Rightarrow> (nat \<Rightarrow> forwarding list) \<Rightarrow> bool" for E name where
  none: "list_calls E name [] (\<lambda>_. [])"
| call: "list_calls E name h Cs \<Longrightarrow> n \<le> 4 \<Longrightarrow> (r = Ok () \<Longrightarrow> n = 4) \<Longrightarrow>
    list_calls E name (h @ [(c, r)]) (done_upto n (changes E name c) Cs)"

lemma impl_call_chains:
  assumes "kernel_ok willing L view" and "codec_ok E" and "map_order_ok L" and "nft_once nft" and "well_called c"
    and "fills E (nft_name nft) (nft_family nft) Cs (ruleset_of view nft)" and "\<And>i. i < 4 \<Longrightarrow> lists_ok E (nft_name nft) i (Cs i)"
    and "impl_call (nft_impl L E rnd) c nft = (r, nft')"
  shows "same_nft nft nft' \<and> (\<forall>p. r \<noteq> Panic p) \<and>
    same_elsewhere (nft_family nft) (nft_name nft) (ruleset_of view nft) (ruleset_of view nft') \<and>
    (\<exists>n \<le> 4. (r = Ok () \<longrightarrow> n = 4) \<and>
       fills E (nft_name nft) (nft_family nft) (done_upto n (changes E (nft_name nft) c) Cs) (ruleset_of view nft'))"
proof (cases c)
  case (CallAdd p f t to cm)
  then have run: "nft_AddForwarding L E (rnd (nft_kernel nft)) p f t to cm nft = (r, nft')" and p: "p = TCP \<or> p = UDP"
    using assms(5,8) by (simp_all add: nft_impl_def well_called_def known_protocol_def)
  have "changes E (nft_name nft) c = add_to E (nft_name nft) ((p, f), (t, to))" using CallAdd by (simp add: changes_def)
  then show ?thesis
    using AddForwarding_chains [OF assms(1-4) p assms(6,7) run] same_nft_Add [OF assms(4), of L E "rnd (nft_kernel nft)" p f t to cm] run
    by auto
next
  case (CallRemove p f t to)
  then have run: "nft_RemoveForwarding L E (rnd (nft_kernel nft)) p f t to nft = (r, nft')" and p: "p = TCP \<or> p = UDP"
    using assms(5,8) by (simp_all add: nft_impl_def well_called_def known_protocol_def)
  have "changes E (nft_name nft) c = drop_from E (nft_name nft) ((p, f), (t, to))" using CallRemove by (simp add: changes_def)
  then show ?thesis
    using RemoveForwarding_chains [OF assms(1-3) p assms(6,7) run] same_nft_Remove [of nft L E "rnd (nft_kernel nft)" p f t to] run
    by auto
next
  case CallClose
  then show ?thesis using assms(5) by (simp add: well_called_def known_protocol_def)
qed

lemma lists_ok_changes:
  assumes "well_called c" and "lists_ok E name i As"
  shows "lists_ok E name i (changes E name c i As)"
  using assms lists_ok_add_to lists_ok_drop_from by (simp add: changes_def well_called_def)

lemma calls_chains:
  assumes "nft_calls L E rnd nft0 h nft" and "kernel_ok willing L view" and "codec_ok E" and "map_order_ok L" and "nft_once nft0"
    and "fills E (nft_name nft0) (nft_family nft0) (\<lambda>_. []) (ruleset_of view nft0)"
  shows "same_nft nft0 nft \<and> (\<forall>p. Panic p \<notin> snd ` set h) \<and> (\<exists>Cs. list_calls E (nft_name nft0) h Cs \<and>
    (\<forall>i < 4. lists_ok E (nft_name nft0) i (Cs i)) \<and> fills E (nft_name nft0) (nft_family nft0) Cs (ruleset_of view nft))"
  using assms(1)
proof induction
  case none
  have "\<exists>Cs. list_calls E (nft_name nft0) [] Cs \<and> (\<forall>i < 4. lists_ok E (nft_name nft0) i (Cs i)) \<and>
      fills E (nft_name nft0) (nft_family nft0) Cs (ruleset_of view nft0)"
    using assms(6) list_calls.none by (intro exI [of _ "\<lambda>_. []"]) (simp add: lists_ok_def)
  then show ?case by (simp add: same_nft_def)
next
  case (call h nft c r nft')
  then obtain Cs where Cs: "list_calls E (nft_name nft0) h Cs" "\<forall>i < 4. lists_ok E (nft_name nft0) i (Cs i)"
      "fills E (nft_name nft0) (nft_family nft0) Cs (ruleset_of view nft)" by blast
  have id: "nft_once nft" "nft_name nft = nft_name nft0" "nft_family nft = nft_family nft0"
    using call.IH assms(5) by (simp_all add: same_nft_def)
  obtain n where n: "same_nft nft nft'" "\<forall>p. r \<noteq> Panic p" "n \<le> 4" "r = Ok () \<longrightarrow> n = 4"
      "fills E (nft_name nft0) (nft_family nft0) (done_upto n (changes E (nft_name nft0) c) Cs) (ruleset_of view nft')"
    using impl_call_chains [OF assms(2-4) id(1) call.hyps(2), unfolded id(2,3), OF Cs(3) _ call.hyps(3)] Cs(2) by blast
  have "lists_ok E (nft_name nft0) i (done_upto n (changes E (nft_name nft0) c) Cs i)" if "i < 4" for i
    using lists_ok_changes [OF call.hyps(2)] Cs(2) that by (simp add: done_upto_def)
  moreover have "list_calls E (nft_name nft0) (h @ [(c, r)]) (done_upto n (changes E (nft_name nft0) c) Cs)"
    by (rule list_calls.call [OF Cs(1) n(3)]) (use n(4) in simp)
  moreover have "same_nft nft0 nft'" using call.IH n(1) by (simp add: same_nft_def)
  ultimately show ?case using call.IH n(2,5) by auto
qed


section \<open>A call that succeeds\<close>

lemma base_shown:
  assumes "i < 4" and "known_protocol a"
  shows "shown E name i a \<notin> set (base_forms E ! i)"
proof
  assume base: "shown E name i a \<in> set (base_forms E ! i)"
  obtain p f target to where a: "a = ((p, f), (target, to))" by (metis surj_pair)
  then have "p = TCP \<or> p = UDP" using assms(2) by (simp add: known_protocol_def)
  then obtain muts where m: "buildForwarding E name (\<lambda>_. 0) p f target to [] = Ok muts" using buildForwarding_total by blast
  let ?x = "\<lparr>rl_table = [], rl_family = TableFamilyIPv4, rl_chain = [], rl_handle = 0, rl_exprs = Build E (mut_expr (muts ! i)), rl_userdata = None\<rparr>"
  have x: "rule_form ?x = shown E name i a" using shown_eq [OF m assms(1)] a by (simp add: rule_form_def mut_form_def)
  have "RuleExpr E (mut_expr (muts ! i)) ?x = Some False" by (rule base_ignored [OF m assms(1)]) (simp add: x base)
  moreover have "RuleExpr E (mut_expr (muts ! i)) ?x = Some True"
    by (rule recognised [OF m assms(1)]) (use x a in \<open>simp add: shown_def\<close>)
  ultimately show False by simp
qed

lemma count_distinct: "distinct xs \<Longrightarrow> count_list xs x = (if x \<in> set xs then 1 else 0)"
  by (induction xs) auto


section \<open>An addition that fails\<close>

text \<open>With room in the first chain, the first chain is changed.\<close>

lemma AddForwarding_first:
  assumes L: "kernel_ok True L view" and E: "codec_ok E" and M: "map_order_ok L" and once: "nft_once nft" and p: "p = TCP \<or> p = UDP"
    and h: "fills E (nft_name nft) (nft_family nft) Cs (ruleset_of view nft)" and ok: "\<And>i. i < 4 \<Longrightarrow> lists_ok E (nft_name nft) i (Cs i)"
    and room: "room (nft_family nft) (nft_name nft) (ruleset_of view nft) 0"
    and run: "nft_AddForwarding L E rnd p f target to c nft = (r, nft')"
  shows "\<exists>n \<le> 4. 1 \<le> n \<and> fills E (nft_name nft) (nft_family nft) (done_upto n (add_to E (nft_name nft) ((p, f), (target, to))) Cs) (ruleset_of view nft') \<and>
    (r = Ok () \<longrightarrow> n = 4) \<and> (\<forall>p. r \<noteq> Panic p)"
proof -
  let ?name = "nft_name nft" and ?fam = "nft_family nft" and ?f = "add_to E (nft_name nft) ((p, f), (target, to))"
  let ?S = "\<lambda>n rs. fills E ?name ?fam (done_upto n ?f Cs) rs"
  obtain muts where muts: "buildForwarding E ?name rnd p f target to c = Ok muts" using buildForwarding_total [OF p] by blast
  note len = buildForwarding_nth(1) [OF muts]
  have "nft_AddForwarding L E rnd p f target to c nft = present L E muts nft"
    using once muts by (simp add: nft_AddForwarding_def once_start_def andThen_def wrapped_def)
  with run obtain k' where k': "runMutation L ?name ?fam (table_Present L E) muts (nft_kernel nft) = (r, k')" "nft' = nft\<lparr>nft_kernel := k'\<rparr>"
    by (auto simp: present_def on_kernel_def split: prod.splits)
  have lib: "\<forall>c. lib_AddSet L c = None" using L by (simp add: kernel_ok_def)
  have step: "does E ?name ?fam (done_upto i ?f Cs) i (?f i (done_upto i ?f Cs i)) rs rw q rw' \<and>
      (room ?fam ?name rs i \<longrightarrow> q = Ok () \<and> applies (conn_log rw') rs)"
    if "i < 4" "?S i rs" "reads_view ?name ?fam rs rw" "table_Present L E (muts ! i) rw = (q, rw')" for i rs rw q rw'
    using present_step [OF E M that(3,2,1) _ muts that(4)] ok that(1) lib by (simp add: done_upto_def)
  have "\<exists>n \<le> length muts. 0 \<le> n \<and> (?S n (view k') \<and> (n = 0 \<longrightarrow> room ?fam ?name (view k') 0)) \<and> (r = Ok () \<longrightarrow> n = length muts) \<and>
      (\<forall>p. r \<noteq> Panic p) \<and> (n = 0 \<longrightarrow> r = Ok ())"
  proof (rule runMutation_from [OF L, where S = "\<lambda>n rs. ?S n rs \<and> (n = 0 \<longrightarrow> room ?fam ?name rs 0)" and i = 0 and go = "\<lambda>n. n = 0"])
    show "runMutation L ?name ?fam (table_Present L E) (drop 0 muts) (nft_kernel nft) = (r, k')" using k'(1) by simp
    show "?S 0 (ruleset_of view nft) \<and> (0 = 0 \<longrightarrow> room ?fam ?name (ruleset_of view nft) 0)"
      using h room by (simp add: done_upto_def [abs_def])
  next
    fix i rs rw q rw'
    assume i: "i < length muts" and S: "?S i rs \<and> (i = 0 \<longrightarrow> room ?fam ?name rs 0)" and rw: "reads_view ?name ?fam rs rw"
      and act: "table_Present L E (muts ! i) rw = (q, rw')"
    note st = step [OF i [unfolded len] S [THEN conjunct1] rw act, unfolded does_def done_upto_Suc]
    have later: "?S (Suc i) rs' \<and> (Suc i = 0 \<longrightarrow> room ?fam ?name rs' 0)" if "q = Ok ()" "commits (conn_log rw') rs rs'" for rs'
      using st [THEN conjunct1] that by (intro conjI) (blast, simp)
    have live: "q = Ok () \<and> applies (conn_log rw') rs" if "i = 0"
      using st [THEN conjunct2] S [THEN conjunct2] that by blast
    have quiet: "rw_kernel rw' = rw_kernel rw" "is_open rw'" "\<forall>p. q \<noteq> Panic p" using st [THEN conjunct1] by blast+
    show "rw_kernel rw' = rw_kernel rw \<and> is_open rw' \<and> (\<forall>p. q \<noteq> Panic p) \<and>
      (q = Ok () \<longrightarrow> (\<forall>rs'. commits (conn_log rw') rs rs' \<longrightarrow> ?S (Suc i) rs' \<and> (Suc i = 0 \<longrightarrow> room ?fam ?name rs' 0))) \<and>
      (i = 0 \<longrightarrow> q = Ok () \<and> applies (conn_log rw') rs)"
      by (intro conjI quiet impI allI later live)
  qed simp_all
  then obtain n where n: "n \<le> length muts \<and> 0 \<le> n \<and> (?S n (view k') \<and> (n = 0 \<longrightarrow> room ?fam ?name (view k') 0)) \<and>
      (r = Ok () \<longrightarrow> n = length muts) \<and> (\<forall>p. r \<noteq> Panic p) \<and> (n = 0 \<longrightarrow> r = Ok ())" by (rule exE)
  have "1 \<le> n" using n len by (cases n) auto
  then show ?thesis using n len k'(2) by (intro exI [of _ n]) simp
qed


section \<open>Examples\<close>

lemma web_called:
  obtains nft0 nft where "once_start model_lib le_codec (NewNft ''kertical'' TableFamilyIPv4 no_rules) = (Ok (), nft0)"
    "nft_calls model_lib le_codec (\<lambda>_ i. word_of_nat i) nft0 ([] @ [(CallAdd TCP 8080 [''10.0.0.1'', ''10.0.0.2''] 80 ''web'', Ok ())]) nft"
proof -
  obtain nft0 where nft0: "once_start model_lib le_codec (NewNft ''kertical'' TableFamilyIPv4 no_rules) = (Ok (), nft0)"
    "nft_once nft0" "nft_name nft0 = ToUpper ''kertical''" "nft_family nft0 = TableFamilyIPv4"
    "holds le_codec (ToUpper ''kertical'') TableFamilyIPv4 [] (nft_kernel nft0)"
    "ready TableFamilyIPv4 (ToUpper ''kertical'') (nft_kernel nft0)"
    by (rule demo_started)
  obtain r nft where run: "add_web nft0 = (r, nft)" by fastforce
  from AddForwarding_prefix [OF model_kernel_ok codec_ok_le model_map_order nft0(2) _ _ _ run, of "[]" True] nft0
  have "impl_call demo_impl (CallAdd TCP 8080 [''10.0.0.1'', ''10.0.0.2''] 80 ''web'') nft0 = (Ok (), nft)"
    using run by (auto simp: nft_impl_def)
  from nft_calls.call [OF nft_calls.none _ this] that nft0(1) show thesis
    by (auto simp: well_called_def known_protocol_def)
qed



text \<open>The kernel after the start, with the program's POSTROUTING chain deleted.\<close>

lemma own_chain_deleted:
  assumes l: "laid E name fam (\<lambda>_. Full []) rs"
  defines "rs' \<equiv> drop_chains (\<lambda>\<kappa>. \<kappa> = own_key fam name rs 1) rs"
  shows "fills E name fam (\<lambda>_. []) rs'" and "room fam name rs' 0" and "own_key fam name rs' 1 \<notin> chain_key ` set (rs_chains rs')"
proof -
  note h = laid_holds [OF l]
  have other: "chain_key c \<noteq> own_key fam name rs 1" if c: "c \<in> set (rs_chains rs)" "ch_family c = fam" "chainMatchPredicate hk c" for c hk
    using laid_chain [OF l c(1,2)]
    by (cases) (use c(3) nameOf_base [of 1 _ name] laid_own_key [OF l, of 1] in \<open>auto simp: chainMatchPredicate_def ChainHook_def dest: sym\<close>)
  have "hooked fam hk rs' = hooked fam hk rs" for hk
    unfolding hooked_def rs'_def drop_chains_simps filter_filter
    by (rule arg_cong [where f = "\<lambda>cs. remdups (map ch_table cs)"], rule filter_cong [OF refl]) (use other in blast)
  then have keys: "own_key fam name rs' = own_key fam name rs" "one_table fam rs' = one_table fam rs"
    by (simp_all add: own_key_def [abs_def] one_table_def)
  have rules: "map rule_form (rs_rules rs' (own_key fam name rs i)) = content E name [] i" if "i < 4" for i
    using h(1) that own_key_inj [of i 1 fam name rs]
    by (auto simp: rs'_def holds_fills fills_def content_def base_forms_def)
  have ok: "ruleset_ok rs'" "one_table fam rs'"
    using h(1) keys(2) ruleset_ok_drop_chains by (auto simp: rs'_def holds_fills fills_def)
  show "fills E name fam (\<lambda>_. []) rs'" using ok rules by (simp add: fills_def keys(1))
  show "own_key fam name rs' 1 \<notin> chain_key ` set (rs_chains rs')" unfolding keys(1) by (auto simp: rs'_def)
  have "set (handles rs' t) \<subseteq> set (handles rs t)" for t by (auto simp: set_handles rs'_def split: if_splits) blast
  then have "card (set (handles rs' (table_of (own_key fam name rs 0)))) \<le> card (set (handles rs (table_of (own_key fam name rs 0))))"
    by (simp add: card_mono)
  moreover have "card (set (handles rs (table_of (own_key fam name rs 0)))) + 4 \<le> 2 ^ 64" using h(2) unfolding ready_def by simp
  ultimately have small: "card (set (handles rs' (table_of (own_key fam name rs 0)))) < 2 ^ 64" by simp
  have "own_key fam name rs 0 \<in> chain_key ` set (rs_chains rs)" using h(2) unfolding ready_def by simp
  moreover have "own_key fam name rs 0 \<noteq> own_key fam name rs 1" using own_key_inj [of 0 1 fam name rs] by simp
  ultimately have "own_key fam name rs 0 \<in> chain_key ` set (rs_chains rs')" by (auto simp: rs'_def)
  with small show "room fam name rs' 0" unfolding room_def keys(1) by blast
qed


end
