(* ===== verification/NfRestart.thy ===== *)
theory NfRestart
  imports NfFailures
begin

text \<open>
  Runs of the program one after the other on one machine, each ended by a close or cut off between two calls: whatever
  they leave, the next start restores the chains, and a close takes the program's chains away.
\<close>

section \<open>One run\<close>

text \<open>
  A run makes its instance, starts it with the first call, adds and removes while the start was a success, and may close;
  between its calls others may change what is not of the family and take none of the program's names.
  The last argument tells whether it is started and not closed.
\<close>

inductive session :: "'k nflib \<Rightarrow> codec \<Rightarrow> ('k \<Rightarrow> nat \<Rightarrow> 32 word) \<Rightarrow> string \<Rightarrow> family \<Rightarrow> ('k \<Rightarrow> ruleset) \<Rightarrow> 'k \<Rightarrow>
    'k nftables \<Rightarrow> bool \<Rightarrow> bool"
  for L E rnd nm fam view k where
  made: "session L E rnd nm fam view k (NewNft nm fam k) False"
| started: "once_start L E (NewNft nm fam k) = (r, nft) \<Longrightarrow> session L E rnd nm fam view k nft (r = Ok ())"
| called: "session L E rnd nm fam view k nft True \<Longrightarrow> well_called c \<Longrightarrow> impl_call (nft_impl L E rnd) c nft = (r, nft') \<Longrightarrow>
    session L E rnd nm fam view k nft' True"
| closed: "session L E rnd nm fam view k nft b \<Longrightarrow> nft_Close L E nft = (r, nft') \<Longrightarrow> session L E rnd nm fam view k nft' False"
| around: "session L E rnd nm fam view k nft b \<Longrightarrow> same_family fam (ruleset_of view nft) (view k') \<Longrightarrow>
    alone (ToUpper nm) (others fam (view k')) \<Longrightarrow> session L E rnd nm fam view k (nft\<lparr>nft_kernel := k'\<rparr>) b"

text \<open>
  A machine's life: runs of the program, and such changes in between.
\<close>

inductive lived :: "'k nflib \<Rightarrow> codec \<Rightarrow> ('k \<Rightarrow> nat \<Rightarrow> 32 word) \<Rightarrow> string \<Rightarrow> family \<Rightarrow> ('k \<Rightarrow> ruleset) \<Rightarrow> 'k \<Rightarrow> 'k \<Rightarrow> bool"
  for L E rnd nm fam view k0 where
  first: "lived L E rnd nm fam view k0 k0"
| ran: "lived L E rnd nm fam view k0 k \<Longrightarrow> session L E rnd nm fam view k nft b \<Longrightarrow> lived L E rnd nm fam view k0 (nft_kernel nft)"
| elsewhere: "lived L E rnd nm fam view k0 k \<Longrightarrow> same_family fam (view k) (view k') \<Longrightarrow>
    alone (ToUpper nm) (others fam (view k')) \<Longrightarrow> lived L E rnd nm fam view k0 k'"

definition settled :: "codec \<Rightarrow> string \<Rightarrow> family \<Rightarrow> ruleset \<Rightarrow> bool" where
  "settled E name fam rs \<longleftrightarrow> alone name (others fam rs) \<and> (\<exists>st. laid E name fam st rs)"

lemma settled_traces: "settled E name fam rs \<Longrightarrow> traces E name fam rs"
  by (auto simp: settled_def traces_def safe_def)

definition session_inv :: "codec \<Rightarrow> ('k \<Rightarrow> ruleset) \<Rightarrow> string \<Rightarrow> family \<Rightarrow> 'k nftables \<Rightarrow> bool \<Rightarrow> bool" where
  "session_inv E view name fam nft b \<longleftrightarrow> nft_name nft = name \<and> nft_family nft = fam \<and> settled E name fam (ruleset_of view nft) \<and>
     (b \<longrightarrow> nft_once nft \<and> (\<exists>Cs. laid E name fam (\<lambda>i. Full (Cs i)) (ruleset_of view nft) \<and> (\<forall>i < 4. lists_ok E name i (Cs i))))"

lemma start_settled:
  assumes L: "kernel_ok willing L view" and M: "map_order_ok L" and s: "settled E (ToUpper nm) fam (view k)"
    and run: "once_start L E (NewNft nm fam k) = (r, nft)"
  shows "session_inv E view (ToUpper nm) fam nft (r = Ok ()) \<and> others fam (ruleset_of view nft) = others fam (view k) \<and>
    (r = Ok () \<longrightarrow> laid E (ToUpper nm) fam (\<lambda>_. Full []) (ruleset_of view nft)) \<and> (\<forall>p. r \<noteq> Panic p) \<and> (willing \<longrightarrow> r = Ok ())"
proof -
  obtain st where st: "laid E (ToUpper nm) fam st (view k)" "safe (ToUpper nm) fam st (view k)" "alone (ToUpper nm) (others fam (view k))"
    using s by (auto simp: settled_def safe_def)
  obtain nft1 where start: "nft_start L E (NewNft nm fam k) = (r, nft1)" "nft = nft1\<lparr>nft_once := True\<rparr>"
    using run by (auto simp: once_start_def NewNft_def split: prod.splits)
  have m: "(\<exists>st'. remains st st' \<and> laid E (ToUpper nm) fam st' (ruleset_of view nft1) \<and> (r = Ok () \<longrightarrow> st' = (\<lambda>_. Full []))) \<and>
    others fam (ruleset_of view nft1) = others fam (view k) \<and> (\<forall>p. r \<noteq> Panic p) \<and> (willing \<longrightarrow> r = Ok ()) \<and>
    nft_name nft1 = ToUpper nm \<and> nft_family nft1 = fam"
    using start_run [OF L M _ _ start(1), of st] st by (simp add: NewNft_def)
  then have "laid E (ToUpper nm) fam (\<lambda>_. Full []) (ruleset_of view nft1)" if "r = Ok ()" using that by auto
  then show ?thesis using m st(3) start(2)
    by (auto simp: session_inv_def settled_def lists_ok_def intro: exI [of _ "\<lambda>_. []"])
qed

lemma close_settled:
  assumes L: "kernel_ok willing L view" and M: "map_order_ok L" and s: "session_inv E view name fam nft b"
    and run: "nft_Close L E nft = (r, nft')"
  shows "session_inv E view name fam nft' False \<and> others fam (ruleset_of view nft') = others fam (ruleset_of view nft) \<and>
    (r = Ok () \<longrightarrow> (\<exists>st. laid E name fam (\<lambda>i. emptied (st i)) (ruleset_of view nft'))) \<and> (\<forall>p. r \<noteq> Panic p) \<and> (willing \<longrightarrow> r = Ok ())"
proof -
  obtain st where st: "laid E name fam st (ruleset_of view nft)" "alone name (others fam (ruleset_of view nft))" "nft_name nft = name" "nft_family nft = fam"
    using s by (auto simp: session_inv_def settled_def)
  have safe: "safe name fam st (ruleset_of view nft)" using st(2) by (simp add: safe_def)
  note c = Close_run [OF L M _ _ run, unfolded st(3,4), OF st(1) safe]
  then obtain n where "laid E name fam (emptied_upto n st) (ruleset_of view nft')" "r = Ok () \<longrightarrow> n = 4" by blast
  moreover have "laid E name fam (emptied_upto 4 st) rs = laid E name fam (\<lambda>i. emptied (st i)) rs" for rs
    by (rule laid_cong) (simp add: emptied_upto_def)
  ultimately show ?thesis using c st by (auto simp: session_inv_def settled_def)
qed

lemma call_settled:
  assumes "kernel_ok willing L view" and "codec_ok E" and "map_order_ok L" and s: "session_inv E view name fam nft True" and c: "well_called c"
    and run: "impl_call (nft_impl L E rnd) c nft = (r, nft')"
  shows "session_inv E view name fam nft' True"
proof -
  have id: "nft_name nft = name" "nft_family nft = fam" "nft_once nft" and alone: "alone name (others fam (ruleset_of view nft))"
    using s by (simp_all add: session_inv_def settled_def)
  obtain Cs where Cs: "laid E name fam (\<lambda>i. Full (Cs i)) (ruleset_of view nft)" "\<And>i. i < 4 \<Longrightarrow> lists_ok E name i (Cs i)"
    using s by (auto simp: session_inv_def)
  from impl_call_chains [OF assms(1-3) id(3) c, unfolded id(1,2), OF laid_fills [OF Cs(1)] Cs(2) run]
  obtain n where n: "same_nft nft nft'" "same_elsewhere fam name (ruleset_of view nft) (ruleset_of view nft')"
    "fills E name fam (done_upto n (changes E name c) Cs) (ruleset_of view nft')" by blast
  have "lists_ok E name i (done_upto n (changes E name c) Cs i)" if "i < 4" for i
    using lists_ok_changes [OF c] Cs(2) that by (simp add: done_upto_def)
  moreover have "others fam (ruleset_of view nft') = others fam (ruleset_of view nft)" using n(2) by (simp add: same_elsewhere_def others_def)
  ultimately show ?thesis
    using laid_after_call [OF Cs(1) n(3,2)] n(1) id alone by (auto simp: session_inv_def settled_def same_nft_def)
qed

lemma same_family_laid: "same_family fam rs rs' \<Longrightarrow> laid E name fam st rs \<Longrightarrow> laid E name fam st rs'"
proof -
  assume same: "same_family fam rs rs'" and l: "laid E name fam st rs"
  have "set (filter (\<lambda>c. ch_family c = fam) (rs_chains rs')) = set (filter (\<lambda>c. ch_family c = fam) (rs_chains rs))"
    using same by (simp add: same_family_def)
  then have "{c \<in> set (rs_chains rs'). ch_family c = fam} = {c \<in> set (rs_chains rs). ch_family c = fam}" by simp
  moreover have "rs_rules rs' (t, fam, n) = rs_rules rs (t, fam, n)" for t n using same by (simp add: same_family_def)
  moreover have "ruleset_ok rs'" using same by (simp add: same_family_def)
  ultimately show ?thesis using l by (simp add: laid_def)
qed

lemma session_settled:
  assumes "session L E rnd nm fam view k nft b" and "kernel_ok willing L view" and "codec_ok E" and "map_order_ok L"
    and "settled E (ToUpper nm) fam (view k)"
  shows "session_inv E view (ToUpper nm) fam nft b"
  using assms(1)
proof induction
  case made
  then show ?case using assms(5) by (simp add: session_inv_def NewNft_def)
next
  case (started r nft)
  then show ?case using start_settled [OF assms(2,4,5)] by blast
next
  case (called nft c r nft')
  then show ?case using call_settled [OF assms(2-4)] by blast
next
  case (closed nft b r nft')
  then show ?case using close_settled [OF assms(2,4)] by blast
next
  case (around nft b k')
  then have "laid E (ToUpper nm) fam st (view k')" if "laid E (ToUpper nm) fam st (ruleset_of view nft)" for st
    using same_family_laid that by blast
  then show ?case using around.IH around.hyps(3) by (auto simp: session_inv_def settled_def)
qed

lemma lived_settled:
  assumes "lived L E rnd nm fam view k0 k" and "kernel_ok willing L view" and "codec_ok E" and "map_order_ok L"
    and "settled E (ToUpper nm) fam (view k0)"
  shows "settled E (ToUpper nm) fam (view k)"
  using assms(1)
proof induction
  case first
  then show ?case using assms(5) .
next
  case (ran k nft b)
  then show ?case using session_settled [OF ran.hyps(2) assms(2-4)] by (simp add: session_inv_def)
next
  case (elsewhere k k')
  then show ?case unfolding settled_def using same_family_laid by blast
qed

lemma clean_settled: "clean fam rs \<Longrightarrow> alone name (others fam rs) \<Longrightarrow> settled E name fam rs"
  unfolding settled_def using clean_laid by blast

section \<open>The next run\<close>



section \<open>Examples\<close>

text \<open>A forwarding is added, the process is cut off, and the next one starts.\<close>

lemma web_session:
  obtains nft where "session model_lib le_codec (\<lambda>_ i. word_of_nat i) ''kertical'' TableFamilyIPv4 (\<lambda>rs. rs) no_rules nft True"
    "length (rs_rules (nft_kernel nft) (own_key TableFamilyIPv4 (ToUpper ''kertical'') (nft_kernel nft) 3)) = 1"
proof -
  let ?c = "CallAdd TCP 8080 [''10.0.0.1'', ''10.0.0.2''] 80 ''web''" and ?nm = "ToUpper ''kertical''"
  obtain nft0 nft where nft: "once_start model_lib le_codec (NewNft ''kertical'' TableFamilyIPv4 no_rules) = (Ok (), nft0)"
    "nft_calls model_lib le_codec (\<lambda>_ i. word_of_nat i) nft0 ([] @ [(?c, Ok ())]) nft"
    by (rule web_called)
  obtain nft1 where "nft_calls model_lib le_codec (\<lambda>_ i. word_of_nat i) nft0 [] nft1" "well_called ?c" "impl_call demo_impl ?c nft1 = (Ok (), nft)"
    using nft(2) by (rule nft_calls_snocE) auto
  note calls = this
  from calls(1) have eq: "nft1 = nft0" by (cases) auto
  have "session model_lib le_codec (\<lambda>_ i. word_of_nat i) ''kertical'' TableFamilyIPv4 (\<lambda>rs. rs) no_rules nft0 True"
    using session.started [OF nft(1)] by simp
  from session.called [OF this calls(2) calls(3) [unfolded eq]] have "session model_lib le_codec (\<lambda>_ i. word_of_nat i) ''kertical'' TableFamilyIPv4 (\<lambda>rs. rs) no_rules nft True"
    .
  moreover have "length (rs_rules (nft_kernel nft) (own_key TableFamilyIPv4 ?nm (nft_kernel nft) 3)) = 1"
  proof -
    from calls_chains [OF nft(2) model_kernel_ok codec_ok_le model_map_order] once_start_view [OF nft(1) model_kernel_ok model_map_order traces_no_rules]
    obtain Cs where Cs: "list_calls le_codec ?nm [(?c, Ok ())] Cs" "fills le_codec ?nm TableFamilyIPv4 Cs (nft_kernel nft)"
      by (auto simp: holds_fills)
    have "Cs 3 = [web]"
      using Cs(1) by cases (auto elim: list_calls.cases simp: done_upto_def changes_def add_to_def)
    then have "map rule_form (rs_rules (nft_kernel nft) (own_key TableFamilyIPv4 ?nm (nft_kernel nft) 3)) = content le_codec ?nm [web] 3"
      using Cs(2) by (simp add: fills_def)
    from arg_cong [OF this, of length] show ?thesis by (simp add: content_def base_forms_def)
  qed
  ultimately show thesis using that by blast
qed

lemma alone_no_rules: "alone name (others fam no_rules)"
  by (simp add: alone_def others_def no_rules_def)



end
