(* ===== verification/Registry.thy ===== *)
theory Registry
  imports Prelude
begin

text \<open>
  \<open>internal/portforwarding/registry.go\<close>: the implementations of port forwarding that register
  themselves, and the choice of one. What \<open>New\<close> returns is a value of type \<open>'p\<close>.
\<close>

record 'p realImplement =
  im_Name :: string
  im_Available :: "bool result"
  im_New :: "string \<Rightarrow> 'p result"
  im_Order :: int

text \<open>
  \<open>slices.SortFunc\<close> by descending order; up to 12 elements it is an insertion sort, so that
  implementations of the same order stay in the order they were registered.
\<close>

definition registerImplement :: "'p realImplement \<Rightarrow> 'p realImplement list \<Rightarrow> 'p realImplement list" where
  "registerImplement impl registry = sort_key (\<lambda>i. - im_Order i) (registry @ [impl])"

definition unavailable_msg :: "string \<Rightarrow> string" where
  "unavailable_msg n = ''failed to check '' @ [char_of (34::nat)] @ n @ [char_of (34::nat)] @ '' is available''"

fun find_available :: "string \<Rightarrow> 'p realImplement list \<Rightarrow> 'p result option" where
  "find_available name [] = None"
| "find_available name (impl # impls) = (case im_Available impl of
      Err e \<Rightarrow> Some (Err (EWrap (unavailable_msg (im_Name impl)) e))
    | Panic p \<Rightarrow> Some (Panic p)
    | Ok available \<Rightarrow> if available then Some (im_New impl name) else find_available name impls)"

definition findPortForwardingImpl :: "'p realImplement list \<Rightarrow> string \<Rightarrow> string \<Rightarrow> 'p result" where
  "findPortForwardingImpl registry preference name =
     (let preferred = (if length preference \<noteq> 0
            then find_available name (filter (\<lambda>impl. im_Name impl = preference) registry) else None) in
      case preferred of
        Some r \<Rightarrow> r
      | None \<Rightarrow> (case find_available name registry of
          Some r \<Rightarrow> r
        | None \<Rightarrow> Err (EText ''no underlying port forwarding is available'')))"

section \<open>Facts\<close>

definition outcome :: "string \<Rightarrow> 'p realImplement \<Rightarrow> 'p result" where
  "outcome name impl = (case im_Available impl of
      Err e \<Rightarrow> Err (EWrap (unavailable_msg (im_Name impl)) e)
    | Panic p \<Rightarrow> Panic p
    | Ok _ \<Rightarrow> im_New impl name)"

lemma find_available_find:
  "find_available name impls = map_option (outcome name) (List.find (\<lambda>i. im_Available i \<noteq> Ok False) impls)"
  by (induction impls) (auto simp: outcome_def split: result.split)

lemma find_append:
  "List.find p (xs @ ys) = (case List.find p xs of None \<Rightarrow> List.find p ys | Some x \<Rightarrow> Some x)"
  by (induction xs) auto

lemma registerImplement_sorted:
  "sorted (map (\<lambda>i. - im_Order i) (registerImplement impl registry))"
  by (simp add: registerImplement_def)

lemma registerImplement_mset:
  "set (registerImplement impl registry) = insert impl (set registry)"
  by (simp add: registerImplement_def)

text \<open>
  The choice. The candidates are the implementations of the preferred name and then the whole
  registry in its order; the first that is not plainly unavailable decides, by being made or by the
  error of its check, later ones unseen; without one it is an error.
\<close>

theorem findPortForwardingImpl_choice:
  "findPortForwardingImpl registry preference name =
    (case List.find (\<lambda>i. im_Available i \<noteq> Ok False)
        ((if preference = [] then [] else filter (\<lambda>i. im_Name i = preference) registry) @ registry) of
      Some impl \<Rightarrow> (case im_Available impl of
          Err e \<Rightarrow> Err (EWrap (unavailable_msg (im_Name impl)) e)
        | Panic p \<Rightarrow> Panic p
        | Ok _ \<Rightarrow> im_New impl name)
    | None \<Rightarrow> Err (EText ''no underlying port forwarding is available''))"
  by (simp add: findPortForwardingImpl_def find_available_find find_append outcome_def split: option.split)

text \<open>
  Of registered implementations the one with the highest order comes first, whatever the order
  of registration; in particular an available one is chosen before any of lower order.
\<close>

theorem registration_prefers_order:
  assumes "im_Order a < im_Order b" and "im_Available b = Ok True"
  shows "findPortForwardingImpl (registerImplement a (registerImplement b [])) [] name = im_New b name \<and>
    findPortForwardingImpl (registerImplement b (registerImplement a [])) [] name = im_New b name"
  using assms by (simp add: registerImplement_def findPortForwardingImpl_def)

definition demo_impl :: "string \<Rightarrow> int \<Rightarrow> string realImplement" where
  "demo_impl n ord = \<lparr>im_Name = n, im_Available = Ok True, im_New = (\<lambda>nm. Ok (n @ nm)), im_Order = ord\<rparr>"

lemma registration_prefers_order_witness:
  "findPortForwardingImpl (registerImplement (demo_impl ''purego'' 0) (registerImplement (demo_impl ''nftables'' 100) [])) [] ''k'' =
     Ok ''nftablesk''"
  by (subst registration_prefers_order [THEN conjunct1]) (simp_all add: demo_impl_def)

end
