(* ===== verification/Machine.thy ===== *)
theory Machine
  imports Prelude
begin

text \<open>
  Runs of a state machine given by a partial step function, as the user-space proxies are modelled: the
  goroutines take turns in any order, and an event that cannot happen in a state has no step there.
\<close>

inductive runs :: "('e \<Rightarrow> 's \<Rightarrow> 's option) \<Rightarrow> 's \<Rightarrow> 'e list \<Rightarrow> 's \<Rightarrow> bool" for step where
  start: "runs step s [] s"
| next_step: "runs step s evs s' \<Longrightarrow> step ev s' = Some s'' \<Longrightarrow> runs step s (evs @ [ev]) s''"

fun run_events :: "('e \<Rightarrow> 's \<Rightarrow> 's option) \<Rightarrow> 'e list \<Rightarrow> 's \<Rightarrow> 's option" where
  "run_events step [] s = Some s"
| "run_events step (ev # evs) s = (case step ev s of None \<Rightarrow> None | Some s' \<Rightarrow> run_events step evs s')"

lemma run_events_append:
  "run_events step (e1 @ e2) s = (case run_events step e1 s of Some s' \<Rightarrow> run_events step e2 s' | None \<Rightarrow> None)"
  by (induction e1 arbitrary: s) (auto split: option.splits)

text \<open>Running is computing.\<close>

lemma runs_imp_run_events: "runs step s evs s' \<Longrightarrow> run_events step evs s = Some s'"
  by (induction rule: runs.induct) (simp_all add: run_events_append)

lemma runs_trans: "runs step s2 e2 s3 \<Longrightarrow> runs step s1 e1 s2 \<Longrightarrow> runs step s1 (e1 @ e2) s3"
  by (induction rule: runs.induct) (auto intro: runs.next_step simp flip: append_assoc)

lemma runs_one: "step ev s = Some s' \<Longrightarrow> runs step s [ev] s'"
  using runs.next_step [OF runs.start] by fastforce

lemma run_events_imp_runs: "run_events step evs s = Some s' \<Longrightarrow> runs step s evs s'"
proof (induction evs arbitrary: s)
  case (Cons ev evs)
  then obtain s1 where "step ev s = Some s1" "run_events step evs s1 = Some s'"
    by (auto split: option.splits)
  with runs_trans [OF Cons.IH runs_one [of step ev s s1]] show ?case by simp
qed (simp add: runs.start)

lemma runs_iff: "runs step s evs s' \<longleftrightarrow> run_events step evs s = Some s'"
  by (rule iffI [OF runs_imp_run_events run_events_imp_runs])

lemma runs_invariant:
  assumes "runs step s evs s'" "P s" "\<And>ev s s'. ev \<in> set evs \<Longrightarrow> P s \<Longrightarrow> step ev s = Some s' \<Longrightarrow> P s'"
  shows "P s'"
  using assms by (induction rule: runs.induct) auto

text \<open>A machine with an initial state and an invariant of its steps.\<close>

locale machine =
  fixes step :: "'e \<Rightarrow> 's \<Rightarrow> 's option" and init :: 's and inv :: "'s \<Rightarrow> bool"
  assumes inv_init: "inv init" and inv_step: "inv s \<Longrightarrow> step ev s = Some s' \<Longrightarrow> inv s'"
begin

lemma reachable: "runs step init evs s \<Longrightarrow> inv s"
  by (rule runs_invariant [where P = inv]) (auto intro: inv_init inv_step)

text \<open>What the steps keep, given the invariant, holds from any reachable state on.\<close>

lemma stable:
  assumes "runs step init evs s" "runs step s evs' s'" "P s"
    and "\<And>ev s s'. ev \<in> set evs' \<Longrightarrow> inv s \<Longrightarrow> P s \<Longrightarrow> step ev s = Some s' \<Longrightarrow> P s'"
  shows "P s'"
proof -
  have "P s' \<and> inv s'"
    by (rule runs_invariant [where P = "\<lambda>s. P s \<and> inv s", OF assms(2)])
      (use assms(3,4) reachable [OF assms(1)] inv_step in blast)+
  then show ?thesis by blast
qed

end

end
