(* ===== verification/TcpProxy.thy ===== *)
theory TcpProxy
  imports Machine "HOL-Library.Sublist"
begin

text \<open>
  The TCP forwarder of \<open>internal/portforwarding/purego/tcp.go\<close> as a state machine: the goroutine that
  accepts, the one that dispatches, and per connection the dialing and the two copies of \<open>pipe\<close>, whose
  reads go through \<open>ctxReader\<close>. The sockets and the order of the goroutines are left open. Of a copy,
  \<open>cp_read\<close> is what it has read from its source and \<open>cp_written\<close> what it has written to its destination.
\<close>

section \<open>Copying\<close>

text \<open>
  \<open>io.Copy\<close> over a \<open>ctxReader\<close>: the context is looked at before every read, a read that has begun is not
  interrupted by it, and the buffer read is written before the next read. \<open>Copied None\<close>: end of file.
\<close>

datatype copy_phase = Checking | Reading | Writing bytes | Copied "go_error option"

record copy =
  cp_phase :: copy_phase
  cp_read :: bytes
  cp_written :: bytes

definition new_copy :: copy where
  "new_copy = \<lparr>cp_phase = Checking, cp_read = [], cp_written = []\<rparr>"

definition context_canceled :: go_error where
  "context_canceled = ESentinel ''context canceled''"

datatype copy_event = Check | Delivers bytes | ReadEnds "go_error option" | Writes | WriteFails nat go_error

definition ctxReader_Read :: "bool \<Rightarrow> copy_phase" where
  "ctxReader_Read cancelled = (if cancelled then Copied (Some context_canceled) else Reading)"

fun copy_step :: "bool \<Rightarrow> copy_event \<Rightarrow> copy_phase \<Rightarrow> copy \<Rightarrow> copy option" where
  "copy_step cancelled Check Checking c = Some (c\<lparr>cp_phase := ctxReader_Read cancelled\<rparr>)"
| "copy_step cancelled (Delivers buf) Reading c =
     (if buf = [] then None else Some (c\<lparr>cp_phase := Writing buf, cp_read := cp_read c @ buf\<rparr>))"
| "copy_step cancelled (ReadEnds e) Reading c = Some (c\<lparr>cp_phase := Copied e\<rparr>)"
| "copy_step cancelled Writes (Writing buf) c = Some (c\<lparr>cp_phase := Checking, cp_written := cp_written c @ buf\<rparr>)"
| "copy_step cancelled (WriteFails n e) (Writing buf) c =
     (if n \<le> length buf then Some (c\<lparr>cp_phase := Copied (Some e), cp_written := cp_written c @ take n buf\<rparr>) else None)"
| "copy_step cancelled _ _ c = None"

definition ended :: "copy \<Rightarrow> bool" where
  "ended c \<longleftrightarrow> (case cp_phase c of Copied _ \<Rightarrow> True | _ \<Rightarrow> False)"

section \<open>Connections\<close>

text \<open>\<open>pipe\<close> has ended when both its copies have: the group waits for both, whatever they return.\<close>

datatype tcp_conn = Accepted | Dialing | Piping copy copy | Closed

datatype acceptor_phase = Accepting | Handing nat | AcceptorDone

record tcp_proxy =
  tp_listening :: bool
  tp_done :: bool
  tp_acceptor :: acceptor_phase
  tp_dispatcher :: bool
  tp_conns :: "tcp_conn list"

definition forwardTCP :: tcp_proxy where
  "forwardTCP = \<lparr>tp_listening = True, tp_done = False, tp_acceptor = Accepting, tp_dispatcher = True, tp_conns = []\<rparr>"

datatype direction = ToTarget | ToClient

datatype tcp_event =
    Cancelled
  | Accepts | AcceptFails | HandsOver
  | DispatcherExits
  | Dials nat bool
  | Copies nat direction copy_event
  | PipeEnds nat

definition set_conn :: "nat \<Rightarrow> tcp_conn \<Rightarrow> tcp_proxy \<Rightarrow> tcp_proxy" where
  "set_conn i c s = s\<lparr>tp_conns := (tp_conns s)[i := c]\<rparr>"

definition acceptor_step :: "tcp_event \<Rightarrow> tcp_proxy \<Rightarrow> tcp_proxy option" where
  "acceptor_step ev s = (case (tp_acceptor s, ev) of
      (Accepting, Accepts) \<Rightarrow>
        if tp_listening s
        then Some (s\<lparr>tp_acceptor := Handing (length (tp_conns s)), tp_conns := tp_conns s @ [Accepted]\<rparr>) else None
    | (Accepting, AcceptFails) \<Rightarrow> Some (s\<lparr>tp_acceptor := AcceptorDone\<rparr>)
    | (Handing i, HandsOver) \<Rightarrow>
        if tp_dispatcher s then Some ((set_conn i Dialing s)\<lparr>tp_acceptor := Accepting\<rparr>) else None
    | _ \<Rightarrow> None)"

definition dials :: "nat \<Rightarrow> bool \<Rightarrow> tcp_proxy \<Rightarrow> tcp_proxy option" where
  "dials i connected s =
     (if i < length (tp_conns s) \<and> tp_conns s ! i = Dialing
      then Some (set_conn i (if connected then Piping new_copy new_copy else Closed) s) else None)"

definition pipe_step :: "nat \<Rightarrow> direction \<Rightarrow> copy_event \<Rightarrow> tcp_proxy \<Rightarrow> tcp_proxy option" where
  "pipe_step i dir ev s =
     (if i < length (tp_conns s) then
        (case tp_conns s ! i of
           Piping a b \<Rightarrow>
             (case dir of
                ToTarget \<Rightarrow> map_option (\<lambda>a'. set_conn i (Piping a' b) s) (copy_step (tp_done s) ev (cp_phase a) a)
              | ToClient \<Rightarrow> map_option (\<lambda>b'. set_conn i (Piping a b') s) (copy_step (tp_done s) ev (cp_phase b) b))
         | _ \<Rightarrow> None)
      else None)"

definition pipe_ends :: "nat \<Rightarrow> tcp_proxy \<Rightarrow> tcp_proxy option" where
  "pipe_ends i s =
     (if i < length (tp_conns s) then
        (case tp_conns s ! i of
           Piping a b \<Rightarrow> if ended a \<and> ended b then Some (set_conn i Closed s) else None
         | _ \<Rightarrow> None)
      else None)"

fun tcp_step :: "tcp_event \<Rightarrow> tcp_proxy \<Rightarrow> tcp_proxy option" where
  "tcp_step Cancelled s = Some (s\<lparr>tp_done := True\<rparr>)"
| "tcp_step DispatcherExits s =
     (if tp_dispatcher s \<and> tp_done s then Some (s\<lparr>tp_dispatcher := False, tp_listening := False\<rparr>) else None)"
| "tcp_step (Dials i connected) s = dials i connected s"
| "tcp_step (Copies i dir ev) s = pipe_step i dir ev s"
| "tcp_step (PipeEnds i) s = pipe_ends i s"
| "tcp_step ev s = acceptor_step ev s"

abbreviation tcp_runs :: "tcp_proxy \<Rightarrow> tcp_event list \<Rightarrow> tcp_proxy \<Rightarrow> bool" where
  "tcp_runs \<equiv> runs tcp_step"

section \<open>Data is passed on in order\<close>

definition copy_ok :: "copy \<Rightarrow> bool" where
  "copy_ok c \<longleftrightarrow> (case cp_phase c of
      Writing buf \<Rightarrow> cp_read c = cp_written c @ buf
    | Copied (Some e) \<Rightarrow> prefix (cp_written c) (cp_read c)
    | _ \<Rightarrow> cp_read c = cp_written c)"

lemma copy_ok_step:
  "copy_step cancelled ev ph c = Some c' \<Longrightarrow> ph = cp_phase c \<Longrightarrow> copy_ok c \<Longrightarrow> copy_ok c'"
  by (cases ev; cases "cp_phase c") (auto simp: copy_ok_def ctxReader_Read_def take_is_prefix split: if_splits option.splits)

definition conn_ok :: "tcp_conn \<Rightarrow> bool" where
  "conn_ok c \<longleftrightarrow> (case c of Piping a b \<Rightarrow> copy_ok a \<and> copy_ok b | _ \<Rightarrow> True)"

definition tcp_inv :: "tcp_proxy \<Rightarrow> bool" where
  "tcp_inv s \<longleftrightarrow> list_all conn_ok (tp_conns s) \<and> (tp_listening s \<longleftrightarrow> tp_dispatcher s) \<and> (tp_dispatcher s \<or> tp_done s) \<and>
     (case tp_acceptor s of Handing i \<Rightarrow> i < length (tp_conns s) \<and> tp_conns s ! i = Accepted | _ \<Rightarrow> True)"

lemma set_conn_simps [simp]:
  "tp_listening (set_conn i c s) = tp_listening s" "tp_done (set_conn i c s) = tp_done s"
  "tp_acceptor (set_conn i c s) = tp_acceptor s" "tp_dispatcher (set_conn i c s) = tp_dispatcher s"
  "tp_conns (set_conn i c s) = (tp_conns s)[i := c]"
  by (simp_all add: set_conn_def)

lemma nth_list_update_if: "xs[i := c] ! n = (if n = i \<and> i < length xs then c else xs ! n)"
  by (cases "i < length xs") (auto simp: nth_list_update list_update_beyond)

text \<open>A step of a connection that is no longer the acceptor's.\<close>

lemma tcp_inv_set_conn:
  assumes "tcp_inv s" "conn_ok c" "tp_conns s ! i \<noteq> Accepted"
  shows "tcp_inv (set_conn i c s)"
  using assms by (auto simp: tcp_inv_def list_all_length nth_list_update_if split: acceptor_phase.splits)

lemma tcp_inv_acceptor:
  assumes "tcp_inv s" "acceptor_step ev s = Some s'"
  shows "tcp_inv s'"
  using assms by (cases "tp_acceptor s"; cases ev)
    (auto simp: acceptor_step_def tcp_inv_def conn_ok_def list_all_length nth_append nth_list_update less_Suc_eq split: if_splits)

lemma tcp_inv_pipe:
  assumes "tcp_inv s" "pipe_step i dir ev s = Some s'"
  shows "tcp_inv s'"
proof -
  from assms(2) obtain a b where i: "i < length (tp_conns s)" "tp_conns s ! i = Piping a b"
    by (auto simp: pipe_step_def split: if_splits tcp_conn.splits)
  with assms(1) have ok: "copy_ok a" "copy_ok b" by (auto simp: tcp_inv_def list_all_length conn_ok_def split: tcp_conn.splits)
  from assms(2) i obtain c where "s' = set_conn i c s" "conn_ok c"
    by (cases dir) (auto simp: pipe_step_def conn_ok_def ok dest: copy_ok_step)
  with tcp_inv_set_conn [OF assms(1)] i show ?thesis by simp
qed

lemma tcp_inv_step:
  assumes "tcp_inv s" "tcp_step ev s = Some s'"
  shows "tcp_inv s'"
proof (cases ev)
  case (Dials i connected)
  with assms show ?thesis
    by (auto simp: dials_def conn_ok_def copy_ok_def new_copy_def intro!: tcp_inv_set_conn split: if_splits)
next
  case (Copies i dir cev)
  with assms tcp_inv_pipe show ?thesis by simp
next
  case (PipeEnds i)
  with assms show ?thesis
    by (auto simp: pipe_ends_def conn_ok_def intro!: tcp_inv_set_conn split: if_splits tcp_conn.splits)
next
  case Cancelled
  with assms show ?thesis by (auto simp: tcp_inv_def split: acceptor_phase.splits)
next
  case DispatcherExits
  with assms show ?thesis by (auto simp: tcp_inv_def split: acceptor_phase.splits if_splits)
qed (use assms tcp_inv_acceptor in simp_all)

lemma tcp_inv_forwardTCP: "tcp_inv forwardTCP"
  by (simp add: tcp_inv_def forwardTCP_def)

interpretation tcp: machine tcp_step forwardTCP tcp_inv
  by unfold_locales (auto intro: tcp_inv_forwardTCP tcp_inv_step)


section \<open>Cancelling\<close>

text \<open>A property of one connection that its own steps, hand-over apart, keep and no other step touches.\<close>

lemma tcp_step_other:
  assumes "tcp_inv s" "tcp_step ev s = Some s'" "i < length (tp_conns s)" "tp_conns s ! i \<noteq> Accepted"
    and "\<And>dir cev. ev = Copies i dir cev \<Longrightarrow> False" "\<And>b. ev = Dials i b \<Longrightarrow> False" "ev \<noteq> PipeEnds i"
  shows "tp_conns s' ! i = tp_conns s ! i"
  using assms
  by (cases ev; cases "tp_acceptor s")
    (auto simp: acceptor_step_def dials_def pipe_step_def pipe_ends_def nth_append nth_list_update_if tcp_inv_def
      split: if_splits tcp_conn.splits direction.splits)

lemma tcp_step_keeps:
  assumes "tcp_inv s" "tcp_step ev s = Some s'"
  shows "length (tp_conns s) \<le> length (tp_conns s') \<and> (tp_done s \<longrightarrow> tp_done s')"
  using assms by (cases ev; cases "tp_acceptor s")
    (auto simp: acceptor_step_def dials_def pipe_step_def pipe_ends_def split: if_splits tcp_conn.splits direction.splits)

text \<open>A connection that is closed, or whose copies are past any read and have read \<open>ra\<close> and \<open>rb\<close>.\<close>

definition read_no_more :: "nat \<Rightarrow> bytes \<Rightarrow> bytes \<Rightarrow> tcp_proxy \<Rightarrow> bool" where
  "read_no_more i ra rb s \<longleftrightarrow> tp_done s \<and> i < length (tp_conns s) \<and> (case tp_conns s ! i of
      Piping a b \<Rightarrow> cp_phase a \<noteq> Reading \<and> cp_phase b \<noteq> Reading \<and> cp_read a = ra \<and> cp_read b = rb
    | Closed \<Rightarrow> True
    | _ \<Rightarrow> False)"

lemma copy_step_cancelled:
  "copy_step True ev (cp_phase c) c = Some c' \<Longrightarrow> cp_phase c \<noteq> Reading \<Longrightarrow> cp_phase c' \<noteq> Reading \<and> cp_read c' = cp_read c"
  by (cases ev; cases "cp_phase c") (auto simp: ctxReader_Read_def split: if_splits)

lemma read_no_more_step:
  assumes "tcp_inv s" "read_no_more i ra rb s" "tcp_step ev s = Some s'"
  shows "read_no_more i ra rb s'"
proof -
  from assms(2) have i: "i < length (tp_conns s)" "tp_done s" "tp_conns s ! i \<noteq> Accepted" "tp_conns s ! i \<noteq> Dialing"
    by (auto simp: read_no_more_def)
  from tcp_step_keeps [OF assms(1,3)] i have keep: "i < length (tp_conns s')" "tp_done s'" by auto
  show ?thesis
  proof (cases "(\<exists>dir cev. ev = Copies i dir cev) \<or> (\<exists>b. ev = Dials i b) \<or> ev = PipeEnds i")
    case False
    with tcp_step_other [OF assms(1,3) i(1,3)] have "tp_conns s' ! i = tp_conns s ! i" by blast
    with assms(2) keep show ?thesis by (simp add: read_no_more_def)
  next
    case True
    then show ?thesis
    proof (elim disjE exE)
      fix dir cev assume "ev = Copies i dir cev"
      with assms(2,3) keep i show ?thesis
        by (cases dir) (auto simp: pipe_step_def read_no_more_def dest: copy_step_cancelled split: tcp_conn.splits)
    next
      fix b assume "ev = Dials i b"
      with assms(3) i show ?thesis by (simp add: dials_def)
    next
      assume "ev = PipeEnds i"
      with assms(3) keep i show ?thesis by (auto simp: pipe_ends_def read_no_more_def split: tcp_conn.splits if_splits)
    qed
  qed
qed

text \<open>
  After the context is cancelled, a connection with no read in progress reads nothing more: its
  copies can only write what they hold and end.
\<close>

theorem cancelled_reads_no_more:
  assumes "tcp_runs forwardTCP evs s" "tp_done s" "i < length (tp_conns s)" "tp_conns s ! i = Piping a b"
    and "cp_phase a \<noteq> Reading" "cp_phase b \<noteq> Reading" "tcp_runs s evs' s'" "tp_conns s' ! i = Piping a' b'"
  shows "cp_read a' = cp_read a \<and> cp_read b' = cp_read b"
proof -
  have "read_no_more i (cp_read a) (cp_read b) s'"
  proof (rule tcp.stable [OF assms(1,7)])
    show "read_no_more i (cp_read a) (cp_read b) s" using assms(2-6) by (simp add: read_no_more_def)
  qed (rule read_no_more_step)
  with assms(8) show ?thesis by (simp add: read_no_more_def)
qed

section \<open>What keeps a connection open\<close>

definition half_open :: "nat \<Rightarrow> copy \<Rightarrow> tcp_proxy \<Rightarrow> bool" where
  "half_open i b s \<longleftrightarrow> i < length (tp_conns s) \<and> cp_phase b = Reading \<and> (\<exists>a. tp_conns s ! i = Piping a b)"

lemma half_open_step:
  assumes "tcp_inv s" "half_open i b s" "tcp_step ev s = Some s'" "\<And>cev. ev \<noteq> Copies i ToClient cev"
  shows "half_open i b s'"
proof -
  from assms(2) obtain a where i: "i < length (tp_conns s)" "tp_conns s ! i = Piping a b" "cp_phase b = Reading"
    by (auto simp: half_open_def)
  from tcp_step_keeps [OF assms(1,3)] i have keep: "i < length (tp_conns s')" by auto
  show ?thesis
  proof (cases "(\<exists>cev. ev = Copies i ToTarget cev) \<or> (\<exists>b. ev = Dials i b) \<or> ev = PipeEnds i")
    case False
    with assms(4) have "\<And>dir cev. ev \<noteq> Copies i dir cev" by (metis direction.exhaust)
    moreover have "tp_conns s ! i \<noteq> Accepted" using i by simp
    ultimately have "tp_conns s' ! i = tp_conns s ! i" using False tcp_step_other [OF assms(1,3) i(1)] by blast
    with i keep show ?thesis by (simp add: half_open_def)
  next
    case True
    with assms(3) i keep show ?thesis
      by (auto simp: pipe_step_def dials_def pipe_ends_def half_open_def ended_def)
  qed
qed


text \<open>
  A connection accepted but not handed over when the dispatcher has gone is never closed: the
  acceptor stays blocked on the channel \<open>incoming\<close> for ever.
\<close>

theorem unhanded_connection_leaks:
  assumes "tcp_runs forwardTCP evs s" "tp_acceptor s = Handing i" "\<not> tp_dispatcher s" "tcp_runs s evs' s'"
  shows "tp_acceptor s' = Handing i \<and> tp_conns s' ! i = Accepted"
proof -
  have "tp_acceptor s' = Handing i \<and> \<not> tp_dispatcher s'"
  proof (rule tcp.stable [OF assms(1,4)])
    show "tp_acceptor s = Handing i \<and> \<not> tp_dispatcher s" using assms by simp
  next
    fix ev t t' assume "tcp_inv t" "tp_acceptor t = Handing i \<and> \<not> tp_dispatcher t" "tcp_step ev t = Some t'"
    then show "tp_acceptor t' = Handing i \<and> \<not> tp_dispatcher t'"
      by (cases ev) (auto simp: acceptor_step_def dials_def pipe_step_def pipe_ends_def
          split: if_splits tcp_conn.splits direction.splits)
  qed
  moreover have "tcp_inv s'" by (rule tcp.reachable [OF runs_trans [OF assms(4,1)]])
  ultimately show ?thesis by (simp add: tcp_inv_def)
qed

section \<open>Examples\<close>

text \<open>A request passes, its answer is read, the client goes; then the context is cancelled.\<close>

definition request_run :: "tcp_event list" where
  "request_run = [Accepts, HandsOver, Dials 0 True, Copies 0 ToTarget Check, Copies 0 ToClient Check,
     Copies 0 ToTarget (Delivers [1, 2]), Copies 0 ToTarget Writes, Copies 0 ToTarget Check, Copies 0 ToTarget (ReadEnds None)]"

definition request_state :: tcp_proxy where
  "request_state = \<lparr>tp_listening = True, tp_done = False, tp_acceptor = Accepting, tp_dispatcher = True,
     tp_conns = [Piping \<lparr>cp_phase = Copied None, cp_read = [1, 2], cp_written = [1, 2]\<rparr>
       \<lparr>cp_phase = Reading, cp_read = [], cp_written = []\<rparr>]\<rparr>"

lemma request_run_runs: "tcp_runs forwardTCP request_run request_state"
  by (simp add: runs_iff request_run_def request_state_def forwardTCP_def acceptor_step_def dials_def pipe_step_def set_conn_def
      new_copy_def ctxReader_Read_def)



definition stopping_run :: "tcp_event list" where
  "stopping_run = [Accepts, HandsOver, Dials 0 True, Cancelled]"

definition stopping_state :: tcp_proxy where
  "stopping_state = \<lparr>tp_listening = True, tp_done = True, tp_acceptor = Accepting, tp_dispatcher = True,
     tp_conns = [Piping new_copy new_copy]\<rparr>"

lemma stopping_run_runs: "tcp_runs forwardTCP stopping_run stopping_state"
  by (simp add: runs_iff stopping_run_def stopping_state_def forwardTCP_def acceptor_step_def dials_def set_conn_def)

definition stopped_state :: tcp_proxy where
  "stopped_state = stopping_state\<lparr>tp_conns := [Piping (new_copy\<lparr>cp_phase := Copied (Some context_canceled)\<rparr>) new_copy]\<rparr>"

theorem cancelled_reads_no_more_witness:
  "cp_read (new_copy\<lparr>cp_phase := Copied (Some context_canceled)\<rparr>) = cp_read new_copy"
proof -
  have "tcp_runs stopping_state [Copies 0 ToTarget Check] stopped_state"
    by (rule runs_one) (simp add: pipe_step_def stopping_state_def stopped_state_def set_conn_def new_copy_def ctxReader_Read_def)
  from cancelled_reads_no_more [OF stopping_run_runs _ _ _ _ _ this, of 0] show ?thesis
    by (simp add: stopping_state_def stopped_state_def new_copy_def)
qed

definition leaking_run :: "tcp_event list" where
  "leaking_run = [Accepts, Cancelled, DispatcherExits]"

definition leaking_state :: tcp_proxy where
  "leaking_state = \<lparr>tp_listening = False, tp_done = True, tp_acceptor = Handing 0, tp_dispatcher = False, tp_conns = [Accepted]\<rparr>"

lemma leaking_run_runs: "tcp_runs forwardTCP leaking_run leaking_state"
  by (simp add: runs_iff leaking_run_def leaking_state_def forwardTCP_def acceptor_step_def)

theorem unhanded_connection_leaks_witness:
  "tp_conns leaking_state ! 0 = Accepted"
  using unhanded_connection_leaks [OF leaking_run_runs _ _ runs.start, of 0] by (simp add: leaking_state_def)

end
