(* ===== verification/UdpProxy.thy ===== *)
theory UdpProxy
  imports Machine "HOL-Library.Sublist"
begin

text \<open>
  The UDP forwarder of \<open>internal/portforwarding/purego/udp.go\<close> as a state machine: the goroutines of
  \<open>forwardUDP\<close> (writer, reader, cleaner), the goroutine of each session, the channels between them with
  their capacities, and the cancellations. A session is a pointer: the map of the sessions and its
  goroutine share it. Every step is one iteration, or one branch, of a goroutine's loop; which step
  comes next, what the sockets deliver and what the clock shows is left open. Times are nanoseconds.
\<close>

section \<open>State\<close>

datatype session_phase = Spawned | Serving | Finished

record udpSession =
  us_src :: string
  us_data :: "bytes list"
  us_lastActive :: int
  us_cancelable :: bool  \<comment> \<open>\<open>cancel\<close> has been set\<close>
  us_cancelled :: bool
  us_phase :: session_phase

datatype reader_phase = RChecking | RReading | RSending nat bytes | RDone

record udp_proxy =
  up_sessions :: "udpSession list"  \<comment> \<open>all that were made; a pointer is an index\<close>
  up_m :: "string \<rightharpoonup> nat"
  up_queue :: "(string \<times> bytes) list"
  up_queue_open :: bool
  up_done :: bool  \<comment> \<open>the context is cancelled\<close>
  up_returned :: bool  \<comment> \<open>\<open>forwardUDP\<close> has returned\<close>
  up_reader :: reader_phase
  up_cleaner :: bool
  up_received :: "(string \<times> bytes) list"
  up_to_target :: "(nat \<times> bytes) list"
  up_to_client :: "(string \<times> bytes) list"

definition forwardUDP :: udp_proxy where
  "forwardUDP = \<lparr>up_sessions = [], up_m = Map.empty, up_queue = [], up_queue_open = True, up_done = False,
     up_returned = False, up_reader = RChecking, up_cleaner = True, up_received = [], up_to_target = [], up_to_client = []\<rparr>"

definition writeQueue_capacity :: nat where "writeQueue_capacity = 256"
definition data_capacity :: nat where "data_capacity = 32"
definition idle_limit :: int where "idle_limit = 5 * 60 * 1000000000"

section \<open>The session table\<close>

definition set_session :: "nat \<Rightarrow> (udpSession \<Rightarrow> udpSession) \<Rightarrow> udp_proxy \<Rightarrow> udp_proxy" where
  "set_session i f s = s\<lparr>up_sessions := (up_sessions s)[i := f (up_sessions s ! i)]\<rparr>"

definition addIfAbsent :: "string \<Rightarrow> int \<Rightarrow> udp_proxy \<Rightarrow> nat \<times> udp_proxy" where
  "addIfAbsent src now s = (case up_m s src of
      Some i \<Rightarrow> (i, s)
    | None \<Rightarrow>
        (let i = length (up_sessions s);
             us = \<lparr>us_src = src, us_data = [], us_lastActive = now, us_cancelable = False, us_cancelled = False,
                   us_phase = Spawned\<rparr> in
         (i, s\<lparr>up_sessions := up_sessions s @ [us], up_m := (up_m s)(src \<mapsto> i)\<rparr>)))"

text \<open>\<open>stop\<close>: cancels what is in the map and has its \<open>cancel\<close> set.\<close>

definition stop :: "udp_proxy \<Rightarrow> udp_proxy" where
  "stop s = s\<lparr>up_sessions := map (\<lambda>(i, us). if i \<in> ran (up_m s) \<and> us_cancelable us then us\<lparr>us_cancelled := True\<rparr> else us)
     (List.enumerate 0 (up_sessions s))\<rparr>"

definition clean :: "int \<Rightarrow> udp_proxy \<Rightarrow> udp_proxy" where
  "clean now s = s\<lparr>up_m := (\<lambda>k. case up_m s k of
      None \<Rightarrow> None
    | Some i \<Rightarrow> if now - us_lastActive (up_sessions s ! i) > idle_limit then None else Some i)\<rparr>"

section \<open>Steps\<close>

datatype udp_event =
    ContextDone | ForwardReturns
  | WriterWrites bool  \<comment> \<open>whether writing to the client succeeds\<close>
  | WriterExits
  | ReaderChecks | ReaderTimesOut | ReaderFails | Datagram string bytes int | ReaderSends | ReaderAborts
  | CleanerTicks int | CleanerExits
  | SessionStarts nat bool  \<comment> \<open>whether dialing succeeds\<close>
  | SessionSends nat bool int  \<comment> \<open>whether writing to the target succeeds, the clock\<close>
  | SessionExits nat
  | Response nat bytes int

text \<open>
  \<open>None\<close>: the step cannot be taken in this state. The reader closes the connection when it returns, so
  nothing is written to a client after that; a read that fails for another reason than its deadline
  returns no address, and the log line that follows calls a method of it.
\<close>

definition writer_writes :: "bool \<Rightarrow> udp_proxy \<Rightarrow> (unit result \<times> udp_proxy) option" where
  "writer_writes written s = (if \<not> up_queue_open s \<or> written \<and> up_reader s = RDone then None else case up_queue s of
      [] \<Rightarrow> None
    | msg # q \<Rightarrow> Some (Ok (), s\<lparr>up_queue := q, up_to_client := up_to_client s @ (if written then [msg] else [])\<rparr>))"

definition writer_exits :: "udp_proxy \<Rightarrow> (unit result \<times> udp_proxy) option" where
  "writer_exits s = (if up_done s \<and> up_queue_open s then Some (Ok (), s\<lparr>up_queue_open := False\<rparr>) else None)"

definition reader_step :: "udp_event \<Rightarrow> udp_proxy \<Rightarrow> (unit result \<times> udp_proxy) option" where
  "reader_step ev s = (case (up_reader s, ev) of
      (RChecking, ReaderChecks) \<Rightarrow> Some (Ok (), s\<lparr>up_reader := if up_done s then RDone else RReading\<rparr>)
    | (RChecking, ReaderFails) \<Rightarrow> if up_done s then None else Some (Ok (), s\<lparr>up_reader := RDone\<rparr>)
    | (RReading, ReaderTimesOut) \<Rightarrow> Some (Ok (), s\<lparr>up_reader := RChecking\<rparr>)
    | (RReading, ReaderFails) \<Rightarrow> Some (Panic NilDereference, s)
    | (RReading, Datagram src buf now) \<Rightarrow>
        (let (i, s') = addIfAbsent src now s in
         Some (Ok (), s'\<lparr>up_reader := RSending i buf, up_received := up_received s' @ [(src, buf)]\<rparr>))
    | (RSending i buf, ReaderSends) \<Rightarrow>
        if length (us_data (up_sessions s ! i)) < data_capacity
        then Some (Ok (), (set_session i (\<lambda>us. us\<lparr>us_data := us_data us @ [buf]\<rparr>) s)\<lparr>up_reader := RChecking\<rparr>)
        else None
    | (RSending i buf, ReaderAborts) \<Rightarrow> if up_done s then Some (Ok (), s\<lparr>up_reader := RDone\<rparr>) else None
    | _ \<Rightarrow> None)"

definition session_starts :: "nat \<Rightarrow> bool \<Rightarrow> udp_proxy \<Rightarrow> (unit result \<times> udp_proxy) option" where
  "session_starts i dialed s =
     (if i < length (up_sessions s) \<and> us_phase (up_sessions s ! i) = Spawned
      then Some (Ok (), set_session i (\<lambda>us. us\<lparr>us_cancelable := True, us_phase := if dialed then Serving else Finished\<rparr>) s)
      else None)"

definition session_sends :: "nat \<Rightarrow> bool \<Rightarrow> int \<Rightarrow> udp_proxy \<Rightarrow> (unit result \<times> udp_proxy) option" where
  "session_sends i written now s =
     (if i < length (up_sessions s) \<and> us_phase (up_sessions s ! i) = Serving then
        (case us_data (up_sessions s ! i) of
           [] \<Rightarrow> None
         | buf # rest \<Rightarrow>
             if written then Some (Ok (), (set_session i (\<lambda>us. us\<lparr>us_data := rest, us_lastActive := now\<rparr>) s)
               \<lparr>up_to_target := up_to_target s @ [(i, buf)]\<rparr>)
             else Some (Ok (), set_session i (\<lambda>us. us\<lparr>us_data := rest\<rparr>) s))
      else None)"

definition session_exits :: "nat \<Rightarrow> udp_proxy \<Rightarrow> (unit result \<times> udp_proxy) option" where
  "session_exits i s =
     (if i < length (up_sessions s) \<and> us_phase (up_sessions s ! i) = Serving \<and> us_cancelled (up_sessions s ! i)
      then Some (Ok (), set_session i (\<lambda>us. us\<lparr>us_phase := Finished\<rparr>) s) else None)"

text \<open>A response read from the target: sending on a closed channel panics.\<close>

definition send_on_closed :: panic where
  "send_on_closed = ExplicitPanic ''send on closed channel''"

definition response :: "nat \<Rightarrow> bytes \<Rightarrow> int \<Rightarrow> udp_proxy \<Rightarrow> (unit result \<times> udp_proxy) option" where
  "response i buf now s =
     (if i < length (up_sessions s) \<and> us_phase (up_sessions s ! i) = Serving then
        (if \<not> up_queue_open s then Some (Panic send_on_closed, s)
         else if length (up_queue s) < writeQueue_capacity
         then Some (Ok (), (set_session i (\<lambda>us. us\<lparr>us_lastActive := now\<rparr>) s)
           \<lparr>up_queue := up_queue s @ [(us_src (up_sessions s ! i), buf)]\<rparr>)
         else None)
      else None)"

fun udp_step :: "udp_event \<Rightarrow> udp_proxy \<Rightarrow> (unit result \<times> udp_proxy) option" where
  "udp_step ContextDone s = Some (Ok (), s\<lparr>up_done := True\<rparr>)"
| "udp_step ForwardReturns s = (if up_returned s then None else Some (Ok (), (stop s)\<lparr>up_returned := True\<rparr>))"
| "udp_step (WriterWrites written) s = writer_writes written s"
| "udp_step WriterExits s = writer_exits s"
| "udp_step (CleanerTicks now) s = (if up_cleaner s then Some (Ok (), clean now s) else None)"
| "udp_step CleanerExits s = (if up_cleaner s \<and> up_done s then Some (Ok (), s\<lparr>up_cleaner := False\<rparr>) else None)"
| "udp_step (SessionStarts i dialed) s = session_starts i dialed s"
| "udp_step (SessionSends i written now) s = session_sends i written now s"
| "udp_step (SessionExits i) s = session_exits i s"
| "udp_step (Response i buf now) s = response i buf now s"
| "udp_step ev s = reader_step ev s"

text \<open>The states a run reaches; a panic ends the process and is no state of a run.\<close>

definition udp_next :: "udp_event \<Rightarrow> udp_proxy \<Rightarrow> udp_proxy option" where
  "udp_next ev s = (case udp_step ev s of Some (Ok _, s') \<Rightarrow> Some s' | _ \<Rightarrow> None)"

abbreviation udp_runs :: "udp_proxy \<Rightarrow> udp_event list \<Rightarrow> udp_proxy \<Rightarrow> bool" where
  "udp_runs \<equiv> runs udp_next"

lemma udp_next_Some: "udp_next ev s = Some s' \<longleftrightarrow> udp_step ev s = Some (Ok (), s')"
  by (auto simp: udp_next_def split: option.splits prod.splits result.splits)

section \<open>The invariant\<close>

text \<open>What the goroutine of session \<open>i\<close> has written to its target, has in its channel, or is about to get.\<close>

definition carried :: "udp_proxy \<Rightarrow> nat \<Rightarrow> bytes list" where
  "carried s i = map snd (filter (\<lambda>x. fst x = i) (up_to_target s)) @ us_data (up_sessions s ! i) @
     (case up_reader s of RSending j buf \<Rightarrow> if j = i then [buf] else [] | _ \<Rightarrow> [])"

definition received_from :: "string \<Rightarrow> udp_proxy \<Rightarrow> bytes list" where
  "received_from src s = map snd (filter (\<lambda>x. fst x = src) (up_received s))"

definition udp_inv :: "udp_proxy \<Rightarrow> bool" where
  "udp_inv s \<longleftrightarrow>
     (\<forall>src i. up_m s src = Some i \<longrightarrow> i < length (up_sessions s) \<and> us_src (up_sessions s ! i) = src) \<and>
     (\<forall>i buf. up_reader s = RSending i buf \<longrightarrow> i < length (up_sessions s)) \<and>
     (\<forall>x \<in> set (up_to_target s). fst x < length (up_sessions s)) \<and>
     (\<forall>i < length (up_sessions s). subseq (carried s i) (received_from (us_src (up_sessions s ! i)) s)) \<and>
     (\<forall>i < length (up_sessions s). length (us_data (up_sessions s ! i)) \<le> data_capacity) \<and>
     (\<forall>i < length (up_sessions s). us_src (up_sessions s ! i) \<in> fst ` set (up_received s)) \<and>
     (\<forall>x \<in> set (up_queue s) \<union> set (up_to_client s). fst x \<in> fst ` set (up_received s)) \<and>
     length (up_queue s) \<le> writeQueue_capacity \<and> (up_queue_open s \<or> up_done s)"

lemma udp_inv_forwardUDP: "udp_inv forwardUDP"
  by (simp add: udp_inv_def forwardUDP_def)

lemma set_session_simps [simp]:
  "length (up_sessions (set_session i f s)) = length (up_sessions s)"
  "up_m (set_session i f s) = up_m s" "up_queue (set_session i f s) = up_queue s"
  "up_queue_open (set_session i f s) = up_queue_open s" "up_done (set_session i f s) = up_done s"
  "up_returned (set_session i f s) = up_returned s" "up_reader (set_session i f s) = up_reader s"
  "up_cleaner (set_session i f s) = up_cleaner s" "up_received (set_session i f s) = up_received s"
  "up_to_target (set_session i f s) = up_to_target s" "up_to_client (set_session i f s) = up_to_client s"
  by (simp_all add: set_session_def)

lemma set_session_nth: "i < length (up_sessions s) \<Longrightarrow>
    up_sessions (set_session i f s) ! j = (if j = i then f (up_sessions s ! i) else up_sessions s ! j)"
  by (simp add: set_session_def nth_list_update)

lemma stop_simps [simp]:
  "length (up_sessions (stop s)) = length (up_sessions s)"
  "up_m (stop s) = up_m s" "up_queue (stop s) = up_queue s" "up_queue_open (stop s) = up_queue_open s"
  "up_done (stop s) = up_done s" "up_reader (stop s) = up_reader s" "up_received (stop s) = up_received s"
  "up_to_target (stop s) = up_to_target s" "up_to_client (stop s) = up_to_client s"
  by (simp_all add: stop_def)

lemma stop_nth: "i < length (up_sessions s) \<Longrightarrow>
    us_src (up_sessions (stop s) ! i) = us_src (up_sessions s ! i) \<and> us_data (up_sessions (stop s) ! i) = us_data (up_sessions s ! i)"
  by (simp add: stop_def nth_enumerate_eq)

lemma inv_datagram:
  assumes "udp_inv s" "up_reader s = RReading" "addIfAbsent src now s = (i, s1)"
  shows "udp_inv (s1\<lparr>up_reader := RSending i buf, up_received := up_received s1 @ [(src, buf)]\<rparr>)"
proof (cases "up_m s src")
  case (Some j)
  then have ij: "i = j" "s1 = s" using assms(3) by (auto simp: addIfAbsent_def)
  with assms(1) Some have j: "j < length (up_sessions s)" "us_src (up_sessions s ! j) = src" by (auto simp: udp_inv_def)
  have "subseq (carried (s\<lparr>up_reader := RSending j buf, up_received := up_received s @ [(src, buf)]\<rparr>) k)
      (received_from (us_src (up_sessions s ! k)) (s\<lparr>up_reader := RSending j buf, up_received := up_received s @ [(src, buf)]\<rparr>))"
    if "k < length (up_sessions s)" for k
  proof -
    from assms(1) that have "subseq (carried s k) (received_from (us_src (up_sessions s ! k)) s)" by (simp add: udp_inv_def)
    then show ?thesis using j assms(2)
      by (cases "k = j") (auto simp: carried_def received_from_def list_emb_append_mono subseq_append' intro: list_emb_append2
          simp flip: append_assoc)
  qed
  with assms(1) j show ?thesis unfolding ij by (auto simp: udp_inv_def)
next
  case None
  let ?n = "length (up_sessions s)"
  let ?us = "\<lparr>us_src = src, us_data = [], us_lastActive = now, us_cancelable = False, us_cancelled = False, us_phase = Spawned\<rparr>"
  have i: "i = ?n" "s1 = s\<lparr>up_sessions := up_sessions s @ [?us], up_m := (up_m s)(src \<mapsto> ?n)\<rparr>"
    using None assms(3) by (auto simp: addIfAbsent_def Let_def)
  define s2 where "s2 = s1\<lparr>up_reader := RSending i buf, up_received := up_received s1 @ [(src, buf)]\<rparr>"
  have old: "subseq (carried s2 k) (received_from (us_src (up_sessions s ! k)) s2)" if k: "k < ?n" for k
  proof -
    from assms(1) k have "subseq (carried s k) (received_from (us_src (up_sessions s ! k)) s)" by (simp add: udp_inv_def)
    moreover have "carried s2 k = carried s k"
      using k assms(2) by (simp add: s2_def i carried_def nth_append)
    moreover have "subseq (received_from x s) (received_from x s2)" for x
      by (simp add: s2_def i received_from_def subseq_rev_drop_many)
    ultimately show ?thesis by (metis subseq_order.trans)
  qed
  have "filter (\<lambda>x. fst x = ?n) (up_to_target s) = []"
    using assms(1) by (auto simp: udp_inv_def filter_empty_conv)
  then have new: "subseq (carried s2 ?n) (received_from src s2)"
    by (simp add: s2_def i carried_def received_from_def nth_append list_emb_append2)
  from assms(1) old new show ?thesis
    unfolding s2_def [symmetric]
    by (auto simp: udp_inv_def s2_def i nth_append less_Suc_eq)
qed

text \<open>Steps that leave the sessions' sources and data alone, and carry no more than before.\<close>

lemma inv_weaken:
  assumes "udp_inv s" "length (up_sessions s') = length (up_sessions s)"
    and "\<And>i. i < length (up_sessions s) \<Longrightarrow> us_src (up_sessions s' ! i) = us_src (up_sessions s ! i)"
    and "\<And>i. i < length (up_sessions s) \<Longrightarrow> subseq (carried s' i) (carried s i)"
    and "\<And>i. i < length (up_sessions s) \<Longrightarrow> length (us_data (up_sessions s' ! i)) \<le> data_capacity"
    and "\<And>src i. up_m s' src = Some i \<Longrightarrow> up_m s src = Some i"
    and "\<And>i buf. up_reader s' = RSending i buf \<Longrightarrow> i < length (up_sessions s)"
    and "\<And>x. x \<in> set (up_to_target s') \<Longrightarrow> fst x < length (up_sessions s)"
    and "up_received s' = up_received s"
    and "\<And>x. x \<in> set (up_queue s') \<union> set (up_to_client s') \<Longrightarrow> fst x \<in> fst ` set (up_received s)"
    and "length (up_queue s') \<le> writeQueue_capacity" "up_queue_open s' \<or> up_done s'"
  shows "udp_inv s'"
proof -
  note inv = assms(1) [unfolded udp_inv_def]
  have rec: "received_from x s' = received_from x s" for x by (simp add: received_from_def assms(9))
  have carry: "subseq (carried s' i) (received_from (us_src (up_sessions s' ! i)) s')" if i: "i < length (up_sessions s')" for i
  proof -
    from i assms(2) have i': "i < length (up_sessions s)" by simp
    with inv have "subseq (carried s i) (received_from (us_src (up_sessions s ! i)) s)" by blast
    from subseq_order.trans [OF assms(4) [OF i'] this] show ?thesis by (simp only: rec assms(3) [OF i'])
  qed
  show ?thesis
    unfolding udp_inv_def
  proof (intro conjI)
    show "\<forall>src i. up_m s' src = Some i \<longrightarrow> i < length (up_sessions s') \<and> us_src (up_sessions s' ! i) = src"
    proof (intro allI impI)
      fix src i assume "up_m s' src = Some i"
      from assms(6) [OF this] inv have "i < length (up_sessions s)" "us_src (up_sessions s ! i) = src" by blast+
      then show "i < length (up_sessions s') \<and> us_src (up_sessions s' ! i) = src" by (simp add: assms(2,3))
    qed
    show "\<forall>i < length (up_sessions s'). us_src (up_sessions s' ! i) \<in> fst ` set (up_received s')"
      using inv by (simp add: assms(2,3,9))
  qed (use assms carry in \<open>auto\<close>)
qed

lemma inv_reader_moves:
  assumes "udp_inv s" "\<And>i buf. r \<noteq> RSending i buf"
  shows "udp_inv (s\<lparr>up_reader := r\<rparr>)"
proof (rule inv_weaken [OF assms(1)])
  fix i
  let ?A = "map snd (filter (\<lambda>x. fst x = i) (up_to_target s)) @ us_data (up_sessions s ! i)"
  have "carried (s\<lparr>up_reader := r\<rparr>) i = ?A" using assms(2) by (auto simp: carried_def split: reader_phase.split)
  moreover obtain R where "carried s i = ?A @ R" by (simp add: carried_def)
  ultimately show "subseq (carried (s\<lparr>up_reader := r\<rparr>) i) (carried s i)" by (simp only: subseq_rev_drop_many subseq_order.refl)
qed (use assms in \<open>auto simp: udp_inv_def\<close>)

lemma inv_reader:
  assumes "udp_inv s" "reader_step ev s = Some (Ok (), s')"
  shows "udp_inv s'"
proof (cases "up_reader s")
  case (RSending i buf)
  from assms(1) RSending have i: "i < length (up_sessions s)" by (simp add: udp_inv_def)
  show ?thesis
  proof (cases "ev = ReaderSends")
    case True
    with assms(2) RSending have s': "s' = (set_session i (\<lambda>us. us\<lparr>us_data := us_data us @ [buf]\<rparr>) s)\<lparr>up_reader := RChecking\<rparr>"
      and room: "length (us_data (up_sessions s ! i)) < data_capacity"
      by (auto simp: reader_step_def split: if_splits)
    show ?thesis
      by (rule inv_weaken [OF assms(1)])
        (use assms(1) RSending i room in \<open>auto simp: s' set_session_nth carried_def udp_inv_def\<close>)
  next
    case False
    with assms(2) RSending have s': "s' = s\<lparr>up_reader := RDone\<rparr>"
      by (auto simp: reader_step_def split: if_splits udp_event.splits)
    show ?thesis unfolding s' by (rule inv_reader_moves [OF assms(1)]) simp
  qed
next
  case RReading
  show ?thesis
  proof (cases ev)
    case (Datagram src buf now)
    obtain i s1 where "addIfAbsent src now s = (i, s1)" by fastforce
    with inv_datagram [OF assms(1) RReading this, of buf] assms(2) RReading Datagram show ?thesis
      by (simp add: reader_step_def)
  qed (use assms RReading in \<open>auto simp: reader_step_def intro: inv_reader_moves\<close>)
next
  case RChecking
  with assms show ?thesis by (auto simp: reader_step_def intro: inv_reader_moves split: udp_event.splits if_splits)
next
  case RDone
  with assms show ?thesis by (simp add: reader_step_def)
qed

lemma inv_step:
  assumes inv: "udp_inv s" and step: "udp_step ev s = Some (Ok (), s')"
  shows "udp_inv s'"
proof (cases ev)
  case ForwardReturns
  with step have s': "s' = (stop s)\<lparr>up_returned := True\<rparr>" by (auto split: if_splits)
  show ?thesis
    by (rule inv_weaken [OF inv]) (use inv in \<open>auto simp: s' stop_nth carried_def udp_inv_def\<close>)
next
  case (WriterWrites written)
  with step obtain m q where q: "up_queue s = m # q"
    and s': "s' = s\<lparr>up_queue := q, up_to_client := up_to_client s @ (if written then [m] else [])\<rparr>"
    by (auto simp: writer_writes_def split: if_splits list.splits)
  show ?thesis
    by (rule inv_weaken [OF inv]) (use inv q in \<open>auto simp: s' carried_def udp_inv_def\<close>)
next
  case (CleanerTicks now)
  with step have s': "s' = clean now s" by (auto split: if_splits)
  show ?thesis
    by (rule inv_weaken [OF inv]) (use inv in \<open>auto simp: s' clean_def carried_def udp_inv_def split: option.splits if_splits\<close>)
next
  case (SessionStarts i dialed)
  with step have i: "i < length (up_sessions s)"
    and s': "s' = set_session i (\<lambda>us. us\<lparr>us_cancelable := True, us_phase := if dialed then Serving else Finished\<rparr>) s"
    by (auto simp: session_starts_def split: if_splits)
  show ?thesis
    by (rule inv_weaken [OF inv]) (use inv i in \<open>auto simp: s' set_session_nth carried_def udp_inv_def\<close>)
next
  case (SessionSends i written now)
  with step obtain buf rest where i: "i < length (up_sessions s)" "us_data (up_sessions s ! i) = buf # rest"
    and s': "s' = (if written then (set_session i (\<lambda>us. us\<lparr>us_data := rest, us_lastActive := now\<rparr>) s)
               \<lparr>up_to_target := up_to_target s @ [(i, buf)]\<rparr> else set_session i (\<lambda>us. us\<lparr>us_data := rest\<rparr>) s)"
    by (auto simp: session_sends_def split: if_splits list.splits)
  have cap: "length (us_data (up_sessions s ! i)) \<le> data_capacity" using inv i(1) by (simp add: udp_inv_def)
  have carry: "subseq (carried s' j) (carried s j)" for j
  proof (cases "j = i \<and> \<not> written")
    case True
    define A where "A = map snd (filter (\<lambda>x. fst x = i) (up_to_target s))"
    define R where "R = (case up_reader s of RSending j buf \<Rightarrow> if j = i then [buf] else [] | _ \<Rightarrow> [])"
    have "carried s' j = A @ rest @ R" "carried s j = A @ (buf # rest) @ R"
      using True i by (simp_all add: s' carried_def set_session_nth A_def R_def)
    moreover have "subseq (rest @ R) (buf # rest @ R)" by (rule list_emb_Cons) simp
    ultimately show ?thesis by (simp only: append_Cons subseq_append')
  next
    case False
    then have "carried s' j = carried s j" using i by (auto simp: s' carried_def set_session_nth)
    then show ?thesis by simp
  qed
  show ?thesis
    by (rule inv_weaken [OF inv])
      (use inv i cap carry in \<open>auto simp: s' set_session_nth udp_inv_def split: if_splits\<close>)
next
  case (SessionExits i)
  with step have i: "i < length (up_sessions s)" and s': "s' = set_session i (\<lambda>us. us\<lparr>us_phase := Finished\<rparr>) s"
    by (auto simp: session_exits_def split: if_splits)
  show ?thesis
    by (rule inv_weaken [OF inv]) (use inv i in \<open>auto simp: s' set_session_nth carried_def udp_inv_def\<close>)
next
  case (Response i buf now)
  with step have i: "i < length (up_sessions s)" "length (up_queue s) < writeQueue_capacity" "up_queue_open s"
    and s': "s' = (set_session i (\<lambda>us. us\<lparr>us_lastActive := now\<rparr>) s)
           \<lparr>up_queue := up_queue s @ [(us_src (up_sessions s ! i), buf)]\<rparr>"
    by (auto simp: response_def split: if_splits)
  show ?thesis
    by (rule inv_weaken [OF inv]) (use inv i in \<open>auto simp: s' set_session_nth carried_def udp_inv_def\<close>)
next
  case ContextDone
  with step have s': "s' = s\<lparr>up_done := True\<rparr>" by simp
  show ?thesis by (rule inv_weaken [OF inv]) (use inv in \<open>auto simp: s' carried_def udp_inv_def\<close>)
next
  case WriterExits
  with step have s': "s' = s\<lparr>up_queue_open := False\<rparr>" and ended: "up_done s" by (auto simp: writer_exits_def split: if_splits)
  show ?thesis by (rule inv_weaken [OF inv]) (use inv ended in \<open>auto simp: s' carried_def udp_inv_def\<close>)
next
  case CleanerExits
  with step have s': "s' = s\<lparr>up_cleaner := False\<rparr>" by (auto split: if_splits)
  show ?thesis by (rule inv_weaken [OF inv]) (use inv in \<open>auto simp: s' carried_def udp_inv_def\<close>)
qed (use inv_reader [OF inv, of ev] step in simp_all)

section \<open>What the forwarder guarantees\<close>

interpretation udp: machine udp_next forwardUDP udp_inv
  by unfold_locales (auto intro: udp_inv_forwardUDP inv_step simp: udp_next_Some)

text \<open>
  C24: In every reachable state, what a session has written to its target and still holds is a
  subsequence (in order, nothing made up, nothing from another client) of what its client sent, the
  channels stay within their capacities, and every response goes to a client that sent a datagram.
\<close>

theorem udp_sessions_carry:
  assumes "udp_runs forwardUDP evs s" "i < length (up_sessions s)"
  shows "subseq (map snd (filter (\<lambda>x. fst x = i) (up_to_target s)) @ us_data (up_sessions s ! i))
        (received_from (us_src (up_sessions s ! i)) s) \<and>
      length (us_data (up_sessions s ! i)) \<le> data_capacity \<and> length (up_queue s) \<le> writeQueue_capacity \<and>
      fst ` set (up_queue s @ up_to_client s) \<subseteq> fst ` set (up_received s)"
proof -
  from udp.reachable [OF assms(1)] have inv: "udp_inv s" .
  with assms(2) have "subseq (carried s i) (received_from (us_src (up_sessions s ! i)) s)" by (simp add: udp_inv_def)
  moreover obtain R where "carried s i = (map snd (filter (\<lambda>x. fst x = i) (up_to_target s)) @ us_data (up_sessions s ! i)) @ R"
    by (simp add: carried_def)
  ultimately have "subseq (map snd (filter (\<lambda>x. fst x = i) (up_to_target s)) @ us_data (up_sessions s ! i))
      (received_from (us_src (up_sessions s ! i)) s)"
    by (metis subseq_order.trans subseq_rev_drop_many subseq_order.refl)
  moreover from inv assms(2)
  have "length (us_data (up_sessions s ! i)) \<le> data_capacity \<and> length (up_queue s) \<le> writeQueue_capacity"
    by (simp add: udp_inv_def)
  moreover from inv have "fst ` set (up_queue s @ up_to_client s) \<subseteq> fst ` set (up_received s)" by (auto simp: udp_inv_def)
  ultimately show ?thesis by blast
qed

text \<open>A run for the witnesses: a datagram arrives, its session starts, the datagram is sent on.\<close>

definition served_run :: "udp_event list" where
  "served_run = [ForwardReturns, ReaderChecks, Datagram ''c'' [1] 0, SessionStarts 0 True, ReaderSends, SessionSends 0 True 5]"

definition served_state :: udp_proxy where
  "served_state = \<lparr>up_sessions = [\<lparr>us_src = ''c'', us_data = [], us_lastActive = 5, us_cancelable = True,
       us_cancelled = False, us_phase = Serving\<rparr>], up_m = [''c'' \<mapsto> 0], up_queue = [], up_queue_open = True,
     up_done = False, up_returned = True, up_reader = RChecking, up_cleaner = True, up_received = [(''c'', [1])],
     up_to_target = [(0, [1])], up_to_client = []\<rparr>"

lemma served_run_runs: "udp_runs forwardUDP served_run served_state"
  by (simp add: runs_iff udp_next_def served_run_def served_state_def forwardUDP_def stop_def reader_step_def addIfAbsent_def session_starts_def
      session_sends_def set_session_def data_capacity_def Let_def)

theorem udp_sessions_carry_witness:
  "subseq (map snd (filter (\<lambda>x. fst x = 0) (up_to_target served_state)) @ us_data (up_sessions served_state ! 0))
     (received_from ''c'' served_state)"
  using udp_sessions_carry [OF served_run_runs, of 0] by (simp add: served_state_def)

section \<open>What it does not\<close>

text \<open>
  \<open>stop\<close> is deferred in \<open>forwardUDP\<close> itself, which returns as soon as its goroutines run: a session that
  is served after that is cancelled by nobody.
\<close>

definition orphaned :: "nat \<Rightarrow> udp_proxy \<Rightarrow> bool" where
  "orphaned i s \<longleftrightarrow> up_returned s \<and> i < length (up_sessions s) \<and> us_phase (up_sessions s ! i) = Serving \<and>
     \<not> us_cancelled (up_sessions s ! i)"

lemma set_session_orphaned:
  "orphaned i s \<Longrightarrow> j < length (up_sessions s) \<Longrightarrow> us_phase (f (up_sessions s ! j)) = us_phase (up_sessions s ! j) \<Longrightarrow>
     us_cancelled (f (up_sessions s ! j)) = us_cancelled (up_sessions s ! j) \<Longrightarrow> orphaned i (set_session j f s)"
  by (auto simp: orphaned_def set_session_nth)

lemma orphaned_updates [simp]:
  "orphaned i (s\<lparr>up_done := d\<rparr>) = orphaned i s" "orphaned i (s\<lparr>up_queue := q\<rparr>) = orphaned i s"
  "orphaned i (s\<lparr>up_to_client := c\<rparr>) = orphaned i s" "orphaned i (s\<lparr>up_queue_open := b\<rparr>) = orphaned i s"
  "orphaned i (s\<lparr>up_reader := r\<rparr>) = orphaned i s" "orphaned i (s\<lparr>up_cleaner := b\<rparr>) = orphaned i s"
  "orphaned i (s\<lparr>up_received := c\<rparr>) = orphaned i s" "orphaned i (s\<lparr>up_to_target := t\<rparr>) = orphaned i s"
  "orphaned i (s\<lparr>up_m := m\<rparr>) = orphaned i s"
  by (simp_all add: orphaned_def)

lemma addIfAbsent_orphaned: "orphaned i s \<Longrightarrow> addIfAbsent src now s = (j, s') \<Longrightarrow> orphaned i s'"
  by (auto simp: addIfAbsent_def orphaned_def Let_def nth_append split: option.splits)

lemma reader_step_orphaned:
  assumes "orphaned i s" "reader_step ev s = Some (r, s')" "udp_inv s"
  shows "orphaned i s'"
proof (cases "up_reader s")
  case RReading
  with assms addIfAbsent_orphaned [OF assms(1)] show ?thesis
    by (cases ev) (auto simp: reader_step_def split: prod.splits if_splits)
next
  case (RSending j buf)
  with assms(3) have "j < length (up_sessions s)" by (simp add: udp_inv_def)
  with assms RSending show ?thesis
    by (cases ev) (auto simp: reader_step_def set_session_orphaned split: if_splits)
qed (use assms in \<open>cases ev; auto simp: reader_step_def split: if_splits\<close>)+

lemma orphaned_step:
  assumes "orphaned i s" "udp_inv s" "udp_step ev s = Some (r, s')"
  shows "orphaned i s'"
proof (cases ev)
  case ForwardReturns
  with assms show ?thesis by (auto simp: orphaned_def split: if_splits)
next
  case (SessionStarts j dialed)
  with assms show ?thesis
    by (auto simp: session_starts_def orphaned_def set_session_nth split: if_splits)
next
  case (SessionExits j)
  with assms show ?thesis
    by (auto simp: session_exits_def orphaned_def set_session_nth split: if_splits)
next
  case (SessionSends j written now)
  with assms show ?thesis
    by (auto simp: session_sends_def set_session_orphaned split: if_splits list.splits)
next
  case (Response j buf now)
  with assms show ?thesis
    by (auto simp: response_def set_session_orphaned split: if_splits)
qed (use assms reader_step_orphaned [OF assms(1) _ assms(2)] in
    \<open>auto simp: writer_writes_def writer_exits_def clean_def split: if_splits list.splits\<close>)

lemma closed_step: "udp_step ev s = Some (r, s') \<Longrightarrow> \<not> up_queue_open s \<Longrightarrow> \<not> up_queue_open s'"
  by (cases ev; cases "up_reader s") (auto simp: writer_writes_def writer_exits_def reader_step_def addIfAbsent_def clean_def
      session_starts_def session_sends_def session_exits_def response_def Let_def split: if_splits list.splits option.splits)

text \<open>
  C26: Once \<open>forwardUDP\<close> has returned, cancelling its context while a session is served leads, with the
  writer's exit, to a state from which on every response of that session's target panics, whatever runs
  in between: the response is sent on the closed \<open>writeQueue\<close>, and nothing cancels the session.
\<close>

theorem late_response_panics:
  assumes "udp_runs forwardUDP evs s" "orphaned i s" "up_queue_open s"
  shows "\<exists>s2. udp_runs s [ContextDone, WriterExits] s2 \<and>
      (\<forall>evs' s3 buf now. udp_runs s2 evs' s3 \<longrightarrow> udp_step (Response i buf now) s3 = Some (Panic send_on_closed, s3))"
proof -
  let ?s2 = "s\<lparr>up_done := True, up_queue_open := False\<rparr>"
  have run: "udp_runs s [ContextDone, WriterExits] ?s2"
    by (simp add: runs_iff udp_next_def writer_exits_def assms(3))
  have all: "udp_runs forwardUDP (evs @ [ContextDone, WriterExits]) ?s2" by (rule runs_trans [OF run assms(1)])
  have "udp_step (Response i buf now) s3 = Some (Panic send_on_closed, s3)" if r: "udp_runs ?s2 evs' s3" for evs' s3 buf now
  proof -
    have "orphaned i s3"
    proof (rule udp.stable [OF all r])
      show "orphaned i ?s2" by (simp add: assms(2))
    qed (rule orphaned_step, auto simp only: udp_next_Some)
    moreover have "\<not> up_queue_open s3"
    proof (rule udp.stable [OF all r])
      show "\<not> up_queue_open ?s2" by simp
    qed (rule closed_step, auto simp only: udp_next_Some)
    ultimately show ?thesis by (simp add: response_def orphaned_def)
  qed
  with run show ?thesis by blast
qed

lemma served_open: "up_queue_open served_state"
  by (simp add: served_state_def)

theorem late_response_panics_witness:
  "orphaned 0 served_state \<and> udp_step (Response 0 [2] 9) (served_state\<lparr>up_done := True, up_queue_open := False\<rparr>) =
     Some (Panic send_on_closed, served_state\<lparr>up_done := True, up_queue_open := False\<rparr>)"
proof -
  have o0: "orphaned 0 served_state" by (simp add: orphaned_def served_state_def)
  obtain s2 where s2: "udp_runs served_state [ContextDone, WriterExits] s2"
    and p: "\<forall>evs' s3 buf now. udp_runs s2 evs' s3 \<longrightarrow> udp_step (Response 0 buf now) s3 = Some (Panic send_on_closed, s3)"
    using late_response_panics [OF served_run_runs o0 served_open] by blast
  from s2 have "s2 = served_state\<lparr>up_done := True, up_queue_open := False\<rparr>"
    by (simp add: runs_iff udp_next_def writer_exits_def served_state_def)
  with p [rule_format, OF runs.start] o0 show ?thesis by simp
qed

definition jammed :: "nat \<Rightarrow> bytes \<Rightarrow> udp_proxy \<Rightarrow> bool" where
  "jammed i buf s \<longleftrightarrow> up_reader s = RSending i buf \<and> i < length (up_sessions s) \<and>
     us_phase (up_sessions s ! i) = Finished \<and> length (us_data (up_sessions s ! i)) = data_capacity \<and> \<not> up_done s"

lemma jammed_step:
  assumes "jammed i buf s" "udp_step ev s = Some (r, s')" "ev \<noteq> ContextDone"
  shows "jammed i buf s'"
proof (cases ev)
  case ForwardReturns
  with assms show ?thesis by (auto simp: jammed_def stop_def nth_enumerate_eq split: if_splits)
next
  case (SessionStarts j dialed)
  with assms show ?thesis by (auto simp: session_starts_def jammed_def set_session_nth split: if_splits)
next
  case (SessionExits j)
  with assms show ?thesis by (auto simp: session_exits_def jammed_def set_session_nth split: if_splits)
next
  case (SessionSends j written now)
  with assms show ?thesis
    by (auto simp: session_sends_def jammed_def set_session_nth split: if_splits list.splits)
next
  case (Response j b now)
  with assms show ?thesis by (auto simp: response_def jammed_def set_session_nth split: if_splits)
qed (use assms in \<open>auto simp: jammed_def writer_writes_def writer_exits_def clean_def reader_step_def
    split: if_splits list.splits\<close>)

text \<open>
  When dialing the target failed and the session's channel is full, the reader blocks on it: until
  the context is cancelled no step of any goroutine unblocks it, and no client's datagram is read.
\<close>

theorem failed_dial_jams_reader:
  assumes "udp_runs s evs s'" "up_reader s = RSending i buf" "i < length (up_sessions s)"
    and "us_phase (up_sessions s ! i) = Finished" "length (us_data (up_sessions s ! i)) = data_capacity"
    and "\<not> up_done s" "ContextDone \<notin> set evs"
  shows "up_reader s' = RSending i buf \<and> (\<nexists>src b now r s''. udp_step (Datagram src b now) s' = Some (r, s''))"
proof -
  have "jammed i buf s" using assms by (simp add: jammed_def)
  with assms(7) have "jammed i buf s'"
    by (intro runs_invariant [where P = "jammed i buf", OF assms(1)]) (auto intro: jammed_step simp: udp_next_Some)
  then show ?thesis by (auto simp: jammed_def reader_step_def)
qed

definition jammed_state :: udp_proxy where
  "jammed_state = forwardUDP\<lparr>up_sessions := [\<lparr>us_src = ''c'', us_data = replicate 32 [1], us_lastActive = 0,
     us_cancelable = True, us_cancelled = False, us_phase = Finished\<rparr>], up_m := [''c'' \<mapsto> 0], up_reader := RSending 0 [2]\<rparr>"

theorem failed_dial_jams_reader_witness:
  "up_reader (clean 400000000000 jammed_state) = RSending 0 [2]"
proof -
  have "udp_runs jammed_state [CleanerTicks 400000000000] (clean 400000000000 jammed_state)"
    by (rule runs_one) (simp add: udp_next_def jammed_state_def forwardUDP_def)
  from failed_dial_jams_reader [OF this, of 0 "[2]"] show ?thesis
    by (simp add: jammed_state_def forwardUDP_def data_capacity_def)
qed

end

