(* ===== verification/Expectations.thy ===== *)
theory Expectations
  imports Prelude
begin

text \<open>
  \<open>internal/expectations/expectations.go\<close>: what a controller has asked the API server to create or
  delete and has not yet seen in its cache. Each method holds the mutex, so that calls are steps.
  Times are in nanoseconds; the zero time is \<open>None\<close>.
\<close>

section \<open>The cache\<close>

datatype ControllerAction = ActionCreations | ActionDeletions

type_synonym ControllerKey = string

record objectStore =
  os_objects :: "ControllerAction \<rightharpoonup> string set"
  os_firstUnsatisfied :: "int option"

type_synonym controllerExpectations = "ControllerKey \<rightharpoonup> objectStore"

definition newObjectStore :: objectStore where
  "newObjectStore = \<lparr>os_objects = Map.empty, os_firstUnsatisfied = None\<rparr>"

definition store_Insert :: "ControllerAction \<Rightarrow> string \<Rightarrow> objectStore \<Rightarrow> objectStore" where
  "store_Insert action value st = (case os_objects st action of
      None \<Rightarrow> st\<lparr>os_objects := (os_objects st)(action \<mapsto> {value})\<rparr>
    | Some s \<Rightarrow> st\<lparr>os_objects := (os_objects st)(action \<mapsto> insert value s)\<rparr>)"

definition NewControllerExpectations :: controllerExpectations where
  "NewControllerExpectations = Map.empty"

definition Expect :: "ControllerKey \<Rightarrow> ControllerAction \<Rightarrow> string \<Rightarrow> controllerExpectations \<Rightarrow> controllerExpectations" where
  "Expect key action name r =
     (let st = (case r key of None \<Rightarrow> newObjectStore | Some st \<Rightarrow> st) in
      r(key \<mapsto> store_Insert action name st))"

text \<open>The loops over the map: is some set not empty?\<close>

definition any_left :: "objectStore \<Rightarrow> bool" where
  "any_left st \<longleftrightarrow> list_ex (\<lambda>a. case os_objects st a of None \<Rightarrow> False | Some s \<Rightarrow> s \<noteq> {})
     [ActionCreations, ActionDeletions]"

definition Observe :: "ControllerKey \<Rightarrow> ControllerAction \<Rightarrow> string \<Rightarrow> controllerExpectations \<Rightarrow> controllerExpectations" where
  "Observe key action name r = (case r key of
      None \<Rightarrow> r
    | Some st \<Rightarrow> (case os_objects st action of
        None \<Rightarrow> r
      | Some s \<Rightarrow>
          let st' = st\<lparr>os_objects := (os_objects st)(action \<mapsto> s - {name})\<rparr> in
          if any_left st' then r(key \<mapsto> st') else r(key := None)))"

text \<open>\<open>now\<close> is what \<open>time.Now\<close> returns, \<open>later\<close> the moment of \<open>time.Since\<close>.\<close>

definition SatisfiedExpectations :: "ControllerKey \<Rightarrow> int \<Rightarrow> int \<Rightarrow> controllerExpectations \<Rightarrow>
    (bool \<times> int) \<times> controllerExpectations" where
  "SatisfiedExpectations key now later r = (case r key of
      None \<Rightarrow> ((True, 0), r)
    | Some st \<Rightarrow>
        if any_left st then
          (let first = (case os_firstUnsatisfied st of None \<Rightarrow> now | Some t \<Rightarrow> t) in
           ((False, later - first), r(key \<mapsto> st\<lparr>os_firstUnsatisfied := Some first\<rparr>)))
        else ((True, 0), r(key := None)))"

definition DeleteExpectations :: "ControllerKey \<Rightarrow> controllerExpectations \<Rightarrow> controllerExpectations" where
  "DeleteExpectations key r = r(key := None)"

section \<open>The contract\<close>

text \<open>
  What controllers and event handlers rely on: a set of pending expectations, which queries leave
  alone.
\<close>

locale expectation_cache =
  fixes expect observe :: "ControllerKey \<Rightarrow> ControllerAction \<Rightarrow> string \<Rightarrow> 's \<Rightarrow> 's"
    and satisfied :: "ControllerKey \<Rightarrow> int \<Rightarrow> int \<Rightarrow> 's \<Rightarrow> (bool \<times> int) \<times> 's"
    and forget :: "ControllerKey \<Rightarrow> 's \<Rightarrow> 's"
    and pending :: "'s \<Rightarrow> (ControllerKey \<times> ControllerAction \<times> string) set"
  assumes expect_pending: "pending (expect k a n s) = insert (k, a, n) (pending s)"
    and observe_pending: "pending (observe k a n s) = pending s - {(k, a, n)}"
    and forget_pending: "pending (forget k s) = {x \<in> pending s. fst x \<noteq> k}"
    and satisfied_iff: "fst (fst (satisfied k t t' s)) \<longleftrightarrow> (\<forall>x \<in> pending s. fst x \<noteq> k)"
    and satisfied_pending: "pending (snd (satisfied k t t' s)) = pending s"
begin

text \<open>Announcing a call and taking the announcement back.\<close>

lemma retracted: "pending (observe k a n (expect k a n s)) = pending s - {(k, a, n)}"
  by (simp add: expect_pending observe_pending)

lemma observed_last:
  assumes "\<forall>x \<in> pending s. fst x = k \<longrightarrow> x = (k, a, n)"
  shows "fst (fst (satisfied k t t' (observe k a n s)))"
  using assms by (auto simp: satisfied_iff observe_pending)

lemma other_keys: "fst x \<noteq> k \<Longrightarrow>
    (x \<in> pending (expect k a n s) \<longleftrightarrow> x \<in> pending s) \<and> (x \<in> pending (observe k a n s) \<longleftrightarrow> x \<in> pending s)"
  by (auto simp: expect_pending observe_pending)

end

definition pending :: "controllerExpectations \<Rightarrow> (ControllerKey \<times> ControllerAction \<times> string) set" where
  "pending r = {(k, a, n). \<exists>st s. r k = Some st \<and> os_objects st a = Some s \<and> n \<in> s}"

lemma any_left_iff: "any_left st \<longleftrightarrow> (\<exists>a s. os_objects st a = Some s \<and> s \<noteq> {})"
proof -
  have "(\<exists>a. P a) \<longleftrightarrow> P ActionCreations \<or> P ActionDeletions" for P
    by (metis ControllerAction.exhaust)
  then show ?thesis by (auto simp: any_left_def split: option.splits)
qed

lemma pending_key: "(\<forall>x \<in> pending r. fst x \<noteq> k) \<longleftrightarrow> (case r k of None \<Rightarrow> True | Some st \<Rightarrow> \<not> any_left st)"
  by (force simp: pending_def any_left_iff split: option.split)

lemma pending_upd: "pending (r(k \<mapsto> st)) =
    {x \<in> pending r. fst x \<noteq> k} \<union> {(k', a, n). k' = k \<and> (\<exists>s. os_objects st a = Some s \<and> n \<in> s)}"
  unfolding pending_def by (auto split: if_splits)

lemma pending_del: "pending (r(k := None)) = {x \<in> pending r. fst x \<noteq> k}"
  unfolding pending_def by (auto split: if_splits)

lemma pending_store: "r k = Some st \<Longrightarrow> (k, a, n) \<in> pending r \<longleftrightarrow> (\<exists>s. os_objects st a = Some s \<and> n \<in> s)"
  by (auto simp: pending_def)

lemma pending_none: "r k = None \<Longrightarrow> (k, a, n) \<notin> pending r"
  by (auto simp: pending_def)

lemma pending_Expect: "pending (Expect k a n r) = insert (k, a, n) (pending r)"
proof (cases "r k")
  case None
  then show ?thesis
    unfolding Expect_def Let_def pending_upd
    by (auto simp: newObjectStore_def store_Insert_def pending_none split: if_splits)
next
  case (Some st)
  then show ?thesis
    unfolding Expect_def Let_def pending_upd
    by (auto simp: store_Insert_def pending_store split: option.splits if_splits)
qed

lemma pending_Observe: "pending (Observe k a n r) = pending r - {(k, a, n)}"
proof (cases "r k")
  case None
  then show ?thesis by (auto simp: Observe_def pending_none)
next
  case (Some st)
  show ?thesis
  proof (cases "os_objects st a")
    case None
    with Some show ?thesis by (auto simp: Observe_def pending_store)
  next
    case (Some s)
    let ?st = "st\<lparr>os_objects := (os_objects st)(a \<mapsto> s - {n})\<rparr>"
    have new: "pending (r(k \<mapsto> ?st)) = pending r - {(k, a, n)}"
      unfolding pending_upd using \<open>r k = Some st\<close> Some by (auto simp: pending_store split: if_splits)
    show ?thesis
    proof (cases "any_left ?st")
      case True
      with \<open>r k = Some st\<close> Some new show ?thesis by (simp add: Observe_def)
    next
      case False
      then have "\<not> (\<exists>s. os_objects ?st b = Some s \<and> m \<in> s)" for b m
        unfolding any_left_iff by blast
      then have "pending (r(k \<mapsto> ?st)) = pending (r(k := None))"
        unfolding pending_upd pending_del by auto
      with \<open>r k = Some st\<close> Some new False show ?thesis by (simp add: Observe_def)
    qed
  qed
qed

lemma pending_Satisfied: "pending (snd (SatisfiedExpectations k t t' r)) = pending r"
proof (cases "r k")
  case None
  then show ?thesis by (simp add: SatisfiedExpectations_def)
next
  case (Some st)
  show ?thesis
  proof (cases "any_left st")
    case True
    with Some show ?thesis
      unfolding SatisfiedExpectations_def Let_def by (auto simp: pending_upd pending_store)
  next
    case False
    then have "\<forall>x \<in> pending r. fst x \<noteq> k" using Some by (simp add: pending_key)
    with Some False show ?thesis by (auto simp: SatisfiedExpectations_def pending_del)
  qed
qed

interpretation exp: expectation_cache Expect Observe SatisfiedExpectations DeleteExpectations pending
proof
  fix k a n t t' and s :: controllerExpectations
  show "fst (fst (SatisfiedExpectations k t t' s)) \<longleftrightarrow> (\<forall>x \<in> pending s. fst x \<noteq> k)"
    unfolding pending_key by (auto simp: SatisfiedExpectations_def Let_def split: option.split)
  show "pending (DeleteExpectations k s) = {x \<in> pending s. fst x \<noteq> k}"
    by (simp add: DeleteExpectations_def pending_del)
qed (simp_all add: pending_Expect pending_Observe pending_Satisfied)

section \<open>Histories\<close>

datatype exp_call =
    DoExpect ControllerKey ControllerAction string
  | DoObserve ControllerKey ControllerAction string
  | DoSatisfied ControllerKey int int
  | DoDelete ControllerKey

fun exp_exec :: "exp_call \<Rightarrow> controllerExpectations \<Rightarrow> controllerExpectations" where
  "exp_exec (DoExpect k a n) r = Expect k a n r"
| "exp_exec (DoObserve k a n) r = Observe k a n r"
| "exp_exec (DoSatisfied k t t') r = snd (SatisfiedExpectations k t t' r)"
| "exp_exec (DoDelete k) r = DeleteExpectations k r"

text \<open>The calls that clear an expectation.\<close>

fun clears :: "ControllerKey \<times> ControllerAction \<times> string \<Rightarrow> exp_call \<Rightarrow> bool" where
  "clears (k, a, n) (DoObserve k' a' n') \<longleftrightarrow> k' = k \<and> a' = a \<and> n' = n"
| "clears (k, a, n) (DoDelete k') \<longleftrightarrow> k' = k"
| "clears _ _ \<longleftrightarrow> False"

definition outstanding :: "ControllerKey \<times> ControllerAction \<times> string \<Rightarrow> exp_call list \<Rightarrow> bool" where
  "outstanding x calls \<longleftrightarrow> (case x of (k, a, n) \<Rightarrow>
     \<exists>before after. calls = before @ DoExpect k a n # after \<and> (\<forall>c \<in> set after. \<not> clears x c))"

lemma outstanding_snoc:
  "outstanding (k, a, n) (calls @ [c]) \<longleftrightarrow> c = DoExpect k a n \<or> (outstanding (k, a, n) calls \<and> \<not> clears (k, a, n) c)"
proof
  assume "outstanding (k, a, n) (calls @ [c])"
  then obtain before after where split: "calls @ [c] = before @ DoExpect k a n # after"
    and keep: "\<forall>c \<in> set after. \<not> clears (k, a, n) c" by (auto simp: outstanding_def)
  show "c = DoExpect k a n \<or> (outstanding (k, a, n) calls \<and> \<not> clears (k, a, n) c)"
  proof (cases after rule: rev_cases)
    case Nil
    then show ?thesis using split by simp
  next
    case (snoc cs c')
    then have "calls = before @ DoExpect k a n # cs" "c' = c" using split by auto
    then show ?thesis using keep snoc by (auto simp: outstanding_def)
  qed
next
  assume "c = DoExpect k a n \<or> (outstanding (k, a, n) calls \<and> \<not> clears (k, a, n) c)"
  then show "outstanding (k, a, n) (calls @ [c])"
  proof
    assume "c = DoExpect k a n"
    then show ?thesis unfolding outstanding_def by (auto intro: exI [of _ calls] exI [of _ "[]"])
  next
    assume h: "outstanding (k, a, n) calls \<and> \<not> clears (k, a, n) c"
    then obtain before after where "calls = before @ DoExpect k a n # after"
      "\<forall>c \<in> set after. \<not> clears (k, a, n) c" by (auto simp: outstanding_def)
    then have "calls @ [c] = before @ DoExpect k a n # (after @ [c])" "\<forall>x \<in> set (after @ [c]). \<not> clears (k, a, n) x"
      using h by auto
    then show ?thesis unfolding outstanding_def by blast
  qed
qed

lemma pending_history: "x \<in> pending (fold exp_exec calls NewControllerExpectations) \<longleftrightarrow> outstanding x calls"
proof (induction calls rule: rev_induct)
  case Nil
  then show ?case by (auto simp: NewControllerExpectations_def pending_def outstanding_def)
next
  case (snoc c calls)
  obtain k a n where x: "x = (k, a, n)" by (cases x)
  show ?case
    using snoc unfolding x outstanding_snoc
    by (cases c) (auto simp: exp.expect_pending exp.observe_pending exp.satisfied_pending exp.forget_pending)
qed

text \<open>
  C21: after any history of calls a controller's expectations are satisfied exactly when each of its
  announcements has been observed, or forgotten with its key, after it was made; asking changes
  nothing.
\<close>

theorem SatisfiedExpectations_history:
  "fst (fst (SatisfiedExpectations k now later (fold exp_exec calls NewControllerExpectations))) \<longleftrightarrow>
     (\<forall>a n. \<not> outstanding (k, a, n) calls)"
  unfolding exp.satisfied_iff by (auto simp flip: pending_history)

section \<open>The timer\<close>

definition timer :: "ControllerKey \<Rightarrow> controllerExpectations \<Rightarrow> int option" where
  "timer k r = (case r k of None \<Rightarrow> None | Some st \<Rightarrow> os_firstUnsatisfied st)"

definition waiting :: "ControllerKey \<Rightarrow> controllerExpectations \<Rightarrow> bool" where
  "waiting k r \<longleftrightarrow> (\<exists>x \<in> pending r. fst x = k)"

lemma waiting_iff: "waiting k r \<longleftrightarrow> (case r k of None \<Rightarrow> False | Some st \<Rightarrow> any_left st)"
  using pending_key [of r k] by (auto simp: waiting_def split: option.splits)

lemma Satisfied_waiting:
  assumes "waiting k r"
  shows "fst (SatisfiedExpectations k t t' r) = (False, t' - (case timer k r of None \<Rightarrow> t | Some t0 \<Rightarrow> t0)) \<and>
    timer k (snd (SatisfiedExpectations k t t' r)) = Some (case timer k r of None \<Rightarrow> t | Some t0 \<Rightarrow> t0)"
  using assms by (auto simp: waiting_iff SatisfiedExpectations_def timer_def Let_def split: option.splits)

lemma timer_kept:
  assumes "timer k r = Some t0" and "waiting k (exp_exec c r)"
  shows "timer k (exp_exec c r) = Some t0"
  using assms
  by (cases c) (auto simp: timer_def waiting_iff Expect_def Observe_def SatisfiedExpectations_def DeleteExpectations_def
      store_Insert_def Let_def split: option.splits if_splits)

lemma timer_kept_run:
  assumes "timer k r = Some t0" and "\<And>i. i \<le> length calls \<Longrightarrow> waiting k (fold exp_exec (take i calls) r)"
  shows "timer k (fold exp_exec calls r) = Some t0"
  using assms
proof (induction calls rule: rev_induct)
  case Nil
  then show ?case by simp
next
  case (snoc c calls)
  have "waiting k (fold exp_exec (take i calls) r)" if "i \<le> length calls" for i
    using snoc.prems(2) [of i] that by simp
  then have "timer k (fold exp_exec calls r) = Some t0" using snoc by blast
  moreover have "waiting k (exp_exec c (fold exp_exec calls r))"
    using snoc.prems(2) [of "Suc (length calls)"] by simp
  ultimately show ?case by (simp add: timer_kept)
qed

text \<open>
  The time reported runs from the first query that found an expectation open, and goes on over
  whatever is announced and observed in between, until the controller has none left.
\<close>

theorem SatisfiedExpectations_timer:
  assumes "waiting k r" and "timer k r = None"
    and "\<And>i. i \<le> length calls \<Longrightarrow> waiting k (fold exp_exec (take i calls) (snd (SatisfiedExpectations k t0 t1 r)))"
  shows "fst (SatisfiedExpectations k now later (fold exp_exec calls (snd (SatisfiedExpectations k t0 t1 r)))) =
    (False, later - t0)"
proof -
  let ?r = "fold exp_exec calls (snd (SatisfiedExpectations k t0 t1 r))"
  have "timer k (snd (SatisfiedExpectations k t0 t1 r)) = Some t0"
    using Satisfied_waiting [OF assms(1)] assms(2) by simp
  then have "timer k ?r = Some t0" by (rule timer_kept_run) (rule assms(3))
  moreover have "waiting k ?r" using assms(3) [of "length calls"] by simp
  ultimately show ?thesis using Satisfied_waiting [of k ?r now later] by simp
qed

lemma SatisfiedExpectations_timer_witness:
  "fst (SatisfiedExpectations ''default/p'' 900 1000
     (snd (SatisfiedExpectations ''default/p'' 400 401 (Expect ''default/p'' ActionCreations ''web'' NewControllerExpectations)))) =
   (False, 600)"
proof -
  let ?r = "Expect ''default/p'' ActionCreations ''web'' NewControllerExpectations"
  have w: "waiting ''default/p'' ?r" "timer ''default/p'' ?r = None"
    by (simp add: waiting_def exp.expect_pending)
      (simp add: timer_def Expect_def NewControllerExpectations_def newObjectStore_def store_Insert_def)
  have q: "waiting ''default/p'' (fold exp_exec (take i []) (snd (SatisfiedExpectations ''default/p'' 400 401 ?r)))" for i
    using w(1) by (simp add: waiting_def exp.satisfied_pending)
  show ?thesis using SatisfiedExpectations_timer [where calls = "[]", OF w q] by simp
qed

end
