(* ===== verification/IPText.thy ===== *)
theory IPText
  imports NetIP
begin

text \<open>
  \<open>net.IP.String\<close> of Go's package \<open>net\<close>: dotted decimals for an IPv4 address, RFC 5952 groups for an
  IPv6 address (the first longest run of at least two zero groups becomes the ellipsis). Parsing an
  IPv4 address from its text gives the address back.
\<close>

section \<open>Printing\<close>

definition hex_char :: "nat \<Rightarrow> char" where
  "hex_char d = (if d < 10 then digit_char d else char_of (87 + d))"

fun hex_string :: "nat \<Rightarrow> string" where
  "hex_string n = (if n < 16 then [hex_char n] else hex_string (n div 16) @ [hex_char (n mod 16)])"

declare hex_string.simps [simp del]

definition v4_string :: "bytes \<Rightarrow> string" where
  "v4_string bs = join_strings (map (\<lambda>b. Itoa (unat b)) bs) ''.''"

fun v6_words :: "bytes \<Rightarrow> nat list" where
  "v6_words (hi # lo # bs) = (256 * unat hi + unat lo) # v6_words bs"
| "v6_words _ = []"

text \<open>The loop over the groups: the run that starts at each of them, kept if it is longer.\<close>

definition zero_run :: "nat list \<Rightarrow> nat \<Rightarrow> nat" where
  "zero_run ws i = length (takeWhile (\<lambda>w. w = 0) (drop i ws))"

definition ellipsis :: "nat list \<Rightarrow> nat \<times> nat" where
  "ellipsis ws = foldl (\<lambda>(s, l) i. let r = zero_run ws i in if 2 \<le> r \<and> l < r then (i, r) else (s, l))
     (0, 0) [0..<length ws]"

definition v6_string :: "bytes \<Rightarrow> string" where
  "v6_string bs =
     (let ws = v6_words bs; (s, l) = ellipsis ws; tx = (\<lambda>xs. join_strings (map hex_string xs) '':'') in
      if l = 0 then tx ws else tx (take s ws) @ ''::'' @ tx (drop (s + l) ws))"

text \<open>The last case is the one of a slice that is no address; the program never prints one.\<close>

definition IP_String :: "ip \<Rightarrow> string" where
  "IP_String a = (case a of
      None \<Rightarrow> ''<nil>''
    | Some bs \<Rightarrow>
        if bs = [] then ''<nil>''
        else case To4 a of
          Some v4 \<Rightarrow> v4_string v4
        | None \<Rightarrow> if length bs = 16 then v6_string bs else ''?'')"

section \<open>Round trip\<close>

lemma digit_char_facts:
  assumes "d < 10"
  shows "is_digit (digit_char d)" "digit_val (digit_char d) = d" "digit_char d \<noteq> CHR ''.''"
    "digit_char d \<noteq> CHR '':''" "digit_char d \<noteq> CHR ''%''"
proof -
  have c: "(of_char (digit_char d) :: nat) = 48 + d" using assms by (rule of_char_digit)
  show "is_digit (digit_char d)" using c assms by (simp add: is_digit_def less_eq_char_def)
  show "digit_val (digit_char d) = d" using c by (simp add: digit_val_def)
  have "(of_char (digit_char d) :: nat) \<noteq> of_char (CHR ''.'')" "(of_char (digit_char d) :: nat) \<noteq> of_char (CHR '':'')"
    "(of_char (digit_char d) :: nat) \<noteq> of_char (CHR ''%'')"
    using c assms by simp_all
  then show "digit_char d \<noteq> CHR ''.''" "digit_char d \<noteq> CHR '':''" "digit_char d \<noteq> CHR ''%''" by metis+
qed

lemma v4_fields_digit:
  assumes "d < 10" and "\<not> (dlen = 1 \<and> v = 0)" and "v * 10 + d \<le> 255"
  shows "v4_fields (digit_char d # cs) v dlen fs = v4_fields cs (v * 10 + d) (Suc dlen) fs"
  using assms by (auto simp: digit_char_facts Let_def)

lemma Itoa_256:
  assumes "n < 256"
  obtains "n < 10" "Itoa n = [digit_char n]"
  | "10 \<le> n" "n < 100" "Itoa n = [digit_char (n div 10), digit_char (n mod 10)]"
  | "100 \<le> n" "Itoa n = [digit_char (n div 100), digit_char (n div 10 mod 10), digit_char (n mod 10)]"
proof -
  consider "n < 10" | "10 \<le> n" "n < 100" | "100 \<le> n" by linarith
  then show thesis
  proof cases
    case 1
    then show ?thesis using that(1) by (simp add: Itoa.simps)
  next
    case 2
    then have "Itoa n = [digit_char (n div 10), digit_char (n mod 10)]"
      by (simp add: Itoa.simps [of n] Itoa.simps [of "n div 10"])
    with 2 that(2) show ?thesis by blast
  next
    case 3
    then have "n div 10 \<ge> 10" "n div 10 div 10 < 10" using assms by simp_all
    moreover have "n div 10 div 10 = n div 100" by (simp flip: div_mult2_eq)
    ultimately have "Itoa n = [digit_char (n div 100), digit_char (n div 10 mod 10), digit_char (n mod 10)]"
      using 3 by (simp add: Itoa.simps [of n] Itoa.simps [of "n div 10"] Itoa.simps [of "n div 100"])
    with 3 that(3) show ?thesis by blast
  qed
qed

lemma v4_fields_Itoa:
  assumes "n < 256"
  shows "\<exists>k. v4_fields (Itoa n @ rest) 0 0 fs = v4_fields rest n (Suc k) fs"
  using assms
proof (cases rule: Itoa_256)
  case 1
  then show ?thesis by (auto simp: v4_fields_digit simp del: v4_fields.simps)
next
  case 2
  then have "n div 10 * 10 + n mod 10 = n" "0 < n div 10" by simp_all
  with 2 show ?thesis by (auto simp: v4_fields_digit simp del: v4_fields.simps)
next
  case 3
  have e: "(n div 100 * 10 + n div 10 mod 10) * 10 + n mod 10 = n"
  proof -
    have "n div 100 = n div 10 div 10" by (simp flip: div_mult2_eq)
    then have "n div 100 * 10 + n div 10 mod 10 = n div 10" by simp
    then show ?thesis by simp
  qed
  have s: "n div 100 * 10 + n div 10 mod 10 \<le> 255" using e assms by linarith
  have d: "0 < n div 100" "n div 100 < 10" "n div 100 \<le> 255" using 3(1) assms by simp_all
  have "v4_fields (Itoa n @ rest) 0 0 fs =
      v4_fields (digit_char (n div 10 mod 10) # digit_char (n mod 10) # rest) (n div 100) 1 fs"
    using 3 d v4_fields_digit [of "n div 100" 0 0] by (simp del: v4_fields.simps)
  also have "\<dots> = v4_fields (digit_char (n mod 10) # rest) (n div 100 * 10 + n div 10 mod 10) 2 fs"
    using d s v4_fields_digit [of "n div 10 mod 10" 1 "n div 100"]
    by (simp del: v4_fields.simps add: numeral_2_eq_2)
  also have "\<dots> = v4_fields rest n 3 fs"
    using e assms v4_fields_digit [of "n mod 10" 2 "n div 100 * 10 + n div 10 mod 10"]
    by (simp del: v4_fields.simps add: numeral_3_eq_3)
  finally show ?thesis by (auto simp: numeral_3_eq_3)
qed

lemma v4_fields_dot:
  "rest \<noteq> [] \<Longrightarrow> length fs < 3 \<Longrightarrow> v4_fields (CHR ''.'' # rest) v (Suc k) fs = v4_fields rest 0 0 (fs @ [word_of_nat v])"
  by (simp add: is_digit_def less_eq_char_def)

lemma is_digit_dot [simp]: "\<not> is_digit (CHR ''.'')"
  by (simp add: is_digit_def less_eq_char_def)

lemma Itoa_ne [simp]: "Itoa n \<noteq> []"
  by (subst Itoa.simps) simp

lemma first_sep_Itoa: "first_sep (Itoa n @ CHR ''.'' # rest) = Some (CHR ''.'')"
proof -
  have "first_sep (s @ CHR ''.'' # rest) = Some (CHR ''.'')" if "\<forall>c \<in> set s. CHR ''0'' \<le> c \<and> c \<le> CHR ''9''" for s
    using that by (induction s) (auto simp: less_eq_char_def)
  then show ?thesis using Itoa_digits by blast
qed

lemma v4_text:
  assumes "To4 a = Some b"
  shows "To4 (ParseIP (IP_String a)) = Some b"
proof -
  have "length b = 4" using assms by (rule To4_length)
  then obtain w x y z where b: "b = [w, x, y, z]"
    by (auto simp: length_Suc_conv eval_nat_numeral)
  have lt: "unat v < 256" for v :: "8 word"
    using unsigned_less [of v, where ?'a = nat] by simp
  let ?dots = "Itoa (unat w) @ CHR ''.'' # Itoa (unat x) @ CHR ''.'' # Itoa (unat y) @ CHR ''.'' # Itoa (unat z)"
  have s: "IP_String a = ?dots"
  proof (cases a)
    case None
    with assms show ?thesis by simp
  next
    case (Some bs)
    then have "bs \<noteq> []" using assms by (auto simp: To4_def split: if_splits)
    with Some assms show ?thesis by (simp add: IP_String_def v4_string_def b)
  qed
  obtain k1 k2 k3 k4 where k:
    "v4_fields ?dots 0 0 [] = v4_fields (CHR ''.'' # Itoa (unat x) @ CHR ''.'' # Itoa (unat y) @ CHR ''.'' # Itoa (unat z)) (unat w) (Suc k1) []"
    "v4_fields (Itoa (unat x) @ CHR ''.'' # Itoa (unat y) @ CHR ''.'' # Itoa (unat z)) 0 0 [w] =
     v4_fields (CHR ''.'' # Itoa (unat y) @ CHR ''.'' # Itoa (unat z)) (unat x) (Suc k2) [w]"
    "v4_fields (Itoa (unat y) @ CHR ''.'' # Itoa (unat z)) 0 0 [w, x] =
     v4_fields (CHR ''.'' # Itoa (unat z)) (unat y) (Suc k3) [w, x]"
    "v4_fields (Itoa (unat z)) 0 0 [w, x, y] = v4_fields [] (unat z) (Suc k4) [w, x, y]"
    using v4_fields_Itoa [OF lt] by (metis append_Nil2)
  then have "parseIPv4 ?dots = Some b"
    by (simp add: parseIPv4_def v4_fields_dot b del: v4_fields.simps(2))
  with first_sep_Itoa [of "unat w"] show ?thesis unfolding s by (simp add: To4_ParseIP_v4)
qed

end
