(* ===== verification/ExternalProxy.thy ===== *)
theory ExternalProxy
  imports PfSync IPText
begin

text \<open>
  \<open>api/networking/v1alpha1\<close> (ExternalProxy) and
  \<open>internal/controller/networking/externalproxy/externalproxy.go\<close>: the object, the Kubernetes objects
  built from it, and the revision annotation that decides whether they have to be updated.

  A Go map of strings is an association list; \<open>None\<close> is the nil map, which can be read and cannot be
  written. Pointers are options; what dereferences nil is a panic.
\<close>

section \<open>Maps of strings\<close>

type_synonym gomap = "(string \<times> string) list option"

definition map_get :: "gomap \<Rightarrow> string \<Rightarrow> string" where
  "map_get m k = (case m of None \<Rightarrow> [] | Some kvs \<Rightarrow> (case map_of kvs k of None \<Rightarrow> [] | Some v \<Rightarrow> v))"

text \<open>\<open>maps.Clone\<close> keeps nil; \<open>maps.Copy\<close> writes nothing when the source is empty.\<close>

definition maps_Clone :: "gomap \<Rightarrow> gomap" where
  "maps_Clone m = m"

definition maps_Copy :: "gomap \<Rightarrow> gomap \<Rightarrow> gomap result" where
  "maps_Copy dst src = (case src of
      None \<Rightarrow> Ok dst
    | Some [] \<Rightarrow> Ok dst
    | Some kvs \<Rightarrow> (case dst of
        None \<Rightarrow> Panic NilMapWrite
      | Some d \<Rightarrow> Ok (Some (fold (\<lambda>(k, v). AList.update k v) kvs d))))"

section \<open>Objects\<close>

record controllerRef =
  cr_APIVersion :: string
  cr_Kind :: string
  cr_Name :: string
  cr_UID :: string

record objectMeta =
  om_Namespace :: string
  om_Name :: string
  om_UID :: string
  om_Generation :: int
  om_Labels :: gomap
  om_Annotations :: gomap
  om_Created :: int
  om_Deleted :: bool
  om_Controller :: "controllerRef option"

definition new_meta :: "string \<Rightarrow> string \<Rightarrow> objectMeta" where
  "new_meta namespace name = \<lparr>om_Namespace = namespace, om_Name = name, om_UID = [], om_Generation = 0,
     om_Labels = None, om_Annotations = None, om_Created = 0, om_Deleted = False, om_Controller = None\<rparr>"

record appServicePort = servicePort +
  sp_AppProtocol :: "string option"

record appEndpointPort = endpointPort +
  ep_AppProtocol :: "string option"

text \<open>The name of a port, empty when there is none: the code tests for both at once.\<close>

definition port_name :: "appEndpointPort \<Rightarrow> string" where
  "port_name p = (case ep_Name p of None \<Rightarrow> [] | Some n \<Rightarrow> n)"

record ExternalProxyIngressBackend =
  xb_Name :: string
  xb_Number :: int

record ExternalProxyIngressHttpPath =
  xh_Path :: string
  xh_PathType :: "string option"
  xh_Backend :: "ExternalProxyIngressBackend option"

record ExternalProxyIngressRule =
  xr_Host :: string
  xr_HTTP :: "ExternalProxyIngressHttpPath list option"

record ingressTLS =
  tls_Hosts :: "string list"
  tls_SecretName :: string

record ExternalProxyIngress =
  xi_Name :: string
  xi_Labels :: gomap
  xi_Annotations :: gomap
  xi_ClassName :: "string option"
  xi_DefaultBackend :: "ExternalProxyIngressBackend option"
  xi_TLS :: "ingressTLS list"
  xi_Rules :: "ExternalProxyIngressRule list"

record ExternalProxyService =
  xs_Name :: string
  xs_Labels :: gomap
  xs_Annotations :: gomap
  xs_Type :: string
  xs_Ports :: "appServicePort list"

record ExternalProxyBackend =
  be_Addresses :: "string list"
  be_Ports :: "appEndpointPort list"

record ExternalProxyStatus =
  xt_Ready :: bool
  xt_ServiceName :: string
  xt_ObservedGeneration :: int

record ExternalProxy =
  xp_Meta :: objectMeta
  xp_Backends :: "ExternalProxyBackend list"
  xp_Service :: ExternalProxyService
  xp_Ingress :: "ExternalProxyIngress option"
  xp_Status :: ExternalProxyStatus

text \<open>The Kubernetes objects, with the fields the program writes.\<close>

record kService =
  ks_Meta :: objectMeta
  ks_Type :: string
  ks_Ports :: "appServicePort list"

record kEndpointSlice =
  kl_Meta :: objectMeta
  kl_AddressType :: string
  kl_Endpoints :: "endpoint list"
  kl_Ports :: "appEndpointPort list"

record kIngressBackend =
  kb_Service :: string
  kb_PortName :: string
  kb_PortNumber :: int

record kIngressPath =
  kp_Path :: string
  kp_PathType :: "string option"
  kp_Backend :: kIngressBackend

record kIngressRule =
  kr_Host :: string
  kr_Paths :: "kIngressPath list"

record kIngress =
  ki_Meta :: objectMeta
  ki_ClassName :: "string option"
  ki_TLS :: "ingressTLS list"
  ki_DefaultBackend :: "kIngressBackend option"
  ki_Rules :: "kIngressRule list"

section \<open>The revision\<close>

definition ExternalProxyRevisionAnnotationKey :: string where
  "ExternalProxyRevisionAnnotationKey = ''networking.kertical.com/external-proxy-revision''"

text \<open>\<open>strconv.FormatInt(n, 10)\<close>.\<close>

definition FormatInt :: "int \<Rightarrow> string" where
  "FormatInt n = (if n < 0 then CHR ''-'' # Itoa (nat (- n)) else Itoa (nat n))"

definition InjectExternalProxyRevision :: "ExternalProxy \<Rightarrow> objectMeta \<Rightarrow> objectMeta" where
  "InjectExternalProxyRevision controller meta =
     (let annotations = (case om_Annotations meta of None \<Rightarrow> [] | Some a \<Rightarrow> a) in
      meta\<lparr>om_Annotations := Some (AList.update ExternalProxyRevisionAnnotationKey
        (FormatInt (om_Generation (xp_Meta controller))) annotations)\<rparr>)"

definition ShouldReconcileResource :: "ExternalProxy \<Rightarrow> objectMeta \<Rightarrow> bool" where
  "ShouldReconcileResource controller meta \<longleftrightarrow>
     map_get (om_Annotations meta) ExternalProxyRevisionAnnotationKey \<noteq> FormatInt (om_Generation (xp_Meta controller))"

section \<open>The service\<close>

definition NewService :: "ExternalProxy \<Rightarrow> kService" where
  "NewService xp =
     \<lparr>ks_Meta = InjectExternalProxyRevision xp
        ((new_meta (om_Namespace (xp_Meta xp)) (xs_Name (xp_Service xp)))
           \<lparr>om_Labels := maps_Clone (xs_Labels (xp_Service xp)),
            om_Annotations := maps_Clone (xs_Annotations (xp_Service xp))\<rparr>),
      ks_Type = xs_Type (xp_Service xp), ks_Ports = xs_Ports (xp_Service xp)\<rparr>"

definition ServiceKey :: "ExternalProxy \<Rightarrow> string \<times> string" where
  "ServiceKey xp = (om_Namespace (xp_Meta xp), xs_Name (xp_Service xp))"

section \<open>The endpoint slices\<close>

definition filterIPv4 :: "string \<Rightarrow> ip" where
  "filterIPv4 s = To4 (ParseIP s)"

definition filterIPv6 :: "string \<Rightarrow> ip" where
  "filterIPv6 s = (let a = ParseIP s in if To4 a = None then a else None)"

definition NewEndpointSliceFromBackend :: "string \<Rightarrow> ExternalProxyBackend \<Rightarrow> (string \<Rightarrow> ip) \<Rightarrow> kEndpointSlice" where
  "NewEndpointSliceFromBackend name backend flt =
     \<lparr>kl_Meta = new_meta [] name, kl_AddressType = [],
      kl_Endpoints = concat (map (\<lambda>address. case flt address of
          None \<Rightarrow> []
        | Some b \<Rightarrow> [\<lparr>en_Addresses = [IP_String (Some b)], en_Ready = Some True\<rparr>]) (be_Addresses backend)),
      kl_Ports = be_Ports backend\<rparr>"

definition ControllerName :: string where "ControllerName = ''kertical''"
definition LabelManagedBy :: string where "LabelManagedBy = ''endpointslice.kubernetes.io/managed-by''"
definition LabelServiceName :: string where "LabelServiceName = ''kubernetes.io/service-name''"

definition slice_prefix :: "ExternalProxy \<Rightarrow> nat \<Rightarrow> string" where
  "slice_prefix xp idx = xs_Name (xp_Service xp) @ ''-be'' @ Itoa idx"

text \<open>One turn of the loop over the backends, and the loop that labels the results.\<close>

definition backend_slices :: "ExternalProxy \<Rightarrow> nat \<Rightarrow> ExternalProxyBackend \<Rightarrow> kEndpointSlice list" where
  "backend_slices xp idx backend =
     (let v4 = NewEndpointSliceFromBackend (slice_prefix xp idx @ ''v4'') backend filterIPv4;
          v6 = NewEndpointSliceFromBackend (slice_prefix xp idx @ ''v6'') backend filterIPv6 in
      (if length (kl_Endpoints v4) \<noteq> 0
       then [v4\<lparr>kl_AddressType := ''IPv4'', kl_Meta := InjectExternalProxyRevision xp (kl_Meta v4)\<rparr>] else []) @
      (if length (kl_Endpoints v6) \<noteq> 0
       then [v6\<lparr>kl_AddressType := ''IPv6'', kl_Meta := InjectExternalProxyRevision xp (kl_Meta v6)\<rparr>] else []))"

fun backends_slices :: "ExternalProxy \<Rightarrow> nat \<Rightarrow> ExternalProxyBackend list \<Rightarrow> kEndpointSlice list" where
  "backends_slices xp idx [] = []"
| "backends_slices xp idx (b # bs) = backend_slices xp idx b @ backends_slices xp (Suc idx) bs"

definition label_slice :: "ExternalProxy \<Rightarrow> kEndpointSlice \<Rightarrow> kEndpointSlice" where
  "label_slice xp sl = sl\<lparr>kl_Meta := (kl_Meta sl)\<lparr>om_Namespace := om_Namespace (xp_Meta xp),
     om_Labels := Some [(LabelManagedBy, ControllerName), (LabelServiceName, xs_Name (xp_Service xp))]\<rparr>\<rparr>"

definition NewEndpointSlices :: "ExternalProxy \<Rightarrow> kEndpointSlice list" where
  "NewEndpointSlices xp = map (label_slice xp) (backends_slices xp 0 (xp_Backends xp))"

section \<open>The ingress\<close>

definition toIngressBackend :: "ExternalProxy \<Rightarrow> ExternalProxyIngressBackend option \<Rightarrow> kIngressBackend result" where
  "toIngressBackend xp backend = (case backend of
      None \<Rightarrow> Panic NilDereference
    | Some b \<Rightarrow> Ok \<lparr>kb_Service = xs_Name (xp_Service xp), kb_PortName = xb_Name b, kb_PortNumber = xb_Number b\<rparr>)"

fun ingress_paths :: "ExternalProxy \<Rightarrow> ExternalProxyIngressHttpPath list \<Rightarrow> kIngressPath list result" where
  "ingress_paths xp [] = Ok []"
| "ingress_paths xp (p # ps) =
     andRes (toIngressBackend xp (xh_Backend p)) (\<lambda>b.
       andRes (ingress_paths xp ps) (\<lambda>ps'.
         Ok (\<lparr>kp_Path = xh_Path p, kp_PathType = xh_PathType p, kp_Backend = b\<rparr> # ps')))"

fun ingress_rules :: "ExternalProxy \<Rightarrow> ExternalProxyIngressRule list \<Rightarrow> kIngressRule list result" where
  "ingress_rules xp [] = Ok []"
| "ingress_rules xp (r # rs) = (case xr_HTTP r of
      None \<Rightarrow> Panic NilDereference
    | Some paths \<Rightarrow>
        andRes (ingress_paths xp paths) (\<lambda>ps.
          andRes (ingress_rules xp rs) (\<lambda>rs'. Ok (\<lparr>kr_Host = xr_Host r, kr_Paths = ps\<rparr> # rs'))))"

definition NewIngress :: "ExternalProxy \<Rightarrow> kIngress result" where
  "NewIngress xp = (case xp_Ingress xp of
      None \<Rightarrow> Panic NilDereference
    | Some ing \<Rightarrow>
        andRes (case xi_DefaultBackend ing of
            None \<Rightarrow> Ok None
          | Some b \<Rightarrow> andRes (toIngressBackend xp (Some b)) (\<lambda>b'. Ok (Some b'))) (\<lambda>def.
        andRes (ingress_rules xp (xi_Rules ing)) (\<lambda>rules. Ok
          \<lparr>ki_Meta = InjectExternalProxyRevision xp
             ((new_meta (om_Namespace (xp_Meta xp)) (xi_Name ing))
                \<lparr>om_Labels := maps_Clone (xi_Labels ing), om_Annotations := maps_Clone (xi_Annotations ing)\<rparr>),
           ki_ClassName = xi_ClassName ing, ki_TLS = xi_TLS ing, ki_DefaultBackend = def, ki_Rules = rules\<rparr>)))"

section \<open>Facts\<close>

lemma Itoa_eq [simp]: "Itoa m = Itoa n \<longleftrightarrow> m = n"
  by (auto dest: Itoa_inj)

lemma FormatInt_inj: "FormatInt m = FormatInt n \<longleftrightarrow> m = n"
proof
  assume h: "FormatInt m = FormatInt n"
  have minus: "Itoa k \<noteq> CHR ''-'' # s" for k s
    using Itoa_digits [of "CHR ''-''" k] by (auto simp: less_eq_char_def)
  show "m = n"
    using h minus minus [symmetric] by (auto simp: FormatInt_def split: if_splits)
qed simp

lemma map_get_update [simp]: "map_get (Some (AList.update k v kvs)) k = v"
  by (simp add: map_get_def update_conv')

text \<open>
  An object that carries the revision of one generation of the ExternalProxy is reconciled by
  another exactly when the generations differ.
\<close>

theorem revision_detects_change:
  "ShouldReconcileResource xp' (InjectExternalProxyRevision xp meta) \<longleftrightarrow>
     om_Generation (xp_Meta xp) \<noteq> om_Generation (xp_Meta xp')"
  by (auto simp: ShouldReconcileResource_def InjectExternalProxyRevision_def Let_def FormatInt_inj)


section \<open>The endpoint slices of the backends\<close>

definition slice_name :: "kEndpointSlice \<Rightarrow> string" where
  "slice_name sl = om_Name (kl_Meta sl)"

lemma new_meta_simps [simp]:
  "om_Name (new_meta ns n) = n" "om_Namespace (new_meta ns n) = ns" "om_Deleted (new_meta ns n) = False"
  "om_Labels (new_meta ns n) = None" "om_Annotations (new_meta ns n) = None"
  by (simp_all add: new_meta_def)

lemma slice_name_simps [simp]:
  "om_Name (InjectExternalProxyRevision xp m) = om_Name m"
  "om_Name (kl_Meta (label_slice xp sl)) = om_Name (kl_Meta sl)"
  "om_Name (kl_Meta (NewEndpointSliceFromBackend n b f)) = n"
  by (simp_all add: InjectExternalProxyRevision_def Let_def label_slice_def NewEndpointSliceFromBackend_def new_meta_def)

lemma label_slice_simps [simp]:
  "kl_AddressType (label_slice xp sl) = kl_AddressType sl" "kl_Endpoints (label_slice xp sl) = kl_Endpoints sl"
  "kl_Ports (label_slice xp sl) = kl_Ports sl"
  by (simp_all add: label_slice_def)

lemma backend_slices_names:
  "sl \<in> set (backend_slices xp i b) \<Longrightarrow> slice_name sl \<in> {slice_prefix xp i @ ''v4'', slice_prefix xp i @ ''v6''}"
  by (auto simp: backend_slices_def Let_def slice_name_def split: if_splits)

lemma slice_prefix_eq:
  assumes "s \<in> {''v4'', ''v6''}" and "t \<in> {''v4'', ''v6''}"
  shows "slice_prefix xp i @ s = slice_prefix xp j @ t \<longleftrightarrow> i = j \<and> s = t"
proof -
  have "length s = length t" using assms by auto
  then show ?thesis by (auto simp: slice_prefix_def append_eq_append_conv)
qed

lemma backends_slices_names:
  "sl \<in> set (backends_slices xp i bs) \<Longrightarrow> \<exists>j \<ge> i. slice_name sl \<in> {slice_prefix xp j @ ''v4'', slice_prefix xp j @ ''v6''}"
proof (induction bs arbitrary: i)
  case Nil
  then show ?case by simp
next
  case (Cons b bs)
  then consider "sl \<in> set (backend_slices xp i b)" | "sl \<in> set (backends_slices xp (Suc i) bs)" by auto
  then show ?case
  proof cases
    case 1
    then show ?thesis using backend_slices_names by blast
  next
    case 2
    then show ?thesis using Cons.IH [of "Suc i"] by (meson Suc_leD)
  qed
qed

lemma distinct_backends_slices: "distinct (map slice_name (backends_slices xp i bs))"
proof (induction bs arbitrary: i)
  case Nil
  then show ?case by simp
next
  case (Cons b bs)
  have one: "distinct (map slice_name (backend_slices xp i b))"
    by (auto simp: backend_slices_def Let_def slice_name_def)
  have "slice_name sl \<noteq> slice_name sl'"
    if in1: "sl \<in> set (backend_slices xp i b)" and in2: "sl' \<in> set (backends_slices xp (Suc i) bs)" for sl sl'
  proof -
    obtain s where s: "slice_name sl = slice_prefix xp i @ s" "s \<in> {''v4'', ''v6''}"
      using backend_slices_names [OF in1] by blast
    obtain j t where t: "j \<ge> Suc i" "slice_name sl' = slice_prefix xp j @ t" "t \<in> {''v4'', ''v6''}"
      using backends_slices_names [OF in2] by blast
    show ?thesis using slice_prefix_eq [OF s(2) t(3), of xp i j] s t by simp
  qed
  then have "slice_name ` set (backend_slices xp i b) \<inter> slice_name ` set (backends_slices xp (Suc i) bs) = {}" by blast
  with one Cons show ?case by simp
qed

lemma slice_in_backends:
  "i < length bs \<Longrightarrow> sl \<in> set (backend_slices xp (k + i) (bs ! i)) \<Longrightarrow> sl \<in> set (backends_slices xp k bs)"
proof (induction bs arbitrary: k i)
  case Nil
  then show ?case by simp
next
  case (Cons b bs)
  then show ?case by (cases i) (auto simp: Cons.IH [of _ "Suc k"])
qed

lemma backends_slices_in:
  "sl \<in> set (backends_slices xp k bs) \<Longrightarrow> \<exists>i < length bs. sl \<in> set (backend_slices xp (k + i) (bs ! i))"
proof (induction bs arbitrary: k)
  case Nil
  then show ?case by simp
next
  case (Cons b bs)
  show ?case
  proof (cases "sl \<in> set (backend_slices xp k b)")
    case True
    then show ?thesis by (intro exI [of _ 0]) simp
  next
    case False
    then have "sl \<in> set (backends_slices xp (Suc k) bs)" using Cons.prems by simp
    then obtain i where "i < length bs" "sl \<in> set (backend_slices xp (Suc k + i) (bs ! i))" using Cons.IH by blast
    then show ?thesis by (intro exI [of _ "Suc i"]) simp
  qed
qed

text \<open>
  C22: the slices have different names; every backend address that is an IPv4 address is served by
  the IPv4 slice of its backend, ready, on the backend's ports, under a text that parses to the
  same address; and no slice is empty.
\<close>

theorem NewEndpointSlices_serve_backends:
  "distinct (map slice_name (NewEndpointSlices xp)) \<and>
   (\<forall>sl \<in> set (NewEndpointSlices xp). kl_Endpoints sl \<noteq> []) \<and>
   (\<forall>i < length (xp_Backends xp). \<forall>a \<in> set (be_Addresses (xp_Backends xp ! i)). \<forall>b. To4 (ParseIP a) = Some b \<longrightarrow>
      (\<exists>sl \<in> set (NewEndpointSlices xp). slice_name sl = slice_prefix xp i @ ''v4'' \<and> kl_AddressType sl = ''IPv4'' \<and>
         kl_Ports sl = be_Ports (xp_Backends xp ! i) \<and>
         (\<exists>e \<in> set (kl_Endpoints sl). en_Ready e = Some True \<and> (\<exists>s. en_Addresses e = [s] \<and> To4 (ParseIP s) = Some b))))"
proof (intro conjI ballI allI impI)
  have "map slice_name (NewEndpointSlices xp) = map slice_name (backends_slices xp 0 (xp_Backends xp))"
    by (simp add: NewEndpointSlices_def slice_name_def)
  then show "distinct (map slice_name (NewEndpointSlices xp))" by (simp only: distinct_backends_slices)
next
  fix sl assume "sl \<in> set (NewEndpointSlices xp)"
  then obtain sl0 where "sl = label_slice xp sl0" "sl0 \<in> set (backends_slices xp 0 (xp_Backends xp))"
    by (auto simp: NewEndpointSlices_def)
  then show "kl_Endpoints sl \<noteq> []"
    using backends_slices_in [of sl0 xp 0 "xp_Backends xp"] by (auto simp: backend_slices_def Let_def split: if_splits)
next
  fix i a b
  assume i: "i < length (xp_Backends xp)" and a: "a \<in> set (be_Addresses (xp_Backends xp ! i))"
    and b: "To4 (ParseIP a) = Some b"
  let ?be = "xp_Backends xp ! i"
  let ?v4 = "NewEndpointSliceFromBackend (slice_prefix xp i @ ''v4'') ?be filterIPv4"
  let ?sl = "?v4\<lparr>kl_AddressType := ''IPv4'', kl_Meta := InjectExternalProxyRevision xp (kl_Meta ?v4)\<rparr>"
  have e: "\<lparr>en_Addresses = [IP_String (Some b)], en_Ready = Some True\<rparr> \<in> set (kl_Endpoints ?v4)"
    using a b by (force simp: NewEndpointSliceFromBackend_def filterIPv4_def)
  then have "?sl \<in> set (backend_slices xp i ?be)" by (auto simp: backend_slices_def Let_def)
  then have mem: "label_slice xp ?sl \<in> set (NewEndpointSlices xp)"
    using slice_in_backends [OF i, of ?sl xp 0] by (simp add: NewEndpointSlices_def)
  have "To4 (Some b) = Some b" using To4_length [OF b] by (simp add: To4_def)
  then have parses: "To4 (ParseIP (IP_String (Some b))) = Some b" by (rule v4_text)
  show "\<exists>sl \<in> set (NewEndpointSlices xp). slice_name sl = slice_prefix xp i @ ''v4'' \<and> kl_AddressType sl = ''IPv4'' \<and>
         kl_Ports sl = be_Ports ?be \<and>
         (\<exists>e \<in> set (kl_Endpoints sl). en_Ready e = Some True \<and> (\<exists>s. en_Addresses e = [s] \<and> To4 (ParseIP s) = Some b))"
  proof (rule bexI [OF _ mem], intro conjI)
    show "\<exists>e \<in> set (kl_Endpoints (label_slice xp ?sl)). en_Ready e = Some True \<and>
        (\<exists>s. en_Addresses e = [s] \<and> To4 (ParseIP s) = Some b)"
      using e parses by force
  qed (simp_all add: slice_name_def NewEndpointSliceFromBackend_def)
qed

section \<open>The ingress\<close>

definition rule_complete :: "ExternalProxyIngressRule \<Rightarrow> bool" where
  "rule_complete r \<longleftrightarrow> (case xr_HTTP r of None \<Rightarrow> False | Some ps \<Rightarrow> list_all (\<lambda>p. xh_Backend p \<noteq> None) ps)"

definition ingress_complete :: "ExternalProxyIngress \<Rightarrow> bool" where
  "ingress_complete ing \<longleftrightarrow> list_all rule_complete (xi_Rules ing)"

lemma ingress_paths_cases:
  "(\<exists>ps'. ingress_paths xp ps = Ok ps' \<and> map kp_Path ps' = map xh_Path ps \<and>
      (\<forall>p \<in> set ps'. kb_Service (kp_Backend p) = xs_Name (xp_Service xp)) \<and> (\<forall>p \<in> set ps. xh_Backend p \<noteq> None)) \<or>
   (ingress_paths xp ps = Panic NilDereference \<and> \<not> (\<forall>p \<in> set ps. xh_Backend p \<noteq> None))"
  by (induction ps) (auto simp: toIngressBackend_def split: option.split)

lemma ingress_rules_cases:
  "(\<exists>rs'. ingress_rules xp rs = Ok rs' \<and> map kr_Host rs' = map xr_Host rs \<and> list_all rule_complete rs) \<or>
   (ingress_rules xp rs = Panic NilDereference \<and> \<not> list_all rule_complete rs)"
proof (induction rs)
  case Nil
  then show ?case by simp
next
  case (Cons r rs)
  show ?case
  proof (cases "xr_HTTP r")
    case None
    then show ?thesis by (simp add: rule_complete_def)
  next
    case (Some ps)
    with Cons ingress_paths_cases [of xp ps] show ?thesis by (auto simp: rule_complete_def list_all_iff)
  qed
qed

lemma NewIngress_result:
  assumes "xp_Ingress xp = Some ing"
  shows "NewIngress xp = Panic NilDereference \<longleftrightarrow> \<not> ingress_complete ing"
    "ingress_complete ing \<Longrightarrow> \<exists>ki. NewIngress xp = Ok ki \<and> map kr_Host (ki_Rules ki) = map xr_Host (xi_Rules ing)"
proof -
  have "\<exists>d. (case xi_DefaultBackend ing of None \<Rightarrow> Ok None
      | Some b \<Rightarrow> andRes (toIngressBackend xp (Some b)) (\<lambda>b'. Ok (Some b'))) = Ok d"
    by (cases "xi_DefaultBackend ing") (auto simp: toIngressBackend_def)
  with assms ingress_rules_cases [of xp "xi_Rules ing"]
  show "NewIngress xp = Panic NilDereference \<longleftrightarrow> \<not> ingress_complete ing"
    "ingress_complete ing \<Longrightarrow> \<exists>ki. NewIngress xp = Ok ki \<and> map kr_Host (ki_Rules ki) = map xr_Host (xi_Rules ing)"
    by (auto simp: NewIngress_def ingress_complete_def)
qed

text \<open>
  Building the ingress of an ExternalProxy that has one panics exactly when a rule has no HTTP
  section or a path no backend; otherwise it has the rules' hosts in their order.
\<close>

theorem NewIngress_panics_iff:
  assumes "xp_Ingress xp = Some ing"
  shows "(NewIngress xp = Panic NilDereference \<longleftrightarrow> \<not> ingress_complete ing) \<and>
    (ingress_complete ing \<longrightarrow> (\<exists>ki. NewIngress xp = Ok ki \<and> map kr_Host (ki_Rules ki) = map xr_Host (xi_Rules ing)))"
  using NewIngress_result [OF assms] by blast

section \<open>Examples\<close>

definition demo_ingress :: ExternalProxyIngress where
  "demo_ingress = \<lparr>xi_Name = ''web'', xi_Labels = None, xi_Annotations = None, xi_ClassName = None,
     xi_DefaultBackend = None, xi_TLS = [], xi_Rules = [\<lparr>xr_Host = ''example.org'', xr_HTTP = None\<rparr>]\<rparr>"

definition demo_proxy :: "int \<Rightarrow> ExternalProxy" where
  "demo_proxy gen = \<lparr>xp_Meta = (new_meta ''default'' ''web'')\<lparr>om_UID := ''u1'', om_Generation := gen\<rparr>,
     xp_Backends = [\<lparr>be_Addresses = [''192.168.1.10'', ''not an address''],
        be_Ports = [\<lparr>ep_Name = Some ''http'', ep_Protocol = Some ''TCP'', ep_Port = Some 80, ep_AppProtocol = None\<rparr>]\<rparr>],
     xp_Service = \<lparr>xs_Name = ''web'', xs_Labels = None, xs_Annotations = None, xs_Type = ''ClusterIP'', xs_Ports = []\<rparr>,
     xp_Ingress = Some demo_ingress,
     xp_Status = \<lparr>xt_Ready = False, xt_ServiceName = [], xt_ObservedGeneration = 0\<rparr>\<rparr>"

lemma NewEndpointSlices_serve_backends_witness:
  "\<exists>sl \<in> set (NewEndpointSlices (demo_proxy 1)). slice_name sl = slice_prefix (demo_proxy 1) 0 @ ''v4''"
proof -
  have a: "0 < length (xp_Backends (demo_proxy 1))" "''192.168.1.10'' \<in> set (be_Addresses (xp_Backends (demo_proxy 1) ! 0))"
    by (simp_all add: demo_proxy_def)
  have "To4 (ParseIP ''192.168.1.10'') = Some [192, 168, 1, 10]"
    by (simp add: ParseIP_def parseIPv4_def is_digit_def digit_val_def Let_def To4_def v4InV6Prefix_def)
  with a NewEndpointSlices_serve_backends [of "demo_proxy 1"] show ?thesis by blast
qed

lemma NewIngress_panics_iff_witness: "NewIngress (demo_proxy 1) = Panic NilDereference"
  by (rule NewIngress_panics_iff [of _ demo_ingress, THEN conjunct1, THEN iffD2])
    (simp_all add: demo_proxy_def ingress_complete_def demo_ingress_def rule_complete_def)

end
