(* ===== verification/EpController.thy ===== *)
theory EpController
  imports ExternalProxy Expectations
begin

text \<open>
  The ExternalProxy controller: \<open>internal/controller/networking/externalproxy_controller.go\<close> with the
  status updater of its package. The API server behind the client is a parameter, steps on an
  abstract state \<open>'k\<close>; the three expectation caches are the controller's own state.
\<close>

section \<open>The client\<close>

text \<open>The client for one kind of object; the arguments of \<open>cl_List\<close> are the namespace and the owner's UID.\<close>

record ('k, 'o) client =
  cl_Get :: "string \<times> string \<Rightarrow> ('k, 'o) step"
  cl_List :: "string \<Rightarrow> string \<Rightarrow> ('k, 'o list) step"
  cl_Create :: "'o \<Rightarrow> ('k, unit) step"
  cl_Update :: "'o \<Rightarrow> ('k, unit) step"
  cl_Delete :: "'o \<Rightarrow> ('k, unit) step"

text \<open>
  \<open>xa_SetControllerReference\<close> is \<open>ctrl.SetControllerReference\<close>: owner, object, and the object with the
  reference or the reason it cannot be set. \<open>xa_Retry\<close> is \<open>retry.RetryOnConflict\<close>.
\<close>

record 'k xapi =
  xa_Proxies :: "('k, ExternalProxy) client"
  xa_UpdateStatus :: "ExternalProxy \<Rightarrow> ('k, unit) step"
  xa_Services :: "('k, kService) client"
  xa_Slices :: "('k, kEndpointSlice) client"
  xa_Ingresses :: "('k, kIngress) client"
  xa_SetControllerReference :: "objectMeta \<Rightarrow> objectMeta \<Rightarrow> objectMeta result"
  xa_IsNotFound :: "go_error \<Rightarrow> bool"
  xa_Retry :: "('k, unit) step \<Rightarrow> ('k, unit) step"

datatype watched = WService | WEndpoints | WIngress

record 'k ExternalProxyReconciler =
  xr_api :: 'k
  xr_expectations :: "watched \<Rightarrow> controllerExpectations"

definition on_xapi :: "('k, 'a) step \<Rightarrow> ('k ExternalProxyReconciler, 'a) step" where
  "on_xapi f c = (case f (xr_api c) of (r, k) \<Rightarrow> (r, c\<lparr>xr_api := k\<rparr>))"

definition upd_exp :: "watched \<Rightarrow> (controllerExpectations \<Rightarrow> controllerExpectations) \<Rightarrow>
    'k ExternalProxyReconciler \<Rightarrow> 'k ExternalProxyReconciler" where
  "upd_exp w f c = c\<lparr>xr_expectations := (xr_expectations c)(w := f (xr_expectations c w))\<rparr>"

definition done_ok :: "('s, unit) step" where
  "done_ok s = (Ok (), s)"

text \<open>
  The pattern of every creation and deletion: announce it, make the call, and take the announcement
  back when the call fails.
\<close>

definition announced :: "watched \<Rightarrow> ControllerKey \<Rightarrow> ControllerAction \<Rightarrow> string \<Rightarrow> ('k, unit) step \<Rightarrow>
    ('k ExternalProxyReconciler, unit) step" where
  "announced w key action name call c =
     (case on_xapi call (upd_exp w (Expect key action name) c) of
        (Err e, c') \<Rightarrow> (Err e, upd_exp w (Observe key action name) c')
      | (r, c') \<Rightarrow> (r, c'))"

section \<open>Synchronising\<close>

definition live_sorted :: "('o \<Rightarrow> objectMeta) \<Rightarrow> 'o list \<Rightarrow> 'o list" where
  "live_sorted meta objs = sort_key (\<lambda>x. om_Created (meta x)) (filter (\<lambda>x. \<not> om_Deleted (meta x)) objs)"

definition listOwned :: "('k, 'o) client \<Rightarrow> ('o \<Rightarrow> objectMeta) \<Rightarrow> objectMeta \<Rightarrow> ('k ExternalProxyReconciler, 'o list) step" where
  "listOwned C meta owner =
     andThen (on_xapi (cl_List C (om_Namespace owner) (om_UID owner))) (\<lambda>items c. (Ok (live_sorted meta items), c))"

definition listOwnedServices :: "'k xapi \<Rightarrow> ExternalProxy \<Rightarrow> ('k ExternalProxyReconciler, kService list) step" where
  "listOwnedServices A xp = listOwned (xa_Services A) ks_Meta (xp_Meta xp)"

definition ep_listOwnedEndpointSlices :: "'k xapi \<Rightarrow> kService \<Rightarrow> ('k ExternalProxyReconciler, kEndpointSlice list) step" where
  "ep_listOwnedEndpointSlices A service = listOwned (xa_Slices A) kl_Meta (ks_Meta service)"

definition listOwnedIngresses :: "'k xapi \<Rightarrow> ExternalProxy \<Rightarrow> ('k ExternalProxyReconciler, kIngress list) step" where
  "listOwnedIngresses A xp = listOwned (xa_Ingresses A) ki_Meta (xp_Meta xp)"

fun syncActivatedObject :: "watched \<Rightarrow> ('k, 'o) client \<Rightarrow> ('o \<Rightarrow> objectMeta) \<Rightarrow> ControllerKey \<Rightarrow> string \<Rightarrow> 'o list \<Rightarrow>
    'o option \<Rightarrow> ('k ExternalProxyReconciler, 'o option) step" where
  "syncActivatedObject w C meta key name [] activated c = (Ok activated, c)"
| "syncActivatedObject w C meta key name (obj # objs) activated c =
     (if om_Name (meta obj) = name then syncActivatedObject w C meta key name objs (Some obj) c
      else andThen (announced w key ActionDeletions (om_Name (meta obj)) (cl_Delete C obj)) (\<lambda>_.
        syncActivatedObject w C meta key name objs activated) c)"

text \<open>The labels and annotations of the new object are copied over the existing ones.\<close>

definition copy_meta :: "objectMeta \<Rightarrow> objectMeta \<Rightarrow> objectMeta result" where
  "copy_meta old new =
     andRes (maps_Copy (om_Labels old) (om_Labels new)) (\<lambda>labels.
       andRes (maps_Copy (om_Annotations old) (om_Annotations new)) (\<lambda>annotations.
         Ok (old\<lparr>om_Labels := labels, om_Annotations := annotations\<rparr>)))"

definition when_Ok :: "'a result \<Rightarrow> ('a \<Rightarrow> ('s, 'b) step) \<Rightarrow> ('s, 'b) step" where
  "when_Ok r f s = (case r of Ok a \<Rightarrow> f a s | Err e \<Rightarrow> (Err e, s) | Panic p \<Rightarrow> (Panic p, s))"

definition SyncService :: "'k xapi \<Rightarrow> ControllerKey \<Rightarrow> ExternalProxy \<Rightarrow> ('k ExternalProxyReconciler, unit) step" where
  "SyncService A key xp =
     andThen (listOwnedServices A xp) (\<lambda>owned.
       andThen (syncActivatedObject WService (xa_Services A) ks_Meta key (xs_Name (xp_Service xp)) owned None) (\<lambda>activated.
         let new = NewService xp in
         case (if owned = [] then None else activated) of
           None \<Rightarrow> when_Ok (xa_SetControllerReference A (xp_Meta xp) (ks_Meta new)) (\<lambda>m.
             announced WService key ActionCreations (om_Name m) (cl_Create (xa_Services A) (new\<lparr>ks_Meta := m\<rparr>)))
         | Some act \<Rightarrow>
             if \<not> ShouldReconcileResource xp (ks_Meta act) then done_ok
             else when_Ok (copy_meta (ks_Meta act) (ks_Meta new)) (\<lambda>m.
               on_xapi (cl_Update (xa_Services A) (act\<lparr>ks_Meta := m, ks_Type := xs_Type (xp_Service xp),
                 ks_Ports := xs_Ports (xp_Service xp)\<rparr>)))))"

text \<open>The index by name of the slices that exist, and the loop over the desired ones.\<close>

definition slice_index :: "kEndpointSlice list \<Rightarrow> (string \<times> kEndpointSlice) list" where
  "slice_index owned = fold (\<lambda>sl m. AList.update (slice_name sl) sl m) owned []"

definition update_slice :: "kEndpointSlice \<Rightarrow> objectMeta \<Rightarrow> kEndpointSlice \<Rightarrow> kEndpointSlice" where
  "update_slice old m want = old\<lparr>kl_Meta := m, kl_AddressType := kl_AddressType want,
     kl_Endpoints := kl_Endpoints want, kl_Ports := kl_Ports want\<rparr>"

fun sync_slices :: "'k xapi \<Rightarrow> ControllerKey \<Rightarrow> ExternalProxy \<Rightarrow> kService \<Rightarrow> kEndpointSlice list \<Rightarrow>
    (string \<times> kEndpointSlice) list \<Rightarrow> ('k ExternalProxyReconciler, (string \<times> kEndpointSlice) list) step" where
  "sync_slices A key xp owner [] index c = (Ok index, c)"
| "sync_slices A key xp owner (want # ds) index c =
     (case map_of index (slice_name want) of
        Some old \<Rightarrow>
          andThen
            (if ShouldReconcileResource xp (kl_Meta old)
             then when_Ok (copy_meta (kl_Meta old) (kl_Meta want)) (\<lambda>m.
               on_xapi (cl_Update (xa_Slices A) (update_slice old m want)))
             else done_ok)
            (\<lambda>_. sync_slices A key xp owner ds (AList.delete (slice_name want) index)) c
      | None \<Rightarrow>
          andThen
            (when_Ok (xa_SetControllerReference A (ks_Meta owner) (kl_Meta want)) (\<lambda>m.
               announced WEndpoints key ActionCreations (om_Name m) (cl_Create (xa_Slices A) (want\<lparr>kl_Meta := m\<rparr>))))
            (\<lambda>_. sync_slices A key xp owner ds index) c)"

fun delete_all :: "watched \<Rightarrow> ('k, 'o) client \<Rightarrow> ('o \<Rightarrow> objectMeta) \<Rightarrow> ControllerKey \<Rightarrow> 'o list \<Rightarrow>
    ('k ExternalProxyReconciler, unit) step" where
  "delete_all w C meta key [] c = (Ok (), c)"
| "delete_all w C meta key (obj # objs) c =
     andThen (announced w key ActionDeletions (om_Name (meta obj)) (cl_Delete C obj)) (\<lambda>_. delete_all w C meta key objs) c"

text \<open>\<open>ord\<close> is the order in which Go ranges over the index.\<close>

definition SyncEndpointSlices :: "'k xapi \<Rightarrow> (kEndpointSlice list \<Rightarrow> kEndpointSlice list) \<Rightarrow> ControllerKey \<Rightarrow> ExternalProxy \<Rightarrow>
    ('k ExternalProxyReconciler, unit) step" where
  "SyncEndpointSlices A ord key xp =
     andThen (on_xapi (cl_Get (xa_Services A) (ServiceKey xp))) (\<lambda>owner.
       andThen (ep_listOwnedEndpointSlices A owner) (\<lambda>owned.
         andThen (sync_slices A key xp owner (NewEndpointSlices xp) (slice_index owned)) (\<lambda>index.
           delete_all WEndpoints (xa_Slices A) kl_Meta key (ord (map snd index)))))"

definition SyncIngress :: "'k xapi \<Rightarrow> ControllerKey \<Rightarrow> ExternalProxy \<Rightarrow> ('k ExternalProxyReconciler, unit) step" where
  "SyncIngress A key xp =
     andThen (listOwnedIngresses A xp) (\<lambda>owned.
       case xp_Ingress xp of
         None \<Rightarrow> delete_all WIngress (xa_Ingresses A) ki_Meta key owned
       | Some ing \<Rightarrow>
           andThen (syncActivatedObject WIngress (xa_Ingresses A) ki_Meta key (xi_Name ing) owned None) (\<lambda>activated.
             when_Ok (NewIngress xp) (\<lambda>new.
               case (if owned = [] then None else activated) of
                 None \<Rightarrow> when_Ok (xa_SetControllerReference A (xp_Meta xp) (ki_Meta new)) (\<lambda>m.
                   announced WIngress key ActionCreations (om_Name m) (cl_Create (xa_Ingresses A) (new\<lparr>ki_Meta := m\<rparr>)))
               | Some act \<Rightarrow>
                   if \<not> ShouldReconcileResource xp (ki_Meta act) then done_ok
                   else when_Ok (copy_meta (ki_Meta act) (ki_Meta new)) (\<lambda>m.
                     on_xapi (cl_Update (xa_Ingresses A) (act\<lparr>ki_Meta := m, ki_TLS := ki_TLS new, ki_Rules := ki_Rules new,
                       ki_DefaultBackend := ki_DefaultBackend new,
                       ki_ClassName := (if ki_ClassName new \<noteq> None then ki_ClassName new else ki_ClassName act)\<rparr>))))))"

section \<open>Reconciling\<close>

definition UpdateStatus :: "'k xapi \<Rightarrow> ExternalProxy \<Rightarrow> ExternalProxyStatus \<Rightarrow> ('k, unit) step" where
  "UpdateStatus A xp status =
     xa_Retry A (andThen (cl_Get (xa_Proxies A) (om_Namespace (xp_Meta xp), om_Name (xp_Meta xp))) (\<lambda>newObject.
       xa_UpdateStatus A (newObject\<lparr>xp_Status := status\<rparr>)))"

text \<open>
  The result of a reconciliation is the delay after which it asks to be run again, if any. \<open>clk\<close>
  gives the times of the queries.
\<close>

definition checked :: "watched \<Rightarrow> ControllerKey \<Rightarrow> int \<Rightarrow> (watched \<Rightarrow> int \<times> int) \<Rightarrow>
    ('k ExternalProxyReconciler, int option) step \<Rightarrow> ('k ExternalProxyReconciler, int option) step" where
  "checked w key timeout clk body c =
     (case SatisfiedExpectations key (fst (clk w)) (snd (clk w)) (xr_expectations c w) of
        ((satisfied, duration), r) \<Rightarrow>
          let c' = upd_exp w (\<lambda>_. r) c in
          if \<not> satisfied then
            if duration \<ge> timeout then (Ok None, c') else (Ok (Some (timeout - duration)), c')
          else body c')"

definition ignoring_not_found :: "'k xapi \<Rightarrow> ('s, unit) step \<Rightarrow> ('s, int option) step \<Rightarrow> ('s, int option) step" where
  "ignoring_not_found A sync rest s = (case sync s of
      (Ok _, s') \<Rightarrow> rest s'
    | (Err e, s') \<Rightarrow> (if xa_IsNotFound A e then Ok None else Err e, s')
    | (Panic p, s') \<Rightarrow> (Panic p, s'))"

definition ep_Reconcile :: "'k xapi \<Rightarrow> (kEndpointSlice list \<Rightarrow> kEndpointSlice list) \<Rightarrow> int \<Rightarrow> (watched \<Rightarrow> int \<times> int) \<Rightarrow>
    string \<times> string \<Rightarrow> ControllerKey \<Rightarrow> ('k ExternalProxyReconciler, int option) step" where
  "ep_Reconcile A ord timeout clk req key c =
     (case on_xapi (cl_Get (xa_Proxies A) req) c of
        (Err e, c') \<Rightarrow>
          if xa_IsNotFound A e then (Ok None, upd_exp WService (DeleteExpectations key) c') else (Err e, c')
      | (Panic p, c') \<Rightarrow> (Panic p, c')
      | (Ok xp, c') \<Rightarrow>
          checked WService key timeout clk
            (andThen (SyncService A key xp) (\<lambda>_.
              andThen (on_xapi (UpdateStatus A xp
                  \<lparr>xt_Ready = False, xt_ServiceName = xs_Name (xp_Service xp), xt_ObservedGeneration = 0\<rparr>)) (\<lambda>_.
                checked WEndpoints key timeout clk
                  (ignoring_not_found A (SyncEndpointSlices A ord key xp)
                    (checked WIngress key timeout clk
                      (ignoring_not_found A (SyncIngress A key xp)
                        (andThen (on_xapi (UpdateStatus A xp
                            \<lparr>xt_Ready = True, xt_ServiceName = xs_Name (xp_Service xp),
                             xt_ObservedGeneration = om_Generation (xp_Meta xp)\<rparr>)) (\<lambda>_ c. (Ok None, c))))))))) c')"

end
