(* ===== verification/EpFacts.thy ===== *)
theory EpFacts
  imports EpController
begin

text \<open>
  Correctness of the ExternalProxy controller. A synchronisation carries out a plan, a pure function of
  the objects it lists; it announces each creation and deletion and withdraws the announcement of
  the call that fails.
\<close>

section \<open>Plans\<close>

datatype 'o call = Create 'o | Update 'o | Delete 'o | Stop go_error | Crash panic

fun run_calls :: "watched \<Rightarrow> ('k, 'o) client \<Rightarrow> ('o \<Rightarrow> objectMeta) \<Rightarrow> ControllerKey \<Rightarrow> 'o call list \<Rightarrow>
    ('k ExternalProxyReconciler, unit) step" where
  "run_calls w C meta key [] c = (Ok (), c)"
| "run_calls w C meta key (Create x # cs) c =
     andThen (announced w key ActionCreations (om_Name (meta x)) (cl_Create C x)) (\<lambda>_. run_calls w C meta key cs) c"
| "run_calls w C meta key (Update x # cs) c = andThen (on_xapi (cl_Update C x)) (\<lambda>_. run_calls w C meta key cs) c"
| "run_calls w C meta key (Delete x # cs) c =
     andThen (announced w key ActionDeletions (om_Name (meta x)) (cl_Delete C x)) (\<lambda>_. run_calls w C meta key cs) c"
| "run_calls w C meta key (Stop e # cs) c = (Err e, c)"
| "run_calls w C meta key (Crash p # cs) c = (Panic p, c)"

definition of_result :: "'a result \<Rightarrow> ('a \<Rightarrow> 'o call) \<Rightarrow> 'o call" where
  "of_result r f = (case r of Ok a \<Rightarrow> f a | Err e \<Rightarrow> Stop e | Panic p \<Rightarrow> Crash p)"

definition named :: "('o \<Rightarrow> objectMeta) \<Rightarrow> string \<Rightarrow> 'o list \<Rightarrow> 'o option" where
  "named meta name objs = List.find (\<lambda>x. om_Name (meta x) = name) (rev objs)"

definition others :: "('o \<Rightarrow> objectMeta) \<Rightarrow> string \<Rightarrow> 'o list \<Rightarrow> 'o call list" where
  "others meta name objs = map Delete (filter (\<lambda>x. om_Name (meta x) \<noteq> name) objs)"

type_synonym set_reference = "objectMeta \<Rightarrow> objectMeta \<Rightarrow> objectMeta result"

definition service_plan :: "set_reference \<Rightarrow> ExternalProxy \<Rightarrow> kService list \<Rightarrow> kService call list" where
  "service_plan scr xp owned = others ks_Meta (xs_Name (xp_Service xp)) owned @
     (let new = NewService xp in
      case named ks_Meta (xs_Name (xp_Service xp)) owned of
        None \<Rightarrow> [of_result (scr (xp_Meta xp) (ks_Meta new)) (\<lambda>m. Create (new\<lparr>ks_Meta := m\<rparr>))]
      | Some act \<Rightarrow>
          if ShouldReconcileResource xp (ks_Meta act)
          then [of_result (copy_meta (ks_Meta act) (ks_Meta new)) (\<lambda>m. Update
            (act\<lparr>ks_Meta := m, ks_Type := xs_Type (xp_Service xp), ks_Ports := xs_Ports (xp_Service xp)\<rparr>))]
          else [])"

fun slices_calls :: "set_reference \<Rightarrow> ExternalProxy \<Rightarrow> kService \<Rightarrow> kEndpointSlice list \<Rightarrow> (string \<times> kEndpointSlice) list \<Rightarrow>
    kEndpointSlice call list" where
  "slices_calls scr xp owner [] index = []"
| "slices_calls scr xp owner (want # ds) index =
     (case map_of index (slice_name want) of
        Some old \<Rightarrow>
          (if ShouldReconcileResource xp (kl_Meta old)
           then [of_result (copy_meta (kl_Meta old) (kl_Meta want)) (\<lambda>m. Update (update_slice old m want))] else []) @
          slices_calls scr xp owner ds (AList.delete (slice_name want) index)
      | None \<Rightarrow>
          of_result (scr (ks_Meta owner) (kl_Meta want)) (\<lambda>m. Create (want\<lparr>kl_Meta := m\<rparr>)) #
          slices_calls scr xp owner ds index)"

definition slices_left :: "kEndpointSlice list \<Rightarrow> (string \<times> kEndpointSlice) list \<Rightarrow> (string \<times> kEndpointSlice) list" where
  "slices_left wants index = filter (\<lambda>(n, _). n \<notin> slice_name ` set wants) index"

definition slices_plan :: "set_reference \<Rightarrow> (kEndpointSlice list \<Rightarrow> kEndpointSlice list) \<Rightarrow> ExternalProxy \<Rightarrow> kService \<Rightarrow>
    kEndpointSlice list \<Rightarrow> kEndpointSlice call list" where
  "slices_plan scr ord xp owner owned =
     slices_calls scr xp owner (NewEndpointSlices xp) (slice_index owned) @
     map Delete (ord (map snd (slices_left (NewEndpointSlices xp) (slice_index owned))))"

definition ingress_plan :: "set_reference \<Rightarrow> ExternalProxy \<Rightarrow> kIngress list \<Rightarrow> kIngress call list" where
  "ingress_plan scr xp owned = (case xp_Ingress xp of
      None \<Rightarrow> map Delete owned
    | Some ing \<Rightarrow> others ki_Meta (xi_Name ing) owned @
        (case NewIngress xp of
           Err e \<Rightarrow> [Stop e]
         | Panic p \<Rightarrow> [Crash p]
         | Ok new \<Rightarrow> (case named ki_Meta (xi_Name ing) owned of
             None \<Rightarrow> [of_result (scr (xp_Meta xp) (ki_Meta new)) (\<lambda>m. Create (new\<lparr>ki_Meta := m\<rparr>))]
           | Some act \<Rightarrow>
               if ShouldReconcileResource xp (ki_Meta act)
               then [of_result (copy_meta (ki_Meta act) (ki_Meta new)) (\<lambda>m. Update
                 (act\<lparr>ki_Meta := m, ki_TLS := ki_TLS new, ki_Rules := ki_Rules new,
                   ki_DefaultBackend := ki_DefaultBackend new,
                   ki_ClassName := (if ki_ClassName new \<noteq> None then ki_ClassName new else ki_ClassName act)\<rparr>))]
               else [])))"

section \<open>Synchronising carries out the plan\<close>

text \<open>Equations between steps, without the state.\<close>

lemma andThen_assoc: "andThen (andThen m f) g = andThen m (\<lambda>a. andThen (f a) g)"
proof (rule ext)
  fix s show "andThen (andThen m f) g s = andThen m (\<lambda>a. andThen (f a) g) s"
    by (cases "m s"; cases "fst (m s)") (auto simp: andThen_def)
qed

lemma andThen_unit: "andThen m (\<lambda>_ s. (Ok (), s)) = m" for m :: "('s, unit) step"
proof (rule ext)
  fix s show "andThen m (\<lambda>_ s. (Ok (), s)) s = m s"
    by (cases "m s"; cases "fst (m s)") (auto simp: andThen_def)
qed

lemma andThen_pure: "andThen (\<lambda>s. (Ok a, s)) f = f a"
  by (rule ext) (simp add: andThen_def)

lemma andThen_done_ok: "andThen done_ok f = f ()"
  by (rule ext) (simp add: andThen_def done_ok_def)

lemma andThen_when_Ok: "andThen (when_Ok r m) f = when_Ok r (\<lambda>a. andThen (m a) f)"
  by (rule ext) (simp add: andThen_def when_Ok_def split: result.split)

lemma run_calls_eqs:
  "run_calls w C meta key [] = (\<lambda>s. (Ok (), s))"
  "run_calls w C meta key (Create x # cs) =
     andThen (announced w key ActionCreations (om_Name (meta x)) (cl_Create C x)) (\<lambda>_. run_calls w C meta key cs)"
  "run_calls w C meta key (Update x # cs) = andThen (on_xapi (cl_Update C x)) (\<lambda>_. run_calls w C meta key cs)"
  "run_calls w C meta key (Delete x # cs) =
     andThen (announced w key ActionDeletions (om_Name (meta x)) (cl_Delete C x)) (\<lambda>_. run_calls w C meta key cs)"
  "run_calls w C meta key (Stop e # cs) = (\<lambda>c. (Err e, c))"
  "run_calls w C meta key (Crash p # cs) = (\<lambda>c. (Panic p, c))"
  by (rule ext, simp)+

declare run_calls.simps [simp del]

lemma run_calls_append:
  "run_calls w C meta key (xs @ ys) = andThen (run_calls w C meta key xs) (\<lambda>_. run_calls w C meta key ys)"
proof (induction xs)
  case Nil
  then show ?case by (simp add: run_calls_eqs andThen_pure)
next
  case (Cons x xs)
  have stop: "andThen (\<lambda>c. (Err e, c)) f = (\<lambda>c. (Err e, c))" "andThen (\<lambda>c. (Panic p, c)) f = (\<lambda>c. (Panic p, c))"
    for e p and f :: "unit \<Rightarrow> ('a ExternalProxyReconciler, unit) step" by (rule ext, simp add: andThen_def)+
  show ?case by (cases x) (simp_all add: Cons.IH run_calls_eqs andThen_assoc stop)
qed

lemma run_calls_result:
  "run_calls w C meta key (of_result r f # cs) = when_Ok r (\<lambda>a. run_calls w C meta key (f a # cs))"
  by (rule ext) (simp add: of_result_def when_Ok_def run_calls_eqs split: result.split)

lemma when_Ok_case: "when_Ok r f = (case r of Ok a \<Rightarrow> f a | Err e \<Rightarrow> (\<lambda>s. (Err e, s)) | Panic p \<Rightarrow> (\<lambda>s. (Panic p, s)))"
  by (rule ext) (simp add: when_Ok_def split: result.split)

lemma syncActivatedObject_calls:
  "syncActivatedObject w C meta key name objs a =
     andThen (run_calls w C meta key (others meta name objs))
       (\<lambda>_ c. (Ok (case named meta name objs of Some x \<Rightarrow> Some x | None \<Rightarrow> a), c))"
proof (induction objs arbitrary: a)
  case Nil
  then show ?case by (auto simp: others_def named_def run_calls_eqs andThen_pure)
next
  case (Cons x objs)
  have find: "List.find P (xs @ ys) = (case List.find P xs of None \<Rightarrow> List.find P ys | Some z \<Rightarrow> Some z)"
    for P :: "'b \<Rightarrow> bool" and xs ys by (induction xs) auto
  show ?case
  proof (cases "om_Name (meta x) = name")
    case True
    then have "syncActivatedObject w C meta key name (x # objs) a = syncActivatedObject w C meta key name objs (Some x)"
      by (intro ext) simp
    moreover have "named meta name (x # objs) = Some (case named meta name objs of None \<Rightarrow> x | Some y \<Rightarrow> y)"
      using True by (simp add: named_def find split: option.split)
    ultimately show ?thesis using True by (simp add: Cons.IH others_def split: option.split)
  next
    case False
    then have "syncActivatedObject w C meta key name (x # objs) a =
        andThen (announced w key ActionDeletions (om_Name (meta x)) (cl_Delete C x)) (\<lambda>_. syncActivatedObject w C meta key name objs a)"
      by (intro ext) simp
    moreover have "named meta name (x # objs) = named meta name objs"
      using False by (simp add: named_def find split: option.split)
    ultimately show ?thesis using False by (simp add: Cons.IH others_def run_calls_eqs andThen_assoc)
  qed
qed

lemma delete_all_calls: "delete_all w C meta key objs = run_calls w C meta key (map Delete objs)"
proof (induction objs)
  case Nil
  then show ?case by (intro ext) (simp add: run_calls_eqs)
next
  case (Cons x objs)
  have "delete_all w C meta key (x # objs) =
      andThen (announced w key ActionDeletions (om_Name (meta x)) (cl_Delete C x)) (\<lambda>_. delete_all w C meta key objs)"
    by (intro ext) simp
  with Cons.IH show ?case by (simp add: run_calls_eqs)
qed

lemma sync_slices_calls:
  assumes "distinct (map slice_name wants)" and "distinct (map fst index)"
  shows "sync_slices A key xp owner wants index =
    andThen (run_calls WEndpoints (xa_Slices A) kl_Meta key (slices_calls (xa_SetControllerReference A) xp owner wants index))
      (\<lambda>_ c. (Ok (slices_left wants index), c))"
  using assms
proof (induction wants arbitrary: index)
  case Nil
  then show ?case by (intro ext) (simp add: slices_left_def run_calls_eqs andThen_pure)
next
  case (Cons want ds)
  let ?n = "slice_name want"
  show ?case
  proof (cases "map_of index ?n")
    case None
    then have e: "sync_slices A key xp owner (want # ds) index = andThen
            (when_Ok (xa_SetControllerReference A (ks_Meta owner) (kl_Meta want)) (\<lambda>m.
               announced WEndpoints key ActionCreations (om_Name m) (cl_Create (xa_Slices A) (want\<lparr>kl_Meta := m\<rparr>))))
            (\<lambda>_. sync_slices A key xp owner ds index)"
      by (intro ext) simp
    have "slices_left (want # ds) index = slices_left ds index"
      using None by (force simp: slices_left_def map_of_eq_None_iff intro!: filter_cong)
    with None Cons.IH [of index] Cons.prems show ?thesis
      by (simp add: e run_calls_result andThen_when_Ok run_calls_eqs andThen_assoc)
  next
    case (Some old)
    then have e: "sync_slices A key xp owner (want # ds) index = andThen
            (if ShouldReconcileResource xp (kl_Meta old)
             then when_Ok (copy_meta (kl_Meta old) (kl_Meta want)) (\<lambda>m.
               on_xapi (cl_Update (xa_Slices A) (update_slice old m want)))
             else done_ok)
            (\<lambda>_. sync_slices A key xp owner ds (AList.delete ?n index))"
      by (intro ext) simp
    have d: "distinct (map fst (AList.delete ?n index))" using Cons.prems(2) by (simp add: distinct_delete)
    have "slices_left (want # ds) index = slices_left ds (AList.delete ?n index)"
      by (force simp: slices_left_def AList.delete_eq intro!: filter_cong)
    then show ?thesis
      using Some Cons.IH [OF _ d] Cons.prems
      by (simp add: e run_calls_append run_calls_result andThen_when_Ok run_calls_eqs andThen_assoc andThen_pure andThen_done_ok)
  qed
qed


lemma distinct_slice_index: "distinct (map fst (slice_index owned))"
proof -
  have "distinct (map fst (fold (\<lambda>sl m. AList.update (slice_name sl) sl m) owned m))"
    if "distinct (map fst m)" for m :: "(string \<times> kEndpointSlice) list"
    using that by (induction owned arbitrary: m) (auto intro: AList.distinct_update)
  then show ?thesis by (simp add: slice_index_def)
qed

lemma distinct_NewEndpointSlices: "distinct (map slice_name (NewEndpointSlices xp))"
proof -
  have "map slice_name (NewEndpointSlices xp) = map slice_name (backends_slices xp 0 (xp_Backends xp))"
    by (simp add: NewEndpointSlices_def slice_name_def)
  then show ?thesis by (simp only: distinct_backends_slices)
qed

lemma activated_named:
  "(if owned = [] then None else case named meta n owned of None \<Rightarrow> None | Some x \<Rightarrow> Some x) = named meta n owned"
  by (auto simp: named_def split: option.split)

lemma SyncService_plan:
  "SyncService A key xp = andThen (listOwned (xa_Services A) ks_Meta (xp_Meta xp)) (\<lambda>owned.
     run_calls WService (xa_Services A) ks_Meta key (service_plan (xa_SetControllerReference A) xp owned))"
proof -
  have unit: "done_ok = run_calls WService (xa_Services A) ks_Meta key []"
    by (rule ext) (simp add: done_ok_def run_calls_eqs)
  show ?thesis
    unfolding SyncService_def listOwnedServices_def syncActivatedObject_calls andThen_assoc andThen_pure
    by (rule arg_cong [where f = "andThen _"], rule ext)
      (simp add: service_plan_def run_calls_append Let_def activated_named unit run_calls_result run_calls_eqs andThen_unit
        split: option.split)
qed

lemma SyncEndpointSlices_plan:
  "SyncEndpointSlices A ord key xp =
     andThen (on_xapi (cl_Get (xa_Services A) (ServiceKey xp))) (\<lambda>owner.
       andThen (listOwned (xa_Slices A) kl_Meta (ks_Meta owner)) (\<lambda>owned.
         run_calls WEndpoints (xa_Slices A) kl_Meta key (slices_plan (xa_SetControllerReference A) ord xp owner owned)))"
  by (simp add: SyncEndpointSlices_def ep_listOwnedEndpointSlices_def sync_slices_calls distinct_slice_index distinct_NewEndpointSlices
      andThen_assoc andThen_pure delete_all_calls slices_plan_def run_calls_append)

lemma SyncIngress_plan:
  "SyncIngress A key xp = andThen (listOwned (xa_Ingresses A) ki_Meta (xp_Meta xp)) (\<lambda>owned.
     run_calls WIngress (xa_Ingresses A) ki_Meta key (ingress_plan (xa_SetControllerReference A) xp owned))"
proof -
  have unit: "done_ok = run_calls WIngress (xa_Ingresses A) ki_Meta key []"
    by (rule ext) (simp add: done_ok_def run_calls_eqs)
  show ?thesis
    unfolding SyncIngress_def listOwnedIngresses_def syncActivatedObject_calls andThen_assoc andThen_pure
    by (rule arg_cong [where f = "andThen _"], rule ext)
      (simp add: ingress_plan_def run_calls_append activated_named unit run_calls_result run_calls_eqs andThen_unit
        delete_all_calls when_Ok_case split: option.split result.split)
qed



section \<open>Announcements\<close>

fun announces :: "ControllerKey \<Rightarrow> ('o \<Rightarrow> objectMeta) \<Rightarrow> 'o call \<Rightarrow> (ControllerKey \<times> ControllerAction \<times> string) set" where
  "announces key meta (Create x) = {(key, ActionCreations, om_Name (meta x))}"
| "announces key meta (Delete x) = {(key, ActionDeletions, om_Name (meta x))}"
| "announces key meta _ = {}"

definition pending_of :: "watched \<Rightarrow> 'k ExternalProxyReconciler \<Rightarrow> (ControllerKey \<times> ControllerAction \<times> string) set" where
  "pending_of w c = pending (xr_expectations c w)"

lemma on_xapi_expectations: "on_xapi f c = (r, c') \<Longrightarrow> xr_expectations c' = xr_expectations c"
  by (auto simp: on_xapi_def split: prod.splits)

lemma upd_exp_simps [simp]:
  "xr_expectations (upd_exp w f c) w = f (xr_expectations c w)"
  "w' \<noteq> w \<Longrightarrow> xr_expectations (upd_exp w f c) w' = xr_expectations c w'"
  by (simp_all add: upd_exp_def)

lemma announced_outcome:
  assumes "announced w key action name call c = (r, c')"
  shows "(\<forall>w'. w' \<noteq> w \<longrightarrow> pending_of w' c' = pending_of w' c) \<and>
    pending_of w c' = (if \<exists>e. r = Err e then pending_of w c - {(key, action, name)}
      else insert (key, action, name) (pending_of w c))"
proof -
  obtain r1 c1 where call: "on_xapi call (upd_exp w (Expect key action name) c) = (r1, c1)" by fastforce
  note exps = on_xapi_expectations [OF call]
  show ?thesis
    using assms call exps
    by (cases r1) (auto simp: announced_def pending_of_def exp.expect_pending exp.observe_pending)
qed

lemma run_calls_pending:
  assumes "run_calls w C meta key cs c = (r, c')"
  shows "(\<forall>w'. w' \<noteq> w \<longrightarrow> pending_of w' c' = pending_of w' c) \<and>
    (r = Ok () \<longrightarrow> pending_of w c' = pending_of w c \<union> \<Union> (announces key meta ` set cs)) \<and>
    (\<forall>e. r = Err e \<longrightarrow> (\<exists>ran failed rest. cs = ran @ failed # rest \<and>
       pending_of w c' = (pending_of w c \<union> \<Union> (announces key meta ` set ran)) - announces key meta failed))"
  using assms
proof (induction cs arbitrary: c)
  case Nil
  then show ?case by (auto simp: run_calls_eqs)
next
  case (Cons x cs)
  obtain m where run: "run_calls w C meta key (x # cs) c = andThen m (\<lambda>_. run_calls w C meta key cs) c \<or>
      (\<exists>e. m c = (Err e, c) \<and> run_calls w C meta key (x # cs) c = m c) \<or>
      (\<exists>p. m c = (Panic p, c) \<and> run_calls w C meta key (x # cs) c = m c)"
    and step: "\<And>r1 c1. m c = (r1, c1) \<Longrightarrow> (\<forall>w'. w' \<noteq> w \<longrightarrow> pending_of w' c1 = pending_of w' c) \<and>
        pending_of w c1 = (if \<exists>e. r1 = Err e then pending_of w c - announces key meta x
          else pending_of w c \<union> announces key meta x)"
  proof (cases x)
    case (Create y)
    then show ?thesis
      using that [of "announced w key ActionCreations (om_Name (meta y)) (cl_Create C y)"]
        announced_outcome [of w key ActionCreations "om_Name (meta y)" "cl_Create C y" c]
      by (simp add: run_calls_eqs)
  next
    case (Update y)
    then show ?thesis
      using that [of "on_xapi (cl_Update C y)"] on_xapi_expectations [of "cl_Update C y" c]
      by (simp add: run_calls_eqs pending_of_def)
  next
    case (Delete y)
    then show ?thesis
      using that [of "announced w key ActionDeletions (om_Name (meta y)) (cl_Delete C y)"]
        announced_outcome [of w key ActionDeletions "om_Name (meta y)" "cl_Delete C y" c]
      by (simp add: run_calls_eqs)
  next
    case (Stop e)
    then show ?thesis using that [of "\<lambda>c. (Err e, c)"] by (simp add: run_calls_eqs)
  next
    case (Crash p)
    then show ?thesis using that [of "\<lambda>c. (Panic p, c)"] by (simp add: run_calls_eqs)
  qed
  obtain r1 c1 where m: "m c = (r1, c1)" by fastforce
  note step = step [OF m]
  have stopped: "(\<exists>ran failed rest. x # cs = ran @ failed # rest \<and>
       pending_of w c1 = (pending_of w c \<union> \<Union> (announces key meta ` set ran)) - announces key meta failed)"
    if "r1 = Err e" for e
    using step that by (intro exI [of _ "[]"] exI [of _ x] exI [of _ cs]) simp
  show ?case
  proof (cases "\<exists>a. r1 = Ok a \<and> run_calls w C meta key (x # cs) c = andThen m (\<lambda>_. run_calls w C meta key cs) c")
    case False
    then have "r = r1" "c' = c1" "r1 \<noteq> Ok ()"
      using run m Cons.prems by (cases r1; auto simp: andThen_def)+
    then show ?thesis using step stopped by blast
  next
    case True
    then have rest: "run_calls w C meta key cs c1 = (r, c')" using m Cons.prems by (auto simp: andThen_def)
    have first: "pending_of w c1 = pending_of w c \<union> announces key meta x" using step True by auto
    note IH = Cons.IH [OF rest]
    have "\<exists>ran failed rest. x # cs = ran @ failed # rest \<and>
       pending_of w c' = (pending_of w c \<union> \<Union> (announces key meta ` set ran)) - announces key meta failed"
      if e: "r = Err e" for e
    proof -
      obtain ran failed rest where "cs = ran @ failed # rest"
        "pending_of w c' = (pending_of w c1 \<union> \<Union> (announces key meta ` set ran)) - announces key meta failed"
        using IH e by blast
      then show ?thesis using first by (intro exI [of _ "x # ran"] exI [of _ failed] exI [of _ rest]) auto
    qed
    then show ?thesis using IH step first by auto
  qed
qed

end
