(* ===== verification/EpConverge.thy ===== *)
theory EpConverge
  imports EpFacts
begin

text \<open>
  Convergence of the ExternalProxy controller: once a plan has been carried out, the plan made from what
  is then listed is empty. Carrying out a plan is its effect on the list of owned objects; the next list
  may differ from it in anything but the names and revisions of the objects.
\<close>

section \<open>The effect of a plan\<close>

fun apply_call :: "('o \<Rightarrow> objectMeta) \<Rightarrow> 'o call \<Rightarrow> 'o list \<Rightarrow> 'o list" where
  "apply_call meta (Create x) objs = objs @ [x]"
| "apply_call meta (Update x) objs = map (\<lambda>y. if om_Name (meta y) = om_Name (meta x) then x else y) objs"
| "apply_call meta (Delete x) objs = filter (\<lambda>y. om_Name (meta y) \<noteq> om_Name (meta x)) objs"
| "apply_call meta _ objs = objs"

definition apply_calls :: "('o \<Rightarrow> objectMeta) \<Rightarrow> 'o call list \<Rightarrow> 'o list \<Rightarrow> 'o list" where
  "apply_calls meta calls objs = fold (apply_call meta) calls objs"

fun succeeds :: "'o call \<Rightarrow> bool" where
  "succeeds (Stop e) = False"
| "succeeds (Crash p) = False"
| "succeeds _ = True"

definition same_revisions :: "('o \<Rightarrow> objectMeta) \<Rightarrow> 'o list \<Rightarrow> 'o list \<Rightarrow> bool" where
  "same_revisions meta xs ys \<longleftrightarrow>
     (let view = (\<lambda>x. (om_Name (meta x), map_get (om_Annotations (meta x)) ExternalProxyRevisionAnnotationKey)) in
      view ` set xs = view ` set ys)"

text \<open>\<open>ctrl.SetControllerReference\<close> changes the owner references and nothing else of the metadata.\<close>

definition only_references :: "set_reference \<Rightarrow> bool" where
  "only_references scr \<longleftrightarrow> (\<forall>m n m'. scr m n = Ok m' \<longrightarrow> om_Name m' = om_Name n \<and> om_Annotations m' = om_Annotations n)"

text \<open>An object is stamped when its annotations hold the revision of the ExternalProxy.\<close>

definition stamped :: "ExternalProxy \<Rightarrow> objectMeta \<Rightarrow> bool" where
  "stamped xp m \<longleftrightarrow> (\<exists>kvs. om_Annotations m = Some kvs \<and> distinct (map fst kvs) \<and>
     map_of kvs ExternalProxyRevisionAnnotationKey = Some (FormatInt (om_Generation (xp_Meta xp))))"

definition names_of :: "('o \<Rightarrow> objectMeta) \<Rightarrow> 'o list \<Rightarrow> string set" where
  "names_of meta objs = (\<lambda>x. om_Name (meta x)) ` set objs"

definition current :: "ExternalProxy \<Rightarrow> ('o \<Rightarrow> objectMeta) \<Rightarrow> 'o list \<Rightarrow> bool" where
  "current xp meta objs \<longleftrightarrow> (\<forall>x \<in> set objs. \<not> ShouldReconcileResource xp (meta x))"

lemma same_revisions_current:
  assumes "same_revisions meta xs ys" "current xp meta ys"
  shows "current xp meta xs" "names_of meta xs = names_of meta ys"
proof -
  let ?view = "\<lambda>x. (om_Name (meta x), map_get (om_Annotations (meta x)) ExternalProxyRevisionAnnotationKey)"
  have v: "?view ` set xs = ?view ` set ys" using assms(1) by (simp add: same_revisions_def Let_def)
  show "current xp meta xs"
    unfolding current_def
  proof
    fix x assume "x \<in> set xs"
    then have "?view x \<in> ?view ` set ys" using v by blast
    then obtain y where "y \<in> set ys" "?view x = ?view y" by blast
    with assms(2) show "\<not> ShouldReconcileResource xp (meta x)" by (simp add: current_def ShouldReconcileResource_def)
  qed
  have "fst ` ?view ` set xs = fst ` ?view ` set ys" by (simp only: v)
  then show "names_of meta xs = names_of meta ys" by (simp add: names_of_def image_image)
qed

lemma apply_deletes:
  "apply_calls meta (map Delete ds) objs = filter (\<lambda>y. om_Name (meta y) \<notin> names_of meta ds) objs"
  by (induction ds arbitrary: objs) (auto simp: apply_calls_def names_of_def intro!: filter_cong)

lemma apply_calls_append: "apply_calls meta (c1 @ c2) objs = apply_calls meta c2 (apply_calls meta c1 objs)"
  by (simp add: apply_calls_def)

lemma apply_others: "apply_calls meta (others meta n objs) objs = filter (\<lambda>x. om_Name (meta x) = n) objs"
  unfolding others_def apply_deletes names_of_def by (intro filter_cong) auto

lemma succeeds_of_result: "succeeds (of_result r f) \<Longrightarrow> \<exists>a. r = Ok a \<and> of_result r f = f a"
  by (cases r) (simp_all add: of_result_def)

section \<open>Revisions\<close>

lemma fold_update_keep:
  "k \<notin> fst ` set kvs \<Longrightarrow> map_of (fold (\<lambda>(k, v). AList.update k v) kvs d) k = map_of d k"
  by (induction kvs arbitrary: d) (auto simp: update_conv')

lemma fold_update_get:
  "distinct (map fst kvs) \<Longrightarrow> map_of kvs k = Some v \<Longrightarrow> map_of (fold (\<lambda>(k, v). AList.update k v) kvs d) k = Some v"
proof (induction kvs arbitrary: d)
  case (Cons a kvs)
  obtain a1 a2 where a: "a = (a1, a2)" by fastforce
  show ?case
  proof (cases "k = a1")
    case True
    with Cons.prems show ?thesis by (auto simp: a update_conv' fold_update_keep)
  next
    case False
    with Cons show ?thesis by (simp add: a)
  qed
qed simp

lemma copy_meta_current:
  assumes "copy_meta old new = Ok m'" "stamped xp new"
  shows "\<not> ShouldReconcileResource xp m'" "om_Name m' = om_Name old"
proof -
  obtain kvs where kvs: "om_Annotations new = Some kvs" "distinct (map fst kvs)"
    "map_of kvs ExternalProxyRevisionAnnotationKey = Some (FormatInt (om_Generation (xp_Meta xp)))"
    using assms(2) by (auto simp: stamped_def)
  then have "kvs \<noteq> []" by auto
  then have copy: "\<exists>d. as = Some (fold (\<lambda>(k, v). AList.update k v) kvs d)" if "maps_Copy dst (Some kvs) = Ok as" for dst as
    using that by (cases kvs; cases dst) (auto simp: maps_Copy_def)
  obtain as ls where as: "maps_Copy (om_Annotations old) (Some kvs) = Ok as" and m': "m' = old\<lparr>om_Labels := ls, om_Annotations := as\<rparr>"
    using assms(1) kvs(1) by (auto simp: copy_meta_def elim!: andRes_OkE)
  obtain d where "m' = old\<lparr>om_Labels := ls, om_Annotations := Some (fold (\<lambda>(k, v). AList.update k v) kvs d)\<rparr>"
    using copy [OF as] m' by blast
  then show "\<not> ShouldReconcileResource xp m'" "om_Name m' = om_Name old"
    using fold_update_get [OF kvs(2, 3)] by (simp_all add: ShouldReconcileResource_def map_get_def)
qed

lemma stamped_current: "stamped xp m \<Longrightarrow> \<not> ShouldReconcileResource xp m"
  by (auto simp: stamped_def ShouldReconcileResource_def map_get_def)

lemma reference_current:
  assumes "only_references scr" "scr o' m = Ok m'" "stamped xp m"
  shows "\<not> ShouldReconcileResource xp m'" "om_Name m' = om_Name m"
  using assms stamped_current [of xp m] unfolding only_references_def by (auto simp: ShouldReconcileResource_def)

lemma stamped_inject:
  "distinct (map fst (case om_Annotations m of None \<Rightarrow> [] | Some a \<Rightarrow> a)) \<Longrightarrow> stamped xp (InjectExternalProxyRevision xp m)"
  by (auto simp: stamped_def InjectExternalProxyRevision_def Let_def update_conv' intro: AList.distinct_update)

section \<open>Plans that keep one object\<close>

text \<open>The service and the ingress: delete the others, create the one missing, update the one outdated.\<close>

definition one_plan :: "ExternalProxy \<Rightarrow> ('o \<Rightarrow> objectMeta) \<Rightarrow> string \<Rightarrow> 'o call \<Rightarrow> ('o \<Rightarrow> 'o call) \<Rightarrow> 'o list \<Rightarrow> 'o call list" where
  "one_plan xp meta n create update owned = others meta n owned @
     (case named meta n owned of
        None \<Rightarrow> [create]
      | Some act \<Rightarrow> if ShouldReconcileResource xp (meta act) then [update act] else [])"

lemma named_eq_None: "named meta n objs = None \<longleftrightarrow> n \<notin> names_of meta objs"
  by (auto simp: named_def find_None_iff names_of_def)

lemma named_Some: "named meta n objs = Some x \<Longrightarrow> x \<in> set objs \<and> om_Name (meta x) = n"
  by (auto simp: named_def find_Some_iff) (metis nth_mem length_rev set_rev)

lemma one_plan_settled:
  assumes "names_of meta objs = {n}" "current xp meta objs"
  shows "one_plan xp meta n create update objs = []"
proof -
  have "others meta n objs = []" using assms(1) by (auto simp: others_def names_of_def filter_empty_conv)
  moreover obtain act where "named meta n objs = Some act" using assms(1) named_eq_None [of meta n objs] by fastforce
  ultimately show ?thesis using assms(2) named_Some [of meta n objs] by (auto simp: one_plan_def current_def)
qed

lemma one_plan_applied:
  assumes ok: "\<forall>c \<in> set (one_plan xp meta n create update owned). succeeds c"
    and uniq: "distinct (map (\<lambda>x. om_Name (meta x)) owned)"
    and create: "succeeds create \<Longrightarrow> \<exists>x. create = Create x \<and> \<not> ShouldReconcileResource xp (meta x) \<and> om_Name (meta x) = n"
    and update: "\<And>act. succeeds (update act) \<Longrightarrow>
      \<exists>x. update act = Update x \<and> \<not> ShouldReconcileResource xp (meta x) \<and> om_Name (meta x) = om_Name (meta act)"
  shows "names_of meta (apply_calls meta (one_plan xp meta n create update owned) owned) = {n} \<and>
    current xp meta (apply_calls meta (one_plan xp meta n create update owned) owned)"
proof (cases "named meta n owned")
  case None
  then have e: "one_plan xp meta n create update owned = others meta n owned @ [create]" by (simp add: one_plan_def)
  obtain x where x: "create = Create x" "\<not> ShouldReconcileResource xp (meta x)" "om_Name (meta x) = n" using ok create by (auto simp: e)
  have "filter (\<lambda>x. om_Name (meta x) = n) owned = []" using None by (auto simp: named_eq_None names_of_def filter_empty_conv)
  then have "apply_calls meta (one_plan xp meta n create update owned) owned = [x]"
    unfolding e apply_calls_append apply_others by (simp add: x apply_calls_def)
  then show ?thesis using x by (simp add: names_of_def current_def)
next
  case (Some act)
  note act = named_Some [OF this]
  have only: "y = act" if "y \<in> set owned" "om_Name (meta y) = n" for y
    using that act uniq by (auto simp: distinct_map inj_on_def)
  show ?thesis
  proof (cases "ShouldReconcileResource xp (meta act)")
    case True
    with Some have e: "one_plan xp meta n create update owned = others meta n owned @ [update act]" by (simp add: one_plan_def)
    obtain x where "update act = Update x" "\<not> ShouldReconcileResource xp (meta x)" "om_Name (meta x) = n" using ok update [of act] act by (auto simp: e)
    then show ?thesis
      using act only unfolding e apply_calls_append apply_others by (auto simp: apply_calls_def names_of_def current_def)
  next
    case False
    with Some have "one_plan xp meta n create update owned = others meta n owned" by (simp add: one_plan_def)
    then show ?thesis using act only False by (auto simp: apply_others names_of_def current_def)
  qed
qed

section \<open>Plans that keep the wanted slices\<close>

definition want_calls :: "set_reference \<Rightarrow> ExternalProxy \<Rightarrow> kService \<Rightarrow> (string \<times> kEndpointSlice) list \<Rightarrow> kEndpointSlice \<Rightarrow>
    kEndpointSlice call list" where
  "want_calls scr xp owner index want = (case map_of index (slice_name want) of
      Some old \<Rightarrow> if ShouldReconcileResource xp (kl_Meta old)
        then [of_result (copy_meta (kl_Meta old) (kl_Meta want)) (\<lambda>m. Update (update_slice old m want))] else []
    | None \<Rightarrow> [of_result (scr (ks_Meta owner) (kl_Meta want)) (\<lambda>m. Create (want\<lparr>kl_Meta := m\<rparr>))])"

lemma slices_calls_concat:
  "distinct (map slice_name wants) \<Longrightarrow> slices_calls scr xp owner wants index = concat (map (want_calls scr xp owner index) wants)"
proof (induction wants arbitrary: index)
  case (Cons want ds)
  have "want_calls scr xp owner (AList.delete (slice_name want) index) w = want_calls scr xp owner index w" if "w \<in> set ds" for w
  proof -
    have "slice_name want \<notin> slice_name ` set ds" using Cons.prems by simp
    then have "slice_name w \<noteq> slice_name want" using that by (metis imageI)
    then show ?thesis by (simp add: want_calls_def delete_conv')
  qed
  then have "map (want_calls scr xp owner (AList.delete (slice_name want) index)) ds = map (want_calls scr xp owner index) ds" by simp
  then have d: "concat (map (want_calls scr xp owner (AList.delete (slice_name want) index)) ds) =
      concat (map (want_calls scr xp owner index) ds)" by (simp only:)
  have "slices_calls scr xp owner (want # ds) index = want_calls scr xp owner index want @
      slices_calls scr xp owner ds (if map_of index (slice_name want) = None then index else AList.delete (slice_name want) index)"
    by (simp add: want_calls_def split: option.split)
  moreover have "slices_calls scr xp owner ds i = concat (map (want_calls scr xp owner i) ds)" for i
    using Cons by simp
  ultimately show ?case by (simp only: d if_distrib [of "slices_calls scr xp owner ds"] list.map concat.simps) (simp add: d)
qed simp

lemma slice_index_get:
  assumes "distinct (map slice_name owned)"
  shows "map_of (slice_index owned) n = Some sl \<longleftrightarrow> sl \<in> set owned \<and> slice_name sl = n"
proof -
  have "map_of (fold (\<lambda>sl m. AList.update (slice_name sl) sl m) owned m) n = Some sl \<longleftrightarrow>
      (sl \<in> set owned \<and> slice_name sl = n) \<or> (n \<notin> slice_name ` set owned \<and> map_of m n = Some sl)" for m
    using assms
  proof (induction owned arbitrary: m)
    case (Cons x owned)
    then have IH: "map_of (fold (\<lambda>sl m. AList.update (slice_name sl) sl m) owned (AList.update (slice_name x) x m)) n = Some sl \<longleftrightarrow>
      (sl \<in> set owned \<and> slice_name sl = n) \<or>
      (n \<notin> slice_name ` set owned \<and> map_of (AList.update (slice_name x) x m) n = Some sl)" by simp
    have "slice_name x \<notin> slice_name ` set owned" using Cons.prems by simp
    then show ?case unfolding fold_Cons o_apply IH by (auto simp: update_conv')
  qed simp
  then show ?thesis by (simp add: slice_index_def)
qed

lemma slice_index_None:
  assumes "distinct (map slice_name owned)"
  shows "map_of (slice_index owned) n = None \<longleftrightarrow> n \<notin> names_of kl_Meta owned"
proof -
  have "map_of (slice_index owned) n = None \<longleftrightarrow> (\<forall>sl. map_of (slice_index owned) n \<noteq> Some sl)" by simp
  then show ?thesis unfolding slice_index_get [OF assms] by (auto simp: names_of_def slice_name_def)
qed

lemma slice_index_set:
  assumes "distinct (map slice_name owned)"
  shows "set (slice_index owned) = (\<lambda>sl. (slice_name sl, sl)) ` set owned"
proof -
  have "p \<in> set (slice_index owned) \<longleftrightarrow> snd p \<in> set owned \<and> slice_name (snd p) = fst p" for p
    using slice_index_get [OF assms, of "fst p" "snd p"] map_of_eq_Some_iff [OF distinct_slice_index, of owned "fst p" "snd p"] by simp
  then show ?thesis by auto
qed

text \<open>Creating and updating: what is there afterwards.\<close>

lemma apply_upserts_names:
  "\<forall>c \<in> set cs. \<exists>x. c = Create x \<or> c = Update x \<Longrightarrow>
     names_of meta (apply_calls meta cs objs) = names_of meta objs \<union> {om_Name (meta x) | x. Create x \<in> set cs}"
proof (induction cs arbitrary: objs)
  case (Cons c cs)
  have "names_of meta (apply_call meta c objs) = names_of meta objs \<union> {om_Name (meta x) | x. c = Create x}"
  proof (cases c)
    case (Update x)
    have "names_of meta (map (\<lambda>y. if om_Name (meta y) = om_Name (meta x) then x else y) objs) = names_of meta objs"
      unfolding names_of_def set_map image_image by (intro image_cong refl) simp
    with Update show ?thesis by simp
  qed (use Cons.prems in \<open>auto simp: names_of_def\<close>)
  with Cons show ?case by (auto simp: apply_calls_def)
qed (simp add: apply_calls_def)

lemma apply_upserts_objects:
  "y \<in> set (apply_calls meta cs objs) \<Longrightarrow>
     Create y \<in> set cs \<or> Update y \<in> set cs \<or> (y \<in> set objs \<and> (\<forall>x. Update x \<in> set cs \<longrightarrow> om_Name (meta x) \<noteq> om_Name (meta y)))"
proof (induction cs arbitrary: objs)
  case (Cons c cs)
  have "y \<in> set (apply_calls meta cs (apply_call meta c objs))" using Cons.prems by (simp add: apply_calls_def)
  from Cons.IH [OF this] show ?case by (cases c) (auto split: if_splits)
qed (simp add: apply_calls_def)

text \<open>A wanted slice is created or updated so that it is current; one that is current already is left alone.\<close>

lemma want_call_current:
  assumes "only_references scr" "stamped xp (kl_Meta want)" "c \<in> set (want_calls scr xp owner (slice_index owned) want)" "succeeds c"
    and "distinct (map slice_name owned)"
  shows "\<exists>x. \<not> ShouldReconcileResource xp (kl_Meta x) \<and> slice_name x = slice_name want \<and>
    c = (if slice_name want \<in> names_of kl_Meta owned then Update x else Create x)"
proof (cases "map_of (slice_index owned) (slice_name want)")
  case None
  then have "slice_name want \<notin> names_of kl_Meta owned"
    using assms(5) by (simp add: slice_index_None)
  moreover obtain m where "scr (ks_Meta owner) (kl_Meta want) = Ok m" "c = Create (want\<lparr>kl_Meta := m\<rparr>)"
    using None assms(3, 4) succeeds_of_result by (fastforce simp: want_calls_def)
  ultimately show ?thesis using reference_current [OF assms(1) _ assms(2)] by (auto simp: slice_name_def)
next
  case (Some old)
  then have old: "old \<in> set owned" "slice_name old = slice_name want"
    using assms(5) by (simp_all add: slice_index_get)
  have "slice_name want \<in> names_of kl_Meta owned" using Some slice_index_None [OF assms(5), of "slice_name want"] by simp
  moreover obtain m where "copy_meta (kl_Meta old) (kl_Meta want) = Ok m" "c = Update (update_slice old m want)"
    using Some assms(3, 4) succeeds_of_result by (fastforce simp: want_calls_def split: if_splits)
  ultimately show ?thesis
    using copy_meta_current [OF _ assms(2)] old by (auto simp: slice_name_def update_slice_def)
qed

text \<open>The hypotheses on the world: names are unique, nothing else is in the order, calls succeed.\<close>

lemma union_between: "A \<subseteq> W \<Longrightarrow> (\<And>n. n \<in> W \<Longrightarrow> n \<in> O' \<union> A) \<Longrightarrow> O' \<union> A = O' \<union> W"
  by blast

lemma slices_applied:
  assumes ok: "\<forall>c \<in> set (slices_plan scr ord xp owner owned). succeeds c"
    and uniq: "distinct (map slice_name owned)"
    and scr: "only_references scr"
    and ord: "\<And>xs. set (ord xs) = set xs"
    and stamp: "\<And>want. want \<in> set (NewEndpointSlices xp) \<Longrightarrow> stamped xp (kl_Meta want)"
  shows "names_of kl_Meta (apply_calls kl_Meta (slices_plan scr ord xp owner owned) owned) = names_of kl_Meta (NewEndpointSlices xp) \<and>
    current xp kl_Meta (apply_calls kl_Meta (slices_plan scr ord xp owner owned) owned)"
proof -
  let ?wants = "NewEndpointSlices xp" and ?index = "slice_index owned"
  let ?W = "names_of kl_Meta ?wants" and ?O = "names_of kl_Meta owned"
  let ?cs = "concat (map (want_calls scr xp owner ?index) ?wants)"
  let ?mid = "apply_calls kl_Meta ?cs owned"
  have plan: "slices_plan scr ord xp owner owned = ?cs @ map Delete (ord (map snd (slices_left ?wants ?index)))"
    by (simp add: slices_plan_def slices_calls_concat distinct_NewEndpointSlices)
  have call: "\<exists>x want. want \<in> set ?wants \<and> \<not> ShouldReconcileResource xp (kl_Meta x) \<and> slice_name x = slice_name want \<and>
      c = (if slice_name want \<in> ?O then Update x else Create x)" if c: "c \<in> set ?cs" for c
  proof -
    obtain want where want: "want \<in> set ?wants" "c \<in> set (want_calls scr xp owner ?index want)" using c by auto
    have "succeeds c" using ok c by (simp add: plan)
    then show ?thesis using want_call_current [OF scr stamp [OF want(1)] want(2) _ uniq] want(1) by blast
  qed
  have left: "names_of kl_Meta (ord (map snd (slices_left ?wants ?index))) = ?O - ?W"
  proof -
    have "set (map snd (slices_left ?wants ?index)) = {sl \<in> set owned. slice_name sl \<notin> ?W}"
      using slice_index_set [OF uniq] by (auto simp: slices_left_def names_of_def slice_name_def image_iff)
    then show ?thesis unfolding names_of_def ord by (auto simp: slice_name_def)
  qed
  have names: "names_of kl_Meta ?mid = ?O \<union> ?W"
  proof -
    have "{om_Name (kl_Meta x) | x. Create x \<in> set ?cs} \<subseteq> ?W"
      using call by (force simp: slice_name_def names_of_def split: if_splits)
    moreover have "n \<in> ?O \<union> {om_Name (kl_Meta x) | x. Create x \<in> set ?cs}" if n: "n \<in> ?W" for n
    proof (cases "n \<in> ?O")
      case False
      obtain want where want: "want \<in> set ?wants" "slice_name want = n" using n by (auto simp: names_of_def slice_name_def)
      then have "map_of ?index (slice_name want) = None" using False slice_index_None [OF uniq] by simp
      then obtain c where c: "c \<in> set (want_calls scr xp owner ?index want)" by (auto simp: want_calls_def)
      then have "c \<in> set ?cs" using want(1) by auto
      then have "succeeds c" using ok by (simp add: plan)
      then obtain x where "c = Create x" "slice_name x = n"
        using want_call_current [OF scr stamp [OF want(1)] c _ uniq] False want(2) by auto
      with \<open>c \<in> set ?cs\<close> show ?thesis unfolding slice_name_def by blast
    qed simp
    moreover have "\<forall>c \<in> set ?cs. \<exists>x. c = Create x \<or> c = Update x" using call by metis
    ultimately show ?thesis
      using apply_upserts_names [where cs = ?cs and meta = kl_Meta and objs = owned]
        union_between [of "{om_Name (kl_Meta x) | x. Create x \<in> set ?cs}" ?W ?O] by (simp only:)
  qed
  have mid: "\<not> ShouldReconcileResource xp (kl_Meta y)" if y: "y \<in> set ?mid" "slice_name y \<in> ?W" for y
  proof -
    consider "Create y \<in> set ?cs" | "Update y \<in> set ?cs" |
      "y \<in> set owned" "\<And>x. Update x \<in> set ?cs \<Longrightarrow> slice_name x \<noteq> slice_name y"
      using apply_upserts_objects [OF y(1)] by (auto simp: slice_name_def)
    then show ?thesis
    proof cases
      case 3
      obtain want where want: "want \<in> set ?wants" "slice_name want = slice_name y" using y(2) by (auto simp: names_of_def slice_name_def)
      have get: "map_of ?index (slice_name want) = Some y" using 3(1) want(2) slice_index_get [OF uniq] by simp
      show ?thesis
      proof
        assume "ShouldReconcileResource xp (kl_Meta y)"
        then obtain c where c: "c \<in> set (want_calls scr xp owner ?index want)" using get by (auto simp: want_calls_def)
        then have "c \<in> set ?cs" using want(1) by auto
        then have "succeeds c" using ok by (simp add: plan)
        moreover have "slice_name want \<in> ?O" using get slice_index_None [OF uniq, of "slice_name want"] by simp
        ultimately show False
          using want_call_current [OF scr stamp [OF want(1)] c _ uniq] \<open>c \<in> set ?cs\<close> 3(2) want(2) by auto
      qed
    qed (use call in \<open>fastforce split: if_splits\<close>)+
  qed
  have fin: "apply_calls kl_Meta (slices_plan scr ord xp owner owned) owned = filter (\<lambda>y. slice_name y \<notin> ?O - ?W) ?mid"
    unfolding plan apply_calls_append apply_deletes left slice_name_def ..
  have in_mid: "slice_name y \<in> ?O \<union> ?W" if "y \<in> set ?mid" for y
    using that unfolding names [symmetric] by (auto simp: names_of_def slice_name_def)
  have "names_of kl_Meta (filter (\<lambda>y. slice_name y \<notin> ?O - ?W) ?mid) = names_of kl_Meta ?mid - (?O - ?W)"
    by (auto simp: names_of_def slice_name_def)
  then show ?thesis
    using mid in_mid unfolding fin names current_def by auto
qed

section \<open>Convergence\<close>

text \<open>What is listed next when the calls of a plan have been made: the same names with the same revisions.\<close>

lemma slices_settled:
  assumes "names_of kl_Meta owned = names_of kl_Meta (NewEndpointSlices xp)" "current xp kl_Meta owned"
    and uniq: "distinct (map slice_name owned)" and ord: "\<And>xs. set (ord xs) = set xs"
  shows "slices_plan scr ord xp owner owned = []"
proof -
  have none: "want_calls scr xp owner (slice_index owned) want = []" if "want \<in> set (NewEndpointSlices xp)" for want
  proof -
    have "slice_name want \<in> names_of kl_Meta owned" using that assms(1) by (auto simp: names_of_def slice_name_def)
    then obtain sl where sl: "map_of (slice_index owned) (slice_name want) = Some sl" using slice_index_None [OF uniq] by (metis not_None_eq)
    then have "sl \<in> set owned" using slice_index_get [OF uniq] by simp
    then show ?thesis using assms(2) sl by (simp add: want_calls_def current_def)
  qed
  have "slices_left (NewEndpointSlices xp) (slice_index owned) = []"
    using slice_index_set [OF uniq] assms(1)
    by (auto simp: slices_left_def filter_empty_conv names_of_def slice_name_def)
  then have "set (ord (map snd (slices_left (NewEndpointSlices xp) (slice_index owned)))) = {}" by (simp add: ord)
  then show ?thesis
    using none by (simp add: slices_plan_def slices_calls_concat distinct_NewEndpointSlices)
qed

lemma stamped_NewService:
  "distinct (map fst (case xs_Annotations (xp_Service xp) of None \<Rightarrow> [] | Some a \<Rightarrow> a)) \<Longrightarrow> stamped xp (ks_Meta (NewService xp))"
  by (simp add: NewService_def maps_Clone_def stamped_inject)

lemma stamped_label: "stamped xp (kl_Meta (label_slice xp sl)) = stamped xp (kl_Meta sl)"
  by (simp add: stamped_def label_slice_def)

lemma stamped_NewEndpointSlices:
  assumes "want \<in> set (NewEndpointSlices xp)" shows "stamped xp (kl_Meta want)"
proof -
  have "stamped xp (kl_Meta sl)" if "sl \<in> set (backend_slices xp i b)" for sl i b
    using that by (auto simp: backend_slices_def Let_def NewEndpointSliceFromBackend_def stamped_inject split: if_splits)
  then have "stamped xp (kl_Meta sl)" if "sl \<in> set (backends_slices xp i bs)" for sl i bs
    using that by (induction bs arbitrary: i) auto
  then show ?thesis using assms by (auto simp: NewEndpointSlices_def stamped_label)
qed

lemma service_plan_one:
  "service_plan scr xp = one_plan xp ks_Meta (xs_Name (xp_Service xp))
     (of_result (scr (xp_Meta xp) (ks_Meta (NewService xp))) (\<lambda>m. Create (NewService xp\<lparr>ks_Meta := m\<rparr>)))
     (\<lambda>act. of_result (copy_meta (ks_Meta act) (ks_Meta (NewService xp))) (\<lambda>m. Update
       (act\<lparr>ks_Meta := m, ks_Type := xs_Type (xp_Service xp), ks_Ports := xs_Ports (xp_Service xp)\<rparr>)))"
  by (rule ext) (simp add: service_plan_def one_plan_def Let_def)

lemma service_applied:
  assumes "\<forall>c \<in> set (service_plan scr xp owned). succeeds c" "distinct (map (\<lambda>x. om_Name (ks_Meta x)) owned)" "only_references scr"
    and "distinct (map fst (case xs_Annotations (xp_Service xp) of None \<Rightarrow> [] | Some a \<Rightarrow> a))"
  shows "names_of ks_Meta (apply_calls ks_Meta (service_plan scr xp owned) owned) = {xs_Name (xp_Service xp)} \<and>
    current xp ks_Meta (apply_calls ks_Meta (service_plan scr xp owned) owned)"
  unfolding service_plan_one
proof (rule one_plan_applied [OF assms(1) [unfolded service_plan_one] assms(2)], goal_cases)
  case 1
  have "om_Name (ks_Meta (NewService xp)) = xs_Name (xp_Service xp)" by (simp add: NewService_def)
  then show ?case
    using succeeds_of_result [OF 1] reference_current [OF assms(3) _ stamped_NewService [OF assms(4)]] by auto
next
  case (2 act)
  then show ?case
    using succeeds_of_result [OF 2] copy_meta_current [OF _ stamped_NewService [OF assms(4)]] by auto
qed

lemma ingress_plan_one:
  assumes "xp_Ingress xp = Some ing" "NewIngress xp = Ok new"
  shows "ingress_plan scr xp = one_plan xp ki_Meta (xi_Name ing)
     (of_result (scr (xp_Meta xp) (ki_Meta new)) (\<lambda>m. Create (new\<lparr>ki_Meta := m\<rparr>)))
     (\<lambda>act. of_result (copy_meta (ki_Meta act) (ki_Meta new)) (\<lambda>m. Update
       (act\<lparr>ki_Meta := m, ki_TLS := ki_TLS new, ki_Rules := ki_Rules new, ki_DefaultBackend := ki_DefaultBackend new,
         ki_ClassName := (if ki_ClassName new \<noteq> None then ki_ClassName new else ki_ClassName act)\<rparr>)))"
  by (rule ext) (simp add: ingress_plan_def one_plan_def assms del: not_None_eq)

lemma stamped_NewIngress:
  assumes "NewIngress xp = Ok new" "xp_Ingress xp = Some ing"
    and "distinct (map fst (case xi_Annotations ing of None \<Rightarrow> [] | Some a \<Rightarrow> a))"
  shows "stamped xp (ki_Meta new)" "om_Name (ki_Meta new) = xi_Name ing"
  using assms by (auto simp: NewIngress_def maps_Clone_def stamped_inject elim!: andRes_OkE)

lemma ingress_applied:
  assumes "xp_Ingress xp = Some ing" "NewIngress xp = Ok new"
    and "\<forall>c \<in> set (ingress_plan scr xp owned). succeeds c" "distinct (map (\<lambda>x. om_Name (ki_Meta x)) owned)" "only_references scr"
    and "distinct (map fst (case xi_Annotations ing of None \<Rightarrow> [] | Some a \<Rightarrow> a))"
  shows "names_of ki_Meta (apply_calls ki_Meta (ingress_plan scr xp owned) owned) = {xi_Name ing} \<and>
    current xp ki_Meta (apply_calls ki_Meta (ingress_plan scr xp owned) owned)"
  unfolding ingress_plan_one [OF assms(1, 2)]
proof (rule one_plan_applied [OF assms(3) [unfolded ingress_plan_one [OF assms(1, 2)]] assms(4)], goal_cases)
  case 1
  then show ?case
    using succeeds_of_result [OF 1] reference_current [OF assms(5) _ stamped_NewIngress(1) [OF assms(2, 1, 6)]]
      stamped_NewIngress(2) [OF assms(2, 1, 6)] by auto
next
  case (2 act)
  then show ?case
    using succeeds_of_result [OF 2] copy_meta_current [OF _ stamped_NewIngress(1) [OF assms(2, 1, 6)]] by auto
qed

text \<open>
  A list of objects follows a plan that was carried out: every call of the plan succeeded, names are unique
  before and after, and what is listed then has the names and revisions the calls left.
\<close>

definition carried_out :: "('o \<Rightarrow> objectMeta) \<Rightarrow> ('o list \<Rightarrow> 'o call list) \<Rightarrow> 'o list \<Rightarrow> 'o list \<Rightarrow> bool" where
  "carried_out meta plan owned owned' \<longleftrightarrow>
     list_all succeeds (plan owned) \<and>
     distinct (map (\<lambda>x. om_Name (meta x)) owned) \<and> distinct (map (\<lambda>x. om_Name (meta x)) owned') \<and>
     same_revisions meta owned' (apply_calls meta (plan owned) owned)"

definition unique_keys :: "gomap \<Rightarrow> bool" where
  "unique_keys m \<longleftrightarrow> distinct (map fst (case m of None \<Rightarrow> [] | Some kvs \<Rightarrow> kvs))"

lemma service_converges:
  assumes "only_references scr" "unique_keys (xs_Annotations (xp_Service xp))" "carried_out ks_Meta (service_plan scr xp) owned owned'"
  shows "service_plan scr xp owned' = []"
proof -
  let ?after = "apply_calls ks_Meta (service_plan scr xp owned) owned"
  have "names_of ks_Meta ?after = {xs_Name (xp_Service xp)} \<and> current xp ks_Meta ?after"
    using assms by (intro service_applied) (simp_all add: carried_out_def unique_keys_def list_all_iff)
  with assms(3) show ?thesis
    using same_revisions_current [of ks_Meta owned' ?after xp] by (simp add: carried_out_def service_plan_one one_plan_settled)
qed

lemma slices_converge:
  assumes "only_references scr" "\<And>xs. set (ord xs) = set xs" "carried_out kl_Meta (slices_plan scr ord xp owner) owned owned'"
  shows "slices_plan scr ord xp owner owned' = []"
proof -
  let ?after = "apply_calls kl_Meta (slices_plan scr ord xp owner owned) owned"
  have "names_of kl_Meta ?after = names_of kl_Meta (NewEndpointSlices xp) \<and> current xp kl_Meta ?after"
    using assms by (intro slices_applied stamped_NewEndpointSlices) (simp_all add: carried_out_def slice_name_def [abs_def] list_all_iff)
  with assms show ?thesis
    using same_revisions_current [of kl_Meta owned' ?after xp]
    by (intro slices_settled) (simp_all add: carried_out_def slice_name_def [abs_def])
qed

lemma ingress_converges:
  assumes "only_references scr" "\<And>ing. xp_Ingress xp = Some ing \<Longrightarrow> unique_keys (xi_Annotations ing)"
    and co: "carried_out ki_Meta (ingress_plan scr xp) owned owned'"
  shows "ingress_plan scr xp owned' = []"
proof (cases "xp_Ingress xp")
  case None
  have "set (apply_calls ki_Meta (ingress_plan scr xp owned) owned) = {}"
    by (auto simp: ingress_plan_def None apply_deletes names_of_def)
  then have "owned' = []" using co by (auto simp: carried_out_def same_revisions_def Let_def)
  then show ?thesis by (simp add: ingress_plan_def None)
next
  case (Some ing)
  let ?after = "apply_calls ki_Meta (ingress_plan scr xp owned) owned"
  obtain new where new: "NewIngress xp = Ok new"
    using co by (cases "NewIngress xp") (auto simp: carried_out_def ingress_plan_def Some)
  have "names_of ki_Meta ?after = {xi_Name ing} \<and> current xp ki_Meta ?after"
    using co assms(1) assms(2) [OF Some] new Some
    by (intro ingress_applied) (simp_all add: carried_out_def unique_keys_def list_all_iff)
  with co show ?thesis
    using same_revisions_current [of ki_Meta owned' ?after xp]
    by (simp add: carried_out_def ingress_plan_one [OF Some new] one_plan_settled)
qed

text \<open>
  C18: once the plans of a generation of the ExternalProxy have been carried out, the plans made from what
  is listed next are empty: the synchronisations of the service, the slices and the ingress stop making calls.
\<close>

theorem synchronisations_converge:
  assumes "only_references scr" "\<And>xs. set (ord xs) = set xs"
    and "unique_keys (xs_Annotations (xp_Service xp))" "\<And>ing. xp_Ingress xp = Some ing \<Longrightarrow> unique_keys (xi_Annotations ing)"
    and "carried_out ks_Meta (service_plan scr xp) services services'"
    and "carried_out kl_Meta (slices_plan scr ord xp owner) slices slices'"
    and "carried_out ki_Meta (ingress_plan scr xp) ingresses ingresses'"
  shows "service_plan scr xp services' = [] \<and> slices_plan scr ord xp owner slices' = [] \<and> ingress_plan scr xp ingresses' = []"
  using assms service_converges slices_converge ingress_converges by blast

section \<open>Witness\<close>

text \<open>Everything is created from nothing; then nothing is left to do.\<close>

lemma create_all:
  "slices_plan (\<lambda>_. Ok) id xp owner [] = map Create (NewEndpointSlices xp)"
proof -
  have "slices_calls (\<lambda>_. Ok) xp owner wants [] = map Create wants" for wants
    by (induction wants) (simp_all add: of_result_def)
  then show ?thesis by (simp add: slices_plan_def slices_left_def slice_index_def)
qed

lemma apply_creates: "apply_calls meta (map Create xs) objs = objs @ xs"
  by (induction xs arbitrary: objs) (simp_all add: apply_calls_def)

definition calm_proxy :: ExternalProxy where
  "calm_proxy = (demo_proxy 1)\<lparr>xp_Ingress := Some (demo_ingress\<lparr>xi_Rules := []\<rparr>)\<rparr>"

lemma NewIngress_calm: "\<exists>new. NewIngress calm_proxy = Ok new"
  by (simp add: NewIngress_def calm_proxy_def demo_proxy_def demo_ingress_def)

lemma synchronisations_converge_witness:
  "service_plan (\<lambda>_. Ok) calm_proxy [NewService calm_proxy] = [] \<and>
   slices_plan (\<lambda>_. Ok) id calm_proxy (NewService calm_proxy) (NewEndpointSlices calm_proxy) = [] \<and>
   ingress_plan (\<lambda>_. Ok) calm_proxy (case NewIngress calm_proxy of Ok new \<Rightarrow> [new] | _ \<Rightarrow> []) = []"
proof (rule synchronisations_converge [where services = "[]" and slices = "[]" and ingresses = "[]"])
  show "carried_out ks_Meta (service_plan (\<lambda>_. Ok) calm_proxy) [] [NewService calm_proxy]"
    by (simp add: carried_out_def service_plan_def others_def named_def of_result_def same_revisions_def apply_calls_def)
  show "carried_out kl_Meta (slices_plan (\<lambda>_. Ok) id calm_proxy (NewService calm_proxy)) [] (NewEndpointSlices calm_proxy)"
    using distinct_NewEndpointSlices [of calm_proxy]
    by (simp add: carried_out_def create_all apply_creates same_revisions_def list_all_iff slice_name_def [abs_def])
  have ing: "\<exists>ing. xp_Ingress calm_proxy = Some ing" by (simp add: calm_proxy_def)
  show "carried_out ki_Meta (ingress_plan (\<lambda>_. Ok) calm_proxy) [] (case NewIngress calm_proxy of Ok new \<Rightarrow> [new] | _ \<Rightarrow> [])"
    using NewIngress_calm ing
    by (auto simp: carried_out_def ingress_plan_def others_def named_def of_result_def same_revisions_def apply_calls_def)
qed (simp_all add: only_references_def calm_proxy_def demo_ingress_def demo_proxy_def unique_keys_def)

end
