(* ===== verification/EpBounds.thy ===== *)
theory EpBounds
  imports EpFacts
begin

text \<open>
  The delays after which the ExternalProxy controller asks to be run again: how they are bounded, and which
  caches a synchronisation leaves alone.
\<close>

section \<open>The caches of the other kinds\<close>

definition leaves :: "watched \<Rightarrow> ('k ExternalProxyReconciler, 'a) step \<Rightarrow> bool" where
  "leaves w m \<longleftrightarrow> (\<forall>c. xr_expectations (snd (m c)) w = xr_expectations c w)"

named_theorems leaves_rules

lemma leaves_then [leaves_rules]:
  assumes "leaves w m" "\<And>a. leaves w (f a)"
  shows "leaves w (andThen m f)"
  unfolding leaves_def
proof
  fix c
  obtain r c1 where e: "m c = (r, c1)" by fastforce
  then have "xr_expectations c1 w = xr_expectations c w" using assms(1) unfolding leaves_def by (metis snd_conv)
  then show "xr_expectations (snd (andThen m f c)) w = xr_expectations c w"
    using assms(2) e by (cases r) (auto simp: andThen_def leaves_def)
qed

lemma leaves_api [leaves_rules]: "leaves w (on_xapi m)"
  by (auto simp: leaves_def on_xapi_def split: prod.split)

lemma leaves_announced [leaves_rules]:
  assumes "w' \<noteq> w"
  shows "leaves w (announced w' key action name call)"
  unfolding leaves_def
proof
  fix c
  obtain r c1 where e: "on_xapi call (upd_exp w' (Expect key action name) c) = (r, c1)" by fastforce
  then show "xr_expectations (snd (announced w' key action name call c)) w = xr_expectations c w"
    using assms on_xapi_expectations [OF e] by (cases r) (auto simp: announced_def)
qed

lemma leaves_pure [leaves_rules]: "leaves w (\<lambda>c. (r, c))"
  by (simp add: leaves_def)

lemma leaves_run_calls [leaves_rules]: "w' \<noteq> w \<Longrightarrow> leaves w (run_calls w' C meta key cs)"
proof (induction cs)
  case Nil
  show ?case unfolding run_calls_eqs by (rule leaves_pure)
next
  case (Cons x cs)
  then show ?case by (cases x) (simp_all only: run_calls_eqs, auto intro!: leaves_rules)
qed

lemma leaves_listOwned [leaves_rules]: "leaves w (listOwned C meta owner)"
  unfolding listOwned_def by (intro leaves_rules)

lemma leaves_syncs [leaves_rules]:
  "w \<noteq> WService \<Longrightarrow> leaves w (SyncService A key xp)"
  "w \<noteq> WEndpoints \<Longrightarrow> leaves w (SyncEndpointSlices A ord key xp)"
  "w \<noteq> WIngress \<Longrightarrow> leaves w (SyncIngress A key xp)"
  unfolding SyncService_plan SyncEndpointSlices_plan SyncIngress_plan by (auto intro!: leaves_rules)

section \<open>Delays\<close>

text \<open>The clock does not run backwards, and no expectation was found open in the future.\<close>

definition clock_ok :: "(watched \<Rightarrow> int \<times> int) \<Rightarrow> ControllerKey \<Rightarrow> 'k ExternalProxyReconciler \<Rightarrow> watched \<Rightarrow> bool" where
  "clock_ok clk key c w \<longleftrightarrow> fst (clk w) \<le> snd (clk w) \<and>
     (\<forall>st t. xr_expectations c w key = Some st \<longrightarrow> os_firstUnsatisfied st = Some t \<longrightarrow> t \<le> snd (clk w))"

text \<open>A step whose delay, if it asks for one, is positive and at most the timeout.\<close>

definition delay_ok :: "int \<Rightarrow> int option result \<Rightarrow> bool" where
  "delay_ok timeout r \<longleftrightarrow> (\<forall>d. r = Ok (Some d) \<longrightarrow> 0 < d \<and> d \<le> timeout)"

lemma delay_ok_simps [simp]: "delay_ok t (Ok None)" "delay_ok t (Err e)" "delay_ok t (Panic p)"
  by (simp_all add: delay_ok_def)

lemma checked_delay:
  assumes "clock_ok clk key c w" "\<And>c'. (\<forall>w'. w' \<noteq> w \<longrightarrow> xr_expectations c' w' = xr_expectations c w') \<Longrightarrow> delay_ok timeout (fst (body c'))"
  shows "delay_ok timeout (fst (checked w key timeout clk body c))"
proof -
  obtain sat dur r where s: "SatisfiedExpectations key (fst (clk w)) (snd (clk w)) (xr_expectations c w) = ((sat, dur), r)" by (metis prod.collapse)
  have "0 \<le> dur"
    using s assms(1) by (auto simp: SatisfiedExpectations_def clock_ok_def Let_def split: option.splits if_splits)
  moreover have "delay_ok timeout (fst (body (upd_exp w (\<lambda>_. r) c)))" by (rule assms(2)) simp
  ultimately show ?thesis by (auto simp: checked_def s delay_ok_def Let_def)
qed

lemma ignoring_delay:
  assumes "\<And>a c'. sync c = (Ok a, c') \<Longrightarrow> delay_ok timeout (fst (rest c'))"
  shows "delay_ok timeout (fst (ignoring_not_found A sync rest c))"
  using assms by (auto simp: ignoring_not_found_def split: prod.split result.split)

lemma then_delay:
  assumes "\<And>a c'. m c = (Ok a, c') \<Longrightarrow> delay_ok timeout (fst (f a c'))"
  shows "delay_ok timeout (fst (andThen m f c))"
  using assms by (auto simp: andThen_def split: prod.split result.split)

lemma leavesD: "leaves w m \<Longrightarrow> m c = (r, c') \<Longrightarrow> xr_expectations c' w = xr_expectations c w"
  unfolding leaves_def by (metis snd_conv)

lemma clock_ok_cong: "xr_expectations c' w = xr_expectations c w \<Longrightarrow> clock_ok clk key c' w = clock_ok clk key c w"
  by (simp add: clock_ok_def)

text \<open>
  C30: the delay a reconciliation asks for is positive and at most the timeout, so the controller neither
  spins nor sleeps longer than an expectation is waited for.
\<close>

theorem Reconcile_delay_bounds:
  assumes "\<And>w. clock_ok clk key c w" and run: "ep_Reconcile A ord timeout clk req key c = (Ok (Some d), c')"
  shows "0 < d \<and> d \<le> timeout"
proof -
  let ?status = "\<lambda>xp r g. on_xapi (UpdateStatus A xp \<lparr>xt_Ready = r, xt_ServiceName = xs_Name (xp_Service xp), xt_ObservedGeneration = g\<rparr>)"
  have "delay_ok timeout (fst (ep_Reconcile A ord timeout clk req key c))"
  proof -
    obtain r c1 where get: "on_xapi (cl_Get (xa_Proxies A) req) c = (r, c1)" by fastforce
    then have c1: "xr_expectations c1 = xr_expectations c" by (rule on_xapi_expectations)
    show ?thesis
    proof (cases r)
      case (Ok xp)
      have ingress: "delay_ok timeout (fst (ignoring_not_found A (SyncIngress A key xp)
          (andThen (?status xp True (om_Generation (xp_Meta xp))) (\<lambda>_ c. (Ok None, c))) c'))" for c'
        by (intro ignoring_delay then_delay) simp
      have ok: "clock_ok clk key c1 w" for w using assms(1) clock_ok_cong [of c1 w c] c1 by simp
      show ?thesis
        unfolding ep_Reconcile_def get Ok prod.case result.case
      proof (rule checked_delay [OF ok], rule then_delay, rule then_delay, rule checked_delay, goal_cases)
        case (1 c2 _ c3 _ c4)
        have "xr_expectations c4 WEndpoints = xr_expectations c1 WEndpoints"
          using 1 leavesD [OF leaves_syncs(1) 1(2), of WEndpoints] on_xapi_expectations [OF 1(3)] by simp
        then show ?case using ok clock_ok_cong by blast
      next
        case (2 c2 _ c3 _ c4 c5)
        have "xr_expectations c5 WIngress = xr_expectations c1 WIngress"
          using 2 leavesD [OF leaves_syncs(1) 2(2), of WIngress] on_xapi_expectations [OF 2(3)] by simp
        then show ?case
          by (intro ignoring_delay checked_delay ingress)
            (metis clock_ok_cong leavesD leaves_syncs(2) ok watched.distinct(5))
      qed
    qed (simp_all add: ep_Reconcile_def get)
  qed
  with run show ?thesis by (simp add: delay_ok_def)
qed

section \<open>Example\<close>

text \<open>A creation announced and not yet seen: found open at 0, asked about at 100, with a timeout of 300.\<close>

definition waiting_client :: "'o \<Rightarrow> (unit, 'o) client" where
  "waiting_client x = \<lparr>cl_Get = \<lambda>_ k. (Ok x, k), cl_List = \<lambda>_ _ k. (Ok [], k), cl_Create = \<lambda>_ k. (Ok (), k),
     cl_Update = \<lambda>_ k. (Ok (), k), cl_Delete = \<lambda>_ k. (Ok (), k)\<rparr>"

definition waiting_xapi :: "unit xapi" where
  "waiting_xapi = \<lparr>xa_Proxies = waiting_client (demo_proxy 1), xa_UpdateStatus = \<lambda>_ k. (Ok (), k),
     xa_Services = waiting_client (NewService (demo_proxy 1)), xa_Slices = waiting_client (hd (NewEndpointSlices (demo_proxy 1))),
     xa_Ingresses = waiting_client \<lparr>ki_Meta = new_meta [] [], ki_ClassName = None, ki_TLS = [], ki_DefaultBackend = None, ki_Rules = []\<rparr>,
     xa_SetControllerReference = \<lambda>_. Ok, xa_IsNotFound = \<lambda>_. False, xa_Retry = \<lambda>m. m\<rparr>"

definition waiting_reconciler :: "unit ExternalProxyReconciler" where
  "waiting_reconciler = \<lparr>xr_api = (), xr_expectations = \<lambda>_. Expect ''default/web'' ActionCreations ''web'' NewControllerExpectations\<rparr>"

lemma Reconcile_delay_bounds_witness:
  "\<exists>c'. ep_Reconcile waiting_xapi id 300 (\<lambda>_. (0, 100)) ([], []) ''default/web'' waiting_reconciler = (Ok (Some 200), c') \<and>
     0 < (200 :: int) \<and> 200 \<le> (300 :: int)"
proof -
  obtain c' where run: "ep_Reconcile waiting_xapi id 300 (\<lambda>_. (0, 100)) ([], []) ''default/web'' waiting_reconciler = (Ok (Some 200), c')"
    by (simp add: ep_Reconcile_def on_xapi_def waiting_xapi_def waiting_client_def checked_def waiting_reconciler_def
        SatisfiedExpectations_def Expect_def NewControllerExpectations_def any_left_def store_Insert_def newObjectStore_def Let_def upd_exp_def)
  have "clock_ok (\<lambda>_. (0, 100)) ''default/web'' waiting_reconciler w" for w
    by (simp add: clock_ok_def waiting_reconciler_def Expect_def NewControllerExpectations_def store_Insert_def newObjectStore_def)
  from Reconcile_delay_bounds [OF this run] run show ?thesis by blast
qed

end
