(* ===== verification/Validation.thy ===== *)
theory Validation
  imports ExternalProxy "HOL-Library.Sublist"
begin

text \<open>
  The field validators of \<open>internal/webhook/validation/kubernetes.go\<close>. Field errors carry the path, the
  offending value and the message the code gives them. The validators of the Kubernetes libraries are
  a parameter (record \<open>validators\<close>); a nil pointer that is dereferenced is a panic. The type of an
  \<open>intstr.IntOrString\<close> is one of its two constants, so its internal error has no branch.
\<close>

section \<open>Field paths and errors\<close>

datatype path_step = Child string | Index nat

type_synonym field_path = "path_step list"

datatype bad_value = VString string | VInt int | VPtr string | VRules "ExternalProxyIngressRule list"

datatype field_error =
    Required field_path string
  | Invalid field_path bad_value string
  | Duplicate field_path bad_value
  | NotSupported field_path bad_value "string list"

record validators =
  lv_IsDNS1123Label :: "string \<Rightarrow> string list"
  lv_IsQualifiedName :: "string \<Rightarrow> string list"
  lv_IsValidPortName :: "string \<Rightarrow> string list"
  lv_IsValidPortNum :: "int \<Rightarrow> string list"
  lv_IsDNS1123Subdomain :: "string \<Rightarrow> string list"
  lv_IsWildcardDNS1123Subdomain :: "string \<Rightarrow> string list"
  lv_NameIsDNS1035Label :: "string \<Rightarrow> bool \<Rightarrow> string list"
  lv_NameIsDNSSubdomain :: "string \<Rightarrow> bool \<Rightarrow> string list"
  lv_ParseIPSloppy :: "string \<Rightarrow> ip"
  lv_ValidateAnnotations :: "gomap \<Rightarrow> field_path \<Rightarrow> field_error list"
  lv_ValidateLabels :: "gomap \<Rightarrow> field_path \<Rightarrow> field_error list"

text \<open>One invalid-value error per message, and the errors of a loop with its index.\<close>

definition invalids :: "field_path \<Rightarrow> bad_value \<Rightarrow> string list \<Rightarrow> field_error list" where
  "invalids path v msgs = map (Invalid path v) msgs"

definition index_errors :: "(nat \<Rightarrow> 'a \<Rightarrow> field_error list) \<Rightarrow> 'a list \<Rightarrow> field_error list" where
  "index_errors f xs = concat (map (\<lambda>(i, x). f i x) (List.enumerate 0 xs))"

fun loop_errors :: "(nat \<Rightarrow> 'a \<Rightarrow> field_error list result) \<Rightarrow> nat \<Rightarrow> 'a list \<Rightarrow> field_error list result" where
  "loop_errors f i [] = Ok []"
| "loop_errors f i (x # xs) = andRes (f i x) (\<lambda>es. andRes (loop_errors f (i + 1) xs) (\<lambda>es'. Ok (es @ es')))"

definition Contains :: "string \<Rightarrow> string \<Rightarrow> bool" where
  "Contains s sub = list_ex (prefix sub) (suffixes s)"

section \<open>Names and ports\<close>

definition ValidateDNS1123Label :: "validators \<Rightarrow> string \<Rightarrow> field_path \<Rightarrow> field_error list" where
  "ValidateDNS1123Label V value path = invalids path (VString value) (lv_IsDNS1123Label V value)"

definition ValidateQualifiedName :: "validators \<Rightarrow> string \<Rightarrow> field_path \<Rightarrow> field_error list" where
  "ValidateQualifiedName V value path = invalids path (VString value) (lv_IsQualifiedName V value)"

definition ValidatePortNumOrName :: "validators \<Rightarrow> intOrString \<Rightarrow> field_path \<Rightarrow> field_error list" where
  "ValidatePortNumOrName V port path = (case ios_Type port of
      IntType \<Rightarrow> invalids path (VInt (ios_IntVal port)) (lv_IsValidPortNum V (ios_IntVal port))
    | StringType \<Rightarrow> invalids path (VString (ios_StrVal port)) (lv_IsValidPortName V (ios_StrVal port)))"

section \<open>Ingress\<close>

record IngressValidationOptions =
  AllowInvalidSecretName :: bool
  AllowInvalidWildcardHostRule :: bool

definition validateTLSSecretName :: "validators \<Rightarrow> string \<Rightarrow> string list" where
  "validateTLSSecretName V name = (if name = [] then [] else lv_NameIsDNSSubdomain V name False)"

definition tls_host_errors :: "validators \<Rightarrow> field_path \<Rightarrow> nat \<Rightarrow> string \<Rightarrow> field_error list" where
  "tls_host_errors V path i host =
     invalids (path @ [Child ''hosts'', Index i]) (VString host)
       (if CHR ''*'' \<in> set host then lv_IsWildcardDNS1123Subdomain V host else lv_IsDNS1123Subdomain V host)"

definition ValidateIngressTLS :: "validators \<Rightarrow> ingressTLS list \<Rightarrow> field_path \<Rightarrow> IngressValidationOptions \<Rightarrow> field_error list" where
  "ValidateIngressTLS V tlss path opts =
     index_errors (\<lambda>t tls.
         index_errors (tls_host_errors V (path @ [Index t])) (tls_Hosts tls) @
         (if \<not> AllowInvalidSecretName opts
          then invalids (path @ [Index t, Child ''secretName'']) (VString (tls_SecretName tls))
            (validateTLSSecretName V (tls_SecretName tls))
          else [])) tlss"

definition ValidateIngressBackend :: "validators \<Rightarrow> ExternalProxyIngressBackend option \<Rightarrow> field_path \<Rightarrow> field_error list result" where
  "ValidateIngressBackend V backend path = (case backend of
      None \<Rightarrow> Panic NilDereference
    | Some b \<Rightarrow>
        (let hasPortName = xb_Name b \<noteq> []; hasPortNumber = xb_Number b \<noteq> 0 in
         Ok (if hasPortName \<and> hasPortNumber then [Invalid path (VString []) ''cannot set both port name & port number'']
             else if hasPortName then
               invalids (path @ [Child ''service'', Child ''port'', Child ''name'']) (VString (xb_Name b)) (lv_IsValidPortName V (xb_Name b))
             else if hasPortNumber then
               invalids (path @ [Child ''service'', Child ''port'', Child ''number'']) (VInt (xb_Number b)) (lv_IsValidPortNum V (xb_Number b))
             else [Required path ''port name or number is required''])))"

definition PathTypeExact :: string where "PathTypeExact = ''Exact''"
definition PathTypePrefix :: string where "PathTypePrefix = ''Prefix''"
definition PathTypeImplementationSpecific :: string where "PathTypeImplementationSpecific = ''ImplementationSpecific''"

definition supportedPathTypes :: "string list" where
  "supportedPathTypes = [PathTypeExact, PathTypeImplementationSpecific, PathTypePrefix]"

definition invalidPathSequences :: "string list" where
  "invalidPathSequences = [''//'', ''/./'', ''/../'', ''%2f'', ''%2F'']"

definition invalidPathSuffixes :: "string list" where
  "invalidPathSuffixes = [''/..'', ''/.'']"

text \<open>The \<open>switch\<close> over the path type.\<close>

definition path_errors :: "string \<Rightarrow> string \<Rightarrow> field_path \<Rightarrow> field_error list" where
  "path_errors pathType p path =
     (let bad = Invalid (path @ [Child ''path'']) (VString p) in
      if pathType = PathTypeExact \<or> pathType = PathTypePrefix then
        (if \<not> HasPrefix p ''/'' then [bad ''must be an absolute path''] else []) @
        (if p \<noteq> [] then
           map (\<lambda>sq. bad (''must not contain '' @ [CHR 0x27] @ sq @ [CHR 0x27])) (filter (Contains p) invalidPathSequences) @
           map (\<lambda>sf. bad (''cannot end with '' @ [CHR 0x27] @ sf @ [CHR 0x27])) (filter (HasSuffix p) invalidPathSuffixes)
         else [])
      else if pathType = PathTypeImplementationSpecific then
        (if p \<noteq> [] \<and> \<not> HasPrefix p ''/'' then [bad ''must be an absolute path''] else [])
      else [NotSupported (path @ [Child ''pathType'']) (VString pathType) supportedPathTypes])"

definition validateHTTPIngressPath :: "validators \<Rightarrow> ExternalProxyIngressHttpPath \<Rightarrow> field_path \<Rightarrow> field_error list result" where
  "validateHTTPIngressPath V p path = (case xh_PathType p of
      None \<Rightarrow> Ok [Required (path @ [Child ''pathType'']) ''pathType must be specified'']
    | Some pathType \<Rightarrow> andRes (ValidateIngressBackend V (xh_Backend p) (path @ [Child ''backend'']))
        (\<lambda>es. Ok (path_errors pathType (xh_Path p) path @ es)))"

definition validateHTTPIngressRuleValue :: "validators \<Rightarrow> ExternalProxyIngressHttpPath list option \<Rightarrow> field_path \<Rightarrow> field_error list result" where
  "validateHTTPIngressRuleValue V httpRule path = (case httpRule of
      None \<Rightarrow> Panic NilDereference
    | Some paths \<Rightarrow>
        andRes (loop_errors (\<lambda>i p. validateHTTPIngressPath V p (path @ [Child ''paths'', Index i])) 0 paths)
          (\<lambda>es. Ok ((if paths = [] then [Required (path @ [Child ''paths'']) []] else []) @ es)))"

definition host_errors :: "validators \<Rightarrow> string \<Rightarrow> field_path \<Rightarrow> field_error list" where
  "host_errors V host path =
     (if host = [] then []
      else (if lv_ParseIPSloppy V host \<noteq> None
            then [Invalid (path @ [Child ''host'']) (VString host) ''must be a DNS name, not an IP address''] else []) @
        invalids (path @ [Child ''host'']) (VString host)
          (if CHR ''*'' \<in> set host then lv_IsWildcardDNS1123Subdomain V host else lv_IsDNS1123Subdomain V host))"

definition ValidateIngressRules :: "validators \<Rightarrow> ExternalProxyIngressRule list \<Rightarrow> field_path \<Rightarrow> IngressValidationOptions \<Rightarrow>
    field_error list result" where
  "ValidateIngressRules V rules path opts =
     loop_errors (\<lambda>i rule.
       let wildcardHost = CHR ''*'' \<in> set (xr_Host rule) in
       andRes (if \<not> wildcardHost \<or> \<not> AllowInvalidWildcardHostRule opts
               then validateHTTPIngressRuleValue V (xr_HTTP rule) (path @ [Index i]) else Ok [])
         (\<lambda>es. Ok (host_errors V (xr_Host rule) (path @ [Index i]) @ es))) 0 rules"

section \<open>Endpoint addresses\<close>

text \<open>The predicates of \<open>net.IP\<close>.\<close>

definition IsUnspecified :: "ip \<Rightarrow> bool" where
  "IsUnspecified a = (To4 a = Some [0, 0, 0, 0] \<or> a = Some (replicate 16 0))"

definition IsLoopback :: "ip \<Rightarrow> bool" where
  "IsLoopback a = (case To4 a of Some v4 \<Rightarrow> v4 ! 0 = 127 | None \<Rightarrow> a = Some (replicate 15 0 @ [1]))"

definition IsLinkLocalUnicast :: "ip \<Rightarrow> bool" where
  "IsLinkLocalUnicast a = (case To4 a of
      Some v4 \<Rightarrow> v4 ! 0 = 169 \<and> v4 ! 1 = 254
    | None \<Rightarrow> (case a of None \<Rightarrow> False
        | Some b \<Rightarrow> length b = 16 \<and> b ! 0 = 0xfe \<and> Bit_Operations.and (b ! 1) 0xc0 = 0x80))"

definition IsLinkLocalMulticast :: "ip \<Rightarrow> bool" where
  "IsLinkLocalMulticast a = (case To4 a of
      Some v4 \<Rightarrow> v4 ! 0 = 224 \<and> v4 ! 1 = 0 \<and> v4 ! 2 = 0
    | None \<Rightarrow> (case a of None \<Rightarrow> False
        | Some b \<Rightarrow> length b = 16 \<and> b ! 0 = 0xff \<and> Bit_Operations.and (b ! 1) 0x0f = 0x02))"

definition ValidateEndpointIP :: "validators \<Rightarrow> string \<Rightarrow> field_path \<Rightarrow> field_error list" where
  "ValidateEndpointIP V ipAddress path =
     (let ip = lv_ParseIPSloppy V ipAddress; bad = Invalid path (VString ipAddress) in
      if ip = None then [bad ''must be a valid IP address'']
      else (if IsUnspecified ip then [bad (''may not be unspecified ('' @ ipAddress @ '')'')] else []) @
        (if IsLoopback ip then [bad ''may not be in the loopback range (127.0.0.0/8, ::1/128)''] else []) @
        (if IsLinkLocalUnicast ip then [bad ''may not be in the link-local range (169.254.0.0/16, fe80::/10)''] else []) @
        (if IsLinkLocalMulticast ip
         then [bad ''may not be in the link-local multicast range (224.0.0.0/24, ff02::/10)''] else []))"

end
