(* ===== verification/Defaulter.thy ===== *)
theory Defaulter
  imports ExternalProxy
begin

text \<open>
  The mutating webhook of an ExternalProxy (\<open>ExternalProxyCustomDefaulter\<close> in
  \<open>internal/webhook/networking/v1alpha1/externalproxy_webhook.go\<close>). The admission request and the
  decoder are parameters; a nil pointer that is dereferenced is a panic.
\<close>

section \<open>Operations\<close>

record ExternalProxyCustomDefaulter =
  DefaultServiceType :: string
  DefaultBackendPortProtocol :: string
  DefaultIngressPathType :: string

definition NewExternalProxyCustomDefaulter :: ExternalProxyCustomDefaulter where
  "NewExternalProxyCustomDefaulter = \<lparr>DefaultServiceType = ''ClusterIP'', DefaultBackendPortProtocol = ''TCP'',
     DefaultIngressPathType = ''ImplementationSpecific''\<rparr>"

definition deref :: "'a option \<Rightarrow> 'a result" where
  "deref v = (case v of None \<Rightarrow> Panic NilDereference | Some a \<Rightarrow> Ok a)"

definition FromString :: "string \<Rightarrow> intOrString" where
  "FromString s = \<lparr>ios_Type = StringType, ios_IntVal = 0, ios_StrVal = s\<rparr>"

definition preferredTargetPort :: "appEndpointPort \<Rightarrow> intOrString result" where
  "preferredTargetPort port = (case ep_Name port of
      Some (c # cs) \<Rightarrow> Ok (FromString (c # cs))
    | _ \<Rightarrow> andRes (deref (ep_Port port)) (\<lambda>n. Ok (FromInt32 n)))"

definition default_service :: "ExternalProxyCustomDefaulter \<Rightarrow> string \<Rightarrow> ExternalProxyService \<Rightarrow> ExternalProxyService" where
  "default_service D name s =
     s\<lparr>xs_Name := if xs_Name s = [] then name else xs_Name s,
       xs_Type := if xs_Type s = [] then DefaultServiceType D else xs_Type s\<rparr>"

definition default_protocol :: "ExternalProxyCustomDefaulter \<Rightarrow> appEndpointPort \<Rightarrow> appEndpointPort" where
  "default_protocol D p = (if ep_Protocol p = None then p\<lparr>ep_Protocol := Some (DefaultBackendPortProtocol D)\<rparr> else p)"

definition default_backends :: "ExternalProxyCustomDefaulter \<Rightarrow> ExternalProxyBackend list \<Rightarrow> ExternalProxyBackend list" where
  "default_backends D = map (\<lambda>b. b\<lparr>be_Ports := map (default_protocol D) (be_Ports b)\<rparr>)"

text \<open>The service port made of a backend port.\<close>

definition service_port :: "string \<Rightarrow> appEndpointPort \<Rightarrow> appServicePort result" where
  "service_port name p =
     andRes (deref (ep_Protocol p)) (\<lambda>proto.
       andRes (deref (ep_Port p)) (\<lambda>num.
         andRes (preferredTargetPort p) (\<lambda>target.
           Ok \<lparr>sp_Name = name, sp_Protocol = proto, sp_Port = num, sp_TargetPort = target,
             sp_AppProtocol = ep_AppProtocol p\<rparr>)))"

text \<open>The loop over the ports of the backends, with the keys of \<open>registeredPorts\<close>.\<close>

fun register_ports :: "appEndpointPort list \<Rightarrow> string set \<Rightarrow> appServicePort list \<Rightarrow> appServicePort list result" where
  "register_ports [] registered acc = Ok acc"
| "register_ports (p # ps) registered acc =
     (let name = port_name p in
      if name = [] \<or> name \<in> registered then register_ports ps registered acc
      else andRes (service_port name p) (\<lambda>sp. register_ports ps (insert name registered) (acc @ [sp])))"

definition default_ports :: "ExternalProxyBackend list \<Rightarrow> appServicePort list \<Rightarrow> appServicePort list result" where
  "default_ports backends ports =
     (if ports = [] \<and> backends \<noteq> [] then register_ports (concat (map be_Ports backends)) {} []
      else Ok ports)"

definition default_path :: "ExternalProxyCustomDefaulter \<Rightarrow> int \<Rightarrow> ExternalProxyIngressHttpPath \<Rightarrow> ExternalProxyIngressHttpPath" where
  "default_path D port p =
     (let b = (case xh_Backend p of None \<Rightarrow> \<lparr>xb_Name = [], xb_Number = 0\<rparr> | Some b \<Rightarrow> b) in
      p\<lparr>xh_PathType := (if xh_PathType p = None then Some (DefaultIngressPathType D) else xh_PathType p),
        xh_Backend := Some (if xb_Name b = [] \<and> xb_Number b = 0 then b\<lparr>xb_Number := port\<rparr> else b)\<rparr>)"

definition default_rule :: "ExternalProxyCustomDefaulter \<Rightarrow> int \<Rightarrow> ExternalProxyIngressRule \<Rightarrow> ExternalProxyIngressRule result" where
  "default_rule D port rule =
     (let http = (if xr_Host rule \<noteq> [] \<and> xr_HTTP rule = None
        then Some [\<lparr>xh_Path = ''/'', xh_PathType = None, xh_Backend = None\<rparr>] else xr_HTTP rule) in
      andRes (deref http) (\<lambda>paths. Ok (rule\<lparr>xr_HTTP := Some (map (default_path D port) paths)\<rparr>)))"

fun default_rules :: "ExternalProxyCustomDefaulter \<Rightarrow> int \<Rightarrow> ExternalProxyIngressRule list \<Rightarrow> ExternalProxyIngressRule list result" where
  "default_rules D port [] = Ok []"
| "default_rules D port (r # rs) =
     andRes (default_rule D port r) (\<lambda>r'. andRes (default_rules D port rs) (\<lambda>rs'. Ok (r' # rs')))"

definition default_ingress :: "ExternalProxyCustomDefaulter \<Rightarrow> string \<Rightarrow> appServicePort list \<Rightarrow> ExternalProxyIngress \<Rightarrow>
    ExternalProxyIngress result" where
  "default_ingress D name ports ing =
     (let ing' = (if xi_Name ing = [] then ing\<lparr>xi_Name := name\<rparr> else ing) in
      case ports of
        [p] \<Rightarrow>
          if xi_Rules ing' = [] then Ok (ing'\<lparr>xi_DefaultBackend := Some \<lparr>xb_Name = [], xb_Number = sp_Port p\<rparr>\<rparr>)
          else andRes (default_rules D (sp_Port p) (xi_Rules ing')) (\<lambda>rs. Ok (ing'\<lparr>xi_Rules := rs\<rparr>))
      | _ \<Rightarrow> Ok ing')"

definition applyDefaults :: "ExternalProxyCustomDefaulter \<Rightarrow> ExternalProxy \<Rightarrow> ExternalProxy result" where
  "applyDefaults D xp =
     (let name = om_Name (xp_Meta xp); svc = default_service D name (xp_Service xp);
          backends = default_backends D (xp_Backends xp) in
      andRes (default_ports backends (xs_Ports svc)) (\<lambda>ports.
        andRes (case xp_Ingress xp of None \<Rightarrow> Ok None
            | Some ing \<Rightarrow> andRes (default_ingress D name ports ing) (\<lambda>i. Ok (Some i)))
          (\<lambda>ingress. Ok (xp\<lparr>xp_Backends := backends, xp_Service := svc\<lparr>xs_Ports := ports\<rparr>, xp_Ingress := ingress\<rparr>))))"

section \<open>The webhook\<close>

record admissionRequest =
  ar_Operation :: string
  ar_FieldManager :: "string result"  \<comment> \<open>of the decoded update options\<close>

definition LastAppliedConfigAnnotation :: string where
  "LastAppliedConfigAnnotation = ''kubectl.kubernetes.io/last-applied-configuration''"

definition GetLastAppliedConfiguration :: "objectMeta \<Rightarrow> string \<times> bool" where
  "GetLastAppliedConfiguration m =
     (let cfg = map_get (om_Annotations m) LastAppliedConfigAnnotation in (cfg, cfg \<noteq> []))"

definition with_spec_of :: "ExternalProxy \<Rightarrow> ExternalProxy \<Rightarrow> ExternalProxy" where
  "with_spec_of src xp = xp\<lparr>xp_Backends := xp_Backends src, xp_Service := xp_Service src, xp_Ingress := xp_Ingress src\<rparr>"

definition Default :: "ExternalProxyCustomDefaulter \<Rightarrow> (string \<Rightarrow> ExternalProxy result) \<Rightarrow> admissionRequest result \<Rightarrow>
    ExternalProxy \<Rightarrow> ExternalProxy result" where
  "Default D decode request xp =
     andRes request (\<lambda>req.
       andRes (if ar_Operation req = ''UPDATE'' then
                 andRes (ar_FieldManager req) (\<lambda>manager.
                   let (cfg, exists) = GetLastAppliedConfiguration (xp_Meta xp) in
                   if manager = ''kubectl-client-side-apply'' \<and> exists
                   then andRes (decode cfg) (\<lambda>last. Ok (with_spec_of last xp))
                   else Ok xp)
               else Ok xp)
         (applyDefaults D))"

section \<open>Idempotence\<close>

lemma andRes_Ok_iff: "andRes r f = Ok b \<longleftrightarrow> (\<exists>a. r = Ok a \<and> f a = Ok b)"
  by (cases r) simp_all

lemma andRes_assoc: "andRes (andRes r f) g = andRes r (\<lambda>a. andRes (f a) g)"
  by (cases r) simp_all

lemma deref_Ok [simp]: "deref v = Ok a \<longleftrightarrow> v = Some a"
  by (cases v) (simp_all add: deref_def)

lemma default_service_idem [simp]: "default_service D n (default_service D n s) = default_service D n s"
  by (simp add: default_service_def)

lemma default_service_ports [simp]:
  "default_service D n (s\<lparr>xs_Ports := ps\<rparr>) = (default_service D n s)\<lparr>xs_Ports := ps\<rparr>"
  "xs_Ports (default_service D n s) = xs_Ports s"
  by (simp_all add: default_service_def)

lemma default_protocol_Some: "ep_Protocol (default_protocol D p) \<noteq> None"
  by (simp add: default_protocol_def)

lemma default_protocol_idem [simp]: "default_protocol D (default_protocol D p) = default_protocol D p"
  using default_protocol_Some by (metis default_protocol_def)

lemma default_backends_idem [simp]: "default_backends D (default_backends D bs) = default_backends D bs"
  by (simp add: default_backends_def o_def)

lemma default_backends_Nil [simp]: "default_backends D bs = [] \<longleftrightarrow> bs = []"
  by (simp add: default_backends_def)

lemma default_path_idem [simp]: "default_path D n (default_path D n p) = default_path D n p"
  by (simp add: default_path_def Let_def)

lemma default_rule_idem: "default_rule D n r = Ok r' \<Longrightarrow> default_rule D n r' = Ok r'"
  by (auto simp: default_rule_def andRes_Ok_iff Let_def)

lemma default_rules_idem: "default_rules D n rs = Ok rs' \<Longrightarrow> default_rules D n rs' = Ok rs'"
  by (induction rs arbitrary: rs') (auto simp: andRes_Ok_iff dest: default_rule_idem)

lemma default_rules_length: "default_rules D n rs = Ok rs' \<Longrightarrow> length rs' = length rs"
  by (induction rs arbitrary: rs') (auto simp: andRes_Ok_iff)

lemma default_ingress_idem:
  assumes "default_ingress D name ports ing = Ok ing'"
  shows "default_ingress D name ports ing' = Ok ing'"
proof -
  define ing0 where "ing0 = (if xi_Name ing = [] then ing\<lparr>xi_Name := name\<rparr> else ing)"
  have n: "xi_Name ing0 = [] \<longrightarrow> name = []" by (simp add: ing0_def)
  show ?thesis
  proof (cases "\<exists>p. ports = [p]")
    case True
    then obtain p where p: "ports = [p]" ..
    show ?thesis
    proof (cases "xi_Rules ing0 = []")
      case True
      with assms n show ?thesis
        by (auto simp: default_ingress_def p Let_def ing0_def [symmetric])
    next
      case False
      with assms obtain rs where rs: "default_rules D (sp_Port p) (xi_Rules ing0) = Ok rs" "ing' = ing0\<lparr>xi_Rules := rs\<rparr>"
        by (auto simp: default_ingress_def p Let_def ing0_def [symmetric] andRes_Ok_iff)
      moreover have "rs \<noteq> []" using default_rules_length [OF rs(1)] False by auto
      ultimately show ?thesis using default_rules_idem [OF rs(1)] n
        by (auto simp: default_ingress_def p Let_def)
    qed
  next
    case False
    with assms have "ing' = ing0"
      by (auto simp: default_ingress_def ing0_def [symmetric] Let_def split: list.splits)
    with False n show ?thesis
      by (auto simp: default_ingress_def Let_def split: list.splits)
  qed
qed

lemma register_ports_idem:
  assumes "register_ports ps reg acc = Ok acc'" "acc' = []"
  shows "acc = [] \<and> register_ports ps reg [] = Ok []"
  using assms
proof (induction ps reg acc arbitrary: acc' rule: register_ports.induct)
  case (2 p ps reg acc)
  let ?n = "port_name p"
  show ?case
  proof (cases "?n = [] \<or> ?n \<in> reg")
    case True
    with 2 show ?thesis by (auto simp: Let_def)
  next
    case False
    with 2(3) obtain sp where sp: "service_port ?n p = Ok sp" "register_ports ps (insert ?n reg) (acc @ [sp]) = Ok acc'"
      by (auto simp: Let_def andRes_Ok_iff)
    from 2(2) [OF refl False sp(2) 2(4)] show ?thesis by simp
  qed
qed simp

lemma default_ports_idem:
  assumes "default_ports bs ports = Ok ports'"
  shows "default_ports bs ports' = Ok ports'"
  using assms register_ports_idem by (fastforce simp: default_ports_def split: if_splits)

text \<open>
  C33: defaulting is idempotent: what the webhook returns is left as it is when it passes the webhook
  again.
\<close>

theorem applyDefaults_idempotent:
  assumes "applyDefaults D xp = Ok xp'"
  shows "applyDefaults D xp' = Ok xp'"
proof -
  obtain ports ingress where
    ports: "default_ports (default_backends D (xp_Backends xp)) (xs_Ports (xp_Service xp)) = Ok ports"
    and ing: "(case xp_Ingress xp of None \<Rightarrow> Ok None
      | Some ing \<Rightarrow> andRes (default_ingress D (om_Name (xp_Meta xp)) ports ing) (\<lambda>i. Ok (Some i))) = Ok ingress"
    and xp': "xp' = xp\<lparr>xp_Backends := default_backends D (xp_Backends xp),
      xp_Service := (default_service D (om_Name (xp_Meta xp)) (xp_Service xp))\<lparr>xs_Ports := ports\<rparr>, xp_Ingress := ingress\<rparr>"
    using assms by (auto simp: applyDefaults_def Let_def andRes_Ok_iff)
  have "(case ingress of None \<Rightarrow> Ok None
      | Some ing \<Rightarrow> andRes (default_ingress D (om_Name (xp_Meta xp)) ports ing) (\<lambda>i. Ok (Some i))) = Ok ingress"
    using ing by (auto simp: andRes_Ok_iff default_ingress_idem split: option.splits)
  with default_ports_idem [OF ports] show ?thesis
    by (simp add: applyDefaults_def Let_def xp')
qed

section \<open>What is filled in\<close>

text \<open>The names the ports of a list of backend ports carry.\<close>

definition port_names :: "appEndpointPort list \<Rightarrow> string set" where
  "port_names ps = port_name ` set ps - {[]}"

lemma port_names_Cons:
  "port_names (p # ps) = (let n = port_name p in if n = [] then {} else {n}) \<union> port_names ps"
  by (auto simp: port_names_def port_name_def Let_def split: option.splits)

lemma port_name_Some: "n \<noteq> [] \<Longrightarrow> ep_Name p = Some n \<longleftrightarrow> port_name p = n"
  by (auto simp: port_name_def split: option.splits)

lemma service_port_name: "service_port n p = Ok sp \<Longrightarrow> sp_Name sp = n"
  by (auto simp: service_port_def andRes_Ok_iff)

abbreviation first_port :: "appEndpointPort list \<Rightarrow> appServicePort \<Rightarrow> bool" where
  "first_port ps sp \<equiv> \<exists>p. find (\<lambda>p. port_name p = sp_Name sp) ps = Some p \<and> service_port (sp_Name sp) p = Ok sp"

lemma register_ports_spec:
  assumes "register_ports ps reg acc = Ok acc'"
  shows "\<exists>new. acc' = acc @ new \<and> distinct (map sp_Name new) \<and> sp_Name ` set new = port_names ps - reg \<and>
    (\<forall>sp \<in> set new. first_port ps sp)"
  using assms
proof (induction ps reg acc arbitrary: acc' rule: register_ports.induct)
  case (1 reg acc)
  then show ?case by (simp add: port_names_def)
next
  case (2 p ps reg acc)
  show ?case
  proof (cases "port_name p = [] \<or> port_name p \<in> reg")
    case True
    with 2(3) have "register_ports ps reg acc = Ok acc'" by (auto simp: Let_def)
    from 2(1) [OF refl True this] obtain new where new: "acc' = acc @ new" "distinct (map sp_Name new)"
      "sp_Name ` set new = port_names ps - reg" "\<forall>sp \<in> set new. first_port ps sp"
      by blast
    have other: "port_name p \<noteq> sp_Name sp" if "sp \<in> set new" for sp
      using that True new(3) by (auto simp: port_names_def)
    have "port_names (p # ps) - reg = port_names ps - reg"
      using True by (auto simp: port_names_Cons Let_def)
    with new other show ?thesis by (intro exI [of _ new]) simp
  next
    case False
    with 2(3) obtain sp where sp: "service_port (port_name p) p = Ok sp"
      "register_ports ps (insert (port_name p) reg) (acc @ [sp]) = Ok acc'"
      by (auto simp: Let_def andRes_Ok_iff)
    from 2(2) [OF refl False sp(2)] obtain new where new: "acc' = acc @ sp # new" "distinct (map sp_Name new)"
      "sp_Name ` set new = port_names ps - insert (port_name p) reg" "\<forall>sp \<in> set new. first_port ps sp"
      by auto
    have other: "port_name p \<noteq> sp_Name s" if "s \<in> set new" for s
      using that new(3) by auto
    have "port_names (p # ps) - reg = insert (port_name p) (port_names ps - insert (port_name p) reg)"
      using False by (auto simp: port_names_Cons Let_def)
    with new other sp(1) service_port_name [OF sp(1)] show ?thesis
      by (intro exI [of _ "sp # new"]) (simp add: image_iff)
  qed
qed

lemma port_name_default [simp]: "port_name (default_protocol D p) = port_name p"
  by (simp add: default_protocol_def port_name_def)

lemma map_port_name_default:
  "map port_name (concat (map be_Ports (default_backends D bs))) = map port_name (concat (map be_Ports bs))"
  by (induction bs) (simp_all add: default_backends_def o_def)

lemma default_backends_names [simp]:
  "port_names (concat (map be_Ports (default_backends D bs))) = port_names (concat (map be_Ports bs))"
  using map_port_name_default [of D bs] unfolding port_names_def set_map [symmetric] by simp

text \<open>
  C27: when the service has no ports, the webhook gives it one per name the backends' ports carry: no
  name twice, the number and protocol of the first backend port of that name, and the name as its
  target, so that traffic reaches each backend on its own number.
\<close>

theorem applyDefaults_serves_named_ports:
  assumes "applyDefaults D xp = Ok xp'" "xs_Ports (xp_Service xp) = []" "xp_Backends xp \<noteq> []"
  defines "ports \<equiv> concat (map be_Ports (xp_Backends xp'))"
  shows "distinct (map sp_Name (xs_Ports (xp_Service xp'))) \<and>
    sp_Name ` set (xs_Ports (xp_Service xp')) = port_names (concat (map be_Ports (xp_Backends xp))) \<and>
    (\<forall>sp \<in> set (xs_Ports (xp_Service xp')). sp_TargetPort sp = FromString (sp_Name sp) \<and>
       (\<exists>p. find (\<lambda>p. port_name p = sp_Name sp) ports = Some p \<and>
          ep_Port p = Some (sp_Port sp) \<and> ep_Protocol p = Some (sp_Protocol sp)))"
proof -
  let ?bs = "default_backends D (xp_Backends xp)"
  have run: "register_ports (concat (map be_Ports ?bs)) {} [] = Ok (xs_Ports (xp_Service xp'))"
    and b: "xp_Backends xp' = ?bs"
    using assms(1-3) by (auto simp: applyDefaults_def default_ports_def Let_def andRes_Ok_iff split: option.splits)
  from register_ports_spec [OF run]
  have spec: "distinct (map sp_Name (xs_Ports (xp_Service xp')))"
    "sp_Name ` set (xs_Ports (xp_Service xp')) = port_names (concat (map be_Ports (xp_Backends xp)))"
    "\<forall>sp \<in> set (xs_Ports (xp_Service xp')). first_port ports sp"
    by (auto simp: ports_def b)
  have "sp_TargetPort sp = FromString (sp_Name sp) \<and> ep_Port p = Some (sp_Port sp) \<and> ep_Protocol p = Some (sp_Protocol sp)"
    if "sp \<in> set (xs_Ports (xp_Service xp'))" "find (\<lambda>p. port_name p = sp_Name sp) ports = Some p" "service_port (sp_Name sp) p = Ok sp" for sp p
  proof -
    from that(1) spec(2) have ne: "sp_Name sp \<noteq> []" by (auto simp: port_names_def)
    from that(2) ne have "ep_Name p = Some (sp_Name sp)" by (auto simp: find_Some_iff port_name_Some)
    with that(3) ne show ?thesis
      by (cases "sp_Name sp") (auto simp: service_port_def preferredTargetPort_def andRes_Ok_iff)
  qed
  with spec show ?thesis by blast
qed

lemma default_rules_result:
  "(\<exists>rs'. default_rules D n rs = Ok rs' \<and> list_all (\<lambda>r. xr_HTTP r \<noteq> None \<and>
      list_all (\<lambda>p. xh_Backend p \<noteq> None \<and> xh_PathType p \<noteq> None) (the (xr_HTTP r))) rs' \<and>
      list_all (\<lambda>r. xr_HTTP r \<noteq> None \<or> xr_Host r \<noteq> []) rs) \<or>
   (default_rules D n rs = Panic NilDereference \<and> list_ex (\<lambda>r. xr_HTTP r = None \<and> xr_Host r = []) rs)"
proof (induction rs)
  case Nil
  then show ?case by simp
next
  case (Cons r rs)
  then show ?case
    by (cases "xr_HTTP r"; cases "xr_Host r = []")
      (auto simp: default_rule_def deref_def default_path_def Let_def list_all_iff list_ex_iff split: if_splits)
qed

text \<open>
  Once the ports of the service are settled, defaulting panics exactly when the service has one
  port and a rule of the ingress has neither a host nor an HTTP section.
\<close>

theorem applyDefaults_panics_iff:
  assumes "default_ports (default_backends D (xp_Backends xp)) (xs_Ports (xp_Service xp)) = Ok ports"
  shows "applyDefaults D xp = Panic NilDereference \<longleftrightarrow>
    (\<exists>ing p. xp_Ingress xp = Some ing \<and> ports = [p] \<and>
       list_ex (\<lambda>r. xr_HTTP r = None \<and> xr_Host r = []) (xi_Rules ing))"
proof (cases "xp_Ingress xp")
  case None
  with assms show ?thesis by (simp add: applyDefaults_def Let_def)
next
  case (Some ing)
  have rules: "xi_Rules (if xi_Name ing = [] then ing\<lparr>xi_Name := n\<rparr> else ing) = xi_Rules ing" for n by simp
  show ?thesis
  proof (cases "\<exists>p. ports = [p]")
    case True
    then obtain p where "ports = [p]" ..
    with assms Some default_rules_result [of D "sp_Port p" "xi_Rules ing"] show ?thesis
      by (cases "xi_Rules ing = []")
        (auto simp: applyDefaults_def default_ingress_def Let_def rules list_all_iff list_ex_iff)
  next
    case False
    with assms Some show ?thesis
      by (auto simp: applyDefaults_def default_ingress_def Let_def split: list.splits)
  qed
qed

end
