(* ===== verification/Validator.thy ===== *)
theory Validator
  imports Validation
begin

text \<open>
  The validating webhooks: \<open>ExternalProxyCustomValidator\<close> and \<open>PortForwardingCustomValidator\<close> of
  \<open>internal/webhook/networking/v1alpha1\<close>. \<open>Ok None\<close> admits the object, \<open>Ok (Some e)\<close> rejects it, a panic
  is a nil pointer met on the way.
\<close>

section \<open>Operations\<close>

record ExternalProxyCustomValidator =
  supportedPortProtocols :: "string list"  \<comment> \<open>a set, sorted as \<open>sets.List\<close> lists it\<close>
  ingressValidationOpts :: IngressValidationOptions

definition NewExternalProxyCustomValidator :: ExternalProxyCustomValidator where
  "NewExternalProxyCustomValidator = \<lparr>supportedPortProtocols = [''SCTP'', ''TCP'', ''UDP''],
     ingressValidationOpts = \<lparr>AllowInvalidSecretName = False, AllowInvalidWildcardHostRule = False\<rparr>\<rparr>"

definition validateExternalProxyBackendAddress :: "validators \<Rightarrow> string \<Rightarrow> field_path \<Rightarrow> field_error list" where
  "validateExternalProxyBackendAddress V address path = ValidateEndpointIP V address (path @ [Child ''ip''])"

definition protocol_errors :: "ExternalProxyCustomValidator \<Rightarrow> string \<Rightarrow> field_path \<Rightarrow> field_error list" where
  "protocol_errors C proto path =
     (if proto \<notin> set (supportedPortProtocols C) then [NotSupported path (VString proto) (supportedPortProtocols C)] else [])"

definition app_protocol_errors :: "validators \<Rightarrow> string option \<Rightarrow> field_path \<Rightarrow> field_error list" where
  "app_protocol_errors V app path = (case app of None \<Rightarrow> [] | Some a \<Rightarrow> ValidateQualifiedName V a path)"

text \<open>The loop over the ports of a backend, with the names seen so far.\<close>

fun backend_ports_errors :: "validators \<Rightarrow> ExternalProxyCustomValidator \<Rightarrow> field_path \<Rightarrow> nat \<Rightarrow> string set \<Rightarrow> appEndpointPort list \<Rightarrow>
    field_error list" where
  "backend_ports_errors V C path j portNames [] = []"
| "backend_ports_errors V C path j portNames (port # ports) =
     (let portPath = path @ [Child ''ports'', Index j];
          name = port_name port in
      (if name \<noteq> [] then
         ValidateDNS1123Label V name (portPath @ [Child ''name'']) @
         (if name \<in> portNames then [Duplicate (portPath @ [Child ''name'']) (VPtr name)] else [])
       else []) @
      (case ep_Protocol port of
         None \<Rightarrow> [Required (portPath @ [Child ''protocol'']) []]
       | Some proto \<Rightarrow> protocol_errors C proto (portPath @ [Child ''protocol''])) @
      app_protocol_errors V (ep_AppProtocol port) (portPath @ [Child ''appProtocol'']) @
      backend_ports_errors V C path (j + 1) (if name \<noteq> [] then insert name portNames else portNames) ports)"

definition validateExternalProxyBackendPorts :: "validators \<Rightarrow> ExternalProxyCustomValidator \<Rightarrow> appEndpointPort list \<Rightarrow> field_path \<Rightarrow>
    field_error list" where
  "validateExternalProxyBackendPorts V C ports path = backend_ports_errors V C path 0 {} ports"

definition backend_errors :: "validators \<Rightarrow> ExternalProxyCustomValidator \<Rightarrow> ExternalProxyBackend \<Rightarrow> field_path \<Rightarrow> field_error list" where
  "backend_errors V C backend bePath =
     (if be_Addresses backend = [] then [Required (bePath @ [Child ''addresses'']) ''must have at least one address''] else []) @
     (if be_Ports backend = [] then [Required (bePath @ [Child ''ports'']) ''must have at least one port''] else []) @
     index_errors (\<lambda>j a. validateExternalProxyBackendAddress V a (bePath @ [Child ''addresses'', Index j])) (be_Addresses backend) @
     validateExternalProxyBackendPorts V C (be_Ports backend) (bePath @ [Child ''ports''])"

definition validateExternalProxyBackends :: "validators \<Rightarrow> ExternalProxyCustomValidator \<Rightarrow> ExternalProxyBackend list \<Rightarrow> field_path \<Rightarrow>
    field_error list" where
  "validateExternalProxyBackends V C backends path =
     (if backends = [] then [Required path ''must be specified''] else []) @
     index_errors (\<lambda>i b. backend_errors V C b (path @ [Index i])) backends"

definition validate_metadata :: "validators \<Rightarrow> string \<Rightarrow> gomap \<Rightarrow> gomap \<Rightarrow> field_path \<Rightarrow> field_error list" where
  "validate_metadata V name annotations labels path =
     invalids (path @ [Child ''name'']) (VString name) (lv_NameIsDNS1035Label V name False) @
     lv_ValidateAnnotations V annotations (path @ [Child ''annotations'']) @
     lv_ValidateLabels V labels (path @ [Child ''labels''])"

definition validateExternalProxyServiceMeta :: "validators \<Rightarrow> ExternalProxyService \<Rightarrow> field_path \<Rightarrow> field_error list" where
  "validateExternalProxyServiceMeta V s path = validate_metadata V (xs_Name s) (xs_Annotations s) (xs_Labels s) path"

definition validateExternalProxyServicePort :: "validators \<Rightarrow> ExternalProxyCustomValidator \<Rightarrow> appServicePort \<Rightarrow> bool \<Rightarrow> string set \<Rightarrow>
    field_path \<Rightarrow> field_error list \<times> string set" where
  "validateExternalProxyServicePort V C port requireName portNames path =
     (let name = sp_Name port; here = (\<lambda>f. path @ [Child f]) in
      ((if requireName \<and> name = [] then [Required (here ''name'') []]
        else if name \<noteq> [] then
          ValidateDNS1123Label V name (here ''name'') @
          (if name \<in> portNames then [Duplicate (here ''name'') (VString name)] else [])
        else []) @
       invalids (here ''port'') (VInt (sp_Port port)) (lv_IsValidPortNum V (sp_Port port)) @
       (if sp_Protocol port = [] then [Required (here ''protocol'') []]
        else protocol_errors C (sp_Protocol port) (here ''protocol'')) @
       ValidatePortNumOrName V (sp_TargetPort port) (here ''targetPort'') @
       app_protocol_errors V (sp_AppProtocol port) (here ''appProtocol''),
       if name \<noteq> [] then insert name portNames else portNames))"

fun service_ports_errors :: "validators \<Rightarrow> ExternalProxyCustomValidator \<Rightarrow> bool \<Rightarrow> field_path \<Rightarrow> nat \<Rightarrow> string set \<Rightarrow> appServicePort list \<Rightarrow>
    field_error list" where
  "service_ports_errors V C requireName path i portNames [] = []"
| "service_ports_errors V C requireName path i portNames (port # ports) =
     (let (es, portNames') = validateExternalProxyServicePort V C port requireName portNames (path @ [Child ''ports'', Index i]) in
      es @ service_ports_errors V C requireName path (i + 1) portNames' ports)"

definition validateExternalProxyService :: "validators \<Rightarrow> ExternalProxyCustomValidator \<Rightarrow> ExternalProxyService \<Rightarrow> field_path \<Rightarrow>
    field_error list" where
  "validateExternalProxyService V C s path =
     validateExternalProxyServiceMeta V s (path @ [Child ''metadata'']) @
     (if xs_Ports s = [] then [Required (path @ [Child ''ports'']) ''must specify at least one port''] else []) @
     service_ports_errors V C (1 < length (xs_Ports s)) path 0 {} (xs_Ports s)"

definition validateExternalProxyIngressMetadata :: "validators \<Rightarrow> ExternalProxyIngress \<Rightarrow> field_path \<Rightarrow> field_error list" where
  "validateExternalProxyIngressMetadata V ing path = validate_metadata V (xi_Name ing) (xi_Annotations ing) (xi_Labels ing) path"

definition validateExternalProxyIngress :: "validators \<Rightarrow> ExternalProxyCustomValidator \<Rightarrow> ExternalProxyIngress \<Rightarrow> field_path \<Rightarrow>
    field_error list result" where
  "validateExternalProxyIngress V C ing path =
     andRes (case xi_DefaultBackend ing of None \<Rightarrow> Ok []
         | Some b \<Rightarrow> ValidateIngressBackend V (Some b) (path @ [Child ''defaultBackend'']))
       (\<lambda>backend_errs.
         andRes (if xi_Rules ing \<noteq> [] then ValidateIngressRules V (xi_Rules ing) (path @ [Child ''rules'']) (ingressValidationOpts C) else Ok [])
           (\<lambda>rule_errs. Ok (
             validateExternalProxyIngressMetadata V ing (path @ [Child ''metadata'']) @
             (case xi_ClassName ing of None \<Rightarrow> []
              | Some c \<Rightarrow> invalids (path @ [Child ''ingressClassName'']) (VString c) (lv_NameIsDNSSubdomain V c False)) @
             backend_errs @
             (if xi_Rules ing = [] \<and> xi_DefaultBackend ing = None
              then [Invalid path (VRules (xi_Rules ing)) ''either `defaultBackend` or `rules` must be specified''] else []) @
             (if xi_TLS ing \<noteq> [] then ValidateIngressTLS V (xi_TLS ing) (path @ [Child ''tls''])
                \<lparr>AllowInvalidSecretName = False, AllowInvalidWildcardHostRule = False\<rparr> else []) @
             rule_errs)))"

definition validateExternalProxySpec :: "validators \<Rightarrow> ExternalProxyCustomValidator \<Rightarrow> ExternalProxy \<Rightarrow> field_path \<Rightarrow> field_error list result" where
  "validateExternalProxySpec V C xp path =
     andRes (case xp_Ingress xp of None \<Rightarrow> Ok []
         | Some ing \<Rightarrow> validateExternalProxyIngress V C ing (path @ [Child ''ingress'']))
       (\<lambda>ing_errs. Ok (
         validateExternalProxyBackends V C (xp_Backends xp) (path @ [Child ''backends'']) @
         validateExternalProxyService V C (xp_Service xp) (path @ [Child ''service'']) @ ing_errs))"

record invalid_object =
  io_Kind :: string
  io_Name :: string
  io_Errors :: "field_error list"

definition NewInvalid :: "string \<Rightarrow> string \<Rightarrow> field_error list \<Rightarrow> invalid_object option" where
  "NewInvalid kind name errs = (if errs \<noteq> [] then Some \<lparr>io_Kind = kind, io_Name = name, io_Errors = errs\<rparr> else None)"

definition validateExternalProxy :: "validators \<Rightarrow> ExternalProxyCustomValidator \<Rightarrow> ExternalProxy \<Rightarrow> invalid_object option result" where
  "validateExternalProxy V C xp =
     andRes (validateExternalProxySpec V C xp [Child ''spec''])
       (\<lambda>errs. Ok (NewInvalid ''ExternalProxy'' (om_Name (xp_Meta xp)) errs))"

definition validatePortForwarding :: "PortForwardingObject \<Rightarrow> invalid_object option" where
  "validatePortForwarding pf =
     NewInvalid ''PortForwarding'' (pfo_Name pf)
       ((if pfo_ServiceRef pf = [] then [Required [Child ''spec'', Child ''serviceRef'', Child ''name''] ''must have a name''] else []) @
        (if pfo_Ports pf = [] then [Required [Child ''spec'', Child ''ports''] ''must have at least one port''] else []))"

text \<open>\<open>ValidateCreate\<close>, \<open>ValidateUpdate\<close> (the new object) and \<open>ValidateDelete\<close>.\<close>

definition ValidateCreate :: "validators \<Rightarrow> ExternalProxyCustomValidator \<Rightarrow> ExternalProxy \<Rightarrow> invalid_object option result" where
  "ValidateCreate V C xp = validateExternalProxy V C xp"

definition ValidateUpdate :: "validators \<Rightarrow> ExternalProxyCustomValidator \<Rightarrow> ExternalProxy \<Rightarrow> ExternalProxy \<Rightarrow> invalid_object option result" where
  "ValidateUpdate V C old new = validateExternalProxy V C new"

definition ValidateDelete :: "ExternalProxy \<Rightarrow> invalid_object option result" where
  "ValidateDelete xp = Ok None"

text \<open>The webhooks of \<open>PortForwarding\<close>; the defaulter sets nothing.\<close>

definition pf_applyDefaults :: "PortForwardingObject \<Rightarrow> PortForwardingObject result" where
  "pf_applyDefaults pf = Ok pf"

definition pf_Default :: "PortForwardingObject \<Rightarrow> PortForwardingObject result" where
  "pf_Default pf = pf_applyDefaults pf"

definition pf_ValidateCreate :: "PortForwardingObject \<Rightarrow> invalid_object option" where
  "pf_ValidateCreate pf = validatePortForwarding pf"

definition pf_ValidateUpdate :: "PortForwardingObject \<Rightarrow> PortForwardingObject \<Rightarrow> invalid_object option" where
  "pf_ValidateUpdate old new = validatePortForwarding new"

definition pf_ValidateDelete :: "PortForwardingObject \<Rightarrow> invalid_object option" where
  "pf_ValidateDelete pf = None"

text \<open>What is admitted names a service and has a port.\<close>

lemma pf_admitted_iff:
  "pf_ValidateCreate pf = None \<longleftrightarrow> pfo_ServiceRef pf \<noteq> [] \<and> pfo_Ports pf \<noteq> []"
  by (simp add: pf_ValidateCreate_def validatePortForwarding_def NewInvalid_def)

end
