(* ===== verification/WebhookFacts.thy ===== *)
theory WebhookFacts
  imports Validator Defaulter
begin

text \<open>
  What the validating webhook admits, stated without paths and messages; the panics it has; and what
  the controller can rely on once an object is admitted.
\<close>

section \<open>Loops\<close>

lemma invalids_Nil [simp]: "invalids path v msgs = [] \<longleftrightarrow> msgs = []"
  by (simp add: invalids_def)

lemma index_errors_Nil: "index_errors f xs = [] \<longleftrightarrow> (\<forall>i < length xs. f i (xs ! i) = [])"
proof -
  have "index_errors f xs = [] \<longleftrightarrow> (\<forall>p \<in> set (List.enumerate 0 xs). f (fst p) (snd p) = [])"
    by (simp add: index_errors_def split_beta)
  also have "\<dots> \<longleftrightarrow> (\<forall>i < length xs. f i (xs ! i) = [])"
    by (auto simp: Ball_def in_set_enumerate_eq)
  finally show ?thesis .
qed

lemma index_errors_Nil_all:
  assumes "\<And>i x. f i x = [] \<longleftrightarrow> P x"
  shows "index_errors f xs = [] \<longleftrightarrow> list_all P xs"
  by (simp add: index_errors_Nil assms list_all_length)

text \<open>A check panics unless it can be walked, and otherwise finds no error exactly when all is well.\<close>

definition checks :: "field_error list result \<Rightarrow> bool \<Rightarrow> bool \<Rightarrow> bool" where
  "checks r walkable fine \<longleftrightarrow>
     (if walkable then \<exists>es. r = Ok es \<and> (es = [] \<longleftrightarrow> fine) else r = Panic NilDereference)"

lemma checks_OkI: "(es = [] \<longleftrightarrow> fine) \<Longrightarrow> checks (Ok es) True fine"
  by (simp add: checks_def)

lemma checks_andRes:
  assumes "checks r w q" "\<And>es. r = Ok es \<Longrightarrow> checks (f es) w' (q \<and> q')"
  shows "checks (andRes r f) (w \<and> w') (q \<and> q')"
  using assms by (cases r) (auto simp: checks_def split: if_splits)

lemma checks_andRes_Ok:
  assumes "checks r w q" "\<And>es. g es = [] \<longleftrightarrow> es = [] \<and> q'"
  shows "checks (andRes r (\<lambda>es. Ok (g es))) w (q \<and> q')"
  using assms by (cases r) (auto simp: checks_def split: if_splits)

lemma loop_errors_checks:
  assumes "\<And>i x. x \<in> set xs \<Longrightarrow> checks (f i x) (w x) (q x)"
  shows "checks (loop_errors f i xs) (list_all w xs) (list_all q xs)"
  using assms
proof (induction xs arbitrary: i)
  case Nil
  then show ?case by (simp add: checks_def)
next
  case (Cons x xs)
  have h: "checks (f i x) (w x) (q x)" by (rule Cons.prems) simp
  have t: "checks (loop_errors f (i + 1) xs) (list_all w xs) (list_all q xs)"
    by (rule Cons.IH) (simp add: Cons.prems)
  from h t show ?case
    by (cases "f i x"; cases "loop_errors f (i + 1) xs") (auto simp: checks_def split: if_splits)
qed

section \<open>What is admitted\<close>

definition nonempty :: "string list \<Rightarrow> string list" where
  "nonempty ns = filter (\<lambda>n. n \<noteq> []) ns"

lemma nonempty_simps [simp]:
  "nonempty [] = []" "nonempty (n # ns) = (if n = [] then nonempty ns else n # nonempty ns)"
  by (simp_all add: nonempty_def)

definition address_valid :: "validators \<Rightarrow> string \<Rightarrow> bool" where
  "address_valid V a \<longleftrightarrow> (let ip = lv_ParseIPSloppy V a in
     ip \<noteq> None \<and> \<not> IsUnspecified ip \<and> \<not> IsLoopback ip \<and> \<not> IsLinkLocalUnicast ip \<and> \<not> IsLinkLocalMulticast ip)"

definition app_protocol_valid :: "validators \<Rightarrow> string option \<Rightarrow> bool" where
  "app_protocol_valid V app \<longleftrightarrow> (\<forall>a. app = Some a \<longrightarrow> lv_IsQualifiedName V a = [])"

definition backend_port_valid :: "validators \<Rightarrow> ExternalProxyCustomValidator \<Rightarrow> appEndpointPort \<Rightarrow> bool" where
  "backend_port_valid V C p \<longleftrightarrow> (port_name p \<noteq> [] \<longrightarrow> lv_IsDNS1123Label V (port_name p) = []) \<and>
     (\<exists>proto. ep_Protocol p = Some proto \<and> proto \<in> set (supportedPortProtocols C)) \<and>
     app_protocol_valid V (ep_AppProtocol p)"

definition backend_valid :: "validators \<Rightarrow> ExternalProxyCustomValidator \<Rightarrow> ExternalProxyBackend \<Rightarrow> bool" where
  "backend_valid V C b \<longleftrightarrow> be_Addresses b \<noteq> [] \<and> be_Ports b \<noteq> [] \<and> list_all (address_valid V) (be_Addresses b) \<and>
     list_all (backend_port_valid V C) (be_Ports b) \<and> distinct (nonempty (map port_name (be_Ports b)))"

definition target_valid :: "validators \<Rightarrow> intOrString \<Rightarrow> bool" where
  "target_valid V t \<longleftrightarrow> (case ios_Type t of IntType \<Rightarrow> lv_IsValidPortNum V (ios_IntVal t) = []
     | StringType \<Rightarrow> lv_IsValidPortName V (ios_StrVal t) = [])"

definition service_port_valid :: "validators \<Rightarrow> ExternalProxyCustomValidator \<Rightarrow> bool \<Rightarrow> appServicePort \<Rightarrow> bool" where
  "service_port_valid V C requireName p \<longleftrightarrow>
     (if sp_Name p = [] then \<not> requireName else lv_IsDNS1123Label V (sp_Name p) = []) \<and>
     lv_IsValidPortNum V (sp_Port p) = [] \<and> sp_Protocol p \<noteq> [] \<and> sp_Protocol p \<in> set (supportedPortProtocols C) \<and>
     target_valid V (sp_TargetPort p) \<and> app_protocol_valid V (sp_AppProtocol p)"

definition metadata_valid :: "validators \<Rightarrow> field_path \<Rightarrow> string \<Rightarrow> gomap \<Rightarrow> gomap \<Rightarrow> bool" where
  "metadata_valid V path name annotations labels \<longleftrightarrow> lv_NameIsDNS1035Label V name False = [] \<and>
     lv_ValidateAnnotations V annotations (path @ [Child ''annotations'']) = [] \<and>
     lv_ValidateLabels V labels (path @ [Child ''labels'']) = []"

definition service_valid :: "validators \<Rightarrow> ExternalProxyCustomValidator \<Rightarrow> ExternalProxyService \<Rightarrow> bool" where
  "service_valid V C s \<longleftrightarrow>
     metadata_valid V [Child ''spec'', Child ''service'', Child ''metadata''] (xs_Name s) (xs_Annotations s) (xs_Labels s) \<and>
     xs_Ports s \<noteq> [] \<and> list_all (service_port_valid V C (1 < length (xs_Ports s))) (xs_Ports s) \<and>
     distinct (nonempty (map sp_Name (xs_Ports s)))"

lemma address_errors_Nil: "validateExternalProxyBackendAddress V a path = [] \<longleftrightarrow> address_valid V a"
  by (simp add: validateExternalProxyBackendAddress_def ValidateEndpointIP_def address_valid_def Let_def)

lemma app_protocol_errors_Nil: "app_protocol_errors V app path = [] \<longleftrightarrow> app_protocol_valid V app"
  by (simp add: app_protocol_errors_def app_protocol_valid_def ValidateQualifiedName_def split: option.split)

lemma protocol_errors_Nil: "protocol_errors C proto path = [] \<longleftrightarrow> proto \<in> set (supportedPortProtocols C)"
  by (simp add: protocol_errors_def)

lemma backend_ports_errors_Nil:
  "backend_ports_errors V C path j S ports = [] \<longleftrightarrow> list_all (backend_port_valid V C) ports \<and>
     distinct (nonempty (map port_name ports)) \<and> set (nonempty (map port_name ports)) \<inter> S = {}"
proof (induction ports arbitrary: j S)
  case Nil
  then show ?case by simp
next
  case (Cons p ps)
  show ?case
    by (cases "ep_Protocol p")
      (auto simp: Let_def Cons.IH backend_port_valid_def ValidateDNS1123Label_def protocol_errors_Nil app_protocol_errors_Nil)
qed

lemma backends_errors_Nil:
  "validateExternalProxyBackends V C bs path = [] \<longleftrightarrow> bs \<noteq> [] \<and> list_all (backend_valid V C) bs"
proof -
  have "backend_errors V C b p = [] \<longleftrightarrow> backend_valid V C b" for b p
    using index_errors_Nil_all [of "\<lambda>j a. validateExternalProxyBackendAddress V a (p @ [Child ''addresses'', Index j])" "address_valid V"]
    by (auto simp: address_errors_Nil backend_errors_def backend_valid_def validateExternalProxyBackendPorts_def backend_ports_errors_Nil)
  then have "index_errors (\<lambda>i b. backend_errors V C b (path @ [Index i])) bs = [] \<longleftrightarrow> list_all (backend_valid V C) bs"
    by (intro index_errors_Nil_all)
  then show ?thesis by (auto simp: validateExternalProxyBackends_def)
qed

lemma service_port_errors_Nil:
  "fst (validateExternalProxyServicePort V C p req S path) = [] \<longleftrightarrow>
     service_port_valid V C req p \<and> (sp_Name p \<noteq> [] \<longrightarrow> sp_Name p \<notin> S)"
  by (auto simp: validateExternalProxyServicePort_def service_port_valid_def Let_def ValidateDNS1123Label_def
      protocol_errors_Nil app_protocol_errors_Nil target_valid_def ValidatePortNumOrName_def split: ios_type.splits)

lemma service_port_names:
  "snd (validateExternalProxyServicePort V C p req S path) = (if sp_Name p \<noteq> [] then insert (sp_Name p) S else S)"
  by (simp add: validateExternalProxyServicePort_def Let_def)

lemma service_ports_errors_Nil:
  "service_ports_errors V C req path i S ports = [] \<longleftrightarrow> list_all (service_port_valid V C req) ports \<and>
     distinct (nonempty (map sp_Name ports)) \<and> set (nonempty (map sp_Name ports)) \<inter> S = {}"
proof (induction ports arbitrary: i S)
  case Nil
  then show ?case by simp
next
  case (Cons p ps)
  let ?r = "validateExternalProxyServicePort V C p req S (path @ [Child ''ports'', Index i])"
  have "service_ports_errors V C req path i S (p # ps) = fst ?r @ service_ports_errors V C req path (i + 1) (snd ?r) ps"
    by (simp add: split_beta)
  then show ?case
    by (auto simp: Cons.IH service_port_errors_Nil service_port_names)
qed

lemma service_errors_Nil:
  "validateExternalProxyService V C s [Child ''spec'', Child ''service''] = [] \<longleftrightarrow> service_valid V C s"
  by (auto simp: validateExternalProxyService_def validateExternalProxyServiceMeta_def validate_metadata_def
      service_valid_def metadata_valid_def service_ports_errors_Nil)

section \<open>The ingress\<close>

definition ingress_backend_valid :: "validators \<Rightarrow> ExternalProxyIngressBackend \<Rightarrow> bool" where
  "ingress_backend_valid V b \<longleftrightarrow>
     (if xb_Name b \<noteq> [] then xb_Number b = 0 \<and> lv_IsValidPortName V (xb_Name b) = []
      else xb_Number b \<noteq> 0 \<and> lv_IsValidPortNum V (xb_Number b) = [])"

definition http_path_valid :: "string \<Rightarrow> string \<Rightarrow> bool" where
  "http_path_valid pathType p \<longleftrightarrow>
     (if pathType = PathTypeExact \<or> pathType = PathTypePrefix then
        HasPrefix p ''/'' \<and> \<not> list_ex (Contains p) invalidPathSequences \<and> \<not> list_ex (HasSuffix p) invalidPathSuffixes
      else pathType = PathTypeImplementationSpecific \<and> (p = [] \<or> HasPrefix p ''/''))"

definition path_walkable :: "ExternalProxyIngressHttpPath \<Rightarrow> bool" where
  "path_walkable p \<longleftrightarrow> xh_PathType p = None \<or> xh_Backend p \<noteq> None"

definition path_valid :: "validators \<Rightarrow> ExternalProxyIngressHttpPath \<Rightarrow> bool" where
  "path_valid V p \<longleftrightarrow> (\<exists>t b. xh_PathType p = Some t \<and> xh_Backend p = Some b \<and>
     http_path_valid t (xh_Path p) \<and> ingress_backend_valid V b)"

definition rule_walkable :: "ExternalProxyIngressRule \<Rightarrow> bool" where
  "rule_walkable r \<longleftrightarrow> (\<exists>ps. xr_HTTP r = Some ps \<and> list_all path_walkable ps)"

definition host_valid :: "validators \<Rightarrow> string \<Rightarrow> bool" where
  "host_valid V host \<longleftrightarrow> host = [] \<or> (lv_ParseIPSloppy V host = None \<and>
     (if CHR ''*'' \<in> set host then lv_IsWildcardDNS1123Subdomain V host = [] else lv_IsDNS1123Subdomain V host = []))"

definition rule_valid :: "validators \<Rightarrow> ExternalProxyIngressRule \<Rightarrow> bool" where
  "rule_valid V r \<longleftrightarrow> host_valid V (xr_Host r) \<and> (\<exists>ps. xr_HTTP r = Some ps \<and> ps \<noteq> [] \<and> list_all (path_valid V) ps)"

definition tls_valid :: "validators \<Rightarrow> ingressTLS \<Rightarrow> bool" where
  "tls_valid V t \<longleftrightarrow> list_all (\<lambda>h. if CHR ''*'' \<in> set h then lv_IsWildcardDNS1123Subdomain V h = [] else lv_IsDNS1123Subdomain V h = [])
       (tls_Hosts t) \<and> (tls_SecretName t = [] \<or> lv_NameIsDNSSubdomain V (tls_SecretName t) False = [])"

definition ingress_valid :: "validators \<Rightarrow> ExternalProxyIngress \<Rightarrow> bool" where
  "ingress_valid V ing \<longleftrightarrow>
     metadata_valid V [Child ''spec'', Child ''ingress'', Child ''metadata''] (xi_Name ing) (xi_Annotations ing) (xi_Labels ing) \<and>
     (\<forall>c. xi_ClassName ing = Some c \<longrightarrow> lv_NameIsDNSSubdomain V c False = []) \<and>
     (\<forall>b. xi_DefaultBackend ing = Some b \<longrightarrow> ingress_backend_valid V b) \<and>
     (xi_Rules ing \<noteq> [] \<or> xi_DefaultBackend ing \<noteq> None) \<and>
     list_all (tls_valid V) (xi_TLS ing) \<and> list_all (rule_valid V) (xi_Rules ing)"

lemma backend_checks: "checks (ValidateIngressBackend V b path) (b \<noteq> None) (b \<noteq> None \<and> ingress_backend_valid V (the b))"
  by (cases b) (auto simp: ValidateIngressBackend_def checks_def ingress_backend_valid_def Let_def)

lemma path_errors_Nil: "path_errors t p path = [] \<longleftrightarrow> http_path_valid t p"
  by (auto simp: path_errors_def http_path_valid_def Let_def filter_empty_conv list_ex_iff HasPrefix_def)

lemma path_checks: "checks (validateHTTPIngressPath V p path) (path_walkable p) (path_valid V p)"
proof (cases "xh_PathType p")
  case None
  then show ?thesis by (simp add: validateHTTPIngressPath_def checks_def path_walkable_def path_valid_def)
next
  case (Some t)
  with backend_checks [of V "xh_Backend p" "path @ [Child ''backend'']"] show ?thesis
    by (cases "xh_Backend p")
      (auto simp: validateHTTPIngressPath_def checks_def path_walkable_def path_valid_def path_errors_Nil)
qed

lemma rule_value_checks:
  "checks (validateHTTPIngressRuleValue V http path) (\<exists>ps. http = Some ps \<and> list_all path_walkable ps)
     (\<exists>ps. http = Some ps \<and> ps \<noteq> [] \<and> list_all (path_valid V) ps)"
proof (cases http)
  case None
  then show ?thesis by (simp add: validateHTTPIngressRuleValue_def checks_def)
next
  case (Some ps)
  have "checks (loop_errors (\<lambda>i p. validateHTTPIngressPath V p (path @ [Child ''paths'', Index i])) 0 ps)
      (list_all path_walkable ps) (list_all (path_valid V) ps)"
    by (intro loop_errors_checks path_checks)
  with Some show ?thesis
    by (auto simp: validateHTTPIngressRuleValue_def checks_def)
qed

lemma host_errors_Nil: "host_errors V host path = [] \<longleftrightarrow> host_valid V host"
  by (auto simp: host_errors_def host_valid_def)

lemma rules_checks:
  assumes "\<not> AllowInvalidWildcardHostRule opts"
  shows "checks (ValidateIngressRules V rules path opts) (list_all rule_walkable rules) (list_all (rule_valid V) rules)"
  unfolding ValidateIngressRules_def
proof (rule loop_errors_checks)
  fix i rule
  show "checks (let wildcardHost = CHR ''*'' \<in> set (xr_Host rule) in
      andRes (if \<not> wildcardHost \<or> \<not> AllowInvalidWildcardHostRule opts
              then validateHTTPIngressRuleValue V (xr_HTTP rule) (path @ [Index i]) else Ok [])
        (\<lambda>es. Ok (host_errors V (xr_Host rule) (path @ [Index i]) @ es)))
      (rule_walkable rule) (rule_valid V rule)"
    using rule_value_checks [of V "xr_HTTP rule" "path @ [Index i]"] assms
    by (auto simp: Let_def rule_walkable_def rule_valid_def checks_def host_errors_Nil)
qed

lemma tls_errors_Nil:
  assumes "\<not> AllowInvalidSecretName opts"
  shows "ValidateIngressTLS V tlss path opts = [] \<longleftrightarrow> list_all (tls_valid V) tlss"
proof -
  have hosts: "index_errors (tls_host_errors V p) hs = [] \<longleftrightarrow>
      list_all (\<lambda>h. if CHR ''*'' \<in> set h then lv_IsWildcardDNS1123Subdomain V h = [] else lv_IsDNS1123Subdomain V h = []) hs" for p hs
    by (rule index_errors_Nil_all) (simp add: tls_host_errors_def)
  show ?thesis
    unfolding ValidateIngressTLS_def
    by (rule index_errors_Nil_all) (use assms in \<open>simp add: hosts tls_valid_def validateTLSSecretName_def\<close>)
qed

lemma ingress_checks:
  assumes "C = NewExternalProxyCustomValidator"
  shows "checks (validateExternalProxyIngress V C ing [Child ''spec'', Child ''ingress'']) (list_all rule_walkable (xi_Rules ing))
     (ingress_valid V ing)"
proof -
  have opts: "\<not> AllowInvalidWildcardHostRule (ingressValidationOpts C)"
    by (simp add: assms NewExternalProxyCustomValidator_def)
  obtain bes where bes: "(case xi_DefaultBackend ing of None \<Rightarrow> Ok []
         | Some b \<Rightarrow> ValidateIngressBackend V (Some b) [Child ''spec'', Child ''ingress'', Child ''defaultBackend'']) = Ok bes"
      "bes = [] \<longleftrightarrow> (\<forall>b. xi_DefaultBackend ing = Some b \<longrightarrow> ingress_backend_valid V b)"
    using backend_checks [of V "xi_DefaultBackend ing"] by (cases "xi_DefaultBackend ing") (auto simp: checks_def)
  have rules: "checks (if xi_Rules ing \<noteq> [] then ValidateIngressRules V (xi_Rules ing)
        [Child ''spec'', Child ''ingress'', Child ''rules''] (ingressValidationOpts C) else Ok [])
      (list_all rule_walkable (xi_Rules ing)) (list_all (rule_valid V) (xi_Rules ing))"
    using rules_checks [OF opts] by (simp add: checks_OkI)
  have tls: "(if xi_TLS ing \<noteq> [] then ValidateIngressTLS V (xi_TLS ing) path
      \<lparr>AllowInvalidSecretName = False, AllowInvalidWildcardHostRule = False\<rparr> else []) = [] \<longleftrightarrow> list_all (tls_valid V) (xi_TLS ing)" for path
    using tls_errors_Nil by simp
  define rest where "rest \<longleftrightarrow>
     metadata_valid V [Child ''spec'', Child ''ingress'', Child ''metadata''] (xi_Name ing) (xi_Annotations ing) (xi_Labels ing) \<and>
     (\<forall>c. xi_ClassName ing = Some c \<longrightarrow> lv_NameIsDNSSubdomain V c False = []) \<and>
     (\<forall>b. xi_DefaultBackend ing = Some b \<longrightarrow> ingress_backend_valid V b) \<and>
     (xi_Rules ing \<noteq> [] \<or> xi_DefaultBackend ing \<noteq> None) \<and> list_all (tls_valid V) (xi_TLS ing)"
  have "ingress_valid V ing \<longleftrightarrow> list_all (rule_valid V) (xi_Rules ing) \<and> rest"
    by (simp only: ingress_valid_def rest_def conj_ac)
  moreover have cls: "(case xi_ClassName ing of None \<Rightarrow> [] | Some c \<Rightarrow> invalids p (VString c) (lv_NameIsDNSSubdomain V c False)) = []
      \<longleftrightarrow> (\<forall>c. xi_ClassName ing = Some c \<longrightarrow> lv_NameIsDNSSubdomain V c False = [])" for p
    by (cases "xi_ClassName ing") simp_all
  ultimately show ?thesis
    unfolding validateExternalProxyIngress_def
    by (simp only: append.append_Cons append.append_Nil bes(1) andRes_simps, intro checks_andRes_Ok [OF rules])
      (auto simp: cls bes(2) tls rest_def validateExternalProxyIngressMetadata_def validate_metadata_def metadata_valid_def)
qed

section \<open>The whole object\<close>

definition spec_valid :: "validators \<Rightarrow> ExternalProxy \<Rightarrow> bool" where
  "spec_valid V xp \<longleftrightarrow> (let C = NewExternalProxyCustomValidator in
     xp_Backends xp \<noteq> [] \<and> list_all (backend_valid V C) (xp_Backends xp) \<and> service_valid V C (xp_Service xp) \<and>
     (\<forall>ing. xp_Ingress xp = Some ing \<longrightarrow> ingress_valid V ing))"

definition spec_walkable :: "ExternalProxy \<Rightarrow> bool" where
  "spec_walkable xp \<longleftrightarrow> (\<forall>ing. xp_Ingress xp = Some ing \<longrightarrow> list_all rule_walkable (xi_Rules ing))"

lemma spec_checks:
  "checks (validateExternalProxySpec V NewExternalProxyCustomValidator xp [Child ''spec'']) (spec_walkable xp) (spec_valid V xp)"
proof (cases "xp_Ingress xp")
  case None
  then show ?thesis
    by (auto simp: validateExternalProxySpec_def checks_def spec_walkable_def spec_valid_def Let_def
        backends_errors_Nil service_errors_Nil)
next
  case (Some ing)
  with ingress_checks [OF refl, of V ing] show ?thesis
    by (auto simp: validateExternalProxySpec_def checks_def spec_walkable_def spec_valid_def Let_def
        backends_errors_Nil service_errors_Nil)
qed

lemma rule_valid_complete: "rule_valid V r \<Longrightarrow> rule_complete r"
  by (fastforce simp: rule_valid_def rule_complete_def path_valid_def list_all_iff)

lemma validateExternalProxy_result:
  "validateExternalProxy V NewExternalProxyCustomValidator xp = Ok None \<longleftrightarrow> spec_walkable xp \<and> spec_valid V xp"
  "validateExternalProxy V NewExternalProxyCustomValidator xp = Panic NilDereference \<longleftrightarrow> \<not> spec_walkable xp"
  using spec_checks [of V xp]
  by (auto simp: validateExternalProxy_def checks_def NewInvalid_def split: if_splits)

lemma rule_valid_walkable: "rule_valid V r \<Longrightarrow> rule_walkable r"
  by (fastforce simp: rule_valid_def rule_walkable_def path_valid_def path_walkable_def list_all_iff)

lemma spec_valid_walkable: "spec_valid V xp \<Longrightarrow> spec_walkable xp"
  by (fastforce simp: spec_valid_def spec_walkable_def ingress_valid_def Let_def list_all_iff dest: rule_valid_walkable)

text \<open>
  C20: The validating webhook admits exactly the well-formed objects (\<open>spec_valid\<close>: backends, service ports
  and ingress checked field by field), and panics exactly on an ingress with a rule that has no HTTP
  section or a typed path that has no backend.
\<close>

theorem validateExternalProxy_decides:
  "(validateExternalProxy V NewExternalProxyCustomValidator xp = Ok None \<longleftrightarrow> spec_valid V xp) \<and>
   (validateExternalProxy V NewExternalProxyCustomValidator xp = Panic NilDereference \<longleftrightarrow> \<not> spec_walkable xp)"
  using validateExternalProxy_result [of V xp] spec_valid_walkable by blast

text \<open>
  C34: an object that was admitted can be built: the ingress of an admitted ExternalProxy is made
  without a nil dereference and has the rules' hosts in their order.
\<close>

theorem admitted_ingress_builds:
  assumes "validateExternalProxy V NewExternalProxyCustomValidator xp = Ok None" "xp_Ingress xp = Some ing"
  shows "\<exists>ki. NewIngress xp = Ok ki \<and> map kr_Host (ki_Rules ki) = map xr_Host (xi_Rules ing)"
proof -
  from assms have "list_all (rule_valid V) (xi_Rules ing)"
    by (simp add: validateExternalProxy_result spec_valid_def ingress_valid_def Let_def)
  then have "ingress_complete ing"
    by (auto simp: ingress_complete_def list_all_iff dest: rule_valid_complete)
  with NewIngress_result(2) [OF assms(2)] show ?thesis .
qed

lemma default_rule_walkable:
  assumes "default_rules D n rs = Ok rs'"
  shows "list_all rule_walkable rs'"
  using default_rules_result [of D n rs] assms
  by (fastforce simp: rule_walkable_def path_walkable_def list_all_iff)

text \<open>
  When the service has one port, what the mutating webhook returns does not make the validating
  webhook panic: the missing HTTP sections and backends have been filled in.
\<close>

theorem defaulted_single_port_walkable:
  assumes "applyDefaults D xp = Ok xp'" "length (xs_Ports (xp_Service xp')) = 1"
  shows "validateExternalProxy V NewExternalProxyCustomValidator xp' \<noteq> Panic NilDereference"
proof -
  obtain ports where ports: "xs_Ports (xp_Service xp') = ports" by blast
  with assms obtain p where p: "ports = [p]" by (auto simp: length_Suc_conv)
  have "list_all rule_walkable (xi_Rules ing')" if ing': "xp_Ingress xp' = Some ing'" for ing'
  proof -
    from assms(1) ing' ports obtain ing where "default_ingress D (om_Name (xp_Meta xp)) ports ing = Ok ing'"
      by (auto simp: applyDefaults_def Let_def andRes_Ok_iff split: option.splits)
    then show ?thesis
      by (auto simp: p default_ingress_def Let_def andRes_Ok_iff dest: default_rule_walkable split: if_splits)
  qed
  then show ?thesis by (simp add: validateExternalProxy_result spec_walkable_def)
qed

section \<open>Addresses with leading zeros\<close>

text \<open>An object whose only address is written with a leading zero.\<close>

definition zero_proxy :: ExternalProxy where
  "zero_proxy = \<lparr>xp_Meta = new_meta ''default'' ''web'',
     xp_Backends = [\<lparr>be_Addresses = [''10.0.0.010''],
        be_Ports = [\<lparr>ep_Name = Some ''http'', ep_Protocol = Some ''TCP'', ep_Port = Some 80, ep_AppProtocol = None\<rparr>]\<rparr>],
     xp_Service = \<lparr>xs_Name = ''web'', xs_Labels = None, xs_Annotations = None, xs_Type = ''ClusterIP'',
        xs_Ports = [\<lparr>sp_Name = ''http'', sp_Protocol = ''TCP'', sp_Port = 80, sp_TargetPort = FromString ''http'', sp_AppProtocol = None\<rparr>]\<rparr>,
     xp_Ingress = None,
     xp_Status = \<lparr>xt_Ready = False, xt_ServiceName = [], xt_ObservedGeneration = 0\<rparr>\<rparr>"

lemma replicate_neq [simp]: "length xs \<noteq> n \<Longrightarrow> xs \<noteq> replicate n x"
  by auto

lemma example_org: "ParseIP ''example.org'' = None"
  by code_simp

lemma leading_zero: "ParseIP ''10.0.0.010'' = None"
  by code_simp

lemma zero_proxy_slices: "NewEndpointSlices zero_proxy = []"
  by (simp add: NewEndpointSlices_def zero_proxy_def backend_slices_def NewEndpointSliceFromBackend_def
      filterIPv4_def filterIPv6_def leading_zero To4_def Let_def)

text \<open>
  The validator parses addresses with the lenient parser that takes leading zeros and the
  controller with the strict one: an object can be admitted of which no address is ever served.
\<close>

theorem admitted_without_endpoints:
  assumes "lv_ParseIPSloppy V ''10.0.0.010'' = Some [10, 0, 0, 10]"
    and "lv_IsDNS1123Label V ''http'' = []" "lv_IsValidPortName V ''http'' = []" "lv_IsValidPortNum V 80 = []"
    and "lv_NameIsDNS1035Label V ''web'' False = []"
    and "\<And>path. lv_ValidateAnnotations V None path = []" "\<And>path. lv_ValidateLabels V None path = []"
  shows "validateExternalProxy V NewExternalProxyCustomValidator zero_proxy = Ok None \<and> NewEndpointSlices zero_proxy = []"
proof -
  have "address_valid V ''10.0.0.010''"
    by (simp add: address_valid_def assms(1) IsUnspecified_def IsLoopback_def IsLinkLocalUnicast_def
        IsLinkLocalMulticast_def To4_def)
  then have "spec_valid V zero_proxy"
    using assms by (simp add: zero_proxy_def spec_valid_def Let_def backend_valid_def backend_port_valid_def
        service_valid_def service_port_valid_def metadata_valid_def app_protocol_valid_def port_name_def
        target_valid_def FromString_def NewExternalProxyCustomValidator_def)
  then show ?thesis
    using validateExternalProxy_result spec_valid_walkable zero_proxy_slices by blast
qed

section \<open>Examples\<close>

definition demo_validators :: validators where
  "demo_validators = \<lparr>lv_IsDNS1123Label = \<lambda>_. [], lv_IsQualifiedName = \<lambda>_. [], lv_IsValidPortName = \<lambda>_. [],
     lv_IsValidPortNum = \<lambda>n. if 1 \<le> n \<and> n \<le> 65535 then [] else [''must be between 1 and 65535''],
     lv_IsDNS1123Subdomain = \<lambda>_. [], lv_IsWildcardDNS1123Subdomain = \<lambda>_. [], lv_NameIsDNS1035Label = \<lambda>_ _. [],
     lv_NameIsDNSSubdomain = \<lambda>_ _. [],
     lv_ParseIPSloppy = \<lambda>s. if s = ''10.0.0.010'' then Some [10, 0, 0, 10] else ParseIP s,
     lv_ValidateAnnotations = \<lambda>_ _. [], lv_ValidateLabels = \<lambda>_ _. []\<rparr>"

lemma admitted_without_endpoints_witness:
  "validateExternalProxy demo_validators NewExternalProxyCustomValidator zero_proxy = Ok None \<and> NewEndpointSlices zero_proxy = []"
  by (rule admitted_without_endpoints) (simp_all add: demo_validators_def)

definition web_proxy :: ExternalProxy where
  "web_proxy = zero_proxy\<lparr>xp_Ingress := Some \<lparr>xi_Name = ''web'', xi_Labels = None, xi_Annotations = None, xi_ClassName = None,
     xi_DefaultBackend = None, xi_TLS = [], xi_Rules = [\<lparr>xr_Host = ''example.org'', xr_HTTP = None\<rparr>]\<rparr>\<rparr>"

definition defaulted_web_proxy :: ExternalProxy where
  "defaulted_web_proxy = zero_proxy\<lparr>xp_Ingress := Some \<lparr>xi_Name = ''web'', xi_Labels = None, xi_Annotations = None, xi_ClassName = None,
     xi_DefaultBackend = None, xi_TLS = [], xi_Rules = [\<lparr>xr_Host = ''example.org'',
       xr_HTTP = Some [\<lparr>xh_Path = ''/'', xh_PathType = Some ''ImplementationSpecific'',
         xh_Backend = Some \<lparr>xb_Name = [], xb_Number = 80\<rparr>\<rparr>]\<rparr>]\<rparr>\<rparr>"

lemma web_proxy_defaults: "applyDefaults NewExternalProxyCustomDefaulter web_proxy = Ok defaulted_web_proxy"
  by (simp add: applyDefaults_def web_proxy_def defaulted_web_proxy_def zero_proxy_def Let_def default_service_def
      default_backends_def default_protocol_def default_ports_def default_ingress_def default_rule_def default_path_def
      deref_def new_meta_def NewExternalProxyCustomDefaulter_def)

lemma applyDefaults_idempotent_witness:
  "applyDefaults NewExternalProxyCustomDefaulter defaulted_web_proxy = Ok defaulted_web_proxy"
  by (rule applyDefaults_idempotent [OF web_proxy_defaults])

lemma defaulted_single_port_walkable_witness:
  "validateExternalProxy demo_validators NewExternalProxyCustomValidator defaulted_web_proxy \<noteq> Panic NilDereference"
  by (rule defaulted_single_port_walkable [OF web_proxy_defaults]) (simp add: defaulted_web_proxy_def zero_proxy_def)

lemma web_proxy_admitted: "spec_valid demo_validators defaulted_web_proxy"
  by (simp add: defaulted_web_proxy_def zero_proxy_def spec_valid_def Let_def backend_valid_def backend_port_valid_def
      service_valid_def service_port_valid_def metadata_valid_def app_protocol_valid_def port_name_def
      target_valid_def FromString_def NewExternalProxyCustomValidator_def demo_validators_def address_valid_def
      IsUnspecified_def IsLoopback_def IsLinkLocalUnicast_def IsLinkLocalMulticast_def To4_def ingress_valid_def
      rule_valid_def path_valid_def host_valid_def http_path_valid_def ingress_backend_valid_def PathTypeExact_def
      PathTypePrefix_def PathTypeImplementationSpecific_def HasPrefix_def example_org)

lemma admitted_ingress_builds_witness:
  "\<exists>ki. NewIngress defaulted_web_proxy = Ok ki \<and> map kr_Host (ki_Rules ki) = [''example.org'']"
proof -
  have "validateExternalProxy demo_validators NewExternalProxyCustomValidator defaulted_web_proxy = Ok None"
    using web_proxy_admitted validateExternalProxy_result spec_valid_walkable by blast
  from admitted_ingress_builds [OF this] show ?thesis by (simp add: defaulted_web_proxy_def)
qed

lemma applyDefaults_panics_iff_witness:
  "applyDefaults NewExternalProxyCustomDefaulter
     (zero_proxy\<lparr>xp_Ingress := Some (demo_ingress\<lparr>xi_Rules := [\<lparr>xr_Host = [], xr_HTTP = None\<rparr>]\<rparr>)\<rparr>) = Panic NilDereference"
  by (subst applyDefaults_panics_iff [where ports = "xs_Ports (xp_Service zero_proxy)"])
    (simp_all add: zero_proxy_def default_ports_def)

lemma portless_defaults:
  "\<exists>xp'. applyDefaults NewExternalProxyCustomDefaulter (zero_proxy\<lparr>xp_Service := xp_Service zero_proxy\<lparr>xs_Ports := []\<rparr>\<rparr>) = Ok xp'"
  by (simp add: applyDefaults_def zero_proxy_def Let_def default_service_def default_ports_def
      default_backends_def default_protocol_def port_name_def service_port_def preferredTargetPort_def deref_def)

lemma applyDefaults_serves_named_ports_witness:
  "\<exists>xp'. applyDefaults NewExternalProxyCustomDefaulter (zero_proxy\<lparr>xp_Service := xp_Service zero_proxy\<lparr>xs_Ports := []\<rparr>\<rparr>) = Ok xp' \<and>
     sp_Name ` set (xs_Ports (xp_Service xp')) = {''http''}"
proof -
  obtain xp' where r: "applyDefaults NewExternalProxyCustomDefaulter (zero_proxy\<lparr>xp_Service := xp_Service zero_proxy\<lparr>xs_Ports := []\<rparr>\<rparr>) = Ok xp'"
    using portless_defaults by blast
  have "port_names (concat (map be_Ports (xp_Backends zero_proxy))) = {''http''}"
    by (simp add: port_names_def zero_proxy_def port_name_def)
  with applyDefaults_serves_named_ports [OF r] r show ?thesis by (simp add: zero_proxy_def)
qed

end
