(* ===== verification/WebhookCert.thy ===== *)
theory WebhookCert
  imports ExternalProxy
begin

text \<open>
  The controllers that keep the CA bundles of the webhook configurations
  (\<open>internal/webhook/controller\<close>): finding the secret mounted by the pods of a webhook's service, reading
  its CA certificate, and updating the configuration. The API server is a parameter; the namespace of
  the process and the directory of the certificates are arguments.
\<close>

section \<open>Objects\<close>

type_synonym object_key = "string \<times> string"

record webhook =
  wh_Service :: "object_key option"
  wh_CABundle :: gobytes

record webhookConfiguration =
  wc_Name :: string
  wc_Webhooks :: "webhook list"

record container =
  co_Name :: string
  co_Mounts :: "(string \<times> string) list"  \<comment> \<open>mount path and volume name\<close>

record volume =
  vo_Name :: string
  vo_Secret :: "string option"

record pod =
  pod_Namespace :: string
  pod_Labels :: gomap
  pod_Annotations :: gomap
  pod_Containers :: "container list"
  pod_Volumes :: "volume list"

record selecting_service =
  ss_Namespace :: string
  ss_Name :: string
  ss_Selector :: gomap

record secret =
  se_Name :: string
  se_Namespace :: string
  se_TLS :: bool  \<comment> \<open>its type is \<open>SecretTypeTLS\<close>\<close>
  se_Data :: "(string \<times> gobytes) list option"  \<comment> \<open>\<open>None\<close>: the nil map\<close>

record 'k whapi =
  wa_GetConfig :: "object_key \<Rightarrow> ('k, webhookConfiguration) step"
  wa_GetService :: "object_key \<Rightarrow> ('k, selecting_service) step"
  wa_ListPods :: "string \<Rightarrow> gomap \<Rightarrow> ('k, pod list) step"
  wa_GetSecret :: "object_key \<Rightarrow> ('k, secret) step"
  wa_Update :: "webhookConfiguration \<Rightarrow> ('k, unit) step"
  wa_IsNotFound :: "go_error \<Rightarrow> bool"

section \<open>The secret of a service\<close>

definition DefaultContainerAnnotation :: string where
  "DefaultContainerAnnotation = ''kubectl.kubernetes.io/default-container''"

definition TLSCACertKey :: string where "TLSCACertKey = ''ca.crt''"

definition ErrNoAssociatedWorkloadFound :: go_error where
  "ErrNoAssociatedWorkloadFound = ESentinel ''no associated workload found''"

definition ErrNoAssociatedVolumeFound :: go_error where
  "ErrNoAssociatedVolumeFound = ESentinel ''no associated volume found''"

definition ErrInvalidSecretProvided :: go_error where
  "ErrInvalidSecretProvided = ESentinel ''invalid secret provided''"

definition map_lookup :: "gomap \<Rightarrow> string \<Rightarrow> string option" where
  "map_lookup m k = (case m of None \<Rightarrow> None | Some kvs \<Rightarrow> map_of kvs k)"

definition DefaultContainer :: "pod \<Rightarrow> container list \<Rightarrow> container result" where
  "DefaultContainer p containers =
     (case (case map_lookup (pod_Annotations p) DefaultContainerAnnotation of
              None \<Rightarrow> None | Some name \<Rightarrow> find (\<lambda>c. name = co_Name c) containers) of
        Some c \<Rightarrow> Ok c
      | None \<Rightarrow> (case containers of [] \<Rightarrow> Panic IndexOutOfRange | c # _ \<Rightarrow> Ok c))"

definition MountedVolume :: "container \<Rightarrow> string \<Rightarrow> string option" where
  "MountedVolume c path = map_option snd (find (\<lambda>m. fst m = path) (co_Mounts c))"

definition data_lookup :: "secret \<Rightarrow> string \<Rightarrow> gobytes option" where
  "data_lookup s k = (case se_Data s of None \<Rightarrow> None | Some kvs \<Rightarrow> map_of kvs k)"

definition ExtractCaCertFromSecret :: "'k whapi \<Rightarrow> object_key \<Rightarrow> ('k, gobytes) step" where
  "ExtractCaCertFromSecret A key = andThen (wa_GetSecret A key) (\<lambda>s k.
     (case data_lookup s TLSCACertKey of None \<Rightarrow> Err ErrInvalidSecretProvided | Some cert \<Rightarrow> Ok cert, k))"

text \<open>The secret that a pod's default container mounts at the path; its name is empty if there is none.\<close>

definition pod_secret :: "string \<Rightarrow> pod \<Rightarrow> object_key result" where
  "pod_secret mountPath p = andRes (DefaultContainer p (pod_Containers p)) (\<lambda>c. Ok
     (case MountedVolume c mountPath of
        None \<Rightarrow> ([], [])
      | Some volumeName \<Rightarrow>
          (case find (\<lambda>v. vo_Name v = volumeName \<and> vo_Secret v \<noteq> None) (pod_Volumes p) of
             None \<Rightarrow> ([], []) | Some v \<Rightarrow> (pod_Namespace p, the (vo_Secret v)))))"

fun first_secret :: "string \<Rightarrow> pod list \<Rightarrow> object_key result" where
  "first_secret mountPath [] = Ok ([], [])"
| "first_secret mountPath (p # ps) = andRes (pod_secret mountPath p) (\<lambda>key.
     if snd key \<noteq> [] then Ok key else first_secret mountPath ps)"

definition FindMountedVolumeByService :: "'k whapi \<Rightarrow> object_key \<Rightarrow> string \<Rightarrow> ('k, object_key) step" where
  "FindMountedVolumeByService A serviceKey mountPath =
     andThen (wa_GetService A serviceKey) (\<lambda>svc.
       andThen (wa_ListPods A (ss_Namespace svc) (ss_Selector svc)) (\<lambda>pods k.
         (if pods = [] then Err ErrNoAssociatedWorkloadFound
          else andRes (first_secret mountPath pods) (\<lambda>key.
            if snd key = [] then Err ErrNoAssociatedVolumeFound else Ok key), k)))"

section \<open>Reconciliation\<close>

text \<open>
  The outcome of one round of the loop over the webhooks: an early return with its requeue time and
  error, or the webhook and whether its bundle changed.
\<close>

type_synonym early_return = "int option \<times> go_error"

definition recover :: "('k, 'a) step \<Rightarrow> ('k, go_error + 'a) step" where
  "recover f k = (case f k of (Ok a, k') \<Rightarrow> (Ok (Inr a), k') | (Err e, k') \<Rightarrow> (Ok (Inl e), k') | (Panic p, k') \<Rightarrow> (Panic p, k'))"

definition seconds :: "int \<Rightarrow> int" where "seconds n = n * 1000000000"

definition sync_webhook :: "'k whapi \<Rightarrow> string \<Rightarrow> string \<Rightarrow> webhook \<Rightarrow> ('k, early_return + (webhook \<times> bool)) step" where
  "sync_webhook A namespace certDir w =
     (case wh_Service w of
        None \<Rightarrow> (\<lambda>k. (Ok (Inr (w, False)), k))
      | Some svc \<Rightarrow>
          if fst svc \<noteq> namespace then (\<lambda>k. (Ok (Inr (w, False)), k))
          else andThen (recover (FindMountedVolumeByService A svc certDir)) (\<lambda>r.
            case r of
              Inl e \<Rightarrow> (\<lambda>k. (Ok (Inl (if errors_Is e ErrNoAssociatedWorkloadFound then Some (seconds 3) else None, e)), k))
            | Inr secretKey \<Rightarrow> andThen (recover (ExtractCaCertFromSecret A secretKey)) (\<lambda>r k.
                (Ok (case r of
                   Inl e \<Rightarrow> Inl (None, e)
                 | Inr caCert \<Rightarrow> Inr (if bytes_key caCert \<noteq> bytes_key (wh_CABundle w)
                     then (w\<lparr>wh_CABundle := caCert\<rparr>, True) else (w, False))), k))))"

fun sync_webhooks :: "'k whapi \<Rightarrow> string \<Rightarrow> string \<Rightarrow> webhook list \<Rightarrow> ('k, early_return + (webhook list \<times> bool)) step" where
  "sync_webhooks A namespace certDir [] k = (Ok (Inr ([], False)), k)"
| "sync_webhooks A namespace certDir (w # ws) k =
     andThen (sync_webhook A namespace certDir w) (\<lambda>r.
       case r of
         Inl early \<Rightarrow> (\<lambda>k. (Ok (Inl early), k))
       | Inr (w', changed) \<Rightarrow> andThen (sync_webhooks A namespace certDir ws) (\<lambda>r k.
           (Ok (case r of Inl early \<Rightarrow> Inl early | Inr (ws', changed') \<Rightarrow> Inr (w' # ws', changed \<or> changed')), k))) k"

text \<open>\<open>Reconcile\<close>: the requeue time and the error it returns.\<close>

definition MutatingWebhook_Reconcile :: "'k whapi \<Rightarrow> string \<Rightarrow> string \<Rightarrow> object_key \<Rightarrow>
    ('k, int option \<times> go_error option) step" where
  "MutatingWebhook_Reconcile A namespace certDir key =
     andThen (recover (wa_GetConfig A key)) (\<lambda>r.
       case r of
         Inl e \<Rightarrow> (\<lambda>k. (Ok (None, if wa_IsNotFound A e then None else Some e), k))
       | Inr inst \<Rightarrow> andThen (sync_webhooks A namespace certDir (wc_Webhooks inst)) (\<lambda>r.
           case r of
             Inl (after, e) \<Rightarrow> (\<lambda>k. (Ok (after, Some e), k))
           | Inr (ws, shouldUpdate) \<Rightarrow>
               if shouldUpdate then andThen (recover (wa_Update A (inst\<lparr>wc_Webhooks := ws\<rparr>))) (\<lambda>r k.
                 (Ok (None, case r of Inl e \<Rightarrow> Some e | Inr _ \<Rightarrow> None), k))
               else (\<lambda>k. (Ok (None, None), k))))"

text \<open>The reconciler of validating webhooks has the same body, over its own kind of configuration.\<close>

definition ValidatingWebhook_Reconcile :: "'k whapi \<Rightarrow> string \<Rightarrow> string \<Rightarrow> object_key \<Rightarrow>
    ('k, int option \<times> go_error option) step" where
  "ValidatingWebhook_Reconcile A namespace certDir key = MutatingWebhook_Reconcile A namespace certDir key"

section \<open>Which configurations a secret concerns\<close>

definition isMatchedWebhookService :: "webhook \<Rightarrow> selecting_service \<Rightarrow> bool" where
  "isMatchedWebhookService w s \<longleftrightarrow> wh_Service w = Some (ss_Namespace s, ss_Name s)"

definition ListWebhookByService :: "('k, webhookConfiguration list) step \<Rightarrow> selecting_service \<Rightarrow> ('k, webhookConfiguration list) step" where
  "ListWebhookByService lister s = andThen lister (\<lambda>cfgs k.
     (Ok (filter (\<lambda>cfg. list_ex (\<lambda>w. isMatchedWebhookService w s) (wc_Webhooks cfg)) cfgs), k))"

definition ListMutatingWebhookByService :: "('k, webhookConfiguration list) step \<Rightarrow> selecting_service \<Rightarrow> ('k, webhookConfiguration list) step" where
  "ListMutatingWebhookByService lister = ListWebhookByService lister"

definition ListValidatingWebhookByService :: "('k, webhookConfiguration list) step \<Rightarrow> selecting_service \<Rightarrow> ('k, webhookConfiguration list) step" where
  "ListValidatingWebhookByService lister = ListWebhookByService lister"

definition namespacePredicate :: "string \<Rightarrow> secret \<Rightarrow> bool" where
  "namespacePredicate namespace s \<longleftrightarrow> se_Namespace s = namespace"

definition hasSecretVolume :: "volume list \<Rightarrow> string \<Rightarrow> bool" where
  "hasSecretVolume volumes secretName = list_ex (\<lambda>v. vo_Secret v = Some secretName) volumes"

text \<open>\<open>labels.SelectorFromSet\<close> matches the labels that have every entry of the selector.\<close>

definition selects :: "gomap \<Rightarrow> gomap \<Rightarrow> bool" where
  "selects selector lbls \<longleftrightarrow> (case selector of None \<Rightarrow> True
     | Some kvs \<Rightarrow> list_all (\<lambda>(k, v). map_lookup lbls k = Some v) kvs)"

definition iterMatchedService :: "selecting_service list \<Rightarrow> gomap \<Rightarrow> selecting_service list" where
  "iterMatchedService services podLabel = filter (\<lambda>s. selects (ss_Selector s) podLabel) services"

section \<open>What one round does\<close>

lemma recover_cases:
  "recover f k = (case f k of (Ok a, k') \<Rightarrow> (Ok (Inr a), k') | (Err e, k') \<Rightarrow> (Ok (Inl e), k') | (Panic p, k') \<Rightarrow> (Panic p, k'))"
  by (simp add: recover_def)

text \<open>The reads of the client do not change the cluster.\<close>

definition reads_only :: "'k whapi \<Rightarrow> bool" where
  "reads_only A \<longleftrightarrow> (\<forall>key k. snd (wa_GetConfig A key k) = k) \<and> (\<forall>key k. snd (wa_GetService A key k) = k) \<and>
     (\<forall>ns sel k. snd (wa_ListPods A ns sel k) = k) \<and> (\<forall>key k. snd (wa_GetSecret A key k) = k)"

lemma andThen_keeps:
  assumes "\<And>k. snd (f k) = k" "\<And>a k. snd (g a k) = k"
  shows "snd (andThen f g k) = k"
  using assms by (auto simp: andThen_def split: prod.splits result.splits) (metis snd_conv)+

lemma recover_keeps: "(\<And>k. snd (f k) = k) \<Longrightarrow> snd (recover f k) = k"
  by (auto simp: recover_def split: prod.splits result.splits) (metis snd_conv)+

lemma reads_keep:
  assumes "reads_only A"
  shows "snd (FindMountedVolumeByService A key path k) = k" "snd (ExtractCaCertFromSecret A key' k) = k"
    "snd (recover (wa_GetConfig A cfg) k) = k"
proof -
  have r: "snd (wa_GetConfig A x k) = k" "snd (wa_GetService A x k) = k" "snd (wa_ListPods A ns sel k) = k"
    "snd (wa_GetSecret A x k) = k" for x ns sel k
    using assms unfolding reads_only_def by blast+
  show "snd (FindMountedVolumeByService A key path k) = k" "snd (ExtractCaCertFromSecret A key' k) = k"
    "snd (recover (wa_GetConfig A cfg) k) = k"
    unfolding FindMountedVolumeByService_def ExtractCaCertFromSecret_def
    by (intro andThen_keeps recover_keeps r; simp)+
qed

lemma sync_webhook_keeps:
  assumes "reads_only A"
  shows "snd (sync_webhook A namespace certDir w k) = k"
  unfolding sync_webhook_def
  by (cases "wh_Service w")
    (auto intro!: andThen_keeps recover_keeps simp: reads_keep [OF assms] split: sum.split)

lemma sync_webhooks_keeps:
  assumes "reads_only A"
  shows "snd (sync_webhooks A namespace certDir ws k) = k"
proof (induction ws arbitrary: k)
  case Nil
  then show ?case by simp
next
  case (Cons w ws)
  then show ?case unfolding sync_webhooks.simps
    by (intro andThen_keeps sync_webhook_keeps assms) (auto intro!: andThen_keeps split: sum.split)
qed

text \<open>
  A webhook is settled when it is none of the process's, or carries the certificate of the secret its
  service's pods mount.
\<close>

definition settled :: "'k whapi \<Rightarrow> string \<Rightarrow> string \<Rightarrow> 'k \<Rightarrow> webhook \<Rightarrow> webhook \<Rightarrow> bool" where
  "settled A namespace certDir k w w' \<longleftrightarrow> wh_Service w' = wh_Service w \<and>
     (case wh_Service w of
        None \<Rightarrow> w' = w
      | Some svc \<Rightarrow> if fst svc \<noteq> namespace then w' = w
          else \<exists>secretKey caCert. FindMountedVolumeByService A svc certDir k = (Ok secretKey, k) \<and>
            ExtractCaCertFromSecret A secretKey k = (Ok caCert, k) \<and> bytes_key (wh_CABundle w') = bytes_key caCert)"

lemma recover_Ok:
  "recover f k = (Ok (Inr a), k') \<longleftrightarrow> f k = (Ok a, k')"
  "recover f k = (Ok (Inl e), k') \<longleftrightarrow> f k = (Err e, k')"
  by (auto simp: recover_def split: prod.splits result.splits)

lemma andThen_read:
  "snd (f k) = k \<Longrightarrow> andThen f g k = (Ok b, k') \<longleftrightarrow> (\<exists>a. f k = (Ok a, k) \<and> g a k = (Ok b, k'))"
  by (cases "f k"; cases "fst (f k)") (auto simp: andThen_def)

lemma sync_webhook_settles:
  assumes "reads_only A" "sync_webhook A namespace certDir w k = (Ok (Inr (w', changed)), k')"
  shows "settled A namespace certDir k w w' \<and> (changed \<longleftrightarrow> w' \<noteq> w)"
proof (cases "wh_Service w")
  case None
  with assms(2) show ?thesis by (auto simp: sync_webhook_def settled_def)
next
  case (Some svc)
  show ?thesis
  proof (cases "fst svc = namespace")
    case False
    with Some assms(2) show ?thesis by (auto simp: sync_webhook_def settled_def)
  next
    case True
    have kk: "k' = k" using sync_webhook_keeps [OF assms(1), of namespace certDir w k] assms(2) by simp
    have keep: "snd (recover (FindMountedVolumeByService A svc certDir) k) = k"
      "snd (recover (ExtractCaCertFromSecret A secretKey) k) = k" for secretKey
      by (intro recover_keeps reads_keep assms(1))+
    from assms(2) True Some obtain r where
      find: "recover (FindMountedVolumeByService A svc certDir) k = (Ok r, k)"
      and rest: "(case r of
              Inl e \<Rightarrow> (\<lambda>k. (Ok (Inl (if errors_Is e ErrNoAssociatedWorkloadFound then Some (seconds 3) else None, e)), k))
            | Inr secretKey \<Rightarrow> andThen (recover (ExtractCaCertFromSecret A secretKey)) (\<lambda>r k.
                (Ok (case r of
                   Inl e \<Rightarrow> Inl (None, e)
                 | Inr caCert \<Rightarrow> Inr (if bytes_key caCert \<noteq> bytes_key (wh_CABundle w)
                     then (w\<lparr>wh_CABundle := caCert\<rparr>, True) else (w, False))), k))) k = (Ok (Inr (w', changed)), k)"
      by (auto simp: kk sync_webhook_def andThen_read keep)
    from rest obtain secretKey where sk: "r = Inr secretKey" by (cases r) auto
    with rest have "\<exists>r'. recover (ExtractCaCertFromSecret A secretKey) k = (Ok r', k) \<and> (case r' of
                   Inl e \<Rightarrow> Inl (None :: int option, e)
                 | Inr caCert \<Rightarrow> Inr (if bytes_key caCert \<noteq> bytes_key (wh_CABundle w)
                     then (w\<lparr>wh_CABundle := caCert\<rparr>, True) else (w, False))) = Inr (w', changed)"
      by (simp add: andThen_read keep)
    then obtain r' where ex: "recover (ExtractCaCertFromSecret A secretKey) k = (Ok r', k)" and res: "(case r' of
                   Inl e \<Rightarrow> Inl (None :: int option, e)
                 | Inr caCert \<Rightarrow> Inr (if bytes_key caCert \<noteq> bytes_key (wh_CABundle w)
                     then (w\<lparr>wh_CABundle := caCert\<rparr>, True) else (w, False))) = Inr (w', changed)"
      by blast
    then obtain caCert where "r' = Inr caCert" by (cases r') auto
    moreover have "bytes_key caCert \<noteq> bytes_key (wh_CABundle w) \<Longrightarrow> w\<lparr>wh_CABundle := caCert\<rparr> \<noteq> w"
      by (metis webhook.select_convs(2) webhook.surjective webhook.update_convs(2))
    ultimately show ?thesis using sk find ex res True Some
      by (auto simp: settled_def recover_Ok split: if_splits)
  qed
qed

lemma sync_webhooks_settles:
  assumes "reads_only A" "sync_webhooks A namespace certDir ws k = (Ok (Inr (ws', changed)), k')"
  shows "list_all2 (settled A namespace certDir k) ws ws' \<and> (changed \<longleftrightarrow> ws' \<noteq> ws)"
  using assms(2)
proof (induction ws arbitrary: ws' changed k')
  case Nil
  then show ?case by simp
next
  case (Cons w ws)
  from Cons.prems obtain r where w: "sync_webhook A namespace certDir w k = (Ok r, k)"
    and rest: "(case r of
         Inl early \<Rightarrow> (\<lambda>k. (Ok (Inl early), k))
       | Inr (w', changed) \<Rightarrow> andThen (sync_webhooks A namespace certDir ws) (\<lambda>r k.
           (Ok (case r of Inl early \<Rightarrow> Inl early | Inr (ws', changed') \<Rightarrow> Inr (w' # ws', changed \<or> changed')), k))) k
       = (Ok (Inr (ws', changed)), k')"
    by (auto simp: andThen_read sync_webhook_keeps [OF assms(1)])
  from rest obtain w' ch where r: "r = Inr (w', ch)" by (cases r) auto
  with rest obtain r' where ws: "sync_webhooks A namespace certDir ws k = (Ok r', k)"
    and res: "(case r' of Inl early \<Rightarrow> Inl early | Inr (ws', changed') \<Rightarrow> Inr (w' # ws', ch \<or> changed')) = Inr (ws', changed)"
    by (auto simp: andThen_read sync_webhooks_keeps [OF assms(1)])
  from res obtain ws'' ch' where "r' = Inr (ws'', ch')" by (cases r') auto
  with w r ws res Cons.IH [of ws'' ch' k] sync_webhook_settles [OF assms(1), of namespace certDir w k w' ch k] show ?case
    by auto
qed

section \<open>Properties\<close>

text \<open>
  C23: a reconciliation that succeeds on an existing configuration has settled every one of its
  webhooks, in one update if any bundle had to change and without touching the cluster otherwise; one
  that changes the cluster has settled them all, so a failure in the middle leaves no half-made update.
\<close>

theorem Reconcile_settles:
  assumes "reads_only A" "wa_GetConfig A key k = (Ok inst, k)"
    and "MutatingWebhook_Reconcile A namespace certDir key k = (Ok (after, err), k')" "err = None \<or> k' \<noteq> k"
  shows "\<exists>ws. list_all2 (settled A namespace certDir k) (wc_Webhooks inst) ws \<and>
    (if ws = wc_Webhooks inst then k' = k
     else k' = snd (wa_Update A (inst\<lparr>wc_Webhooks := ws\<rparr>) k) \<and>
       (err = None \<longleftrightarrow> fst (wa_Update A (inst\<lparr>wc_Webhooks := ws\<rparr>) k) = Ok ()))"
proof -
  have "recover (wa_GetConfig A key) k = (Ok (Inr inst), k)" using assms(2) by (simp add: recover_Ok)
  then have run: "andThen (sync_webhooks A namespace certDir (wc_Webhooks inst)) (\<lambda>r.
           case r of
             Inl (after, e) \<Rightarrow> (\<lambda>k. (Ok (after, Some e), k))
           | Inr (ws, shouldUpdate) \<Rightarrow>
               if shouldUpdate then andThen (recover (wa_Update A (inst\<lparr>wc_Webhooks := ws\<rparr>))) (\<lambda>r k.
                 (Ok (None, case r of Inl e \<Rightarrow> Some e | Inr _ \<Rightarrow> None), k))
               else (\<lambda>k. (Ok (None, None), k))) k = (Ok (after, err), k')"
    using assms(3) by (simp add: MutatingWebhook_Reconcile_def andThen_Ok)
  obtain r where sync: "sync_webhooks A namespace certDir (wc_Webhooks inst) k = (Ok r, k)"
    and rest: "(case r of
             Inl (after, e) \<Rightarrow> (\<lambda>k. (Ok (after, Some e), k))
           | Inr (ws, shouldUpdate) \<Rightarrow>
               if shouldUpdate then andThen (recover (wa_Update A (inst\<lparr>wc_Webhooks := ws\<rparr>))) (\<lambda>r k.
                 (Ok (None, case r of Inl e \<Rightarrow> Some e | Inr _ \<Rightarrow> None), k))
               else (\<lambda>k. (Ok (None, None), k))) k = (Ok (after, err), k')"
    using run by (auto simp: andThen_read sync_webhooks_keeps [OF assms(1)])
  from rest assms(4) obtain ws ch where r: "r = Inr (ws, ch)" by (cases r) auto
  with sync have s: "list_all2 (settled A namespace certDir k) (wc_Webhooks inst) ws" "ch \<longleftrightarrow> ws \<noteq> wc_Webhooks inst"
    using sync_webhooks_settles [OF assms(1)] by auto
  have "if ws = wc_Webhooks inst then k' = k
     else k' = snd (wa_Update A (inst\<lparr>wc_Webhooks := ws\<rparr>) k) \<and>
       (err = None \<longleftrightarrow> fst (wa_Update A (inst\<lparr>wc_Webhooks := ws\<rparr>) k) = Ok ())"
    using rest r s(2) by (cases "wa_Update A (inst\<lparr>wc_Webhooks := ws\<rparr>) k")
      (auto simp: andThen_def recover_def split: result.splits)
  with s(1) show ?thesis by blast
qed

lemma pod_secret_panics: "pod_secret path p = Panic x \<Longrightarrow> pod_Containers p = [] \<and> x = IndexOutOfRange"
  by (auto simp: pod_secret_def DefaultContainer_def andRes_def split: option.splits list.splits result.splits)

lemma pod_secret_Err: "pod_secret path p \<noteq> Err e"
  by (auto simp: pod_secret_def DefaultContainer_def andRes_def split: option.splits list.splits result.splits)

definition mounts_secret :: "string \<Rightarrow> pod \<Rightarrow> bool" where
  "mounts_secret path p = (case pod_secret path p of Ok key \<Rightarrow> snd key \<noteq> [] | _ \<Rightarrow> False)"

lemma first_secret_spec:
  assumes "list_all (\<lambda>p. pod_Containers p \<noteq> []) pods"
  shows "first_secret path pods = Ok (case find (mounts_secret path) pods of
      None \<Rightarrow> ([], []) | Some p \<Rightarrow> (case pod_secret path p of Ok key \<Rightarrow> key | _ \<Rightarrow> ([], [])))"
  using assms
proof (induction pods)
  case Nil
  then show ?case by simp
next
  case (Cons p ps)
  then obtain key where "pod_secret path p = Ok key"
    using pod_secret_panics pod_secret_Err by (cases "pod_secret path p") fastforce+
  with Cons show ?case by (simp add: mounts_secret_def)
qed

text \<open>
  Of the pods behind a service, the first whose default container mounts the certificate
  directory from a secret decides; having no pod and having no such pod are different errors.
\<close>

theorem FindMountedVolumeByService_first:
  assumes "wa_GetService A key k = (Ok svc, k)" "wa_ListPods A (ss_Namespace svc) (ss_Selector svc) k = (Ok pods, k)"
    and "list_all (\<lambda>p. pod_Containers p \<noteq> []) pods"
  shows "FindMountedVolumeByService A key path k =
    (if pods = [] then Err ErrNoAssociatedWorkloadFound
     else case find (mounts_secret path) pods of
       None \<Rightarrow> Err ErrNoAssociatedVolumeFound
     | Some p \<Rightarrow> pod_secret path p, k)"
proof -
  have "FindMountedVolumeByService A key path k =
      (if pods = [] then Err ErrNoAssociatedWorkloadFound
       else andRes (first_secret path pods) (\<lambda>key. if snd key = [] then Err ErrNoAssociatedVolumeFound else Ok key), k)"
    using assms(1,2) by (simp add: FindMountedVolumeByService_def andThen_Ok)
  moreover have "\<exists>key. pod_secret path p = Ok key \<and> snd key \<noteq> []" if "find (mounts_secret path) pods = Some p" for p
  proof -
    from that have "mounts_secret path p" by (auto simp: find_Some_iff)
    then show ?thesis by (cases "pod_secret path p") (simp_all add: mounts_secret_def)
  qed
  ultimately show ?thesis
    using first_secret_spec [OF assms(3), of path] by (cases "find (mounts_secret path) pods") fastforce+
qed

section \<open>Examples\<close>

definition demo_pod :: pod where
  "demo_pod = \<lparr>pod_Namespace = ''kertical-system'', pod_Labels = None, pod_Annotations = None,
     pod_Containers = [\<lparr>co_Name = ''manager'', co_Mounts = [(''/certs'', ''cert'')]\<rparr>],
     pod_Volumes = [\<lparr>vo_Name = ''cert'', vo_Secret = Some ''webhook-cert''\<rparr>]\<rparr>"

definition demo_hook :: "gobytes \<Rightarrow> webhook" where
  "demo_hook b = \<lparr>wh_Service = Some (''kertical-system'', ''webhook''), wh_CABundle = b\<rparr>"

text \<open>A cluster of one configuration, which is its state.\<close>

definition demo_cluster :: "webhookConfiguration whapi" where
  "demo_cluster = \<lparr>wa_GetConfig = \<lambda>_ k. (Ok k, k),
     wa_GetService = \<lambda>key k. (Ok \<lparr>ss_Namespace = fst key, ss_Name = snd key, ss_Selector = None\<rparr>, k),
     wa_ListPods = \<lambda>_ _ k. (Ok [demo_pod], k),
     wa_GetSecret = \<lambda>key k. (Ok \<lparr>se_Name = snd key, se_Namespace = fst key, se_TLS = True, se_Data = Some [(''ca.crt'', Some [7])]\<rparr>, k),
     wa_Update = \<lambda>cfg k. (Ok (), cfg), wa_IsNotFound = \<lambda>_. False\<rparr>"

definition demo_cfg :: "gobytes \<Rightarrow> webhookConfiguration" where
  "demo_cfg b = \<lparr>wc_Name = ''kertical'', wc_Webhooks = [demo_hook b]\<rparr>"

lemma demo_reconcile:
  "MutatingWebhook_Reconcile demo_cluster ''kertical-system'' ''/certs'' ([], ''kertical'') (demo_cfg None) = (Ok (None, None), demo_cfg (Some [7]))"
  by (simp add: MutatingWebhook_Reconcile_def sync_webhook_def recover_def andThen_def demo_cluster_def demo_cfg_def demo_hook_def
      FindMountedVolumeByService_def ExtractCaCertFromSecret_def pod_secret_def DefaultContainer_def MountedVolume_def
      demo_pod_def map_lookup_def data_lookup_def TLSCACertKey_def bytes_key_def)

lemma Reconcile_settles_witness:
  "\<exists>ws. list_all2 (settled demo_cluster ''kertical-system'' ''/certs'' (demo_cfg None)) [demo_hook None] ws \<and> ws \<noteq> [demo_hook None]"
proof -
  have r: "reads_only demo_cluster" by (simp add: reads_only_def demo_cluster_def)
  have g: "wa_GetConfig demo_cluster ([], ''kertical'') (demo_cfg None) = (Ok (demo_cfg None), demo_cfg None)"
    by (simp add: demo_cluster_def)
  have "demo_cfg (Some [7]) \<noteq> demo_cfg None" by (simp add: demo_cfg_def demo_hook_def)
  with Reconcile_settles [OF r g demo_reconcile] show ?thesis by (auto simp: demo_cfg_def split: if_splits)
qed

lemma FindMountedVolumeByService_first_witness:
  "FindMountedVolumeByService demo_cluster (''kertical-system'', ''webhook'') ''/certs'' (demo_cfg None) =
     (Ok (''kertical-system'', ''webhook-cert''), demo_cfg None)"
  by (subst FindMountedVolumeByService_first [where pods = "[demo_pod]"
        and svc = "\<lparr>ss_Namespace = ''kertical-system'', ss_Name = ''webhook'', ss_Selector = None\<rparr>"])
    (simp_all add: demo_cluster_def demo_pod_def pod_secret_def DefaultContainer_def MountedVolume_def map_lookup_def mounts_secret_def)

end
