(* ===== verification/Events.thy ===== *)
theory Events
  imports EpFacts PfController
begin

text \<open>
  The event handlers of \<open>internal/events\<close>: \<open>ownedByExpectation\<close> observes the creations and deletions a
  controller is waiting for and requeues their controller; \<open>referenced\<close> requeues what a resolver
  names. The rate limiter of client-go is a parameter; the calls on the work queue are logged. The
  object of an event is one of the handler's type, or another one of which only the metadata is known.
\<close>

section \<open>Resolving the controller\<close>

type_synonym request = "string \<times> string"

definition req_String :: "request \<Rightarrow> ControllerKey" where
  "req_String r = fst r @ ''/'' @ snd r"

definition ResolveControllerRef :: "objectMeta \<Rightarrow> string \<Rightarrow> string \<Rightarrow> request option" where
  "ResolveControllerRef m apiVersion kind = (case om_Controller m of
      None \<Rightarrow> None
    | Some ownerRef \<Rightarrow>
        if cr_APIVersion ownerRef = apiVersion \<and> cr_Kind ownerRef = kind
        then Some (om_Namespace m, cr_Name ownerRef) else None)"

definition GvkResolver :: "('o \<Rightarrow> objectMeta) \<Rightarrow> string \<Rightarrow> string \<Rightarrow> 'o \<Rightarrow> request option" where
  "GvkResolver meta apiVersion kind obj = ResolveControllerRef (meta obj) apiVersion kind"

text \<open>The resolver for slices goes through their service, which it reads with \<open>get\<close>.\<close>

definition endpointSliceControllerRefResolver :: "(request \<Rightarrow> kService result) \<Rightarrow> (kService \<Rightarrow> request option) \<Rightarrow>
    kEndpointSlice \<Rightarrow> request option" where
  "endpointSliceControllerRefResolver get svcResolver sl =
     (let labels = om_Labels (kl_Meta sl) in
      if map_get labels LabelManagedBy \<noteq> ControllerName then None
      else case (case labels of None \<Rightarrow> None | Some kvs \<Rightarrow> map_of kvs ExternalProxy.LabelServiceName) of
        None \<Rightarrow> None
      | Some serviceName \<Rightarrow> (case get (om_Namespace (kl_Meta sl), serviceName) of
          Ok svc \<Rightarrow> svcResolver svc
        | _ \<Rightarrow> None))"

section \<open>Handlers\<close>

datatype 'o event_object = Typed 'o | Untyped objectMeta

datatype queue_call = QAdd request | QAddAfter request int

record 'r limiter =
  rl_When :: "request \<Rightarrow> 'r \<Rightarrow> int \<times> 'r"
  rl_Forget :: "request \<Rightarrow> 'r \<Rightarrow> 'r"

record ('r, 'o) ownedByExpectation =
  oh_meta :: "'o \<Rightarrow> objectMeta"
  oh_resolver :: "'o \<Rightarrow> request option"
  oh_limiter :: "'r limiter"

record 'r handler_state =
  hs_expectations :: controllerExpectations
  hs_limiter :: 'r
  hs_queue :: "queue_call list"

definition object_meta :: "('r, 'o) ownedByExpectation \<Rightarrow> 'o event_object \<Rightarrow> objectMeta" where
  "object_meta H obj = (case obj of Typed x \<Rightarrow> oh_meta H x | Untyped m \<Rightarrow> m)"

definition owned_Delete :: "('r, 'o) ownedByExpectation \<Rightarrow> 'o event_object \<Rightarrow> ('r handler_state, unit) step" where
  "owned_Delete H obj s = (Ok (), case obj of
      Untyped _ \<Rightarrow> s
    | Typed x \<Rightarrow> (case oh_resolver H x of
        None \<Rightarrow> s
      | Some req \<Rightarrow> s\<lparr>
          hs_expectations := Observe (req_String req) ActionDeletions (om_Name (oh_meta H x)) (hs_expectations s),
          hs_queue := hs_queue s @ [QAdd req]\<rparr>))"

definition type_assertion :: panic where
  "type_assertion = ExplicitPanic ''interface conversion''"

definition owned_Create :: "('r, 'o) ownedByExpectation \<Rightarrow> int \<Rightarrow> int \<Rightarrow> 'o event_object \<Rightarrow> ('r handler_state, unit) step" where
  "owned_Create H now later obj s =
     (if om_Deleted (object_meta H obj) then owned_Delete H obj s
      else case obj of
        Untyped _ \<Rightarrow> (Panic type_assertion, s)
      | Typed x \<Rightarrow> (case oh_resolver H x of
          None \<Rightarrow> (Ok (), s)
        | Some req \<Rightarrow>
            (let ((isSatisfied, _), e) = SatisfiedExpectations (req_String req) now later (hs_expectations s);
                 s1 = s\<lparr>hs_expectations := Observe (req_String req) ActionCreations (om_Name (oh_meta H x)) e\<rparr> in
             (Ok (), if isSatisfied then
                 (let (delay, l) = rl_When (oh_limiter H) req (hs_limiter s1) in
                  s1\<lparr>hs_limiter := l, hs_queue := hs_queue s1 @ [QAddAfter req delay]\<rparr>)
               else s1\<lparr>hs_limiter := rl_Forget (oh_limiter H) req (hs_limiter s1),
                 hs_queue := hs_queue s1 @ [QAdd req]\<rparr>))))"

definition owned_Update :: "('r, 'o) ownedByExpectation \<Rightarrow> 'o event_object \<Rightarrow> ('r handler_state, unit) step" where
  "owned_Update H obj s = (if om_Deleted (object_meta H obj) then owned_Delete H obj s else (Ok (), s))"

text \<open>\<open>referenced\<close>: a resolver answers with a sequence, \<open>None\<close> for the nil one, which panics when ranged over.\<close>

record ('k, 'o) referenced =
  rh_meta :: "'o \<Rightarrow> objectMeta"
  rh_resolver :: "'o \<Rightarrow> 'k \<Rightarrow> request list option \<times> 'k"

record 'k referenced_state =
  rs_api :: 'k
  rs_queue :: "queue_call list"

definition ref_resolve :: "('k, 'o) referenced \<Rightarrow> 'o \<Rightarrow> ('k referenced_state, unit) step" where
  "ref_resolve R x s = (case rh_resolver R x (rs_api s) of
      (None, k) \<Rightarrow> (Panic NilDereference, s\<lparr>rs_api := k\<rparr>)
    | (Some reqs, k) \<Rightarrow> (Ok (), s\<lparr>rs_api := k, rs_queue := rs_queue s @ map QAdd reqs\<rparr>))"

definition ref_meta :: "('k, 'o) referenced \<Rightarrow> 'o event_object \<Rightarrow> objectMeta" where
  "ref_meta R obj = (case obj of Typed x \<Rightarrow> rh_meta R x | Untyped m \<Rightarrow> m)"

definition ref_Delete :: "('k, 'o) referenced \<Rightarrow> 'o event_object \<Rightarrow> ('k referenced_state, unit) step" where
  "ref_Delete R obj s = (case obj of Untyped _ \<Rightarrow> (Ok (), s) | Typed x \<Rightarrow> ref_resolve R x s)"

definition ref_Create :: "('k, 'o) referenced \<Rightarrow> 'o event_object \<Rightarrow> ('k referenced_state, unit) step" where
  "ref_Create R obj s =
     (if om_Deleted (ref_meta R obj) then ref_Delete R obj s
      else case obj of Untyped _ \<Rightarrow> (Panic type_assertion, s) | Typed x \<Rightarrow> ref_resolve R x s)"

definition ref_Update :: "('k, 'o) referenced \<Rightarrow> 'o event_object \<Rightarrow> ('k referenced_state, unit) step" where
  "ref_Update R obj s =
     (if om_Deleted (ref_meta R obj) then ref_Delete R obj s
      else case obj of Untyped _ \<Rightarrow> (Panic type_assertion, s) | Typed x \<Rightarrow> ref_resolve R x s)"

section \<open>Histories of events\<close>

text \<open>Creations come with the two clock readings of the query they make.\<close>

datatype 'o event = Created int int "'o event_object" | Updated "'o event_object" | Deleted "'o event_object"

fun owned_handle :: "('r, 'o) ownedByExpectation \<Rightarrow> 'o event \<Rightarrow> ('r handler_state, unit) step" where
  "owned_handle H (Created now later obj) = owned_Create H now later obj"
| "owned_handle H (Updated obj) = owned_Update H obj"
| "owned_handle H (Deleted obj) = owned_Delete H obj"

definition owned_run :: "('r, 'o) ownedByExpectation \<Rightarrow> 'o event list \<Rightarrow> ('r handler_state, unit) step" where
  "owned_run H evs = run_all (map (owned_handle H) evs)"

text \<open>What an event says to have happened, and to which controller.\<close>

fun event_object_of :: "'o event \<Rightarrow> 'o event_object" where
  "event_object_of (Created _ _ obj) = obj"
| "event_object_of (Updated obj) = obj"
| "event_object_of (Deleted obj) = obj"

fun event_action :: "('r, 'o) ownedByExpectation \<Rightarrow> 'o event \<Rightarrow> ControllerAction option" where
  "event_action H (Created _ _ obj) = Some (if om_Deleted (object_meta H obj) then ActionDeletions else ActionCreations)"
| "event_action H (Updated obj) = (if om_Deleted (object_meta H obj) then Some ActionDeletions else None)"
| "event_action H (Deleted obj) = Some ActionDeletions"

definition event_target :: "('r, 'o) ownedByExpectation \<Rightarrow> 'o event \<Rightarrow> (request \<times> ControllerAction \<times> string) option" where
  "event_target H ev = (case (event_object_of ev, event_action H ev) of
      (Typed x, Some action) \<Rightarrow> map_option (\<lambda>req. (req, action, om_Name (oh_meta H x))) (oh_resolver H x)
    | _ \<Rightarrow> None)"

definition observes :: "('r, 'o) ownedByExpectation \<Rightarrow> 'o event \<Rightarrow> (ControllerKey \<times> ControllerAction \<times> string) set" where
  "observes H ev = (case event_target H ev of None \<Rightarrow> {} | Some (req, a, n) \<Rightarrow> {(req_String req, a, n)})"

fun queued_request :: "queue_call \<Rightarrow> request" where
  "queued_request (QAdd r) = r"
| "queued_request (QAddAfter r _) = r"

lemma owned_Delete_effect:
  assumes "owned_Delete H obj s = (r, s')"
  shows "r = Ok () \<and> pending (hs_expectations s') = pending (hs_expectations s) - observes H (Deleted obj) \<and>
    map queued_request (hs_queue s') = map queued_request (hs_queue s) @
      (case event_target H (Deleted obj) of None \<Rightarrow> [] | Some (req, _) \<Rightarrow> [req])"
  using assms by (auto simp: owned_Delete_def observes_def event_target_def exp.observe_pending
      split: event_object.splits option.splits)

lemma target_of_deletion:
  "om_Deleted (object_meta H obj) \<Longrightarrow> event_target H (Created t t' obj) = event_target H (Deleted obj)"
  "om_Deleted (object_meta H obj) \<Longrightarrow> event_target H (Updated obj) = event_target H (Deleted obj)"
  "\<not> om_Deleted (object_meta H obj) \<Longrightarrow> event_target H (Updated obj) = None"
  by (simp_all add: event_target_def split: event_object.split)

lemma owned_handle_effect:
  assumes "owned_handle H ev s = (Ok (), s')"
  shows "pending (hs_expectations s') = pending (hs_expectations s) - observes H ev \<and>
    map queued_request (hs_queue s') = map queued_request (hs_queue s) @
      (case event_target H ev of None \<Rightarrow> [] | Some (req, _) \<Rightarrow> [req])"
proof (cases ev)
  case (Deleted obj)
  then show ?thesis using assms owned_Delete_effect [of H obj s "Ok ()" s'] by simp
next
  case (Updated obj)
  then show ?thesis using assms owned_Delete_effect [of H obj s "Ok ()" s'] target_of_deletion [of H obj]
    by (auto simp: owned_Update_def observes_def split: if_splits)
next
  case (Created t t' obj)
  show ?thesis
  proof (cases "om_Deleted (object_meta H obj)")
    case True
    then show ?thesis using assms Created owned_Delete_effect [of H obj s "Ok ()" s'] target_of_deletion(1) [of H obj]
      by (simp add: owned_Create_def observes_def)
  next
    case False
    with assms Created obtain x where x: "obj = Typed x" by (cases obj) (auto simp: owned_Create_def)
    show ?thesis
    proof (cases "oh_resolver H x")
      case None
      with assms Created False x show ?thesis by (simp add: owned_Create_def observes_def event_target_def)
    next
      case (Some req)
      obtain sat d e where sat: "SatisfiedExpectations (req_String req) t t' (hs_expectations s) = ((sat, d), e)"
        by (metis surj_pair)
      obtain delay l where w: "rl_When (oh_limiter H) req (hs_limiter s) = (delay, l)" by fastforce
      have pe: "pending e = pending (hs_expectations s)"
        using exp.satisfied_pending [of "req_String req" t t' "hs_expectations s"] sat by simp
      define s1 where "s1 = s\<lparr>hs_expectations := Observe (req_String req) ActionCreations (om_Name (oh_meta H x)) e\<rparr>"
      have s1: "hs_queue s1 = hs_queue s" "hs_limiter s1 = hs_limiter s"
        "pending (hs_expectations s1) = pending (hs_expectations s) - {(req_String req, ActionCreations, om_Name (oh_meta H x))}"
        by (simp_all add: s1_def exp.observe_pending pe)
      have "s' = (if sat then s1\<lparr>hs_limiter := l, hs_queue := hs_queue s1 @ [QAddAfter req delay]\<rparr>
          else s1\<lparr>hs_limiter := rl_Forget (oh_limiter H) req (hs_limiter s1), hs_queue := hs_queue s1 @ [QAdd req]\<rparr>)"
        using assms False unfolding Created x owned_handle.simps owned_Create_def Let_def
        by (simp only: event_object.case Some option.case sat prod.case s1_def [symmetric] if_False w s1(2)) simp
      moreover have "event_target H ev = Some (req, ActionCreations, om_Name (oh_meta H x))"
        using False by (simp add: event_target_def Created x Some)
      ultimately show ?thesis using s1 by (cases sat) (simp_all add: observes_def)
    qed
  qed
qed

lemma owned_run_effect:
  assumes "owned_run H evs s = (Ok (), s')"
  shows "pending (hs_expectations s') = pending (hs_expectations s) - \<Union> (observes H ` set evs) \<and>
    map queued_request (hs_queue s') = map queued_request (hs_queue s) @
      concat (map (\<lambda>ev. case event_target H ev of None \<Rightarrow> [] | Some (req, _) \<Rightarrow> [req]) evs)"
  using assms
proof (induction evs arbitrary: s)
  case Nil
  then show ?case by (simp add: owned_run_def)
next
  case (Cons ev evs)
  then obtain s1 where "owned_handle H ev s = (Ok (), s1)" "owned_run H evs s1 = (Ok (), s')"
    by (auto simp: owned_run_def elim: andThen_OkE)
  with Cons.IH [of s1] owned_handle_effect [of H ev s s1] show ?case by auto
qed

section \<open>Announcements meet events\<close>

lemma announces_key: "x \<in> announces key meta c \<Longrightarrow> fst x = key"
  by (cases c) auto

lemma observed_request:
  assumes "x \<in> observes H ev"
  shows "\<exists>req. event_target H ev = Some (req, snd x) \<and> req_String req = fst x"
  using assms by (auto simp: observes_def split: option.splits)

lemma run_calls_settle:
  assumes "run_calls w C meta key cs c = (Ok (), c')" "\<forall>x \<in> pending_of w c. fst x \<noteq> key"
    and "owned_run H evs s = (Ok (), s')" "hs_expectations s = xr_expectations c' w"
  defines "expected \<equiv> \<Union> (announces key meta ` set cs)" and "observed \<equiv> \<Union> (observes H ` set evs)"
  shows "fst (fst (SatisfiedExpectations key now later (hs_expectations s'))) \<longleftrightarrow> expected \<subseteq> observed"
    "expected \<subseteq> observed \<Longrightarrow> expected \<noteq> {} \<Longrightarrow> \<exists>q \<in> set (hs_queue s'). req_String (queued_request q) = key"
proof -
  have p: "pending (hs_expectations s) = pending_of w c \<union> expected"
    using run_calls_pending [OF assms(1)] assms(4) by (simp add: pending_of_def expected_def)
  note effect = owned_run_effect [OF assms(3)]
  have key: "fst x = key" if "x \<in> expected" for x
    using that announces_key unfolding expected_def by fastforce
  have "pending (hs_expectations s') = (pending_of w c \<union> expected) - observed"
    using effect p by (simp add: observed_def)
  then show "fst (fst (SatisfiedExpectations key now later (hs_expectations s'))) \<longleftrightarrow> expected \<subseteq> observed"
    unfolding exp.satisfied_iff using assms(2) key by blast
  assume "expected \<subseteq> observed" "expected \<noteq> {}"
  then obtain x ev where x: "x \<in> expected" "ev \<in> set evs" "x \<in> observes H ev"
    unfolding observed_def by blast
  then obtain req where "event_target H ev = Some (req, snd x)" "req_String req = key"
    using observed_request key by metis
  with x(2) have "req \<in> set (concat (map (\<lambda>ev. case event_target H ev of None \<Rightarrow> [] | Some (req, _) \<Rightarrow> [req]) evs))"
    by (cases "snd x"; cases req) (auto intro!: bexI [of _ ev])
  then have "req \<in> queued_request ` set (hs_queue s')"
    using effect by (metis (no_types, lifting) Un_iff set_append set_map)
  with \<open>req_String req = key\<close> show "\<exists>q \<in> set (hs_queue s'). req_String (queued_request q) = key" by blast
qed

text \<open>
  C19: after a successful synchronisation of the service the controller is held back exactly until
  events have reported every creation and deletion that the synchronisation made; and when they have,
  the controller has been put on the work queue.
\<close>

theorem SyncService_settles_with_events:
  assumes "listOwned (xa_Services A) ks_Meta (xp_Meta xp) c = (Ok owned, c1)" "SyncService A key xp c = (Ok (), c')"
    and "\<forall>x \<in> pending_of WService c. fst x \<noteq> key"
    and "owned_run H evs s = (Ok (), s')" "hs_expectations s = xr_expectations c' WService"
  defines "expected \<equiv> \<Union> (announces key ks_Meta ` set (service_plan (xa_SetControllerReference A) xp owned))"
    and "observed \<equiv> \<Union> (observes H ` set evs)"
  shows "(fst (fst (SatisfiedExpectations key now later (hs_expectations s'))) \<longleftrightarrow> expected \<subseteq> observed) \<and>
    (expected \<subseteq> observed \<longrightarrow> expected \<noteq> {} \<longrightarrow> (\<exists>q \<in> set (hs_queue s'). req_String (queued_request q) = key))"
proof -
  have run: "run_calls WService (xa_Services A) ks_Meta key (service_plan (xa_SetControllerReference A) xp owned) c1 = (Ok (), c')"
    using assms(1,2) by (simp add: SyncService_plan andThen_Ok)
  have "xr_expectations c1 = xr_expectations c"
    using assms(1) by (auto simp: listOwned_def andThen_def split: prod.splits result.splits dest: on_xapi_expectations)
  then have "\<forall>x \<in> pending_of WService c1. fst x \<noteq> key" using assms(3) by (simp add: pending_of_def)
  note settle = run_calls_settle [OF run this assms(4,5), folded expected_def observed_def]
  show ?thesis by (intro conjI impI settle)
qed


section \<open>Field indexes\<close>

text \<open>
  The index functions of \<open>internal/fieldindex\<close> and of the PortForwarding controller; the first takes the
  owner references of an object. A list by an indexed field has the objects whose index contains the
  value: by the first, every object that names the owner, whether as its controller or not.
\<close>

definition ownerReferenceUIDIndex :: "controllerRef list \<Rightarrow> string list" where
  "ownerReferenceUIDIndex owners = map cr_UID owners"

definition serviceOwnerReference :: "(string \<rightharpoonup> string) \<Rightarrow> string list" where
  "serviceOwnerReference labels = (case labels PfController.LabelServiceName of None \<Rightarrow> [] | Some owner \<Rightarrow> [owner])"

definition list_by_index :: "('o \<Rightarrow> string list) \<Rightarrow> string \<Rightarrow> 'o list \<Rightarrow> 'o list" where
  "list_by_index index v objs = filter (\<lambda>x. v \<in> set (index x)) objs"

text \<open>
  With a client that answers from the index, the slices the PortForwarding controller works with
  are exactly the live ones of the namespace that carry the service's name as their label.
\<close>

theorem listOwnedEndpointSlices_by_label:
  assumes "\<And>ns name. api_ListEndpointSlices A ns name k =
      (Ok (list_by_index (\<lambda>es. serviceOwnerReference (es_Labels es)) name (filter (\<lambda>es. es_Namespace es = ns) objs)), k)"
  shows "listOwnedEndpointSlices A svc k = (Ok (filter (\<lambda>es. es_Namespace es = svc_Namespace svc \<and> \<not> es_Deleted es \<and>
      es_Labels es PfController.LabelServiceName = Some (svc_Name svc)) objs), k)"
proof -
  have "svc_Name svc \<in> set (serviceOwnerReference l) \<longleftrightarrow> l PfController.LabelServiceName = Some (svc_Name svc)" for l
    by (auto simp: serviceOwnerReference_def split: option.split)
  then show ?thesis
    by (simp add: listOwnedEndpointSlices_def andThen_Ok assms ret_def list_by_index_def conj_ac cong: filter_cong)
qed

section \<open>Examples\<close>

definition demo_limiter :: "unit limiter" where
  "demo_limiter = \<lparr>rl_When = \<lambda>_ l. (3000000000, l), rl_Forget = \<lambda>_ l. l\<rparr>"

definition demo_handler :: "(unit, kService) ownedByExpectation" where
  "demo_handler = \<lparr>oh_meta = ks_Meta, oh_resolver = GvkResolver ks_Meta ''networking.kertical.com/v1alpha1'' ''ExternalProxy'',
     oh_limiter = demo_limiter\<rparr>"

text \<open>A cluster that has no services yet and takes what is created; its state is the list of services.\<close>

definition demo_client :: "(kService list, kService) client" where
  "demo_client = \<lparr>cl_Get = \<lambda>_ k. (Err (ELib ''not found''), k), cl_List = \<lambda>_ _ k. (Ok k, k), cl_Create = \<lambda>x k. (Ok (), k @ [x]),
     cl_Update = \<lambda>_ k. (Ok (), k), cl_Delete = \<lambda>_ k. (Ok (), k)\<rparr>"

definition nothing_client :: "(kService list, 'o) client" where
  "nothing_client = \<lparr>cl_Get = \<lambda>_ k. (Err (ELib ''not found''), k), cl_List = \<lambda>_ _ k. (Ok [], k), cl_Create = \<lambda>_ k. (Ok (), k),
     cl_Update = \<lambda>_ k. (Ok (), k), cl_Delete = \<lambda>_ k. (Ok (), k)\<rparr>"

definition demo_xapi :: "kService list xapi" where
  "demo_xapi = \<lparr>xa_Proxies = nothing_client, xa_UpdateStatus = \<lambda>_ k. (Ok (), k), xa_Services = demo_client,
     xa_Slices = nothing_client, xa_Ingresses = nothing_client,
     xa_SetControllerReference = \<lambda>owner m. Ok (m\<lparr>om_Controller := Some \<lparr>cr_APIVersion = ''networking.kertical.com/v1alpha1'',
       cr_Kind = ''ExternalProxy'', cr_Name = om_Name owner, cr_UID = om_UID owner\<rparr>\<rparr>),
     xa_IsNotFound = \<lambda>_. True, xa_Retry = \<lambda>f. f\<rparr>"

definition demo_reconciler :: "kService list ExternalProxyReconciler" where
  "demo_reconciler = \<lparr>xr_api = [], xr_expectations = \<lambda>_. NewControllerExpectations\<rparr>"

definition demo_created :: kService where
  "demo_created = (NewService (demo_proxy 1))\<lparr>ks_Meta := (ks_Meta (NewService (demo_proxy 1)))\<lparr>om_Controller :=
     Some \<lparr>cr_APIVersion = ''networking.kertical.com/v1alpha1'', cr_Kind = ''ExternalProxy'', cr_Name = ''web'', cr_UID = ''u1''\<rparr>\<rparr>\<rparr>"

lemma demo_listOwned: "listOwned (xa_Services demo_xapi) ks_Meta (xp_Meta (demo_proxy 1)) demo_reconciler = (Ok [], demo_reconciler)"
  by (simp add: listOwned_def andThen_def on_xapi_def demo_xapi_def demo_client_def demo_reconciler_def live_sorted_def)

lemma demo_plan: "service_plan (xa_SetControllerReference demo_xapi) (demo_proxy 1) [] = [Create demo_created]"
  by (simp add: service_plan_def others_def named_def of_result_def demo_xapi_def demo_created_def demo_proxy_def new_meta_def Let_def)

lemma demo_name: "om_Name (ks_Meta demo_created) = ''web''" "om_Deleted (ks_Meta demo_created) = False"
  "oh_resolver demo_handler demo_created = Some (''default'', ''web'')"
  by (simp_all add: demo_created_def NewService_def demo_proxy_def InjectExternalProxyRevision_def new_meta_def Let_def
      demo_handler_def GvkResolver_def ResolveControllerRef_def)

lemma demo_meta: "oh_meta demo_handler = ks_Meta"
  by (simp add: demo_handler_def)

definition demo_synced :: "kService list ExternalProxyReconciler" where
  "demo_synced = upd_exp WService (Expect ''default/web'' ActionCreations ''web'') (demo_reconciler\<lparr>xr_api := [demo_created]\<rparr>)"

lemma demo_SyncService: "SyncService demo_xapi ''default/web'' (demo_proxy 1) demo_reconciler = (Ok (), demo_synced)"
proof -
  have "SyncService demo_xapi ''default/web'' (demo_proxy 1) demo_reconciler =
      run_calls WService (xa_Services demo_xapi) ks_Meta ''default/web'' [Create demo_created] demo_reconciler"
    unfolding SyncService_plan by (simp add: andThen_Ok [where m = "listOwned _ _ _"] demo_listOwned demo_plan)
  then show ?thesis
    by (simp add: demo_name run_calls_eqs announced_def on_xapi_def
        andThen_def demo_xapi_def demo_client_def demo_reconciler_def demo_synced_def upd_exp_def)
qed

lemma demo_events_run: "\<exists>s'. owned_run demo_handler [Created 0 0 (Typed demo_created)]
    \<lparr>hs_expectations = xr_expectations demo_synced WService, hs_limiter = (), hs_queue = []\<rparr> = (Ok (), s')"
  by (auto simp: owned_run_def andThen_def owned_Create_def owned_Delete_def Let_def split: event_object.splits option.splits prod.splits result.splits)

lemma SyncService_settles_with_events_witness:
  "\<exists>s'. owned_run demo_handler [Created 0 0 (Typed demo_created)]
      \<lparr>hs_expectations = xr_expectations demo_synced WService, hs_limiter = (), hs_queue = []\<rparr> = (Ok (), s') \<and>
     fst (fst (SatisfiedExpectations ''default/web'' 0 0 (hs_expectations s')))"
proof -
  obtain s' where run: "owned_run demo_handler [Created 0 0 (Typed demo_created)]
      \<lparr>hs_expectations = xr_expectations demo_synced WService, hs_limiter = (), hs_queue = []\<rparr> = (Ok (), s')"
    using demo_events_run by blast
  have "\<forall>x \<in> pending_of WService demo_reconciler. fst x \<noteq> ''default/web''"
    by (simp add: pending_of_def demo_reconciler_def pending_def NewControllerExpectations_def)
  from SyncService_settles_with_events [OF demo_listOwned demo_SyncService this run]
  have "fst (fst (SatisfiedExpectations ''default/web'' 0 0 (hs_expectations s')))"
    unfolding demo_plan by (simp add: observes_def event_target_def object_meta_def demo_name req_String_def
      demo_meta)
  with run show ?thesis by blast
qed

definition demo_slice :: "string \<Rightarrow> endpointSlice" where
  "demo_slice owner = \<lparr>es_Namespace = ''default'', es_Labels = [PfController.LabelServiceName \<mapsto> owner], es_Deleted = False,
     es_Ports = [], es_Endpoints = []\<rparr>"

definition indexed_api :: "endpointSlice list \<Rightarrow> unit api" where
  "indexed_api objs = (demo_api (demo_object []))\<lparr>api_ListEndpointSlices := \<lambda>ns name k.
     (Ok (list_by_index (\<lambda>es. serviceOwnerReference (es_Labels es)) name (filter (\<lambda>es. es_Namespace es = ns) objs)), k)\<rparr>"

lemma listOwnedEndpointSlices_by_label_witness:
  "listOwnedEndpointSlices (indexed_api [demo_slice ''web'', demo_slice ''db''])
     \<lparr>svc_Namespace = ''default'', svc_Name = ''web'', svc_ClusterIP = ''None'', svc_Ports = []\<rparr> () = (Ok [demo_slice ''web''], ())"
  by (subst listOwnedEndpointSlices_by_label [where objs = "[demo_slice ''web'', demo_slice ''db'']"])
    (simp_all add: indexed_api_def demo_slice_def)

end
