(* ===== verification/SecretEvents.thy ===== *)
theory SecretEvents
  imports WebhookCert Events
begin

text \<open>
  The event handler for secrets of the webhook controllers
  (\<open>internal/webhook/controller/secret_event_handler.go\<close>). Its \<open>Create\<close> and \<open>Update\<close> end in the \<open>Delete\<close> of
  \<open>events.Nothing\<close>; \<open>resolveAssociatedWebhook\<close> is what finds the configurations a secret concerns. The
  client and the lister of configurations are parameters.
\<close>

section \<open>The handler\<close>

record 'k SecretEventHandler =
  sh_ListPods :: "string \<Rightarrow> ('k, pod list) step"
  sh_ListServices :: "string \<Rightarrow> ('k, selecting_service list) step"
  sh_lister :: "selecting_service \<Rightarrow> ('k, webhookConfiguration list) step"

definition nothing_Delete :: "secret \<Rightarrow> queue_call list \<Rightarrow> queue_call list" where
  "nothing_Delete s wq = wq"

definition secret_Create :: "secret \<Rightarrow> bool \<Rightarrow> queue_call list \<Rightarrow> queue_call list" where
  "secret_Create s deleting wq = (if deleting then nothing_Delete s wq else wq)"

definition secret_Update :: "secret \<Rightarrow> bool \<Rightarrow> queue_call list \<Rightarrow> queue_call list" where
  "secret_Update s deleting wq = (if deleting then nothing_Delete s wq else wq)"

section \<open>The configurations of a secret\<close>

definition service_key :: "selecting_service \<Rightarrow> object_key" where
  "service_key s = (ss_Namespace s, ss_Name s)"

definition target_requests :: "webhookConfiguration list \<Rightarrow> queue_call list" where
  "target_requests cfgs = map (\<lambda>cfg. QAdd ([], wc_Name cfg)) cfgs"

text \<open>The loop over the services of the pods, with \<open>serviceSeen\<close>; a lister's error is logged and skipped.\<close>

fun resolve_services :: "(selecting_service \<Rightarrow> ('k, webhookConfiguration list) step) \<Rightarrow> selecting_service list \<Rightarrow> object_key set \<Rightarrow>
    queue_call list \<Rightarrow> ('k, queue_call list) step" where
  "resolve_services lister [] seen wq k = (Ok wq, k)"
| "resolve_services lister (s # ss) seen wq k =
     (if service_key s \<in> seen then resolve_services lister ss seen wq k
      else andThen (recover (lister s)) (\<lambda>r.
        resolve_services lister ss (insert (service_key s) seen)
          (case r of Inl _ \<Rightarrow> wq | Inr cfgs \<Rightarrow> wq @ target_requests cfgs)) k)"

definition matched_services :: "secret \<Rightarrow> pod list \<Rightarrow> selecting_service list \<Rightarrow> selecting_service list" where
  "matched_services s pods services =
     concat (map (\<lambda>p. iterMatchedService services (pod_Labels p)) (filter (\<lambda>p. hasSecretVolume (pod_Volumes p) (se_Name s)) pods))"

definition resolveAssociatedWebhook :: "'k SecretEventHandler \<Rightarrow> secret \<Rightarrow> queue_call list \<Rightarrow> ('k, queue_call list) step" where
  "resolveAssociatedWebhook H s wq =
     (case data_lookup s TLSCACertKey of
        Some (Some cert) \<Rightarrow>
          if \<not> se_TLS s then (\<lambda>k. (Ok wq, k))
          else andThen (recover (sh_ListPods H (se_Namespace s))) (\<lambda>r.
            case r of Inl _ \<Rightarrow> (\<lambda>k. (Ok wq, k))
            | Inr pods \<Rightarrow> andThen (recover (sh_ListServices H (se_Namespace s))) (\<lambda>r.
                case r of Inl _ \<Rightarrow> (\<lambda>k. (Ok wq, k))
                | Inr services \<Rightarrow> resolve_services (sh_lister H) (matched_services s pods services) {} wq))
      | _ \<Rightarrow> (\<lambda>k. (Ok wq, k)))"

section \<open>What it finds\<close>

lemma andThen_recover: "f k = (Ok a, k') \<Longrightarrow> andThen (recover f) g k = g (Inr a) k'"
  by (simp add: recover_def andThen_def)

definition concerns :: "selecting_service list \<Rightarrow> webhookConfiguration \<Rightarrow> bool" where
  "concerns ss cfg \<longleftrightarrow> list_ex (\<lambda>s. list_ex (\<lambda>w. isMatchedWebhookService w s) (wc_Webhooks cfg)) ss"

lemma resolve_services_set:
  assumes "\<And>s. lister s k = (Ok (filter (\<lambda>cfg. list_ex (\<lambda>w. isMatchedWebhookService w s) (wc_Webhooks cfg)) cfgs), k)"
  shows "\<exists>wq'. resolve_services lister ss seen wq k = (Ok wq', k) \<and>
    set wq' = set wq \<union> set (target_requests (filter (concerns (filter (\<lambda>s. service_key s \<notin> seen) ss)) cfgs))"
proof (induction ss arbitrary: seen wq)
  case Nil
  then show ?case by (simp add: concerns_def target_requests_def)
next
  case (Cons s ss)
  show ?case
  proof (cases "service_key s \<in> seen")
    case True
    then show ?thesis using Cons.IH [of seen wq] by simp
  next
    case False
    let ?hit = "\<lambda>s cfg. list_ex (\<lambda>w. isMatchedWebhookService w s) (wc_Webhooks cfg)"
    let ?wq = "wq @ target_requests (filter (?hit s) cfgs)"
    obtain wq' where wq': "resolve_services lister ss (insert (service_key s) seen) ?wq k = (Ok wq', k)"
      and q: "set wq' = set ?wq \<union> set (target_requests
          (filter (concerns (filter (\<lambda>s'. service_key s' \<notin> insert (service_key s) seen) ss)) cfgs))"
      using Cons.IH by blast
    have same: "?hit s' cfg = ?hit s cfg" if "service_key s' = service_key s" for s' cfg
      using that by (simp add: service_key_def isMatchedWebhookService_def)
    let ?seen = "insert (service_key s) seen"
    have hits: "concerns (filter (\<lambda>s. service_key s \<notin> seen) (s # ss)) cfg \<longleftrightarrow>
        ?hit s cfg \<or> concerns (filter (\<lambda>s'. service_key s' \<notin> ?seen) ss) cfg" for cfg
    proof -
      have "(\<exists>s' \<in> set ss. service_key s' \<notin> seen \<and> ?hit s' cfg) \<Longrightarrow> ?hit s cfg \<or> (\<exists>s' \<in> set ss. service_key s' \<notin> ?seen \<and> ?hit s' cfg)"
        using same [of _ cfg] by blast
      with False show ?thesis by (auto simp: concerns_def list_ex_iff)
    qed
    have "set (filter (concerns (filter (\<lambda>s. service_key s \<notin> seen) (s # ss))) cfgs) =
        set (filter (?hit s) cfgs) \<union> set (filter (concerns (filter (\<lambda>s'. service_key s' \<notin> ?seen) ss)) cfgs)"
      using hits by (simp only: set_filter) blast
    then have "set wq \<union> set (target_requests (filter (concerns (filter (\<lambda>s. service_key s \<notin> seen) (s # ss))) cfgs)) = set wq'"
      by (simp only: q target_requests_def set_append set_map image_Un Un_assoc)
    moreover have "resolve_services lister (s # ss) seen wq k = (Ok wq', k)"
      using False wq' by (simp add: andThen_recover [where f = "lister s", OF assms])
    ultimately show ?thesis by blast
  qed
qed

lemma concerns_matched:
  "concerns (matched_services s pods services) cfg \<longleftrightarrow>
     (\<exists>w svc p. w \<in> set (wc_Webhooks cfg) \<and> isMatchedWebhookService w svc \<and> svc \<in> set services \<and>
        selects (ss_Selector svc) (pod_Labels p) \<and> p \<in> set pods \<and> hasSecretVolume (pod_Volumes p) (se_Name s))"
  by (simp add: concerns_def matched_services_def iterMatchedService_def list_ex_iff) blast

definition has_ca :: "secret \<Rightarrow> bool" where
  "has_ca s = (case data_lookup s TLSCACertKey of Some (Some _) \<Rightarrow> True | _ \<Rightarrow> False)"

text \<open>
  Resolving a TLS secret with a CA certificate requests exactly the configurations with a webhook
  served by a service that selects a pod of the namespace mounting the secret; another secret requests
  nothing.
\<close>

theorem resolveAssociatedWebhook_finds:
  assumes "sh_ListPods H (se_Namespace s) k = (Ok pods, k)" "sh_ListServices H (se_Namespace s) k = (Ok services, k)"
    and "\<And>svc. sh_lister H svc k = ListWebhookByService (\<lambda>k. (Ok cfgs, k)) svc k"
  shows "\<exists>wq'. resolveAssociatedWebhook H s wq k = (Ok wq', k) \<and>
    set wq' = set wq \<union> (if se_TLS s \<and> has_ca s then
      {QAdd ([], wc_Name cfg) | cfg w svc p. cfg \<in> set cfgs \<and> w \<in> set (wc_Webhooks cfg) \<and> isMatchedWebhookService w svc \<and>
        svc \<in> set services \<and> selects (ss_Selector svc) (pod_Labels p) \<and>
        p \<in> set pods \<and> hasSecretVolume (pod_Volumes p) (se_Name s)} else {})"
proof (cases "se_TLS s \<and> has_ca s")
  case False
  then show ?thesis
    by (auto simp: resolveAssociatedWebhook_def has_ca_def split: option.splits)
next
  case True
  have lister: "sh_lister H svc k = (Ok (filter (\<lambda>cfg. list_ex (\<lambda>w. isMatchedWebhookService w svc) (wc_Webhooks cfg)) cfgs), k)" for svc
    by (simp add: assms(3) ListWebhookByService_def andThen_def)
  from True have "resolveAssociatedWebhook H s wq k = resolve_services (sh_lister H) (matched_services s pods services) {} wq k"
    by (auto simp: resolveAssociatedWebhook_def has_ca_def andThen_recover [where f = "sh_ListPods H (se_Namespace s)", OF assms(1)]
        andThen_recover [where f = "sh_ListServices H (se_Namespace s)", OF assms(2)] split: option.splits)
  with resolve_services_set [where lister = "sh_lister H" and cfgs = cfgs, OF lister, of "matched_services s pods services" "{}" wq] True
  obtain wq' where wq': "resolveAssociatedWebhook H s wq k = (Ok wq', k)"
    and q: "set wq' = set wq \<union> set (target_requests (filter (concerns (matched_services s pods services)) cfgs))"
    by auto
  have "set (target_requests (filter (concerns (matched_services s pods services)) cfgs)) =
      {QAdd ([], wc_Name cfg) | cfg w svc p. cfg \<in> set cfgs \<and> w \<in> set (wc_Webhooks cfg) \<and> isMatchedWebhookService w svc \<and>
        svc \<in> set services \<and> selects (ss_Selector svc) (pod_Labels p) \<and>
        p \<in> set pods \<and> hasSecretVolume (pod_Volumes p) (se_Name s)}"
    unfolding target_requests_def set_map set_filter concerns_matched by blast
  with q wq' True show ?thesis by auto
qed

definition demo_secret :: secret where
  "demo_secret = \<lparr>se_Name = ''webhook-cert'', se_Namespace = ''kertical-system'', se_TLS = True, se_Data = Some [(''ca.crt'', Some [7])]\<rparr>"

definition demo_secret_handler :: "unit SecretEventHandler" where
  "demo_secret_handler = \<lparr>sh_ListPods = \<lambda>_ k. (Ok [demo_pod], k),
     sh_ListServices = \<lambda>ns k. (Ok [\<lparr>ss_Namespace = ns, ss_Name = ''webhook'', ss_Selector = None\<rparr>], k),
     sh_lister = ListWebhookByService (\<lambda>k. (Ok [demo_cfg None], k))\<rparr>"

theorem resolveAssociatedWebhook_finds_witness:
  "\<exists>wq'. resolveAssociatedWebhook demo_secret_handler demo_secret [] () = (Ok wq', ()) \<and> set wq' = {QAdd ([], ''kertical'')}"
  using resolveAssociatedWebhook_finds [of demo_secret_handler demo_secret "()" "[demo_pod]"
      "[\<lparr>ss_Namespace = ''kertical-system'', ss_Name = ''webhook'', ss_Selector = None\<rparr>]" "[demo_cfg None]" "[]"]
  by (simp add: demo_secret_handler_def demo_secret_def has_ca_def data_lookup_def TLSCACertKey_def demo_cfg_def demo_hook_def demo_pod_def
      hasSecretVolume_def isMatchedWebhookService_def selects_def)

end
