(* ===== verification/Gencert.thy ===== *)
theory Gencert
  imports WebhookCert "HOL-Library.AList"
begin

text \<open>
  The certificate generator: \<open>cmd/gencert/genssl/genssl.go\<close>, which makes a CA and a service certificate
  signed by it, and \<open>cmd/gencert/main.go\<close>, which stores them in a secret. Keys, signatures, encodings and
  random numbers (record \<open>crypto\<close>) and the Kubernetes client (record \<open>kube\<close>) are parameters over one
  state; \<open>x509.Certificate\<close> has the fields the code sets or reads.
\<close>

section \<open>Certificates\<close>

datatype key_usage = CertSign | DigitalSignature | KeyEncipherment | ContentCommitment

record 'pub certificate =
  ct_Raw :: bytes
  ct_PublicKey :: "'pub option"
  ct_SerialNumber :: int
  ct_CommonName :: string
  ct_SubjectKeyId :: bytes
  ct_AuthorityKeyId :: bytes
  ct_NotBefore :: int
  ct_NotAfter :: int
  ct_KeyUsage :: "key_usage set"
  ct_ServerAuth :: bool  \<comment> \<open>\<open>ExtKeyUsage\<close> is \<open>ExtKeyUsageServerAuth\<close>\<close>
  ct_BasicConstraintsValid :: bool
  ct_IsCA :: bool
  ct_MaxPathLenZero :: bool
  ct_DNSNames :: "string list"

record ('s, 'key, 'pub) crypto =
  cr_GenerateKey :: "('s, 'key) step"
  cr_Int :: "int \<Rightarrow> ('s, int) step"
  cr_Now :: "('s, int) step"
  cr_AddYears :: "int \<Rightarrow> int \<Rightarrow> int"
  cr_Public :: "'key \<Rightarrow> 'pub"
  cr_MarshalPKIXPublicKey :: "'pub \<Rightarrow> bytes result"
  cr_SubjectPublicKey :: "bytes \<Rightarrow> bytes result"
  cr_sha1 :: "bytes \<Rightarrow> bytes"
  cr_CreateCertificate :: "'pub certificate \<Rightarrow> 'pub certificate \<Rightarrow> 'pub \<Rightarrow> 'key \<Rightarrow> ('s, bytes) step"
  cr_ParseCertificate :: "bytes \<Rightarrow> 'pub certificate result"
  cr_MarshalPKCS8PrivateKey :: "'key \<Rightarrow> bytes result"
  cr_EncodeToMemory :: "string \<Rightarrow> bytes \<Rightarrow> bytes"

record CertificateBundle =
  cb_CACert :: bytes
  cb_ServicePrivateKey :: bytes
  cb_ServiceCert :: bytes

text \<open>A call that has no state.\<close>

definition pure_call :: "'a result \<Rightarrow> ('s, 'a) step" where
  "pure_call r s = (r, s)"

definition randomSerialNumber :: "('s, 'key, 'pub) crypto \<Rightarrow> ('s, int) step" where
  "randomSerialNumber C = cr_Int C (2 ^ 128)"

definition subjectKeyId :: "('s, 'key, 'pub) crypto \<Rightarrow> 'key \<Rightarrow> bytes result" where
  "subjectKeyId C privateKey =
     andRes (cr_MarshalPKIXPublicKey C (cr_Public C privateKey)) (\<lambda>pubASN1.
       andRes (cr_SubjectPublicKey C pubASN1) (\<lambda>bits. Ok (cr_sha1 C bits)))"

text \<open>The fields the two templates share; \<open>time.Now\<close> is read once for each end of the validity.\<close>

definition template :: "('s, 'key, 'pub) crypto \<Rightarrow> int \<Rightarrow> string \<Rightarrow> bytes \<Rightarrow> int \<Rightarrow> int \<Rightarrow> 'pub certificate" where
  "template C serial commonName skid now1 now2 =
     \<lparr>ct_Raw = [], ct_PublicKey = None, ct_SerialNumber = serial, ct_CommonName = commonName, ct_SubjectKeyId = skid,
       ct_AuthorityKeyId = skid, ct_NotBefore = now1, ct_NotAfter = cr_AddYears C 100 now2, ct_KeyUsage = {},
       ct_ServerAuth = False, ct_BasicConstraintsValid = False, ct_IsCA = False, ct_MaxPathLenZero = False, ct_DNSNames = []\<rparr>"

text \<open>Key, serial number, subject key id and the two readings of the clock.\<close>

definition new_identity :: "('s, 'key, 'pub) crypto \<Rightarrow> string \<Rightarrow> ('s, 'key \<times> 'pub certificate) step" where
  "new_identity C commonName =
     andThen (wrapped ''failed to generate private key'' (cr_GenerateKey C)) (\<lambda>privateKey.
       andThen (wrapped ''failed to generate serial number'' (randomSerialNumber C)) (\<lambda>serialNumber.
         andThen (wrapped ''failed to generate subject key id'' (pure_call (subjectKeyId C privateKey))) (\<lambda>skid.
           andThen (cr_Now C) (\<lambda>now1. andThen (cr_Now C) (\<lambda>now2 s.
             (Ok (privateKey, template C serialNumber commonName skid now1 now2), s))))))"

definition SelfSignedCertificate :: "('s, 'key, 'pub) crypto \<Rightarrow> string \<Rightarrow> ('s, 'key \<times> 'pub certificate) step" where
  "SelfSignedCertificate C commonName =
     andThen (new_identity C commonName) (\<lambda>(privateKey, t0).
       let t = t0\<lparr>ct_KeyUsage := {CertSign}, ct_BasicConstraintsValid := True, ct_IsCA := True, ct_MaxPathLenZero := True\<rparr> in
       andThen (wrapped ''failed to create certificate'' (cr_CreateCertificate C t t (cr_Public C privateKey) privateKey)) (\<lambda>der.
         pure_call (andRes (cr_ParseCertificate C der) (\<lambda>cert. Ok (privateKey, cert)))))"

definition SignCertificate :: "('s, 'key, 'pub) crypto \<Rightarrow> 'key \<Rightarrow> 'pub certificate \<Rightarrow> string \<Rightarrow> string list \<Rightarrow>
    ('s, 'key \<times> 'pub certificate) step" where
  "SignCertificate C caKey caCert commonName dnsNames =
     andThen (new_identity C commonName) (\<lambda>(privateKey, t0).
       let t = t0\<lparr>ct_KeyUsage := {DigitalSignature, KeyEncipherment, ContentCommitment}, ct_ServerAuth := True,
         ct_DNSNames := dnsNames\<rparr> in
       andThen (wrapped ''failed to create certificate'' (cr_CreateCertificate C t caCert (cr_Public C privateKey) caKey)) (\<lambda>der.
         pure_call (andRes (cr_ParseCertificate C der) (\<lambda>cert. Ok (privateKey, cert)))))"

definition EncodeCertificateToPEM :: "('s, 'key, 'pub) crypto \<Rightarrow> 'pub certificate \<Rightarrow> bytes" where
  "EncodeCertificateToPEM C cert = cr_EncodeToMemory C ''CERTIFICATE'' (ct_Raw cert)"

definition EncodePrivateKeyToPEM :: "('s, 'key, 'pub) crypto \<Rightarrow> 'key \<Rightarrow> bytes result" where
  "EncodePrivateKeyToPEM C privateKey =
     andRes (wrap_err ''failed to marshal private key'' (cr_MarshalPKCS8PrivateKey C privateKey)) (\<lambda>der.
       Ok (cr_EncodeToMemory C ''PRIVATE KEY'' der))"

definition service_names :: "string \<Rightarrow> string \<Rightarrow> string list" where
  "service_names service namespace =
     [service, service @ ''.'' @ namespace, service @ ''.'' @ namespace @ ''.svc'']"

definition GenerateServiceCertBundle :: "('s, 'key, 'pub) crypto \<Rightarrow> string \<Rightarrow> string \<Rightarrow> ('s, CertificateBundle) step" where
  "GenerateServiceCertBundle C service namespace =
     (let commonName = service @ ''.'' @ namespace @ ''.svc'' in
      andThen (wrapped ''failed to generate CA certificate'' (SelfSignedCertificate C commonName)) (\<lambda>(caPrivateKey, caCert).
        andThen (wrapped ''failed to generate service certificate''
            (SignCertificate C caPrivateKey caCert commonName (service_names service namespace))) (\<lambda>(svcPrivateKey, svcCert).
          andThen (wrapped ''failed to encode service private key'' (pure_call (EncodePrivateKeyToPEM C svcPrivateKey))) (\<lambda>encoded s.
            (Ok \<lparr>cb_CACert = EncodeCertificateToPEM C caCert, cb_ServicePrivateKey = encoded,
               cb_ServiceCert = EncodeCertificateToPEM C svcCert\<rparr>, s)))))"

section \<open>The secret\<close>

record 's kube =
  ku_Get :: "string \<Rightarrow> string \<Rightarrow> ('s, secret) step"
  ku_Create :: "secret \<Rightarrow> ('s, unit) step"
  ku_Update :: "secret \<Rightarrow> ('s, unit) step"
  ku_IsNotFound :: "go_error \<Rightarrow> bool"

definition TLSCertKey :: string where "TLSCertKey = ''tls.crt''"
definition TLSPrivateKeyKey :: string where "TLSPrivateKeyKey = ''tls.key''"

definition new_secret :: "string \<Rightarrow> string \<Rightarrow> CertificateBundle \<Rightarrow> secret" where
  "new_secret namespace secretName b =
     \<lparr>se_Name = secretName, se_Namespace = namespace, se_TLS = True,
       se_Data = Some [(TLSCACertKey, Some (cb_CACert b)), (TLSCertKey, Some (cb_ServiceCert b)),
         (TLSPrivateKeyKey, Some (cb_ServicePrivateKey b))]\<rparr>"

text \<open>Three writes to the map, which may be nil.\<close>

definition with_bundle :: "CertificateBundle \<Rightarrow> secret \<Rightarrow> secret result" where
  "with_bundle b s = (case se_Data s of
      None \<Rightarrow> Panic NilMapWrite
    | Some kvs \<Rightarrow> Ok (s\<lparr>se_Data := Some (AList.update TLSPrivateKeyKey (Some (cb_ServicePrivateKey b))
        (AList.update TLSCertKey (Some (cb_ServiceCert b)) (AList.update TLSCACertKey (Some (cb_CACert b)) kvs)))\<rparr>))"

definition genCert :: "'s kube \<Rightarrow> ('s, 'key, 'pub) crypto \<Rightarrow> string \<Rightarrow> string \<Rightarrow> string \<Rightarrow> ('s, unit) step" where
  "genCert K C namespace svcName secretName =
     (let there = namespace @ ''/'' @ secretName in
      andThen (wrapped ''failed to generate certificate bundle'' (GenerateServiceCertBundle C svcName namespace)) (\<lambda>b s.
        case ku_Get K namespace secretName s of
          (Ok old, s') \<Rightarrow> andThen (pure_call (with_bundle b old)) (\<lambda>new. wrapped (''failed to update secret '' @ there) (ku_Update K new)) s'
        | (Err e, s') \<Rightarrow>
            if ku_IsNotFound K e then wrapped (''failed to create secret '' @ there) (ku_Create K (new_secret namespace secretName b)) s'
            else (Err (EWrap (''failed to get secret '' @ there) e), s')
        | (Panic p, s') \<Rightarrow> (Panic p, s')))"

text \<open>One argument \<open>service/secret\<close>, and the loop over them.\<close>

definition run_cert :: "'s kube \<Rightarrow> ('s, 'key, 'pub) crypto \<Rightarrow> string \<Rightarrow> string \<Rightarrow> ('s, unit) step" where
  "run_cert K C namespace cert = (case Split cert CHR ''/'' of
      [svc, sec] \<Rightarrow> wrapped (''failed to generate certificate for '' @ cert) (genCert K C namespace svc sec)
    | _ \<Rightarrow> pure_call (Err (EText (''invalid certificate format: '' @ cert))))"

definition Run :: "'s kube result \<Rightarrow> ('s, 'key, 'pub) crypto \<Rightarrow> string \<Rightarrow> string list \<Rightarrow> ('s, unit) step" where
  "Run connect C namespace certs = (case connect of
      Ok K \<Rightarrow> run_all (map (run_cert K C namespace) certs)
    | Err e \<Rightarrow> pure_call (Err e)
    | Panic p \<Rightarrow> pure_call (Panic p))"

section \<open>What the bundle is\<close>

text \<open>
  What \<open>crypto/x509\<close> promises of a certificate it has created: its signature verifies under the public
  key of the signing key, and parsing it gives the fields of the template, the raw bytes and the public
  key. The authority key id is the parent's subject key id unless the parent has none or has the same
  name as the subject, when it is the template's.
\<close>

definition x509_laws :: "('s, 'key, 'pub) crypto \<Rightarrow> ('pub \<Rightarrow> bytes \<Rightarrow> bool) \<Rightarrow> bool" where
  "x509_laws C verifies \<longleftrightarrow>
     (\<forall>t p pub key s der s'. cr_CreateCertificate C t p pub key s = (Ok der, s') \<longrightarrow>
        verifies (cr_Public C key) der \<and>
        (\<forall>c. cr_ParseCertificate C der = Ok c \<longrightarrow>
           c = t\<lparr>ct_Raw := der, ct_PublicKey := Some pub,
             ct_AuthorityKeyId := if ct_CommonName p = ct_CommonName t \<or> ct_SubjectKeyId p = []
               then ct_AuthorityKeyId t else ct_SubjectKeyId p\<rparr>))"

lemma pure_call_OkD: "pure_call r s = (Ok a, s') \<Longrightarrow> r = Ok a \<and> s' = s"
  by (simp add: pure_call_def)

text \<open>The template that a new identity comes with.\<close>

lemma new_identity_Ok:
  assumes "new_identity C commonName s = (Ok (key, t), s')"
  shows "ct_CommonName t = commonName \<and> ct_AuthorityKeyId t = ct_SubjectKeyId t \<and> subjectKeyId C key = Ok (ct_SubjectKeyId t) \<and>
    \<not> ct_IsCA t"
  using assms unfolding new_identity_def
  by (auto simp: template_def elim!: andThen_OkE dest!: wrapped_OkD pure_call_OkD)

lemma SelfSignedCertificate_Ok:
  assumes "SelfSignedCertificate C commonName s = (Ok (key, ca), s')" "x509_laws C verifies"
  shows "ct_IsCA ca \<and> ct_KeyUsage ca = {CertSign} \<and> ct_PublicKey ca = Some (cr_Public C key) \<and> ct_CommonName ca = commonName \<and>
    verifies (cr_Public C key) (ct_Raw ca)"
proof -
  from assms(1) obtain t s1 der s2 where t: "new_identity C commonName s = (Ok (key, t), s1)"
    and der: "cr_CreateCertificate C (t\<lparr>ct_KeyUsage := {CertSign}, ct_BasicConstraintsValid := True, ct_IsCA := True, ct_MaxPathLenZero := True\<rparr>)
      (t\<lparr>ct_KeyUsage := {CertSign}, ct_BasicConstraintsValid := True, ct_IsCA := True, ct_MaxPathLenZero := True\<rparr>) (cr_Public C key) key s1 = (Ok der, s2)"
    and ca: "cr_ParseCertificate C der = Ok ca"
    unfolding SelfSignedCertificate_def Let_def
    by (auto elim!: andThen_OkE andRes_OkE dest!: wrapped_OkD pure_call_OkD)
  with assms(2) new_identity_Ok [OF t] show ?thesis
    unfolding x509_laws_def by fastforce
qed

lemma SignCertificate_Ok:
  assumes "SignCertificate C caKey caCert commonName names s = (Ok (key, svc), s')" "x509_laws C verifies"
  shows "ct_DNSNames svc = names \<and> ct_ServerAuth svc \<and> \<not> ct_IsCA svc \<and> ct_PublicKey svc = Some (cr_Public C key) \<and>
    verifies (cr_Public C caKey) (ct_Raw svc) \<and>
    (ct_CommonName caCert = commonName \<longrightarrow> ct_AuthorityKeyId svc = ct_SubjectKeyId svc)"
proof -
  from assms(1) obtain t s1 der s2 where t: "new_identity C commonName s = (Ok (key, t), s1)"
    and der: "cr_CreateCertificate C (t\<lparr>ct_KeyUsage := {DigitalSignature, KeyEncipherment, ContentCommitment}, ct_ServerAuth := True,
         ct_DNSNames := names\<rparr>) caCert (cr_Public C key) caKey s1 = (Ok der, s2)"
    and svc: "cr_ParseCertificate C der = Ok svc"
    unfolding SignCertificate_def Let_def
    by (auto elim!: andThen_OkE andRes_OkE dest!: wrapped_OkD pure_call_OkD)
  with assms(2) new_identity_Ok [OF t] show ?thesis
    unfolding x509_laws_def by fastforce
qed

text \<open>
  C37: The bundle holds a CA certificate and a server certificate for the three names of the service: the
  latter's signature verifies under the CA's key and the private key stored is its own. Since both
  carry the same name, its authority key id is its own key id and not the CA's.
\<close>

theorem GenerateServiceCertBundle_verifies:
  assumes "x509_laws C verifies" "GenerateServiceCertBundle C service namespace s = (Ok b, s')"
  shows "\<exists>ca svc key capub. cb_CACert b = EncodeCertificateToPEM C ca \<and> ct_IsCA ca \<and> CertSign \<in> ct_KeyUsage ca \<and>
      ct_PublicKey ca = Some capub \<and> verifies capub (ct_Raw svc) \<and>
      cb_ServiceCert b = EncodeCertificateToPEM C svc \<and> ct_DNSNames svc = service_names service namespace \<and> ct_ServerAuth svc \<and>
      \<not> ct_IsCA svc \<and> EncodePrivateKeyToPEM C key = Ok (cb_ServicePrivateKey b) \<and> ct_PublicKey svc = Some (cr_Public C key) \<and>
      ct_AuthorityKeyId svc = ct_SubjectKeyId svc"
proof -
  let ?cn = "service @ ''.'' @ namespace @ ''.svc''"
  from assms(2) obtain caKey ca s1 key svc s2 enc where ca: "SelfSignedCertificate C ?cn s = (Ok (caKey, ca), s1)"
    and svc: "SignCertificate C caKey ca ?cn (service_names service namespace) s1 = (Ok (key, svc), s2)"
    and enc: "EncodePrivateKeyToPEM C key = Ok enc"
    and b: "b = \<lparr>cb_CACert = EncodeCertificateToPEM C ca, cb_ServicePrivateKey = enc, cb_ServiceCert = EncodeCertificateToPEM C svc\<rparr>"
    unfolding GenerateServiceCertBundle_def Let_def
    by (auto elim!: andThen_OkE dest!: wrapped_OkD pure_call_OkD)
  from SelfSignedCertificate_Ok [OF ca assms(1)] SignCertificate_Ok [OF svc assms(1)] enc b show ?thesis by auto
qed

section \<open>What ends up in the secret\<close>

lemma with_bundle_lookup:
  assumes "with_bundle b old = Ok new"
  shows "data_lookup new TLSCACertKey = Some (Some (cb_CACert b)) \<and> data_lookup new TLSCertKey = Some (Some (cb_ServiceCert b)) \<and>
    data_lookup new TLSPrivateKeyKey = Some (Some (cb_ServicePrivateKey b)) \<and>
    (k \<notin> {TLSCACertKey, TLSCertKey, TLSPrivateKeyKey} \<longrightarrow> data_lookup new k = data_lookup old k) \<and>
    se_Name new = se_Name old \<and> se_Namespace new = se_Namespace old"
  using assms by (auto simp: with_bundle_def data_lookup_def update_conv TLSCACertKey_def TLSCertKey_def TLSPrivateKeyKey_def
      split: option.splits)

lemma new_secret_lookup:
  "data_lookup (new_secret namespace name b) TLSCACertKey = Some (Some (cb_CACert b))"
  "se_Name (new_secret namespace name b) = name" "se_Namespace (new_secret namespace name b) = namespace"
  by (simp_all add: new_secret_def data_lookup_def)

lemma ExtractCaCertFromSecret_found:
  "wa_GetSecret A key k = (Ok sec, k) \<Longrightarrow> data_lookup sec TLSCACertKey = Some c \<Longrightarrow> ExtractCaCertFromSecret A key k = (Ok c, k)"
  by (simp add: ExtractCaCertFromSecret_def andThen_def)

text \<open>
  C36: After a successful run for a service and a secret, the secret holds the CA certificate of the bundle
  just made, whether it was there before or not, and the webhook controllers read exactly that
  certificate from it.
\<close>

theorem genCert_reaches_webhooks:
  assumes "genCert K C namespace svcName secretName s = (Ok (), s')"
    and get: "\<And>t old t'. ku_Get K namespace secretName t = (Ok old, t') \<Longrightarrow> se_Namespace old = namespace \<and> se_Name old = secretName"
    and stored: "\<And>new t t'. ku_Create K new t = (Ok (), t') \<or> ku_Update K new t = (Ok (), t') \<Longrightarrow>
      wa_GetSecret A (se_Namespace new, se_Name new) t' = (Ok new, t')"
  shows "\<exists>b s1. GenerateServiceCertBundle C svcName namespace s = (Ok b, s1) \<and>
    ExtractCaCertFromSecret A (namespace, secretName) s' = (Ok (Some (cb_CACert b)), s')"
proof -
  from assms(1) obtain b s1 where b: "GenerateServiceCertBundle C svcName namespace s = (Ok b, s1)"
    and rest: "(case ku_Get K namespace secretName s1 of
          (Ok old, s') \<Rightarrow> andThen (pure_call (with_bundle b old))
            (\<lambda>new. wrapped (''failed to update secret '' @ namespace @ ''/'' @ secretName) (ku_Update K new)) s'
        | (Err e, s') \<Rightarrow>
            if ku_IsNotFound K e
            then wrapped (''failed to create secret '' @ namespace @ ''/'' @ secretName) (ku_Create K (new_secret namespace secretName b)) s'
            else (Err (EWrap (''failed to get secret '' @ namespace @ ''/'' @ secretName) e), s')
        | (Panic p, s') \<Rightarrow> (Panic p, s')) = (Ok (), s')"
    unfolding genCert_def Let_def by (auto elim!: andThen_OkE dest!: wrapped_OkD)
  obtain r s2 where r: "ku_Get K namespace secretName s1 = (r, s2)" by fastforce
  have "\<exists>new t. (ku_Create K new t = (Ok (), s') \<or> ku_Update K new t = (Ok (), s')) \<and> se_Namespace new = namespace \<and>
      se_Name new = secretName \<and> data_lookup new TLSCACertKey = Some (Some (cb_CACert b))"
  proof (cases r)
    case (Ok old)
    with rest r obtain new where "with_bundle b old = Ok new" "ku_Update K new s2 = (Ok (), s')"
      by (auto elim!: andThen_OkE dest!: wrapped_OkD pure_call_OkD)
    with with_bundle_lookup [of b old new] get [of s1 old s2] r Ok show ?thesis by metis
  next
    case (Err e)
    with rest r have "ku_Create K (new_secret namespace secretName b) s2 = (Ok (), s')"
      by (auto dest!: wrapped_OkD split: if_splits)
    with new_secret_lookup show ?thesis by metis
  next
    case (Panic p)
    with rest r show ?thesis by simp
  qed
  with stored b show ?thesis
    by (metis ExtractCaCertFromSecret_found)
qed

section \<open>Examples\<close>

text \<open>A library that knows one CA and one service certificate, with keys that are numbers; the state is a secret, if any.\<close>

definition demo_template :: "nat \<Rightarrow> nat certificate" where
  "demo_template key = \<lparr>ct_Raw = [], ct_PublicKey = None, ct_SerialNumber = 7, ct_CommonName = ''w.n.svc'', ct_SubjectKeyId = [of_nat key],
     ct_AuthorityKeyId = [of_nat key], ct_NotBefore = 0, ct_NotAfter = 100, ct_KeyUsage = {}, ct_ServerAuth = False,
     ct_BasicConstraintsValid = False, ct_IsCA = False, ct_MaxPathLenZero = False, ct_DNSNames = []\<rparr>"

definition demo_ca_template :: "nat certificate" where
  "demo_ca_template = (demo_template 0)\<lparr>ct_KeyUsage := {CertSign}, ct_BasicConstraintsValid := True, ct_IsCA := True,
     ct_MaxPathLenZero := True\<rparr>"

definition demo_ca :: "nat certificate" where
  "demo_ca = demo_ca_template\<lparr>ct_Raw := [0], ct_PublicKey := Some 0\<rparr>"

definition demo_svc_template :: "nat certificate" where
  "demo_svc_template = (demo_template 1)\<lparr>ct_KeyUsage := {DigitalSignature, KeyEncipherment, ContentCommitment},
     ct_ServerAuth := True, ct_DNSNames := [''w'', ''w.n'', ''w.n.svc'']\<rparr>"

definition demo_svc :: "nat certificate" where
  "demo_svc = demo_svc_template\<lparr>ct_Raw := [1], ct_PublicKey := Some 1\<rparr>"

definition demo_crypto :: "(nat \<times> secret option, nat, nat) crypto" where
  "demo_crypto = \<lparr>cr_GenerateKey = \<lambda>(n, c). (Ok n, (n + 1, c)), cr_Int = \<lambda>_ s. (Ok 7, s), cr_Now = \<lambda>s. (Ok 0, s),
     cr_AddYears = \<lambda>y t. t + y, cr_Public = id, cr_MarshalPKIXPublicKey = \<lambda>k. Ok [of_nat k], cr_SubjectPublicKey = Ok, cr_sha1 = id,
     cr_CreateCertificate = \<lambda>t p pub key s.
       (if t = demo_ca_template \<and> p = demo_ca_template \<and> pub = 0 \<and> key = 0 then Ok [0]
        else if t = demo_svc_template \<and> p = demo_ca \<and> pub = 1 \<and> key = 0 then Ok [1] else Err (ELib ''x509''), s),
     cr_ParseCertificate = \<lambda>der. if der = [0] then Ok demo_ca else if der = [1] then Ok demo_svc else Err (ELib ''x509''),
     cr_MarshalPKCS8PrivateKey = \<lambda>k. Ok [of_nat k], cr_EncodeToMemory = \<lambda>_ b. b\<rparr>"

lemma demo_x509: "x509_laws demo_crypto (\<lambda>pub der. pub = 0)"
  by (simp add: x509_laws_def demo_crypto_def demo_ca_def demo_svc_def demo_ca_template_def demo_svc_template_def demo_template_def)

definition demo_bundle :: CertificateBundle where
  "demo_bundle = \<lparr>cb_CACert = [0], cb_ServicePrivateKey = [1], cb_ServiceCert = [1]\<rparr>"

lemma demo_identity: "new_identity demo_crypto ''w.n.svc'' (n, c) = (Ok (n, demo_template n), (n + 1, c))"
  by (simp add: new_identity_def template_def randomSerialNumber_def subjectKeyId_def andThen_def wrapped_def pure_call_def
      demo_crypto_def demo_template_def)

lemma demo_SelfSigned: "SelfSignedCertificate demo_crypto ''w.n.svc'' (0, c) = (Ok (0, demo_ca), (1, c))"
  by (simp add: SelfSignedCertificate_def andThen_def demo_identity Let_def flip: demo_ca_template_def)
    (simp add: wrapped_def pure_call_def demo_crypto_def)

lemma demo_Sign:
  "SignCertificate demo_crypto 0 demo_ca ''w.n.svc'' [''w'', ''w.n'', ''w.n.svc''] (1, c) = (Ok (1, demo_svc), (2, c))"
  by (simp add: SignCertificate_def andThen_def demo_identity Let_def flip: demo_svc_template_def)
    (simp add: wrapped_def pure_call_def demo_crypto_def demo_svc_template_def demo_ca_template_def demo_template_def)

lemma demo_generate: "GenerateServiceCertBundle demo_crypto ''w'' ''n'' (0, c) = (Ok demo_bundle, (2, c))"
  by (simp add: GenerateServiceCertBundle_def Let_def service_names_def andThen_def wrapped_def pure_call_def demo_SelfSigned
      demo_Sign [simplified])
    (simp add: EncodePrivateKeyToPEM_def EncodeCertificateToPEM_def demo_crypto_def demo_bundle_def demo_ca_def demo_svc_def)

theorem GenerateServiceCertBundle_verifies_witness:
  "\<exists>ca svc. cb_CACert demo_bundle = EncodeCertificateToPEM demo_crypto ca \<and> ct_IsCA ca \<and>
     cb_ServiceCert demo_bundle = EncodeCertificateToPEM demo_crypto svc \<and> ct_DNSNames svc = [''w'', ''w.n'', ''w.n.svc'']"
  using GenerateServiceCertBundle_verifies [OF demo_x509 demo_generate] by (auto simp: service_names_def)

definition demo_kube :: "(nat \<times> secret option) kube" where
  "demo_kube = \<lparr>ku_Get = \<lambda>ns name s. (case snd s of
       Some sec \<Rightarrow> if se_Namespace sec = ns \<and> se_Name sec = name then Ok sec else Err (ELib ''not found'')
     | None \<Rightarrow> Err (ELib ''not found''), s),
     ku_Create = \<lambda>sec s. (Ok (), (fst s, Some sec)), ku_Update = \<lambda>sec s. (Ok (), (fst s, Some sec)), ku_IsNotFound = \<lambda>_. True\<rparr>"

definition secret_reader :: "(nat \<times> secret option) whapi" where
  "secret_reader = \<lparr>wa_GetConfig = \<lambda>_ s. (Err (ELib ''unused''), s), wa_GetService = \<lambda>_ s. (Err (ELib ''unused''), s),
     wa_ListPods = \<lambda>_ _ s. (Err (ELib ''unused''), s),
     wa_GetSecret = \<lambda>key s. (case snd s of Some sec \<Rightarrow> Ok sec | None \<Rightarrow> Err (ELib ''not found''), s),
     wa_Update = \<lambda>_ s. (Ok (), s), wa_IsNotFound = \<lambda>_. False\<rparr>"

lemma demo_genCert:
  "genCert demo_kube demo_crypto ''n'' ''w'' ''cert'' (0, None) = (Ok (), (2, Some (new_secret ''n'' ''cert'' demo_bundle)))"
  by (simp add: genCert_def Let_def andThen_def wrapped_def demo_generate demo_kube_def)

theorem genCert_reaches_webhooks_witness:
  "\<exists>b :: CertificateBundle. ExtractCaCertFromSecret secret_reader (''n'', ''cert'') (2, Some (new_secret ''n'' ''cert'' demo_bundle)) =
     (Ok (Some (cb_CACert b)), (2, Some (new_secret ''n'' ''cert'' demo_bundle)))"
proof -
  have get: "se_Namespace old = ''n'' \<and> se_Name old = ''cert''"
    if "ku_Get demo_kube ''n'' ''cert'' t = (Ok old, t')" for t old t'
    using that by (auto simp: demo_kube_def split: option.splits if_splits)
  have stored: "wa_GetSecret secret_reader (se_Namespace new, se_Name new) t' = (Ok new, t')"
    if "ku_Create demo_kube new t = (Ok (), t') \<or> ku_Update demo_kube new t = (Ok (), t')" for new t t'
    using that by (auto simp: demo_kube_def secret_reader_def)
  have "\<exists>b s1. GenerateServiceCertBundle demo_crypto ''w'' ''n'' (0, None) = (Ok b, s1) \<and>
      ExtractCaCertFromSecret secret_reader (''n'', ''cert'') (2, Some (new_secret ''n'' ''cert'' demo_bundle)) =
        (Ok (Some (cb_CACert b)), (2, Some (new_secret ''n'' ''cert'' demo_bundle)))"
    by (rule genCert_reaches_webhooks [where A = secret_reader, OF demo_genCert]) (erule get, erule stored)
  then show ?thesis by blast
qed

end
