(* ===== verification/Bootstrap.thy ===== *)
theory Bootstrap
  imports Prelude
begin

text \<open>
  How the commands start and stop: \<open>internal/bootstrap\<close> and the three managers under \<open>cmd\<close>. The
  controller-runtime manager, the environment and the parsed command line are parameters; the state
  \<open>'m\<close> is that of the manager and of what its hooks act on. A registered flag has the value the command
  line gives it or its default; registering a name twice panics, as package \<open>flag\<close> does.
\<close>

section \<open>Options of the manager\<close>

type_synonym tls_opts = "string list list"  \<comment> \<open>the protocols each function sets\<close>

record metricsOptions =
  mo_BindAddress :: string
  mo_SecureServing :: bool
  mo_TLSOpts :: tls_opts
  mo_FilterProvider :: bool
  mo_CertDir :: string

record webhookServer =
  ws_CertDir :: string
  ws_TLSOpts :: tls_opts

record ctrlOptions =
  opt_HealthProbeBindAddress :: string
  opt_Metrics :: metricsOptions
  opt_WebhookServer :: "webhookServer option"
  opt_LeaderElection :: bool
  opt_LeaderElectionID :: string

record command_line =
  cl_string :: "string \<rightharpoonup> string"
  cl_bool :: "string \<rightharpoonup> bool"

text \<open>
  The manager. \<open>ml_Run\<close> is \<open>Start\<close>: it ends with an error, or without one when the context is cancelled;
  the flag says whether the runnables that need leader election had been started.
\<close>

record 'm manager_lib =
  ml_NewManager :: "ctrlOptions \<Rightarrow> ('m, unit) step"
  ml_AddHealthzCheck :: "string \<Rightarrow> ('m, unit) step"
  ml_AddReadyzCheck :: "string \<Rightarrow> ('m, unit) step"
  ml_SetLogger :: "'m \<Rightarrow> 'm"
  ml_Add :: "('m, unit) step"
  ml_Run :: "'m \<Rightarrow> (unit result \<times> bool) \<times> 'm"

record 'm Bootstrap =
  b_ctrlOptions :: ctrlOptions
  b_flags :: "string list"
  b_beforeCreate :: "('m \<times> ctrlOptions, unit) step list"
  b_beforeStart :: "('m, unit) step list"
  b_beforeStop :: "('m, unit) step list"

definition zero_options :: ctrlOptions where
  "zero_options = \<lparr>opt_HealthProbeBindAddress = [],
     opt_Metrics = \<lparr>mo_BindAddress = [], mo_SecureServing = False, mo_TLSOpts = [], mo_FilterProvider = False, mo_CertDir = []\<rparr>,
     opt_WebhookServer = None, opt_LeaderElection = False, opt_LeaderElectionID = []\<rparr>"

definition New_Bootstrap :: "'m Bootstrap" where
  "New_Bootstrap = \<lparr>b_ctrlOptions = zero_options, b_flags = [], b_beforeCreate = [], b_beforeStart = [], b_beforeStop = []\<rparr>"

definition addBeforeCreate :: "('m \<times> ctrlOptions, unit) step \<Rightarrow> 'm Bootstrap \<Rightarrow> 'm Bootstrap" where
  "addBeforeCreate hook b = b\<lparr>b_beforeCreate := b_beforeCreate b @ [hook]\<rparr>"

definition addBeforeStart :: "('m, unit) step \<Rightarrow> 'm Bootstrap \<Rightarrow> 'm Bootstrap" where
  "addBeforeStart hook b = b\<lparr>b_beforeStart := b_beforeStart b @ [hook]\<rparr>"

definition addBeforeStop :: "('m, unit) step \<Rightarrow> 'm Bootstrap \<Rightarrow> 'm Bootstrap" where
  "addBeforeStop hook b = b\<lparr>b_beforeStop := b_beforeStop b @ [hook]\<rparr>"

section \<open>Options of the bootstrap\<close>

type_synonym 'm boot_option = "command_line \<Rightarrow> 'm Bootstrap \<Rightarrow> 'm Bootstrap result"

definition register_flag :: "string \<Rightarrow> 'm Bootstrap \<Rightarrow> 'm Bootstrap result" where
  "register_flag name b =
     (if name \<in> set (b_flags b) then Panic (ExplicitPanic (''flag redefined: '' @ name)) else Ok (b\<lparr>b_flags := name # b_flags b\<rparr>))"

definition flag_String :: "command_line \<Rightarrow> string \<Rightarrow> string \<Rightarrow> string" where
  "flag_String cl name d = (case cl_string cl name of None \<Rightarrow> d | Some v \<Rightarrow> v)"

definition flag_Bool :: "command_line \<Rightarrow> string \<Rightarrow> bool \<Rightarrow> bool" where
  "flag_Bool cl name d = (case cl_bool cl name of None \<Rightarrow> d | Some v \<Rightarrow> v)"

definition set_options :: "(ctrlOptions \<Rightarrow> ctrlOptions) \<Rightarrow> ('m \<times> ctrlOptions, unit) step" where
  "set_options f s = (Ok (), (fst s, f (snd s)))"

definition createTLSOpts :: "bool \<Rightarrow> tls_opts" where
  "createTLSOpts enableHTTP2 = (if \<not> enableHTTP2 then [[''http/1.1'']] else [])"

definition WithBeforeCreate :: "('m \<times> ctrlOptions, unit) step \<Rightarrow> 'm boot_option" where
  "WithBeforeCreate hook cl b = Ok (addBeforeCreate hook b)"

definition WithBeforeStart :: "('m, unit) step \<Rightarrow> 'm boot_option" where
  "WithBeforeStart hook cl b = Ok (addBeforeStart hook b)"

definition WithBeforeStop :: "('m, unit) step \<Rightarrow> 'm boot_option" where
  "WithBeforeStop hook cl b = Ok (addBeforeStop hook b)"

text \<open>The flags of the zap library come with its options.\<close>

definition WithSetupLogging :: "'m manager_lib \<Rightarrow> string list \<Rightarrow> 'm boot_option" where
  "WithSetupLogging L zap_flags cl b =
     andRes (foldl (\<lambda>r name. andRes r (register_flag name)) (Ok b) zap_flags) (\<lambda>b.
       Ok (addBeforeCreate (\<lambda>s. (Ok (), (ml_SetLogger L (fst s), snd s))) b))"

definition health_checks :: "'m manager_lib \<Rightarrow> ('m, unit) step" where
  "health_checks L = andThen (wrapped ''unable to set up health check'' (ml_AddHealthzCheck L ''healthz''))
     (\<lambda>_. wrapped ''unable to set up ready check'' (ml_AddReadyzCheck L ''readyz''))"

definition WithHealthProbe :: "'m manager_lib \<Rightarrow> string \<Rightarrow> 'm boot_option" where
  "WithHealthProbe L addr cl b =
     andRes (register_flag ''health-probe-bind-address'' b) (\<lambda>b.
       Ok (addBeforeStart (health_checks L)
         (addBeforeCreate (set_options (opt_HealthProbeBindAddress_update (\<lambda>_. flag_String cl ''health-probe-bind-address'' addr))) b)))"

definition metrics_options :: "string \<Rightarrow> bool \<Rightarrow> bool \<Rightarrow> metricsOptions" where
  "metrics_options realAddr realSecure realHTTP2 =
     \<lparr>mo_BindAddress = realAddr, mo_SecureServing = realSecure, mo_TLSOpts = createTLSOpts realHTTP2,
       mo_FilterProvider = realSecure, mo_CertDir = (if realSecure then ''/tmp/kertical-metrics-certs'' else [])\<rparr>"

definition WithMetricsServer :: "bool \<Rightarrow> string \<Rightarrow> bool \<Rightarrow> 'm boot_option" where
  "WithMetricsServer secure addr http2 cl b =
     andRes (register_flag ''metrics-bind-address'' b) (\<lambda>b. andRes (register_flag ''metrics-secure'' b) (\<lambda>b.
       andRes (register_flag ''metrics-http2'' b) (\<lambda>b.
         Ok (addBeforeCreate (set_options (opt_Metrics_update (\<lambda>_. metrics_options (flag_String cl ''metrics-bind-address'' addr)
           (flag_Bool cl ''metrics-secure'' secure) (flag_Bool cl ''metrics-http2'' http2)))) b))))"

definition GetCertDir :: "string \<Rightarrow> string" where
  "GetCertDir env = (if env \<noteq> [] then env else ''/tmp/kertical-webhook-certs'')"

definition WithWebhookServer :: "string \<Rightarrow> bool \<Rightarrow> 'm boot_option" where
  "WithWebhookServer env http2 cl b =
     andRes (register_flag ''webhook-http2'' b) (\<lambda>b.
       Ok (addBeforeCreate (set_options (opt_WebhookServer_update (\<lambda>_. Some \<lparr>ws_CertDir = GetCertDir env,
         ws_TLSOpts = createTLSOpts (flag_Bool cl ''webhook-http2'' http2)\<rparr>))) b))"

definition WithLeaderElection :: "bool \<Rightarrow> string \<Rightarrow> 'm boot_option" where
  "WithLeaderElection elect electionId cl b =
     andRes (register_flag ''leader-elect'' b) (\<lambda>b. andRes (register_flag ''leader-election-id'' b) (\<lambda>b.
       Ok (addBeforeCreate (set_options (\<lambda>opts. opts\<lparr>opt_LeaderElection := flag_Bool cl ''leader-elect'' elect,
         opt_LeaderElectionID := flag_String cl ''leader-election-id'' electionId\<rparr>)) b)))"

text \<open>The environment of a pod, as \<open>internal/kertical\<close> reads it.\<close>

definition env_or :: "(string \<Rightarrow> string) \<Rightarrow> string \<Rightarrow> string \<Rightarrow> string" where
  "env_or Getenv name d = (if Getenv name \<noteq> [] then Getenv name else d)"

definition GetNamespace :: "(string \<Rightarrow> string) \<Rightarrow> string" where
  "GetNamespace Getenv = env_or Getenv ''POD_NAMESPACE'' ''kertical-system''"

definition NodeName :: "(string \<Rightarrow> string) \<Rightarrow> string" where
  "NodeName Getenv = env_or Getenv ''NODE_NAME'' ''unknown-node''"

definition NodeIP :: "(string \<Rightarrow> string) \<Rightarrow> string" where
  "NodeIP Getenv = env_or Getenv ''NODE_IP'' ''127.0.0.1''"

section \<open>Running\<close>

datatype outcome =
    Exited string  \<comment> \<open>\<open>os.Exit(1)\<close> after this message\<close>
  | Returned
  | Blocked  \<comment> \<open>for ever, on \<open>waitingDone\<close>\<close>
  | Crashed panic

fun configure :: "command_line \<Rightarrow> 'm boot_option list \<Rightarrow> 'm Bootstrap \<Rightarrow> 'm Bootstrap result" where
  "configure cl [] b = Ok b"
| "configure cl (opt # opts) b = andRes (opt cl b) (configure cl opts)"

text \<open>A phase of the start: an error of it ends the process, a panic too.\<close>

definition phase :: "string \<Rightarrow> 'a result \<times> 's \<Rightarrow> ('s \<Rightarrow> 'm) \<Rightarrow> ('a \<Rightarrow> 's \<Rightarrow> outcome \<times> 'm) \<Rightarrow> outcome \<times> 'm" where
  "phase msg out world next = (case out of
      (Ok a, s) \<Rightarrow> next a s
    | (Err e, s) \<Rightarrow> (Exited msg, world s)
    | (Panic p, s) \<Rightarrow> (Crashed p, world s))"

text \<open>
  The end: if the runnable with the \<open>beforeStop\<close> hooks was started, it runs them once the context is
  cancelled and closes \<open>waitingDone\<close>; an error of theirs only ends the runnable.
\<close>

definition stop_phase :: "('m, unit) step list \<Rightarrow> unit result \<Rightarrow> bool \<Rightarrow> 'm \<Rightarrow> outcome \<times> 'm" where
  "stop_phase hooks r started m =
     (let (stopped, m') = (if started then run_all hooks m else (Ok (), m)) in
      case stopped of
        Panic p \<Rightarrow> (Crashed p, m')
      | _ \<Rightarrow> (case r of
          Ok _ \<Rightarrow> (if started then Returned else Blocked, m')
        | Err _ \<Rightarrow> (Exited ''problem running manager'', m')
        | Panic p \<Rightarrow> (Crashed p, m')))"

definition RunForever :: "'m manager_lib \<Rightarrow> command_line \<Rightarrow> 'm boot_option list \<Rightarrow> 'm Bootstrap \<Rightarrow> 'm \<Rightarrow> outcome \<times> 'm" where
  "RunForever L cl options b0 m0 =
     (case configure cl options b0 of
        Panic p \<Rightarrow> (Crashed p, m0)
      | Err e \<Rightarrow> (Exited [], m0)
      | Ok b \<Rightarrow>
          phase ''failed to run beforeCreate hook'' (run_all (b_beforeCreate b) (m0, b_ctrlOptions b)) fst (\<lambda>_ s.
            phase ''unable to start manager'' (ml_NewManager L (snd s) (fst s)) id (\<lambda>_ m.
              phase ''failed to run beforeStart hook'' (run_all (b_beforeStart b) m) id (\<lambda>_ m.
                phase ''unable to add beforeStop hooks to the manager'' (ml_Add L m) id (\<lambda>_ m.
                  let ((r, started), m) = ml_Run L m in stop_phase (b_beforeStop b) r started m)))))"

section \<open>The commands\<close>

definition controller_manager :: "'m manager_lib \<Rightarrow> string list \<Rightarrow> ('m, unit) step \<Rightarrow> ('m, unit) step \<Rightarrow> 'm boot_option list" where
  "controller_manager L zap_flags registerFieldIndexes setupControllers =
     [WithSetupLogging L zap_flags, WithHealthProbe L '':8081'', WithMetricsServer False ''0'' False,
      WithLeaderElection False ''kertical-manager'',
      WithBeforeStart (wrapped ''unable to register field index'' registerFieldIndexes),
      WithBeforeStart (wrapped ''unable to create or register controllers'' setupControllers)]"

definition webhook_manager :: "'m manager_lib \<Rightarrow> string list \<Rightarrow> string \<Rightarrow> bool \<Rightarrow> ('m, unit) step \<Rightarrow> ('m, unit) step \<Rightarrow> 'm boot_option list" where
  "webhook_manager L zap_flags env disabled setupControllers setupWebhooks =
     [WithSetupLogging L zap_flags, WithHealthProbe L '':8081'', WithWebhookServer env False, WithMetricsServer False ''0'' False,
      WithBeforeStart (if disabled then (\<lambda>m. (Ok (), m)) else setupControllers),
      WithBeforeStart (wrapped ''unable to setup webhooks'' setupWebhooks)]"

text \<open>
  The forwarding command keeps the clean-up of its controller in a variable, which is nil before it is
  set up; its state is that of the manager with the variable.
\<close>

type_synonym 'w stopping = "'w \<times> ('w, unit) step option"

definition on_world :: "('w, 'a) step \<Rightarrow> ('w stopping, 'a) step" where
  "on_world f s = (case f (fst s) of (r, w) \<Rightarrow> (r, (w, snd s)))"

definition set_up_stop :: "('w, unit) step \<Rightarrow> ('w, unit) step \<Rightarrow> ('w stopping, unit) step" where
  "set_up_stop setup cleanUp s = (case setup (fst s) of (r, w) \<Rightarrow> (r, (w, Some cleanUp)))"

definition call_stop :: "('w stopping, unit) step" where
  "call_stop s = (case snd s of None \<Rightarrow> (Panic NilDereference, s) | Some f \<Rightarrow> on_world f s)"

definition forwarding :: "'w stopping manager_lib \<Rightarrow> string list \<Rightarrow> ('w, unit) step \<Rightarrow> ('w, unit) step \<Rightarrow> ('w, unit) step \<Rightarrow>
    'w stopping boot_option list" where
  "forwarding L zap_flags registerFieldIndexes setup cleanUp =
     [WithSetupLogging L zap_flags, WithHealthProbe L '':8081'', WithMetricsServer False ''0'' False,
      WithBeforeStart (on_world (wrapped ''unable to register field index'' registerFieldIndexes)),
      WithBeforeStart (wrapped ''unable to create or register controllers'' (set_up_stop setup cleanUp)),
      WithBeforeStop call_stop]"

section \<open>How a run ends\<close>

lemma phase_cases:
  "phase msg out world next = (o', m') \<Longrightarrow> o' = Returned \<or> o' = Blocked \<Longrightarrow>
     (\<And>a s. out = (Ok a, s) \<Longrightarrow> next a s = (o', m') \<Longrightarrow> P) \<Longrightarrow> P"
  by (cases out; cases "fst out") (auto simp: phase_def)

lemma RunForever_ends_plain:
  assumes "RunForever L cl options b0 m0 = (out, m')" "out = Returned \<or> out = Blocked"
  shows "\<exists>b opts m1 m2 m3 m4 mE started. configure cl options b0 = Ok b \<and>
      run_all (b_beforeCreate b) (m0, b_ctrlOptions b) = (Ok (), (m1, opts)) \<and> ml_NewManager L opts m1 = (Ok (), m2) \<and>
      run_all (b_beforeStart b) m2 = (Ok (), m3) \<and> ml_Add L m3 = (Ok (), m4) \<and> ml_Run L m4 = ((Ok (), started), mE) \<and>
      (out = Returned \<longleftrightarrow> started) \<and> m' = (if started then snd (run_all (b_beforeStop b) mE) else mE)"
proof -
  from assms obtain b where b: "configure cl options b0 = Ok b"
    by (auto simp: RunForever_def split: result.splits)
  from assms obtain m1 opts m2 m3 m4 where
    "run_all (b_beforeCreate b) (m0, b_ctrlOptions b) = (Ok (), (m1, opts))" "ml_NewManager L opts m1 = (Ok (), m2)"
    "run_all (b_beforeStart b) m2 = (Ok (), m3)" "ml_Add L m3 = (Ok (), m4)"
    and fin: "(let ((r, started), m) = ml_Run L m4 in stop_phase (b_beforeStop b) r started m) = (out, m')"
    unfolding RunForever_def b by (auto elim!: phase_cases)
  moreover obtain r started mE where run: "ml_Run L m4 = ((r, started), mE)" by (metis surj_pair)
  moreover from fin run assms(2) have "r = Ok () \<and> (out = Returned \<longleftrightarrow> started) \<and>
      m' = (if started then snd (run_all (b_beforeStop b) mE) else mE)"
    by (cases r; cases "fst (run_all (b_beforeStop b) mE)")
      (auto simp: stop_phase_def split: if_splits prod.splits result.splits)
  ultimately show ?thesis using b by blast
qed


section \<open>The forwarding command\<close>

text \<open>The manager does not touch the variable of the command.\<close>

definition keeps_variable :: "'w stopping manager_lib \<Rightarrow> bool" where
  "keeps_variable L \<longleftrightarrow> (\<forall>s. snd (snd (ml_Add L s)) = snd s \<and> snd (snd (ml_Run L s)) = snd s)"

lemma zap_flags_hooks:
  "foldl (\<lambda>r name. andRes r (register_flag name)) r zap_flags = Ok b' \<Longrightarrow>
     \<exists>b. r = Ok b \<and> b_beforeStart b' = b_beforeStart b \<and> b_beforeStop b' = b_beforeStop b \<and> b_beforeCreate b' = b_beforeCreate b \<and>
       b_ctrlOptions b' = b_ctrlOptions b"
proof (induction zap_flags arbitrary: r)
  case (Cons x xs)
  from Cons.IH [of "andRes r (register_flag x)"] Cons.prems show ?case
    by (cases r) (auto simp: register_flag_def split: if_splits)
qed simp

lemma register_flag_hooks:
  "register_flag name b = Ok b' \<Longrightarrow> b_beforeStart b' = b_beforeStart b \<and> b_beforeStop b' = b_beforeStop b \<and>
     b_beforeCreate b' = b_beforeCreate b \<and> b_ctrlOptions b' = b_ctrlOptions b"
  by (auto simp: register_flag_def split: if_splits)

lemma forwarding_hooks:
  assumes "configure cl (forwarding L zap_flags fieldIndexes setup cleanUp) New_Bootstrap = Ok b"
  shows "b_beforeStop b = [call_stop] \<and>
    b_beforeStart b = [health_checks L, on_world (wrapped ''unable to register field index'' fieldIndexes),
      wrapped ''unable to create or register controllers'' (set_up_stop setup cleanUp)]"
  using assms
  by (auto simp: forwarding_def New_Bootstrap_def WithSetupLogging_def WithHealthProbe_def WithMetricsServer_def WithBeforeStart_def
      WithBeforeStop_def addBeforeCreate_def addBeforeStart_def addBeforeStop_def
      elim!: andRes_OkE dest!: zap_flags_hooks register_flag_hooks)


section \<open>Examples\<close>

definition demo_manager :: "bool \<Rightarrow> nat stopping manager_lib" where
  "demo_manager elected = \<lparr>ml_NewManager = \<lambda>_ s. (Ok (), s), ml_AddHealthzCheck = \<lambda>_ s. (Ok (), s),
     ml_AddReadyzCheck = \<lambda>_ s. (Ok (), s), ml_SetLogger = id, ml_Add = \<lambda>s. (Ok (), s), ml_Run = \<lambda>s. ((Ok (), elected), s)\<rparr>"

definition demo_command :: "bool \<Rightarrow> nat stopping boot_option list" where
  "demo_command elected = forwarding (demo_manager elected) [''zap-devel''] (\<lambda>n. (Ok (), n)) (\<lambda>n. (Ok (), n)) (\<lambda>n. (Ok (), n + 1))"

lemma demo_runs:
  "RunForever (demo_manager elected) \<lparr>cl_string = Map.empty, cl_bool = Map.empty\<rparr> (demo_command elected) New_Bootstrap (0, None) =
     (if elected then (Returned, (1, Some (\<lambda>n. (Ok (), n + 1)))) else (Blocked, (0, Some (\<lambda>n. (Ok (), n + 1)))))"
  by (simp add: RunForever_def demo_command_def forwarding_def WithSetupLogging_def WithHealthProbe_def WithMetricsServer_def
      WithBeforeStart_def WithBeforeStop_def register_flag_def addBeforeCreate_def addBeforeStart_def addBeforeStop_def
      New_Bootstrap_def phase_def andThen_def set_options_def health_checks_def wrapped_def on_world_def set_up_stop_def
      stop_phase_def call_stop_def demo_manager_def)



end
