(* ===== verification/Spec2Isabelle.thy ===== *)
theory Spec2Isabelle
imports Prelude NetIP Strings Exprs Condition Filters Userdata Derive Ranging ReadWriter
  Mutation RuleFacts TableFacts NfTables NfFacts Kernel OwnChains OwnCalls NfStart NfClose NfHistory NfAgent NfFailures NfRestart Transport Registry Guard PureGo Machine TcpProxy UdpProxy
  PfSync PfController NodeAgent NodeStatus Expectations IPText ExternalProxy EpController EpFacts EpConverge EpBounds
  Validation Defaulter Validator WebhookFacts WebhookCert Events SecretEvents Gencert Bootstrap
begin

text \<open>
  Kertical publishes services of a Kubernetes cluster on the ports of its nodes (PortForwarding) and
  services outside the cluster as services inside it (ExternalProxy). This library models its Go code
  under \<open>src/\<close>: the packet forwarding by nftables and by user-space proxies, the two controllers with
  their expectations and event handlers, and the webhooks.

  \<^bold>\<open>Conventions.\<close> A call ends in a \<open>result\<close>: a value, a non-nil error, or a panic (nil dereference, index
  out of range, write to a nil map, explicit panic). A call that changes state is a \<open>step\<close>: a function
  from the state to a result and the new state, composed by \<open>andThen\<close>. Port numbers are \<open>16 word\<close>, bytes
  \<open>8 word\<close>, times integers of nanoseconds; a Go map whose order does not matter is a function, one that
  is ranged over takes its order as a parameter. Code outside the repository is an argument of the
  definitions that use it: the netlink library (\<open>nflib\<close>), the Kubernetes client (\<open>api\<close>, \<open>xapi\<close>, \<open>whapi\<close>),
  the validators of apimachinery (\<open>validators\<close>), the file system, the clock, random numbers. The laws
  assumed of it are the assumptions of locales or the hypotheses of a theorem, and each such theorem has
  a witness that instantiates them. Definitions have the names of the code, with a suffix or prefix where
  Isabelle has the name already (\<open>nft_\<close>, \<open>rrw_\<close>, \<open>crw_\<close>, \<open>ep_\<close>, \<open>guard_\<close>, \<open>purego_\<close>).

  \<^bold>\<open>Shared.\<close> \<open>Prelude\<close>: results, steps, Go errors and their wrapping, bytes. \<open>NetIP\<close>: \<open>net.IP\<close> and \<open>To4\<close>;
  \<open>Strings\<close>: splitting and number formatting; \<open>IPText\<close>: \<open>net.ParseIP\<close> for the addresses of backends.
  \<open>Ranging\<close>: a loop over a slice whose cells the loop body shifts, as deleting a cached rule does, with the lemma that says which elements such a loop visits. \<open>Machine\<close>: runs of a step
  function over events, with the locale of a machine that has an invariant.

  \<^bold>\<open>nftables\<close> (\<open>internal/portforwarding/nftables\<close>). \<open>Exprs\<close> has the expressions of rules as a datatype;
  \<open>Condition\<close> builds them and matches a rule against them (\<open>condition/condition.go\<close>), \<open>Filters\<close> are the
  predicates over chains and rules (\<open>mutation/filter\<close>, \<open>mutation/predicate\<close>), \<open>Userdata\<close> the comments
  (\<open>userdata\<close>), \<open>Derive\<close> the hooks (\<open>derive\<close>). \<open>ReadWriter\<close> is the cached view of the kernel with its queued
  commands (\<open>readwrite.go\<close>), \<open>Mutation\<close> the declarative mutations (\<open>mutation/mutation.go\<close>) and \<open>NfTables\<close>
  what a forwarding consists of (\<open>nftables.go\<close>). \<open>Condition\<close> proves that building and matching agree,
  \<open>RuleFacts\<close> that cleaning up a chain is the sweep that \<open>Ranging\<close> describes, \<open>TableFacts\<close> that mutations stay
  inside the elected tables and reach all of them, \<open>NfFacts\<close> that removing a forwarding recognises what
  adding it wrote, that forwardings do not interfere, and what becomes of errors of the kernel.

  \<^bold>\<open>The kernel's ruleset.\<close> \<open>Kernel\<close> has the chains and rules of the kernel, the meaning of each command on them,
  and the hypothesis \<open>kernel_ok\<close> on the netlink library: a listing returns what is there and changes nothing; a batch
  is applied as a whole or refused as a whole. \<open>OwnChains\<close> writes out, on the wire, the rules that a forwarding
  should have in the program's four chains, and shows that the conditions recognise them and no others.
  \<open>OwnCalls\<close> describes a call on every path, whatever lists of forwardings the chains hold: it changes the
  chains one after the other, and one that fails has changed the first few. \<open>NfStart\<close> lays the hooked chains and the program's own, where nothing,
  the hooked chain alone or both were before, \<open>NfClose\<close> cleans them up, and so gives the start over whatever earlier runs left;
  \<open>NfHistory\<close> has histories of successful calls, and a concrete kernel as the witness. \<open>NfAgent\<close> puts the guard and
  the controller over it: table and chains agree, and the handles of rules never run out. \<open>NfFailures\<close> takes
  calls that fail: the lists that the chains follow, that a success makes all four right again, and what an addition
  that failed leaves behind. \<open>NfRestart\<close> follows runs of the program on one machine, cut off between any two calls or closed: the next
  start restores the chains, a close takes the program's away. That cleaning up removes a chain needs that no other family has a
  chain of that name, which \<open>DeleteChain\<close> would take for it. The four hooks must each be held by chains of one
  table: \<open>NfHistory\<close> also shows what goes wrong with two. The elements of the sets that
  spread a forwarding over several targets are not part of this ruleset.

  \<^bold>\<open>Forwarding.\<close> \<open>Registry\<close> chooses an implementation (\<open>registry.go\<close>), \<open>Transport\<close> reads the listening ports
  (\<open>transport/transport_linux.go\<close>), \<open>Guard\<close> is the guard over an implementation (\<open>portforwarding.go\<close>) with an
  abstract table it refines; the locale of guarded implementations is interpreted on the user-space
  one. \<open>PureGo\<close> is that implementation (\<open>purego/purego.go\<close>); its proxies are machines
  whose events are the steps of the goroutines in any order: \<open>TcpProxy\<close> (\<open>purego/tcp.go\<close>) and \<open>UdpProxy\<close>
  (\<open>purego/udp.go\<close>). Both prove that data is passed on in order; both also show what cancelling a
  forwarding does not end, and \<open>UdpProxy\<close> that it can end in a panic.

  \<^bold>\<open>PortForwarding controller\<close> (\<open>internal/controller/networking\<close>). \<open>PfSync\<close> is the comparison of the wanted
  with the recorded ports (\<open>portforwarding/portforwarding.go\<close>), \<open>PfController\<close> the reconciliation, the
  finalizer and the status (\<open>portforwarding_controller.go\<close>, \<open>portforwarding/finalizer.go\<close>, \<open>status.go\<close>).
  \<open>NodeAgent\<close> puts the controller, the guard and the user-space implementation together and runs them over
  any number of objects: what is forwarded is served, and an object disturbs only what it claims or has recorded.
  \<open>NodeStatus\<close> shows that the status written by a reconciliation is sound and well typed.

  \<^bold>\<open>ExternalProxy controller.\<close> \<open>ExternalProxy\<close> builds the service, slices and ingress
  (\<open>externalproxy/externalproxy.go\<close>), \<open>EpController\<close> reconciles them (\<open>externalproxy_controller.go\<close>), and
  \<open>EpFacts\<close> shows that each synchronisation carries out a plan computed from what is listed, and
  \<open>EpConverge\<close> that the plan made after one has been carried out is empty; \<open>EpBounds\<close> bounds the delays. \<open>Expectations\<close>
  is the cache of awaited events (\<open>internal/expectations\<close>), specified by its history; \<open>Events\<close> are the
  handlers that feed it (\<open>internal/events\<close>) with the field indexes (\<open>internal/fieldindex\<close>), and shows that a
  synchronisation is followed by the next exactly when its events have come.

  \<^bold>\<open>Webhooks\<close> (\<open>internal/webhook\<close>). \<open>Validation\<close> are the field validators (\<open>validation/kubernetes.go\<close>),
  \<open>Defaulter\<close> and \<open>Validator\<close> the mutating and the validating webhook (\<open>networking/v1alpha1\<close>), \<open>WebhookFacts\<close>
  decides admission by a predicate and relates it to the defaults and to the controller. \<open>WebhookCert\<close>
  are the controllers that keep the CA bundles (\<open>controller\<close>), \<open>SecretEvents\<close> their handler of secrets.

  \<^bold>\<open>Commands\<close> (\<open>cmd\<close>, \<open>internal/bootstrap\<close>). \<open>Gencert\<close> makes the certificates and stores them where the
  webhook controllers look, which it proves; \<open>Bootstrap\<close> is the start and the stop of the managers.

  \<^bold>\<open>Bounds and fuel.\<close> No definition has fuel: loops over lists are structural, and \<open>RetryOnConflict\<close> is a
  parameter of which only the runs it may make are assumed. The loops of goroutines that need not end are machines, of which a run is
  any finite sequence of events; capacities of channels are those of the code.

  \<^bold>\<open>Not modelled.\<close> \<open>SetupWithManager\<close> and the other registrations with the manager: library
  calls. The generated deep copies and the helpers of the tests. The probing of ports on systems other than Linux: socket calls. Logging, and
  the durations it reports, are left out everywhere. Inside a session of
  the UDP proxy reading a response and queueing it are one step, as are setting \<open>cancel\<close> and dialing.

  \<^bold>\<open>Plan.\<close> What can still be added: the kernel's ruleset with the elements of sets and with several tables on
  a hook, the start on a machine whose family holds chains of others, and a process that is cut off inside a call.
\<close>

end
